(* ===== verification/Prelude.thy ===== *)
theory Prelude
  imports Main "HOL-Library.Word"
begin

text \<open>
  Shared vocabulary of the development: the machine types of the C code, the
  outcome type that turns \<^verbatim>\<open>panic\<close> and undefined behaviour into values, and
  the generic lemmas on outcomes, lists and words that the components use.
\<close>

unbundle bit_operations_syntax

section \<open>Machine types\<close>

text \<open>\<^verbatim>\<open>uint\<close>, pointers and \<^verbatim>\<open>pte_t\<close> are 32 bits wide, \<^verbatim>\<open>uchar\<close> is a byte (types.h).\<close>

type_synonym u32 = "32 word"
type_synonym u16 = "16 word"
type_synonym byte = "8 word"
type_synonym addr = "32 word"

text \<open>The bytes of a character literal and of a string literal, without the terminating zero.\<close>

definition ch :: "char \<Rightarrow> byte" where
  "ch c = of_char c"

definition str :: "string \<Rightarrow> byte list" where
  "str = map ch"

section \<open>Outcomes of kernel code\<close>

text \<open>
  A call returns a value, stops the machine in \<^verbatim>\<open>panic(msg)\<close>, or runs into behaviour
  the C language leaves undefined (a null or wild pointer, an index out of range).
  The last two are kept apart: a panic is a check the code makes.
\<close>

datatype 'a outcome = Ok 'a | Panic string | Fault string

fun andThen :: "'a outcome \<Rightarrow> ('a \<Rightarrow> 'b outcome) \<Rightarrow> 'b outcome" where
  "andThen (Ok x) f = f x"
| "andThen (Panic m) f = Panic m"
| "andThen (Fault m) f = Fault m"

fun is_ok :: "'a outcome \<Rightarrow> bool" where
  "is_ok (Ok x) = True"
| "is_ok (Panic m) = False"
| "is_ok (Fault m) = False"

named_theorems frame \<open>what an operation leaves unchanged\<close>
named_theorems invs \<open>preservation of the component invariants\<close>

lemma andThen_Ok_conv [simp]:
  "andThen m f = Ok y \<longleftrightarrow> (\<exists>x. m = Ok x \<and> f x = Ok y)"
  by (cases m) auto

lemma andThen_assoc: "andThen (andThen m f) g = andThen m (\<lambda>x. andThen (f x) g)"
  by (cases m) auto

lemma andThen_cong [fundef_cong]:
  "m = m' \<Longrightarrow> (\<And>x. m' = Ok x \<Longrightarrow> f x = f' x) \<Longrightarrow> andThen m f = andThen m' f'"
  by (cases m') auto

lemma is_ok_conv: "is_ok m \<longleftrightarrow> (\<exists>x. m = Ok x)"
  by (cases m) auto

text \<open>A \<^verbatim>\<open>for\<close> loop over the elements of a list.\<close>

fun for_each :: "('t \<Rightarrow> 's \<Rightarrow> 's outcome) \<Rightarrow> 't list \<Rightarrow> 's \<Rightarrow> 's outcome" where
  "for_each f [] s = Ok s"
| "for_each f (t # ts) s = andThen (f t s) (for_each f ts)"

lemma for_each_append: "for_each f (xs @ ys) s = andThen (for_each f xs s) (for_each f ys)"
proof (induction xs arbitrary: s)
  case (Cons x xs)
  then show ?case by (cases "f x s") simp_all
qed simp

lemma for_each_cong [fundef_cong]:
  "xs = ys \<Longrightarrow> s = s' \<Longrightarrow> (\<And>x s. x \<in> set ys \<Longrightarrow> f x s = g x s) \<Longrightarrow> for_each f xs s = for_each g ys s'"
proof (induction ys arbitrary: xs s s')
  case (Cons y ys)
  then show ?case by (cases "g y s'") auto
qed simp

section \<open>Words\<close>

lemma unat_pred_less: "x \<noteq> 0 \<Longrightarrow> unat (x - 1) < unat x" for x :: "'a::len word"
  using unat_minus_one [of x] by (cases "unat x") (auto simp: word_unat_eq_iff)

section \<open>Lists\<close>

lemma nth_removed:
  assumes "i < length xs"
  shows "set xs = insert (xs ! i) (set (take i xs @ drop (Suc i) xs))"
    and "distinct xs \<Longrightarrow> xs ! i \<notin> set (take i xs @ drop (Suc i) xs)"
    and "distinct xs \<Longrightarrow> distinct (take i xs @ drop (Suc i) xs)"
proof -
  have eq: "take i xs @ xs ! i # drop (Suc i) xs = xs" by (rule id_take_nth_drop [OF assms, symmetric])
  show "set xs = insert (xs ! i) (set (take i xs @ drop (Suc i) xs))"
    using arg_cong [OF eq, of set] by simp
  show "distinct xs \<Longrightarrow> xs ! i \<notin> set (take i xs @ drop (Suc i) xs)"
    "distinct xs \<Longrightarrow> distinct (take i xs @ drop (Suc i) xs)"
    using arg_cong [OF eq, of distinct] by auto
qed

text \<open>The index at which a search loop over an array stops.\<close>

fun first_idx :: "('a \<Rightarrow> bool) \<Rightarrow> 'a list \<Rightarrow> nat option" where
  "first_idx P [] = None"
| "first_idx P (x # xs) = (if P x then Some 0 else map_option Suc (first_idx P xs))"

lemma first_idx_None: "first_idx P xs = None \<longleftrightarrow> (\<forall>x\<in>set xs. \<not> P x)"
  by (induction xs) auto

lemma first_idx_SomeD:
  "first_idx P xs = Some i \<Longrightarrow> i < length xs \<and> P (xs ! i) \<and> (\<forall>j<i. \<not> P (xs ! j))"
proof (induction xs arbitrary: i)
  case (Cons x xs)
  show ?case
  proof (cases "P x")
    case False
    with Cons.prems obtain k where k: "first_idx P xs = Some k" "i = Suc k" by auto
    with Cons.IH [OF k(1)] False show ?thesis by (auto simp: nth_Cons split: nat.splits)
  qed (use Cons.prems in auto)
qed simp

lemma first_idx_Some_iff:
  "first_idx P xs = Some i \<longleftrightarrow> i < length xs \<and> P (xs ! i) \<and> (\<forall>j<i. \<not> P (xs ! j))"
proof
  assume r: "i < length xs \<and> P (xs ! i) \<and> (\<forall>j<i. \<not> P (xs ! j))"
  then have "first_idx P xs \<noteq> None" by (auto simp: first_idx_None)
  then obtain k where k: "first_idx P xs = Some k" by blast
  from first_idx_SomeD [OF k] r have "k = i" by (meson linorder_neqE_nat)
  with k show "first_idx P xs = Some i" by simp
qed (rule first_idx_SomeD)

text \<open>Reading an unsigned result as a C \<^verbatim>\<open>int\<close>.\<close>

lemma sint_small: "unat w < 2 ^ 31 \<Longrightarrow> sint w = int (unat w)" for w :: u32
proof -
  assume "unat w < 2 ^ 31"
  then have "nat (uint w) < nat (2 ^ 31)" by simp
  then have "uint w < 2 ^ 31" by (subst (asm) nat_less_eq_zless) simp_all
  moreover have "- (2 ^ 31) \<le> uint w" by (rule order_trans [OF _ uint_ge_0]) simp
  ultimately show ?thesis by (simp add: sint_uint signed_take_bit_int_eq_self)
qed

end
