(* ===== verification/Bio.thy ===== *)
theory Bio
  imports Prelude
begin

text \<open>
  The disk driver's read/write (\<^verbatim>\<open>iderw\<close> of ide.c) and the buffer cache of bio.c.

  The disk is an initial image and the history of block writes, newest first; the content of
  a block is its latest write. A crash keeps the history and loses everything else, which is
  what the log layer is verified against. Buffers are an array, the doubly linked MRU list is
  the list of their indices, most recently used first, and a pointer to a buffer is its index.
  Waiting is not modelled: a thread that would have to sleep for a lock is the outcome
  \<^verbatim>\<open>Fault\<close>. The request queue of the driver is empty between operations, so a request runs at
  once and its completion interrupt follows.
\<close>

section \<open>Disk\<close>

abbreviation (input) BSIZE :: nat where "BSIZE \<equiv> 512"
abbreviation (input) NBUF :: nat where "NBUF \<equiv> 30"
abbreviation (input) FSSIZE :: u32 where "FSSIZE \<equiv> 1000"

type_synonym block = "byte list"
type_synonym disk_write = "(u32 \<times> u32) \<times> block"

definition disk_get :: "(u32 \<Rightarrow> u32 \<Rightarrow> block) \<Rightarrow> disk_write list \<Rightarrow> u32 \<Rightarrow> u32 \<Rightarrow> block" where
  "disk_get img ws d n = (case map_of ws (d, n) of Some b \<Rightarrow> b | None \<Rightarrow> img d n)"

section \<open>Buffers\<close>

record buf =
  b_valid :: bool
  b_dirty :: bool
  b_dev :: u32
  b_blockno :: u32
  b_locked :: bool
  b_refcnt :: u32
  b_data :: block

record bio =
  image :: "u32 \<Rightarrow> u32 \<Rightarrow> block"
  dwrites :: "disk_write list"
  havedisk1 :: bool
  bufs :: "buf list"
  lru :: "nat list"

text \<open>The driver selects the disk by the low bit of the device number.\<close>

definition disk :: "'a bio_scheme \<Rightarrow> u32 \<Rightarrow> u32 \<Rightarrow> block" where
  "disk s dev n = disk_get (image s) (dwrites s) (dev AND 1) n"

definition upd_buf :: "'a bio_scheme \<Rightarrow> nat \<Rightarrow> (buf \<Rightarrow> buf) \<Rightarrow> 'a bio_scheme" where
  "upd_buf s b f = s\<lparr>bufs := (bufs s)[b := f (bufs s ! b)]\<rparr>"

definition zero_buf :: buf where
  "zero_buf = \<lparr>b_valid = False, b_dirty = False, b_dev = 0, b_blockno = 0, b_locked = False,
     b_refcnt = 0, b_data = replicate BSIZE 0\<rparr>"

definition binit :: "'a bio_scheme \<Rightarrow> 'a bio_scheme" where
  "binit s = s\<lparr>bufs := replicate NBUF zero_buf, lru := fold (\<lambda>b l. b # l) [0..<NBUF] []\<rparr>"

text \<open>\<^verbatim>\<open>iderw\<close>, with the effect of \<^verbatim>\<open>idestart\<close> and \<^verbatim>\<open>ideintr\<close> on the buffer and the disk.\<close>

definition iderw :: "'a bio_scheme \<Rightarrow> nat \<Rightarrow> 'a bio_scheme outcome" where
  "iderw s b =
     (let bf = bufs s ! b
      in if \<not> b_locked bf then Panic ''iderw: buf not locked''
         else if b_valid bf \<and> \<not> b_dirty bf then Panic ''iderw: nothing to do''
         else if b_dev bf \<noteq> 0 \<and> \<not> havedisk1 s then Panic ''iderw: ide disk 1 not present''
         else if b_blockno bf \<ge> FSSIZE then Panic ''incorrect blockno''
         else if b_dirty bf then
           Ok (upd_buf s b (\<lambda>bf. bf\<lparr>b_valid := True, b_dirty := False\<rparr>)
             \<lparr>dwrites := ((b_dev bf AND 1, b_blockno bf), b_data bf) # dwrites s\<rparr>)
         else
           Ok (upd_buf s b (\<lambda>bf. bf\<lparr>b_data := disk s (b_dev bf) (b_blockno bf), b_valid := True,
             b_dirty := False\<rparr>)))"

text \<open>\<^verbatim>\<open>acquiresleep\<close>, \<^verbatim>\<open>releasesleep\<close> and \<^verbatim>\<open>holdingsleep\<close> on a buffer's lock.\<close>

definition block_buf :: "'a bio_scheme \<Rightarrow> nat \<Rightarrow> 'a bio_scheme outcome" where
  "block_buf s b =
     (if b_locked (bufs s ! b) then Fault ''acquiresleep: would sleep''
      else Ok (upd_buf s b (\<lambda>bf. bf\<lparr>b_locked := True\<rparr>)))"

definition bget :: "'a bio_scheme \<Rightarrow> u32 \<Rightarrow> u32 \<Rightarrow> (nat \<times> 'a bio_scheme) outcome" where
  "bget s dev n =
     (case find (\<lambda>b. b_dev (bufs s ! b) = dev \<and> b_blockno (bufs s ! b) = n) (lru s) of
        Some b \<Rightarrow>
          andThen (block_buf (upd_buf s b (\<lambda>bf. bf\<lparr>b_refcnt := b_refcnt bf + 1\<rparr>)) b) (\<lambda>s. Ok (b, s))
      | None \<Rightarrow>
          (case find (\<lambda>b. b_refcnt (bufs s ! b) = 0 \<and> \<not> b_dirty (bufs s ! b)) (rev (lru s)) of
             Some b \<Rightarrow>
               andThen (block_buf (upd_buf s b (\<lambda>bf. bf\<lparr>b_dev := dev, b_blockno := n, b_valid := False,
                   b_dirty := False, b_refcnt := 1\<rparr>)) b) (\<lambda>s. Ok (b, s))
           | None \<Rightarrow> Panic ''bget: no buffers''))"

definition bread :: "'a bio_scheme \<Rightarrow> u32 \<Rightarrow> u32 \<Rightarrow> (nat \<times> 'a bio_scheme) outcome" where
  "bread s dev n =
     andThen (bget s dev n)
       (\<lambda>(b, s). if \<not> b_valid (bufs s ! b) then andThen (iderw s b) (\<lambda>s. Ok (b, s)) else Ok (b, s))"

definition bwrite :: "'a bio_scheme \<Rightarrow> nat \<Rightarrow> 'a bio_scheme outcome" where
  "bwrite s b =
     (if \<not> b_locked (bufs s ! b) then Panic ''bwrite''
      else iderw (upd_buf s b (\<lambda>bf. bf\<lparr>b_dirty := True\<rparr>)) b)"

definition brelse :: "'a bio_scheme \<Rightarrow> nat \<Rightarrow> 'a bio_scheme outcome" where
  "brelse s b =
     (if \<not> b_locked (bufs s ! b) then Panic ''brelse''
      else
        let s = upd_buf s b (\<lambda>bf. bf\<lparr>b_locked := False\<rparr>);
            s = upd_buf s b (\<lambda>bf. bf\<lparr>b_refcnt := b_refcnt bf - 1\<rparr>)
        in Ok (if b_refcnt (bufs s ! b) = 0 then s\<lparr>lru := b # remove1 b (lru s)\<rparr> else s))"

definition set_data :: "'a bio_scheme \<Rightarrow> nat \<Rightarrow> block \<Rightarrow> 'a bio_scheme" where
  "set_data s b d = upd_buf s b (\<lambda>bf. bf\<lparr>b_data := d\<rparr>)"

section \<open>The logical disk\<close>

text \<open>What a reader of block \<open>n\<close> of device 1 gets: the cached copy if there is one, else the disk.
  \<open>held\<close> are the blocks whose buffer is locked, \<open>dirtyset\<close> those waiting to be written.\<close>

definition cached :: "'a bio_scheme \<Rightarrow> u32 \<Rightarrow> nat \<Rightarrow> bool" where
  "cached s n i \<longleftrightarrow> i < NBUF \<and> b_dev (bufs s ! i) = 1 \<and> b_blockno (bufs s ! i) = n \<and> b_valid (bufs s ! i)"

definition bcontent :: "'a bio_scheme \<Rightarrow> u32 \<Rightarrow> block" where
  "bcontent s n =
     (case find (cached s n) [0..<NBUF] of Some i \<Rightarrow> b_data (bufs s ! i) | None \<Rightarrow> disk s 1 n)"

definition held :: "'a bio_scheme \<Rightarrow> u32 set" where
  "held s = {b_blockno (bufs s ! i) | i. i < NBUF \<and> b_locked (bufs s ! i)}"

definition dirtyset :: "'a bio_scheme \<Rightarrow> u32 set" where
  "dirtyset s = {b_blockno (bufs s ! i) | i. i < NBUF \<and> b_dirty (bufs s ! i)}"

text \<open>Buffer \<open>b\<close> is the caller's, with block \<open>n\<close> in it.\<close>

definition owns :: "'a bio_scheme \<Rightarrow> nat \<Rightarrow> u32 \<Rightarrow> bool" where
  "owns s b n \<longleftrightarrow> cached s n b \<and> b_locked (bufs s ! b)"

definition wf_buf :: "(u32 \<Rightarrow> block) \<Rightarrow> buf \<Rightarrow> bool" where
  "wf_buf dk bf \<longleftrightarrow>
     (b_dev bf = 1 \<and> b_valid bf \<or> b_dev bf = 0 \<and> \<not> b_valid bf \<and> \<not> b_dirty bf \<and> \<not> b_locked bf) \<and>
     b_refcnt bf = (if b_locked bf then 1 else 0) \<and>
     (b_valid bf \<and> \<not> b_dirty bf \<and> \<not> b_locked bf \<longrightarrow> b_data bf = dk (b_blockno bf)) \<and>
     (b_valid bf \<longrightarrow> length (b_data bf) = BSIZE) \<and> (b_dev bf = 1 \<longrightarrow> b_blockno bf < FSSIZE)"

definition bio_wf :: "'a bio_scheme \<Rightarrow> bool" where
  "bio_wf s \<longleftrightarrow> length (bufs s) = NBUF \<and> distinct (lru s) \<and> set (lru s) = {0..<NBUF} \<and> havedisk1 s \<and>
     (\<forall>n. length (disk s 1 n) = BSIZE) \<and> (\<forall>i<NBUF. wf_buf (disk s 1) (bufs s ! i)) \<and>
     (\<forall>i<NBUF. \<forall>j<NBUF. b_dev (bufs s ! i) = 1 \<and> b_dev (bufs s ! j) = 1 \<and>
        b_blockno (bufs s ! i) = b_blockno (bufs s ! j) \<longrightarrow> i = j)"

text \<open>The notions above depend on the fields of \<open>bio\<close> only.\<close>

lemma bio_view_cong:
  fixes s :: "'a bio_scheme" and s' :: "'b bio_scheme"
  assumes "bufs s' = bufs s" "lru s' = lru s" "image s' = image s" "dwrites s' = dwrites s" "havedisk1 s' = havedisk1 s"
  shows "disk s' = disk s" "cached s' = cached s" "bcontent s' = bcontent s" "held s' = held s"
    "dirtyset s' = dirtyset s" "owns s' = owns s" "bio_wf s' = bio_wf s"
proof -
  show dk: "disk s' = disk s" by (intro ext) (simp add: disk_def assms)
  show c: "cached s' = cached s" by (intro ext) (simp add: cached_def assms)
  show "bcontent s' = bcontent s" by (intro ext) (simp add: bcontent_def assms dk c split: option.split)
  show "held s' = held s" "dirtyset s' = dirtyset s" by (simp_all add: held_def dirtyset_def assms)
  show "owns s' = owns s" by (intro ext) (simp add: owns_def assms c)
  show "bio_wf s' = bio_wf s" using assms dk by (simp add: bio_wf_def)
qed

lemma bio_wfD:
  assumes "bio_wf s"
  shows "length (bufs s) = 30" "distinct (lru s)" "set (lru s) = {0..<30}" "havedisk1 s"
    "\<And>n. length (disk s 1 n) = 512" "\<And>i. i < 30 \<Longrightarrow> wf_buf (disk s 1) (bufs s ! i)"
    "\<And>i j. i < 30 \<Longrightarrow> j < 30 \<Longrightarrow> b_dev (bufs s ! i) = 1 \<Longrightarrow> b_dev (bufs s ! j) = 1 \<Longrightarrow>
        b_blockno (bufs s ! i) = b_blockno (bufs s ! j) \<Longrightarrow> i = j"
  using assms unfolding bio_wf_def by blast+

lemma find_SomeD: "find P xs = Some x \<Longrightarrow> x \<in> set xs \<and> P x"
  by (auto simp: find_Some_iff)

lemma find_upt_unique:
  assumes "P i" "i < n" "\<And>j. j < n \<Longrightarrow> P j \<Longrightarrow> j = i"
  shows "find P [0..<n] = Some i"
proof -
  have "\<exists>j. find P [0..<n] = Some j" using assms(1,2) by (metis atLeastLessThan_iff find_None_iff le0 not_Some_eq set_upt)
  then obtain j where "find P [0..<n] = Some j" by blast
  moreover from this have "j < n" "P j" by (auto simp: find_Some_iff)
  ultimately show ?thesis using assms(3) by blast
qed

lemma bcontent_cached:
  assumes "bio_wf s" "cached s n i"
  shows "bcontent s n = b_data (bufs s ! i)"
proof -
  have "find (cached s n) [0..<30] = Some i"
    by (rule find_upt_unique [where P = "cached s n", OF assms(2)])
      (use assms(2) bio_wfD(7) [OF assms(1)] in \<open>auto simp: cached_def\<close>)
  then show ?thesis by (simp add: bcontent_def)
qed

lemma bcontent_uncached:
  assumes "\<And>i. \<not> cached s n i"
  shows "bcontent s n = disk s 1 n"
proof -
  have "find (cached s n) [0..<30] = None" using assms by (simp add: find_None_iff)
  then show ?thesis by (simp add: bcontent_def)
qed

text \<open>What the other layers see of a state, and that it depends on the buffers and the disk only.\<close>

lemma bcontent_length:
  assumes "bio_wf s"
  shows "length (bcontent s n) = BSIZE"
proof (cases "\<exists>i. cached s n i")
  case True
  then obtain i where i: "cached s n i" by blast
  with bio_wfD(6) [OF assms, of i] have "length (b_data (bufs s ! i)) = 512"
    by (simp add: cached_def wf_buf_def)
  with bcontent_cached [OF assms i] show ?thesis by simp
next
  case False
  with bcontent_uncached bio_wfD(5) [OF assms] show ?thesis by metis
qed

text \<open>Replacing one buffer.\<close>

lemma bio_wf_buf:
  assumes "bio_wf s" "b < 30" "bufs s' = (bufs s)[b := bf]" "distinct (lru s')" "set (lru s') = {0..<30}"
    "havedisk1 s'" "wf_buf (disk s' 1) bf" "\<And>n. length (disk s' 1 n) = 512"
    "\<And>i. i < 30 \<Longrightarrow> i \<noteq> b \<Longrightarrow> wf_buf (disk s' 1) (bufs s ! i)"
    "\<And>i. b_dev bf = 1 \<Longrightarrow> i < 30 \<Longrightarrow> i \<noteq> b \<Longrightarrow> b_dev (bufs s ! i) = 1 \<Longrightarrow> b_blockno (bufs s ! i) \<noteq> b_blockno bf"
  shows "bio_wf s'"
proof -
  note wf = bio_wfD [OF assms(1)]
  have b: "bufs s' ! i = (if i = b then bf else bufs s ! i)" if "i < 30" for i
    using assms(2,3) wf(1) that by (auto simp: nth_list_update)
  have "i = j" if ij: "i < 30" "j < 30" "b_dev (bufs s' ! i) = 1" "b_dev (bufs s' ! j) = 1"
      "b_blockno (bufs s' ! i) = b_blockno (bufs s' ! j)" for i j
    using ij(3-5) b [OF ij(1)] b [OF ij(2)] wf(7) [OF ij(1,2)] assms(10) [OF _ ij(1)] assms(10) [OF _ ij(2)]
    by (cases "i = b"; cases "j = b") auto
  moreover have "wf_buf (disk s' 1) (bufs s' ! i)" if "i < 30" for i
    using b [OF that] assms(7,9) that by simp
  ultimately show ?thesis unfolding bio_wf_def using assms(3-6,8) wf(1) by auto
qed

lemma bufset_upd:
  assumes "length (bufs s) = 30" "b < 30" "bufs s' = (bufs s)[b := bf]" "\<not> P (bufs s ! b)"
  shows "{b_blockno (bufs s' ! i) | i. i < 30 \<and> P (bufs s' ! i)} =
    {b_blockno (bufs s ! i) | i. i < 30 \<and> P (bufs s ! i)} \<union> (if P bf then {b_blockno bf} else {})"
proof -
  have b: "bufs s' ! i = (if i = b then bf else bufs s ! i)" if "i < 30" for i
    using assms(1-3) that by (auto simp: nth_list_update)
  show ?thesis
  proof (intro set_eqI iffI, goal_cases)
    case (1 x)
    then obtain i where "i < 30" "P (bufs s' ! i)" "x = b_blockno (bufs s' ! i)" by blast
    with b show ?case by (cases "i = b") auto
  next
    case (2 x)
    then consider "P bf" "x = b_blockno bf" | i where "i < 30" "P (bufs s ! i)" "x = b_blockno (bufs s ! i)"
      by (auto split: if_splits)
    then show ?case
    proof cases
      case 1
      with b [OF assms(2)] assms(2) show ?thesis by (intro CollectI exI [of _ b]) simp
    next
      case (2 i)
      with assms(4) have "i \<noteq> b" by blast
      with 2 b [of i] show ?thesis by (intro CollectI exI [of _ i]) simp
    qed
  qed
qed

lemma bufset_drop:
  assumes "bio_wf s" "b < 30" "bufs s' = (bufs s)[b := bf]" "\<not> P bf"
    "\<And>i. i < 30 \<Longrightarrow> P (bufs s ! i) \<Longrightarrow> b_dev (bufs s ! i) = 1" "b_dev (bufs s ! b) = 1"
  shows "{b_blockno (bufs s' ! i) | i. i < 30 \<and> P (bufs s' ! i)} =
    {b_blockno (bufs s ! i) | i. i < 30 \<and> P (bufs s ! i)} - {b_blockno (bufs s ! b)}"
proof -
  note wf = bio_wfD [OF assms(1)]
  have b: "bufs s' ! i = (if i = b then bf else bufs s ! i)" if "i < 30" for i
    using assms(2,3) wf(1) that by (auto simp: nth_list_update)
  show ?thesis
  proof (intro set_eqI iffI, goal_cases)
    case (1 x)
    then obtain i where i: "i < 30" "P (bufs s' ! i)" "x = b_blockno (bufs s' ! i)" by blast
    with b assms(4) have ib: "i \<noteq> b" "P (bufs s ! i)" "x = b_blockno (bufs s ! i)" by (auto split: if_splits)
    have "x \<noteq> b_blockno (bufs s ! b)" using wf(7) [OF i(1) assms(2) assms(5) assms(6)] i(1) ib by auto
    with ib i(1) show ?case by blast
  next
    case (2 x)
    then obtain i where i: "i < 30" "P (bufs s ! i)" "x = b_blockno (bufs s ! i)" "x \<noteq> b_blockno (bufs s ! b)" by blast
    then have "i \<noteq> b" by blast
    with i b [of i] show ?case by (intro CollectI exI [of _ i]) simp
  qed
qed

lemma wf_bufD:
  assumes "wf_buf dk bf"
  shows "b_dev bf = 1 \<longleftrightarrow> b_valid bf" "b_dev bf \<noteq> 1 \<Longrightarrow> b_dev bf = 0 \<and> \<not> b_dirty bf \<and> \<not> b_locked bf"
    "b_refcnt bf = (if b_locked bf then 1 else 0)"
    "b_valid bf \<Longrightarrow> \<not> b_dirty bf \<Longrightarrow> \<not> b_locked bf \<Longrightarrow> b_data bf = dk (b_blockno bf)"
    "b_valid bf \<Longrightarrow> length (b_data bf) = 512" "b_dev bf = 1 \<Longrightarrow> b_blockno bf < 1000"
  using assms unfolding wf_buf_def by auto

lemma cached_iff: "bio_wf s \<Longrightarrow> cached s n i \<longleftrightarrow> i < 30 \<and> b_dev (bufs s ! i) = 1 \<and> b_blockno (bufs s ! i) = n"
  unfolding cached_def using wf_bufD(1) [OF bio_wfD(6)] by blast

lemma disk_bufs [simp]: "disk (s\<lparr>bufs := x\<rparr>) = disk s" "disk (s\<lparr>lru := l\<rparr>) = disk s"
  by (simp_all add: disk_def fun_eq_iff)

text \<open>Contents after replacing buffer \<open>b\<close>: block by block.\<close>

lemma bcontent_upd:
  assumes "bio_wf s" "bio_wf s'" "b < 30" "bufs s' = (bufs s)[b := bf]" "disk s' = disk s" "b_dev bf = 1"
    "b_dev (bufs s ! b) = 1 \<Longrightarrow> b_blockno (bufs s ! b) \<noteq> b_blockno bf \<Longrightarrow>
      b_data (bufs s ! b) = disk s 1 (b_blockno (bufs s ! b))"
  shows "bcontent s' k = (if k = b_blockno bf then b_data bf else bcontent s k)"
proof -
  note wf = bio_wfD [OF assms(1)]
  have b: "bufs s' ! i = (if i = b then bf else bufs s ! i)" if "i < 30" for i
    using assms(3,4) wf(1) that by (auto simp: nth_list_update)
  show ?thesis
  proof (cases "k = b_blockno bf")
    case True
    then have "cached s' k b" using b [OF assms(3)] assms(2,3,6) by (simp add: cached_iff)
    with bcontent_cached [OF assms(2)] b [OF assms(3)] True show ?thesis by simp
  next
    case False
    have c: "cached s' k i \<longleftrightarrow> i \<noteq> b \<and> cached s k i" for i
      using b [of i] False by (cases "i = b") (auto simp: cached_iff [OF assms(2)] cached_iff [OF assms(1)])
    show ?thesis
    proof (cases "\<exists>i. cached s' k i")
      case True
      then obtain i where i: "cached s' k i" by blast
      with c have "cached s k i" "i \<noteq> b" by auto
      with bcontent_cached [OF assms(2) i] bcontent_cached [OF assms(1), of k i] b [of i] False show ?thesis
        by (simp add: cached_def)
    next
      case None: False
      then have "bcontent s' k = disk s 1 k" using bcontent_uncached [of s' k] assms(5) by simp
      moreover have "bcontent s k = disk s 1 k"
      proof (cases "cached s k b")
        case True
        with bcontent_cached [OF assms(1) this] assms(7) False show ?thesis by (auto simp: cached_def)
      next
        case False
        with None c bcontent_uncached [of s k] show ?thesis by metis
      qed
      ultimately show ?thesis using False by simp
    qed
  qed
qed

section \<open>Specifications of the operations\<close>

lemma upd_buf_simps [simp]:
  "bufs (upd_buf s b f) = (bufs s)[b := f (bufs s ! b)]" "image (upd_buf s b f) = image s"
  "dwrites (upd_buf s b f) = dwrites s" "havedisk1 (upd_buf s b f) = havedisk1 s" "lru (upd_buf s b f) = lru s"
  "disk (upd_buf s b f) = disk s"
  by (simp_all add: upd_buf_def)

text \<open>The buffer \<^verbatim>\<open>bread\<close> returns, in the two cases of \<^verbatim>\<open>bget\<close>.\<close>

lemma bread_cases:
  assumes "bio_wf s" "bread s 1 n = Ok (b, s')"
  obtains "cached s n b" "\<not> b_locked (bufs s ! b)"
      "s' = s\<lparr>bufs := (bufs s)[b := (bufs s ! b)\<lparr>b_refcnt := 1, b_locked := True\<rparr>]\<rparr>"
  | "b < 30" "\<forall>i. \<not> cached s n i" "\<not> b_locked (bufs s ! b)" "\<not> b_dirty (bufs s ! b)" "n < 1000"
      "s' = s\<lparr>bufs := (bufs s)[b := (bufs s ! b)\<lparr>b_dev := 1, b_blockno := n, b_refcnt := 1,
         b_locked := True, b_data := disk s 1 n, b_valid := True, b_dirty := False\<rparr>]\<rparr>"
proof (cases "find (\<lambda>b. b_dev (bufs s ! b) = 1 \<and> b_blockno (bufs s ! b) = n) (lru s)")
  case (Some i)
  then have i: "i \<in> set (lru s)" "b_dev (bufs s ! i) = 1" "b_blockno (bufs s ! i) = n"
    by (auto simp: find_Some_iff)
  note wf = bio_wfD [OF assms(1)]
  have i30: "i < 30" using i(1) wf(3) by simp
  have c: "cached s n i" using i i30 cached_iff [OF assms(1)] by simp
  have v: "b_valid (bufs s ! i)" using c by (simp add: cached_def)
  have l: "\<not> b_locked (bufs s ! i)" "b = i"
    "s' = upd_buf (upd_buf s i (\<lambda>bf. bf\<lparr>b_refcnt := b_refcnt bf + 1\<rparr>)) i (\<lambda>bf. bf\<lparr>b_locked := True\<rparr>)"
    using assms(2) Some i30 wf(1) v by (auto simp: bread_def bget_def block_buf_def split: if_splits)
  moreover have "b_refcnt (bufs s ! i) = 0" using wf_bufD(3) [OF wf(6) [OF i30]] l(1) by simp
  ultimately show thesis using that(1) c i30 wf(1) by (simp add: upd_buf_def)
next
  case None
  note wf = bio_wfD [OF assms(1)]
  have un: "\<forall>i. \<not> cached s n i" using None wf(3) by (auto simp: find_None_iff cached_def)
  obtain i where i: "find (\<lambda>b. b_refcnt (bufs s ! b) = 0 \<and> \<not> b_dirty (bufs s ! b)) (rev (lru s)) = Some i"
    using assms(2) None by (auto simp: bread_def bget_def split: option.splits)
  then have i': "i \<in> set (lru s)" "b_refcnt (bufs s ! i) = 0" "\<not> b_dirty (bufs s ! i)"
    by (auto simp: find_Some_iff rev_nth)
  have i30: "i < 30" using i'(1) wf(3) by simp
  have l: "\<not> b_locked (bufs s ! i)" using wf_bufD(3) [OF wf(6) [OF i30]] i'(2) by auto
  show thesis
    using assms(2) None i i30 wf(1) wf(4) l i'(3) un
    by (intro that(2)) (auto simp: bread_def bget_def block_buf_def iderw_def Let_def upd_buf_def
        not_le split: if_splits)
qed

lemma take_buf:
  assumes "bio_wf s" "b < 30" "s' = s\<lparr>bufs := (bufs s)[b := bf]\<rparr>" "\<not> b_locked (bufs s ! b)"
    "b_dev bf = 1" "b_valid bf" "b_locked bf" "b_refcnt bf = 1" "b_blockno bf = n" "n < 1000"
    "b_data bf = bcontent s n" "b_dirty bf = b_dirty (bufs s ! b)"
    "b_dirty (bufs s ! b) \<Longrightarrow> b_blockno (bufs s ! b) = n"
    "\<And>i. i < 30 \<Longrightarrow> i \<noteq> b \<Longrightarrow> b_dev (bufs s ! i) = 1 \<Longrightarrow> b_blockno (bufs s ! i) \<noteq> n"
  shows "bio_wf s'" "owns s' b n" "bcontent s' k = bcontent s k" "b_data (bufs s' ! b) = bcontent s n"
    "held s' = insert n (held s)" "dirtyset s' = dirtyset s" "n \<notin> held s" "disk s' = disk s"
    "s' = s\<lparr>bufs := bufs s'\<rparr>"
proof -
  note wf = bio_wfD [OF assms(1)]
  note wb = wf_bufD [OF wf(6) [OF assms(2)]]
  have bs: "bufs s' = (bufs s)[b := bf]" and dk: "disk s' = disk s" using assms(3) by simp_all
  then have b: "bufs s' ! i = (if i = b then bf else bufs s ! i)" if "i < 30" for i
    using assms(2) wf(1) that by (auto simp: nth_list_update)
  have wbf: "wf_buf (disk s' 1) bf"
    unfolding wf_buf_def using assms(5-11) bcontent_length [OF assms(1), of n] by simp
  have wf6: "wf_buf (disk s' 1) (bufs s ! i)" if "i < 30" for i using wf(6) [OF that] dk by simp
  show wf': "bio_wf s'"
    by (rule bio_wf_buf [OF assms(1,2) bs _ _ _ wbf]) (use assms(3,9,14) wf(2-5) wf6 dk in auto)
  show "owns s' b n" using b [OF assms(2)] assms(2,5-7,9) by (simp add: owns_def cached_def)
  show "b_data (bufs s' ! b) = bcontent s n" using b [OF assms(2)] assms(11) by simp
  show "bcontent s' k = bcontent s k"
  proof -
    have "b_data (bufs s ! b) = disk s 1 (b_blockno (bufs s ! b))"
      if "b_dev (bufs s ! b) = 1" "b_blockno (bufs s ! b) \<noteq> b_blockno bf"
      using wb(1,4) that assms(4,9,13) by auto
    from bcontent_upd [OF assms(1) wf' assms(2) bs dk assms(5) this] assms(9,11) show ?thesis by simp
  qed
  show "held s' = insert n (held s)"
    unfolding held_def using bufset_upd [OF wf(1) assms(2) bs, of b_locked] assms(4,7,9) by auto
  show "n \<notin> held s"
  proof
    assume "n \<in> held s"
    then obtain i where i: "i < 30" "b_locked (bufs s ! i)" "b_blockno (bufs s ! i) = n" by (auto simp: held_def)
    then have "b_dev (bufs s ! i) = 1" using wf_bufD(2) [OF wf(6) [OF i(1)]] by blast
    with assms(4,14) i show False by blast
  qed
  show "dirtyset s' = dirtyset s"
  proof (intro set_eqI iffI)
    fix x assume "x \<in> dirtyset s'"
    then obtain i where i: "i < 30" "b_dirty (bufs s' ! i)" "x = b_blockno (bufs s' ! i)" by (auto simp: dirtyset_def)
    with b [of i] assms(9,12,13) have "b_dirty (bufs s ! i) \<and> x = b_blockno (bufs s ! i)" by (cases "i = b") auto
    with i(1) show "x \<in> dirtyset s" unfolding dirtyset_def by blast
  next
    fix x assume "x \<in> dirtyset s"
    then obtain i where i: "i < 30" "b_dirty (bufs s ! i)" "x = b_blockno (bufs s ! i)" by (auto simp: dirtyset_def)
    with b [of i] assms(9,12,13) have "b_dirty (bufs s' ! i) \<and> x = b_blockno (bufs s' ! i)" by (cases "i = b") auto
    with i(1) show "x \<in> dirtyset s'" unfolding dirtyset_def by blast
  qed
  show "disk s' = disk s" by (rule dk)
  show "s' = s\<lparr>bufs := bufs s'\<rparr>" by (simp add: assms(3))
qed

lemma bread_ok:
  assumes "bio_wf s" "bread s 1 n = Ok (b, s')"
  shows "bio_wf s'" "owns s' b n" "bcontent s' k = bcontent s k" "b_data (bufs s' ! b) = bcontent s n"
    "held s' = insert n (held s)" "dirtyset s' = dirtyset s" "n \<notin> held s" "disk s' = disk s"
    "s' = s\<lparr>bufs := bufs s'\<rparr>"
proof -
  note wf = bio_wfD [OF assms(1)]
  have "\<exists>bf. b < 30 \<and> s' = s\<lparr>bufs := (bufs s)[b := bf]\<rparr> \<and> \<not> b_locked (bufs s ! b) \<and>
    b_dev bf = 1 \<and> b_valid bf \<and> b_locked bf \<and> b_refcnt bf = 1 \<and> b_blockno bf = n \<and> n < 1000 \<and>
    b_data bf = bcontent s n \<and> b_dirty bf = b_dirty (bufs s ! b) \<and>
    (b_dirty (bufs s ! b) \<longrightarrow> b_blockno (bufs s ! b) = n) \<and>
    (\<forall>i<30. i \<noteq> b \<longrightarrow> b_dev (bufs s ! i) = 1 \<longrightarrow> b_blockno (bufs s ! i) \<noteq> n)"
    using assms
  proof (cases rule: bread_cases)
    case 1
    let ?bf = "(bufs s ! b)\<lparr>b_refcnt := 1, b_locked := True\<rparr>"
    have b: "b < 30" "b_dev (bufs s ! b) = 1" "b_blockno (bufs s ! b) = n" "b_valid (bufs s ! b)"
      using 1(1) by (auto simp: cached_def)
    have "b_blockno (bufs s ! i) \<noteq> n" if "i < 30" "i \<noteq> b" "b_dev (bufs s ! i) = 1" for i
      using wf(7) [OF that(1) b(1) that(3) b(2)] b(3) that(2) by auto
    with b 1(2,3) bcontent_cached [OF assms(1) 1(1)] wf_bufD(6) [OF wf(6) [OF b(1)] b(2)] show ?thesis
      by (intro exI [of _ ?bf]) simp
  next
    case 2
    then show ?thesis
      using bcontent_uncached [of s n] cached_iff [OF assms(1), of n]
      by (intro exI [of _ "(bufs s ! b)\<lparr>b_dev := 1, b_blockno := n, b_refcnt := 1,
         b_locked := True, b_data := disk s 1 n, b_valid := True, b_dirty := False\<rparr>"]) auto
  qed
  then obtain bf where bf: "b < 30" "s' = s\<lparr>bufs := (bufs s)[b := bf]\<rparr>" "\<not> b_locked (bufs s ! b)"
    "b_dev bf = 1" "b_valid bf" "b_locked bf" "b_refcnt bf = 1" "b_blockno bf = n" "n < 1000"
    "b_data bf = bcontent s n" "b_dirty bf = b_dirty (bufs s ! b)"
    "b_dirty (bufs s ! b) \<Longrightarrow> b_blockno (bufs s ! b) = n"
    "\<And>i. i < 30 \<Longrightarrow> i \<noteq> b \<Longrightarrow> b_dev (bufs s ! i) = 1 \<Longrightarrow> b_blockno (bufs s ! i) \<noteq> n" by blast
  show "bio_wf s'" "owns s' b n" "bcontent s' k = bcontent s k" "b_data (bufs s' ! b) = bcontent s n"
    "held s' = insert n (held s)" "dirtyset s' = dirtyset s" "n \<notin> held s" "disk s' = disk s"
    "s' = s\<lparr>bufs := bufs s'\<rparr>" by (rule take_buf [OF assms(1) bf(1-11)]; use bf(12,13) in blast)+
qed

text \<open>\<^verbatim>\<open>bread\<close> succeeds when the block is not held and is cached or some buffer can be recycled.\<close>

lemma bread_succeeds:
  assumes "bio_wf s" "n < 1000" "n \<notin> held s"
    "n \<in> dirtyset s \<or> (\<exists>i<30. \<not> b_locked (bufs s ! i) \<and> \<not> b_dirty (bufs s ! i))"
  shows "\<exists>b s'. bread s 1 n = Ok (b, s')"
proof (cases "find (\<lambda>b. b_dev (bufs s ! b) = 1 \<and> b_blockno (bufs s ! b) = n) (lru s)")
  case (Some i)
  note wf = bio_wfD [OF assms(1)]
  from Some have i: "i < 30" "b_dev (bufs s ! i) = 1" "b_blockno (bufs s ! i) = n"
    using wf(3) by (auto simp: find_Some_iff dest: nth_mem)
  have "\<not> b_locked (bufs s ! i)" using assms(3) i by (auto simp: held_def)
  moreover have "b_valid (bufs s ! i)" using wf_bufD(1) [OF wf(6) [OF i(1)]] i(2) by simp
  ultimately show ?thesis using Some i(1) wf(1) by (simp add: bread_def bget_def block_buf_def)
next
  case None
  note wf = bio_wfD [OF assms(1)]
  have un: "\<not> (b_dev (bufs s ! i) = 1 \<and> b_blockno (bufs s ! i) = n)" if "i < 30" for i
    using None wf(3) that by (auto simp: find_None_iff)
  have "n \<notin> dirtyset s"
    using un wf_bufD(2) [OF wf(6)] by (auto simp: dirtyset_def)
  with assms(4) obtain j where j: "j < 30" "\<not> b_locked (bufs s ! j)" "\<not> b_dirty (bufs s ! j)" by blast
  moreover have "b_refcnt (bufs s ! j) = 0" using wf_bufD(3) [OF wf(6) [OF j(1)]] j(2) by simp
  ultimately have "find (\<lambda>b. b_refcnt (bufs s ! b) = 0 \<and> \<not> b_dirty (bufs s ! b)) (rev (lru s)) \<noteq> None"
    using wf(3) by (auto simp: find_None_iff)
  then obtain i where i: "find (\<lambda>b. b_refcnt (bufs s ! b) = 0 \<and> \<not> b_dirty (bufs s ! b)) (rev (lru s)) = Some i"
    by blast
  then have i': "i < 30" "b_refcnt (bufs s ! i) = 0"
    using wf(3) by (auto dest!: find_SomeD)
  then have "\<not> b_locked (bufs s ! i)" using wf_bufD(3) [OF wf(6) [OF i'(1)]] by (auto split: if_splits)
  with None i i' wf(1,4) assms(2) show ?thesis
    by (simp add: bread_def bget_def block_buf_def iderw_def Let_def not_le)
qed

lemma owns_facts:
  assumes "bio_wf s" "owns s b n"
  shows "b < 30" "b_dev (bufs s ! b) = 1" "b_blockno (bufs s ! b) = n" "b_valid (bufs s ! b)"
    "b_locked (bufs s ! b)" "b_data (bufs s ! b) = bcontent s n" "n < 1000" "n \<in> held s" "b_refcnt (bufs s ! b) = 1"
    "\<And>i. i < 30 \<Longrightarrow> i \<noteq> b \<Longrightarrow> b_dev (bufs s ! i) = 1 \<Longrightarrow> b_blockno (bufs s ! i) \<noteq> n"
    "b_dirty (bufs s ! b) \<longleftrightarrow> n \<in> dirtyset s"
proof -
  show b: "b < 30" "b_dev (bufs s ! b) = 1" "b_blockno (bufs s ! b) = n" "b_valid (bufs s ! b)"
    "b_locked (bufs s ! b)" using assms(2) by (auto simp: owns_def cached_def)
  show "b_data (bufs s ! b) = bcontent s n" using bcontent_cached [OF assms(1), of n b] assms(2) by (simp add: owns_def)
  show "n < 1000" "b_refcnt (bufs s ! b) = 1" using wf_bufD(3,6) [OF bio_wfD(6) [OF assms(1) b(1)]] b by auto
  show "n \<in> held s" using b by (auto simp: held_def)
  show other: "b_blockno (bufs s ! i) \<noteq> n" if "i < 30" "i \<noteq> b" "b_dev (bufs s ! i) = 1" for i
    using bio_wfD(7) [OF assms(1) that(1) b(1) that(3) b(2)] b(3) that(2) by auto
  show "b_dirty (bufs s ! b) \<longleftrightarrow> n \<in> dirtyset s"
  proof
    assume "n \<in> dirtyset s"
    then obtain i where i: "i < 30" "b_dirty (bufs s ! i)" "b_blockno (bufs s ! i) = n" by (auto simp: dirtyset_def)
    then have "b_dev (bufs s ! i) = 1" using wf_bufD(2) [OF bio_wfD(6) [OF assms(1) i(1)]] by blast
    with i other show "b_dirty (bufs s ! b)" by metis
  qed (use b in \<open>auto simp: dirtyset_def\<close>)
qed

text \<open>A change of the owned buffer that keeps its block: new data, the dirty mark, the lock.\<close>

lemma change_buf:
  assumes "bio_wf s" "owns s b n" "bufs s' = (bufs s)[b := bf]" "havedisk1 s' = havedisk1 s"
    "distinct (lru s')" "set (lru s') = {0..<30}" "b_dev bf = 1" "b_valid bf" "b_blockno bf = n"
    "b_refcnt bf = (if b_locked bf then 1 else 0)" "length (b_data bf) = 512"
    "\<And>k. disk s' 1 k = (if k = n then dk else disk s 1 k)" "length dk = 512"
    "\<not> b_dirty bf \<Longrightarrow> \<not> b_locked bf \<Longrightarrow> b_data bf = dk"
  shows "bio_wf s'" "b_locked bf \<Longrightarrow> owns s' b n"
    "bcontent s' k = (if k = n then b_data bf else bcontent s k)"
    "held s' = (if b_locked bf then held s else held s - {n})"
    "dirtyset s' = (if b_dirty bf then insert n (dirtyset s) else dirtyset s - {n})"
proof -
  note wf = bio_wfD [OF assms(1)] and o = owns_facts [OF assms(1,2)]
  have b: "bufs s' ! i = (if i = b then bf else bufs s ! i)" if "i < 30" for i
    using assms(3) o(1) wf(1) that by (auto simp: nth_list_update)
  have wbf: "wf_buf (disk s' 1) bf"
    unfolding wf_buf_def using assms(7-14) o(7) by auto
  have other: "wf_buf (disk s' 1) (bufs s ! i)" if "i < 30" "i \<noteq> b" for i
    using wf(6) [OF that(1)] o(10) [OF that] unfolding wf_buf_def by (auto simp: assms(12))
  have len: "length (disk s' 1 k) = 512" for k using wf(5) assms(12,13) by simp
  show wf': "bio_wf s'"
    by (rule bio_wf_buf [OF assms(1) o(1) assms(3,5,6) _ wbf len other]) (use assms(4,9) wf(4) o(10) in auto)
  show "b_locked bf \<Longrightarrow> owns s' b n" using b [OF o(1)] o(1) assms(7-9) by (simp add: owns_def cached_def)
  show "bcontent s' k = (if k = n then b_data bf else bcontent s k)"
  proof (cases "k = n")
    case True
    then have "cached s' k b" using b [OF o(1)] o(1) assms(7-9) by (simp add: cached_def)
    with bcontent_cached [OF wf'] b [OF o(1)] True show ?thesis by simp
  next
    case False
    have c: "cached s' k i \<longleftrightarrow> cached s k i" for i
      using b [of i] False assms(9) o(3) by (cases "i = b") (auto simp: cached_def)
    show ?thesis
    proof (cases "\<exists>i. cached s k i")
      case True
      then obtain i where i: "cached s k i" by blast
      then have "i \<noteq> b" "i < 30" using False o(3) by (auto simp: cached_def)
      with bcontent_cached [OF assms(1) i] bcontent_cached [OF wf', of k i] c i b [of i] False show ?thesis by simp
    next
      case none: False
      with c bcontent_uncached [of s k] bcontent_uncached [of s' k] assms(12) False show ?thesis by simp
    qed
  qed
  have dev: "b_dev (bufs s ! i) = 1" if "i < 30" "b_locked (bufs s ! i) \<or> b_dirty (bufs s ! i)" for i
    using wf_bufD(2) [OF wf(6) [OF that(1)]] that(2) by blast
  have same: "{b_blockno (bufs s' ! i) | i. i < 30 \<and> P (bufs s' ! i)} = {b_blockno (bufs s ! i) | i. i < 30 \<and> P (bufs s ! i)}"
    if "P bf" "P (bufs s ! b)" for P
    using that b assms(9) o(3) by (intro Collect_cong) (metis (full_types))
  note drop = bufset_drop [OF assms(1) o(1) assms(3) _ _ o(2)] and add = bufset_upd [OF wf(1) o(1) assms(3)]
  show "held s' = (if b_locked bf then held s else held s - {n})"
    unfolding held_def using same [of b_locked] o(5) drop [of b_locked] dev o(3) by auto
  have n: "b_dirty (bufs s ! b) \<Longrightarrow> n \<in> dirtyset s" using o(1,3) by (auto simp: dirtyset_def)
  show "dirtyset s' = (if b_dirty bf then insert n (dirtyset s) else dirtyset s - {n})"
    using same [of b_dirty] add [of b_dirty] drop [of b_dirty] n dev o(3) assms(9) unfolding dirtyset_def
    by (cases "b_dirty bf"; cases "b_dirty (bufs s ! b)") auto
qed

definition set_dirty :: "'a bio_scheme \<Rightarrow> nat \<Rightarrow> 'a bio_scheme" where
  "set_dirty s b = upd_buf s b (\<lambda>bf. bf\<lparr>b_dirty := True\<rparr>)"

lemma disk_dwrites: "disk (s\<lparr>dwrites := ((1, n), d) # dwrites s\<rparr>) 1 k = (if k = n then d else disk s 1 k)"
  by (simp add: disk_def disk_get_def)

lemma set_data_ok:
  assumes "bio_wf s" "owns s b n" "length d = BSIZE"
  shows "bio_wf (set_data s b d)" "owns (set_data s b d) b n"
    "bcontent (set_data s b d) k = (if k = n then d else bcontent s k)"
    "held (set_data s b d) = held s" "dirtyset (set_data s b d) = dirtyset s" "disk (set_data s b d) = disk s"
proof -
  note o = owns_facts [OF assms(1,2)] and wf = bio_wfD [OF assms(1)]
  let ?bf = "(bufs s ! b)\<lparr>b_data := d\<rparr>"
  note c = change_buf [OF assms(1,2), of "set_data s b d" ?bf "disk s 1 n"]
  show "disk (set_data s b d) = disk s" by (simp add: set_data_def)
  show "bio_wf (set_data s b d)" "owns (set_data s b d) b n"
    "bcontent (set_data s b d) k = (if k = n then d else bcontent s k)"
    "held (set_data s b d) = held s" "dirtyset (set_data s b d) = dirtyset s"
    using c o(1-9,11) assms(3) wf(1-5) by (auto simp: set_data_def)
qed

lemma set_dirty_ok:
  assumes "bio_wf s" "owns s b n"
  shows "bio_wf (set_dirty s b)" "owns (set_dirty s b) b n" "bcontent (set_dirty s b) k = bcontent s k"
    "held (set_dirty s b) = held s" "dirtyset (set_dirty s b) = insert n (dirtyset s)"
    "disk (set_dirty s b) = disk s"
proof -
  note o = owns_facts [OF assms(1,2)] and wf = bio_wfD [OF assms(1)]
  note c = change_buf [OF assms(1,2), of "set_dirty s b" "(bufs s ! b)\<lparr>b_dirty := True\<rparr>" "disk s 1 n"]
  show "disk (set_dirty s b) = disk s" by (simp add: set_dirty_def)
  show "bio_wf (set_dirty s b)" "owns (set_dirty s b) b n" "bcontent (set_dirty s b) k = bcontent s k"
    "held (set_dirty s b) = held s" "dirtyset (set_dirty s b) = insert n (dirtyset s)"
    using c o(1-9) wf(1-5) bcontent_length [OF assms(1), of n] by (auto simp: set_dirty_def)
qed

lemma bwrite_ok:
  assumes "bio_wf s" "owns s b n"
  obtains s' where "bwrite s b = Ok s'" "bio_wf s'" "owns s' b n" "\<And>k. bcontent s' k = bcontent s k"
    "held s' = held s" "dirtyset s' = dirtyset s - {n}" "dwrites s' = ((1, n), bcontent s n) # dwrites s"
    "image s' = image s" "s' = s\<lparr>bufs := bufs s', dwrites := dwrites s'\<rparr>"
proof -
  note o = owns_facts [OF assms(1,2)] and wf = bio_wfD [OF assms(1)]
  let ?bf = "(bufs s ! b)\<lparr>b_valid := True, b_dirty := False\<rparr>"
  define s' where "s' = s\<lparr>bufs := (bufs s)[b := ?bf], dwrites := ((1, n), bcontent s n) # dwrites s\<rparr>"
  have "bwrite s b = Ok s'"
    using o(1-7) wf(1,4) by (simp add: bwrite_def iderw_def Let_def s'_def upd_buf_def not_le)
  moreover have dk: "disk s' 1 k = (if k = n then bcontent s n else disk s 1 k)" for k
    by (simp add: s'_def disk_def disk_get_def)
  note c = change_buf [OF assms(1,2), of s' ?bf "bcontent s n"]
  have "bio_wf s'" "owns s' b n" "bcontent s' k = bcontent s k" "held s' = held s" "dirtyset s' = dirtyset s - {n}" for k
    using c o(1-9) wf(1-5) bcontent_length [OF assms(1), of n] dk by (auto simp: s'_def)
  ultimately show thesis using that [of s'] by (simp add: s'_def)
qed

lemma brelse_ok:
  assumes "bio_wf s" "owns s b n" "n \<in> dirtyset s \<or> bcontent s n = disk s 1 n"
  obtains s' where "brelse s b = Ok s'" "bio_wf s'" "\<And>k. bcontent s' k = bcontent s k"
    "held s' = held s - {n}" "dirtyset s' = dirtyset s" "disk s' = disk s"
    "s' = s\<lparr>bufs := bufs s', lru := lru s'\<rparr>"
proof -
  note o = owns_facts [OF assms(1,2)] and wf = bio_wfD [OF assms(1)]
  let ?bf = "(bufs s ! b)\<lparr>b_locked := False, b_refcnt := 0\<rparr>"
  define s' where "s' = s\<lparr>bufs := (bufs s)[b := ?bf], lru := b # remove1 b (lru s)\<rparr>"
  have "brelse s b = Ok s'"
    using o(1,5,9) wf(1) by (simp add: brelse_def Let_def s'_def upd_buf_def)
  moreover have "b \<in> set (lru s)" using wf(3) o(1) by simp
  then have "distinct (lru s')" "set (lru s') = {0..<30}"
    using wf(2) by (simp_all only: wf(3) [symmetric])
      (simp_all add: s'_def set_remove1_eq insert_absorb)
  note c = change_buf [OF assms(1,2), of s' ?bf "disk s 1 n", OF _ _ this]
  have "bio_wf s'" "bcontent s' k = bcontent s k" "held s' = held s - {n}" "dirtyset s' = dirtyset s" for k
    using c o(1-9,11) wf(1-5) assms(3) bcontent_length [OF assms(1), of n] by (auto simp: s'_def)
  ultimately show thesis using that [of s'] by (simp add: s'_def)
qed

section \<open>The interface the log and the file system use\<close>

text \<open>Reading a sequence of blocks, each buffer released before the next is taken.\<close>

fun read_seq :: "('s \<Rightarrow> u32 \<Rightarrow> (nat \<times> 's) outcome) \<Rightarrow> ('s \<Rightarrow> nat \<Rightarrow> 's outcome) \<Rightarrow>
    ('s \<Rightarrow> nat \<Rightarrow> block) \<Rightarrow> u32 list \<Rightarrow> 's \<Rightarrow> (block list \<times> 's) outcome" where
  "read_seq rd rel dat [] s = Ok ([], s)"
| "read_seq rd rel dat (n # ns) s =
     andThen (rd s n)
       (\<lambda>(b, s1). andThen (rel s1 b)
          (\<lambda>s2. andThen (read_seq rd rel dat ns s2) (\<lambda>(ds, s3). Ok (dat s1 b # ds, s3))))"

locale block_cache =
  fixes rd :: "'s \<Rightarrow> u32 \<Rightarrow> (nat \<times> 's) outcome"
    and rel :: "'s \<Rightarrow> nat \<Rightarrow> 's outcome"
    and dat :: "'s \<Rightarrow> nat \<Rightarrow> block"
    and content :: "'s \<Rightarrow> u32 \<Rightarrow> block"
    and locked :: "'s \<Rightarrow> u32 set"
    and own :: "'s \<Rightarrow> nat \<Rightarrow> u32 \<Rightarrow> bool"
    and clean :: "'s \<Rightarrow> u32 \<Rightarrow> bool"
    and wf :: "'s \<Rightarrow> bool"
    and avail :: "'s \<Rightarrow> bool"
    and lim :: u32
  assumes rd_total: "wf s \<Longrightarrow> avail s \<Longrightarrow> n < lim \<Longrightarrow> n \<notin> locked s \<Longrightarrow> \<exists>b s'. rd s n = Ok (b, s')"
    and rd_ok: "wf s \<Longrightarrow> rd s n = Ok (b, s') \<Longrightarrow> wf s' \<and> own s' b n \<and> dat s' b = content s n \<and>
      content s' = content s \<and> locked s' = insert n (locked s) \<and> clean s' = clean s"
    and rel_ok: "wf s \<Longrightarrow> own s b n \<Longrightarrow> clean s n \<Longrightarrow>
      \<exists>s'. rel s b = Ok s' \<and> wf s' \<and> content s' = content s \<and> locked s' = locked s - {n} \<and> clean s' = clean s"
    and avail_back: "wf s \<Longrightarrow> avail s \<Longrightarrow> rd s n = Ok (b, s1) \<Longrightarrow> rel s1 b = Ok s2 \<Longrightarrow> avail s2"
begin

lemma read_release:
  assumes "wf s" "avail s" "n < lim" "n \<notin> locked s" "clean s n"
  shows "\<exists>b s1 s2. rd s n = Ok (b, s1) \<and> rel s1 b = Ok s2 \<and> dat s1 b = content s n \<and> wf s2 \<and> avail s2 \<and>
    content s2 = content s \<and> locked s2 = locked s \<and> clean s2 = clean s"
proof -
  obtain b s1 where r: "rd s n = Ok (b, s1)" using rd_total [OF assms(1-4)] by blast
  note r' = rd_ok [OF assms(1) r]
  obtain s2 where s2: "rel s1 b = Ok s2" "wf s2" "content s2 = content s1" "locked s2 = locked s1 - {n}" "clean s2 = clean s1"
    using rel_ok [of s1 b n] r' assms(5) by auto
  with r' r avail_back [OF assms(1,2) r s2(1)] assms(4) show ?thesis by auto
qed

lemma read_seq_ok:
  assumes "wf s" "avail s" "\<forall>n\<in>set ns. n < lim \<and> n \<notin> locked s \<and> clean s n"
  shows "\<exists>s'. read_seq rd rel dat ns s = Ok (map (content s) ns, s') \<and> wf s' \<and> avail s' \<and>
    content s' = content s \<and> locked s' = locked s"
  using assms
proof (induction ns arbitrary: s)
  case (Cons n ns)
  obtain b s1 s2 where r: "rd s n = Ok (b, s1)" "rel s1 b = Ok s2" "dat s1 b = content s n" "wf s2" "avail s2"
      "content s2 = content s" "locked s2 = locked s" "clean s2 = clean s"
    using read_release [OF Cons.prems(1,2), of n] Cons.prems(3) by auto
  with Cons.IH [OF r(4,5)] Cons.prems(3) show ?case by auto
qed simp

end

definition recyclable :: "'a bio_scheme \<Rightarrow> bool" where
  "recyclable s \<longleftrightarrow> (\<exists>i<NBUF. \<not> b_locked (bufs s ! i) \<and> \<not> b_dirty (bufs s ! i))"

definition settled :: "'a bio_scheme \<Rightarrow> u32 \<Rightarrow> bool" where
  "settled s n \<longleftrightarrow> n \<in> dirtyset s \<or> bcontent s n = disk s 1 n"

lemma recyclable_back:
  assumes "bio_wf s" "recyclable s" "bread s 1 n = Ok (b, s1)" "brelse s1 b = Ok s2"
  shows "recyclable s2"
proof -
  note wf = bio_wfD [OF assms(1)]
  obtain j where j: "j < 30" "\<not> b_locked (bufs s ! j)" "\<not> b_dirty (bufs s ! j)"
    using assms(2) by (auto simp: recyclable_def)
  have b30: "b < 30" using bread_ok(2) [OF assms(1,3)] by (simp add: owns_def cached_def)
  have same: "bufs s1 ! i = bufs s ! i" if "i \<noteq> b" for i
    using assms(1,3) that by (cases rule: bread_cases) auto
  have l1: "length (bufs s1) = 30" using bio_wfD(1) [OF bread_ok(1) [OF assms(1,3)]] .
  have s2: "bufs s2 ! i = (if i = b then (bufs s1 ! b)\<lparr>b_locked := False, b_refcnt := b_refcnt (bufs s1 ! b) - 1\<rparr> else bufs s1 ! i)" for i
    using assms(4) b30 l1 by (auto simp: brelse_def Let_def upd_buf_def nth_list_update split: if_splits)
  have "b_dirty (bufs s1 ! b) \<Longrightarrow> b_dirty (bufs s ! b)"
    using assms(1,3) b30 wf(1) by (cases rule: bread_cases) auto
  with j s2 [of j] same [of j] show ?thesis
    unfolding recyclable_def by (intro exI [of _ j]) (cases "j = b", auto)
qed

interpretation bc: block_cache "\<lambda>s. bread s 1" brelse "\<lambda>s b. b_data (bufs s ! b)" bcontent held owns settled
  bio_wf recyclable 1000
proof
  fix s s1 s2 :: "'a bio_scheme" and n b s'
  show "bio_wf s \<Longrightarrow> recyclable s \<Longrightarrow> n < 1000 \<Longrightarrow> n \<notin> held s \<Longrightarrow> \<exists>b s'. bread s 1 n = Ok (b, s')"
    by (rule bread_succeeds) (auto simp: recyclable_def)
  show "bio_wf s \<Longrightarrow> bread s 1 n = Ok (b, s') \<Longrightarrow> bio_wf s' \<and> owns s' b n \<and> b_data (bufs s' ! b) = bcontent s n \<and>
      bcontent s' = bcontent s \<and> held s' = insert n (held s) \<and> settled s' = settled s"
    using bread_ok [of s n b s'] by (auto simp: settled_def fun_eq_iff)
  show "bio_wf s \<Longrightarrow> owns s b n \<Longrightarrow> settled s n \<Longrightarrow>
      \<exists>s'. brelse s b = Ok s' \<and> bio_wf s' \<and> bcontent s' = bcontent s \<and> held s' = held s - {n} \<and> settled s' = settled s"
    by (rule brelse_ok [of s b n]) (auto simp: settled_def fun_eq_iff)
  show "bio_wf s \<Longrightarrow> recyclable s \<Longrightarrow> bread s 1 n = Ok (b, s1) \<Longrightarrow> brelse s1 b = Ok s2 \<Longrightarrow> recyclable s2"
    by (rule recyclable_back)
qed

section \<open>Properties\<close>

lemma lru_binit: "lru (binit s) = rev [0..<30]"
  by (simp add: binit_def fold_Cons_rev)

lemma binit_wf:
  assumes "havedisk1 s" "\<And>n. length (disk s 1 n) = BSIZE"
  shows "bio_wf (binit s)" "recyclable (binit s)" "held (binit s) = {}" "dirtyset (binit s) = {}"
    "bcontent (binit s) n = disk s 1 n"
proof -
  have b: "bufs (binit s) = replicate 30 zero_buf" "disk (binit s) = disk s" "havedisk1 (binit s) = havedisk1 s"
    by (simp_all add: binit_def disk_def fun_eq_iff)
  show "bio_wf (binit s)"
    unfolding bio_wf_def lru_binit using assms b by (auto simp: zero_buf_def wf_buf_def)
  show "recyclable (binit s)" unfolding recyclable_def by (rule exI [of _ 0]) (simp add: b zero_buf_def)
  show "held (binit s) = {}" "dirtyset (binit s) = {}" by (auto simp: held_def dirtyset_def b zero_buf_def)
  have "\<not> cached (binit s) n i" for i by (auto simp: cached_def b zero_buf_def)
  then show "bcontent (binit s) n = disk s 1 n" using bcontent_uncached [of "binit s" n] b(2) by simp
qed

text \<open>C30: The buffer cache is transparent. Reading any sequence of blocks that nobody holds, of any
  length, returns the logical contents of the blocks (dirty cached copies included, whatever had to
  be evicted on the way), never fails, leaves every content as it was and no buffer locked.\<close>

theorem buffer_cache_transparent:
  assumes "bio_wf s" "recyclable s" "\<forall>n\<in>set ns. n < FSSIZE \<and> n \<notin> held s \<and> settled s n"
  shows "\<exists>s'. read_seq (\<lambda>s. bread s 1) brelse (\<lambda>s b. b_data (bufs s ! b)) ns s = Ok (map (bcontent s) ns, s') \<and>
    bio_wf s' \<and> recyclable s' \<and> bcontent s' = bcontent s \<and> held s' = held s"
  by (rule bc.read_seq_ok [OF assms])

definition blank_disk :: bio where
  "blank_disk = \<lparr>image = (\<lambda>d n. replicate BSIZE (ucast n)), dwrites = [], havedisk1 = True, bufs = [], lru = []\<rparr>"

lemma blank_disk_wf:
  "havedisk1 blank_disk" "length (disk blank_disk 1 n) = 512" "disk blank_disk 1 n = replicate 512 (ucast n)"
  by (simp_all add: blank_disk_def disk_def disk_get_def)

theorem buffer_cache_transparent_witness:
  "\<exists>s'. read_seq (\<lambda>s. bread s 1) brelse (\<lambda>s b. b_data (bufs s ! b)) (map of_nat [0..<40]) (binit blank_disk) =
     Ok (map (bcontent (binit blank_disk)) (map of_nat [0..<40]), s') \<and> bio_wf s' \<and> recyclable s' \<and>
     bcontent s' = bcontent (binit blank_disk) \<and> held s' = {}"
proof -
  note b = binit_wf [OF blank_disk_wf(1,2)]
  have "of_nat i < (1000 :: u32)" if "i < 40" for i using that by (simp add: word_less_nat_alt unat_of_nat)
  moreover have "settled (binit blank_disk) n" for n
    by (simp add: settled_def b(5)) (simp add: binit_def disk_def)
  ultimately show ?thesis
    using buffer_cache_transparent [OF b(1,2), of "map of_nat [0..<40]"] b(3) by auto
qed

end
