(* ===== verification/Bytes.thy ===== *)
theory Bytes
  imports Prelude
begin

text \<open>
  Byte blocks as lists: copying a range in or out (the \<^verbatim>\<open>memmove\<close> calls of the file system on
  block data) and the little-endian 16- and 32-bit fields of the on-disk structures.
\<close>

section \<open>Ranges\<close>

definition get_bytes :: "nat \<Rightarrow> nat \<Rightarrow> byte list \<Rightarrow> byte list" where
  "get_bytes off n d = take n (drop off d)"

definition put_bytes :: "nat \<Rightarrow> byte list \<Rightarrow> byte list \<Rightarrow> byte list" where
  "put_bytes off bs d = take off d @ bs @ drop (off + length bs) d"

lemma length_get_bytes [simp]: "off + n \<le> length d \<Longrightarrow> length (get_bytes off n d) = n"
  by (simp add: get_bytes_def)

lemma length_put_bytes [simp]: "off + length bs \<le> length d \<Longrightarrow> length (put_bytes off bs d) = length d"
  by (simp add: put_bytes_def)

lemma nth_get_bytes: "off + n \<le> length d \<Longrightarrow> i < n \<Longrightarrow> get_bytes off n d ! i = d ! (off + i)"
  by (simp add: get_bytes_def)

lemma nth_put_bytes:
  "off + length bs \<le> length d \<Longrightarrow> i < length d \<Longrightarrow>
   put_bytes off bs d ! i = (if off \<le> i \<and> i < off + length bs then bs ! (i - off) else d ! i)"
  by (auto simp: put_bytes_def nth_append min_def)

lemma get_put_same [simp]: "off + length bs \<le> length d \<Longrightarrow> n = length bs \<Longrightarrow> get_bytes off n (put_bytes off bs d) = bs"
  by (simp add: get_bytes_def put_bytes_def)

lemma get_put_other:
  assumes "off + length bs \<le> length d" "off' + n \<le> length d" "off' + n \<le> off \<or> off + length bs \<le> off'"
  shows "get_bytes off' n (put_bytes off bs d) = get_bytes off' n d"
  by (rule nth_equalityI) (use assms in \<open>auto simp: nth_get_bytes nth_put_bytes\<close>)

lemma get_put_inside:
  assumes "off + length bs \<le> length d" "k + n \<le> length bs"
  shows "get_bytes (off + k) n (put_bytes off bs d) = get_bytes k n bs"
  by (rule nth_equalityI) (use assms in \<open>auto simp: nth_get_bytes nth_put_bytes\<close>)

lemma get_bytes_append:
  "length a \<le> k \<Longrightarrow> get_bytes k n (a @ b) = get_bytes (k - length a) n b"
  "k + n \<le> length a \<Longrightarrow> get_bytes k n (a @ b) = get_bytes k n a"
  by (simp_all add: get_bytes_def)

lemma put_put_same [simp]:
  "off + length bs \<le> length d \<Longrightarrow> length bs' = length bs \<Longrightarrow> put_bytes off bs' (put_bytes off bs d) = put_bytes off bs' d"
  by (rule nth_equalityI) (auto simp: nth_put_bytes)

lemma put_get_same: "off + n \<le> length d \<Longrightarrow> put_bytes off (get_bytes off n d) d = d"
  by (rule nth_equalityI) (auto simp: nth_put_bytes nth_get_bytes)

section \<open>Fields\<close>

definition bytes32 :: "u32 \<Rightarrow> byte list" where
  "bytes32 w = [ucast w, ucast (drop_bit 8 w), ucast (drop_bit 16 w), ucast (drop_bit 24 w)]"

definition word32 :: "byte list \<Rightarrow> u32" where
  "word32 bs = (ucast (bs ! 0) OR push_bit 8 (ucast (bs ! 1)) OR push_bit 16 (ucast (bs ! 2)) OR push_bit 24 (ucast (bs ! 3)))"

definition bytes16 :: "u16 \<Rightarrow> byte list" where
  "bytes16 w = [ucast w, ucast (drop_bit 8 w)]"

definition word16 :: "byte list \<Rightarrow> u16" where
  "word16 bs = (ucast (bs ! 0) OR push_bit 8 (ucast (bs ! 1)))"

lemma length_bytes [simp]: "length (bytes32 w) = 4" "length (bytes16 v) = 2"
  by (simp_all add: bytes32_def bytes16_def)

lemma word32_bytes32 [simp]: "word32 (bytes32 w) = w"
proof (rule bit_word_eqI)
  fix n assume "n < LENGTH(32)"
  then consider "n < 8" | "8 \<le> n" "n < 16" | "16 \<le> n" "n < 24" | "24 \<le> n" "n < 32" by fastforce
  then show "bit (word32 (bytes32 w)) n = bit w n"
    by cases (auto simp: word32_def bytes32_def bit_simps)
qed

lemma word16_bytes16 [simp]: "word16 (bytes16 w) = w"
proof (rule bit_word_eqI)
  fix n assume "n < LENGTH(16)"
  then consider "n < 8" | "8 \<le> n" "n < 16" by fastforce
  then show "bit (word16 (bytes16 w)) n = bit w n"
    by cases (auto simp: word16_def bytes16_def bit_simps)
qed

lemma length_words [simp]: "length (concat (map bytes32 ws)) = 4 * length ws"
  by (induction ws) (simp_all add: bytes32_def)

lemma get_word: "i < length ws \<Longrightarrow> get_bytes (4 * i) 4 (concat (map bytes32 ws)) = bytes32 (ws ! i)"
proof (induction ws arbitrary: i)
  case (Cons w ws)
  show ?case
  proof (cases i)
    case 0
    then show ?thesis by (simp add: get_bytes_def)
  next
    case (Suc j)
    then have "get_bytes (4 * i) 4 (concat (map bytes32 (w # ws))) = get_bytes (4 * j) 4 (concat (map bytes32 ws))"
      by (simp add: get_bytes_append)
    with Cons Suc show ?thesis by simp
  qed
qed simp

definition get32 :: "nat \<Rightarrow> byte list \<Rightarrow> u32" where
  "get32 off d = word32 (get_bytes off 4 d)"

definition put32 :: "nat \<Rightarrow> u32 \<Rightarrow> byte list \<Rightarrow> byte list" where
  "put32 off w d = put_bytes off (bytes32 w) d"

definition get16 :: "nat \<Rightarrow> byte list \<Rightarrow> u16" where
  "get16 off d = word16 (get_bytes off 2 d)"

definition put16 :: "nat \<Rightarrow> u16 \<Rightarrow> byte list \<Rightarrow> byte list" where
  "put16 off w d = put_bytes off (bytes16 w) d"

lemma length_put [simp]:
  "off + 4 \<le> length d \<Longrightarrow> length (put32 off w d) = length d"
  "off + 2 \<le> length d \<Longrightarrow> length (put16 off v d) = length d"
  by (simp_all add: put32_def put16_def)

lemma get_put_field [simp]:
  "off + 4 \<le> length d \<Longrightarrow> get32 off (put32 off w d) = w"
  "off + 2 \<le> length d \<Longrightarrow> get16 off (put16 off v d) = v"
  by (simp_all add: get32_def put32_def get16_def put16_def)

lemma get_put_field_other:
  "off + 4 \<le> length d \<Longrightarrow> off' + 4 \<le> length d \<Longrightarrow> off' + 4 \<le> off \<or> off + 4 \<le> off' \<Longrightarrow>
    get32 off' (put32 off w d) = get32 off' d"
  "off + 2 \<le> length d \<Longrightarrow> off' + 4 \<le> length d \<Longrightarrow> off' + 4 \<le> off \<or> off + 2 \<le> off' \<Longrightarrow>
    get32 off' (put16 off v d) = get32 off' d"
  "off + 4 \<le> length d \<Longrightarrow> off' + 2 \<le> length d \<Longrightarrow> off' + 2 \<le> off \<or> off + 4 \<le> off' \<Longrightarrow>
    get16 off' (put32 off w d) = get16 off' d"
  "off + 2 \<le> length d \<Longrightarrow> off' + 2 \<le> length d \<Longrightarrow> off' + 2 \<le> off \<or> off + 2 \<le> off' \<Longrightarrow>
    get16 off' (put16 off v d) = get16 off' d"
  by (simp_all add: get32_def put32_def get16_def put16_def get_put_other)

end
