(* ===== verification/Log.thy ===== *)
theory Log
  imports Bio Bytes
begin

text \<open>
  The write-ahead log of log.c on top of the buffer cache, and \<^verbatim>\<open>readsb\<close> of fs.c, which it needs
  at start-up. The header block holds the count and the home block numbers as 32-bit fields.
  Waiting (in \<^verbatim>\<open>begin_op\<close>) is the outcome \<^verbatim>\<open>Fault\<close>, and waking the waiters has no effect here.

  The main result is crash atomicity: whatever prefix of its disk writes a commit gets to
  perform, recovery from the log brings the home blocks to their old or to their new contents,
  all of them alike.
\<close>

abbreviation (input) MAXOPBLOCKS :: int where "MAXOPBLOCKS \<equiv> 10"
abbreviation (input) LOGSIZE :: nat where "LOGSIZE \<equiv> 30"

section \<open>Super block\<close>

record superblock =
  sb_size :: u32
  sb_nblocks :: u32
  sb_ninodes :: u32
  sb_nlog :: u32
  sb_logstart :: u32
  sb_inodestart :: u32
  sb_bmapstart :: u32

definition parse_sb :: "block \<Rightarrow> superblock" where
  "parse_sb d =
     \<lparr>sb_size = get32 0 d, sb_nblocks = get32 4 d, sb_ninodes = get32 8 d, sb_nlog = get32 12 d,
      sb_logstart = get32 16 d, sb_inodestart = get32 20 d, sb_bmapstart = get32 24 d\<rparr>"

definition readsb :: "'a bio_scheme \<Rightarrow> u32 \<Rightarrow> (superblock \<times> 'a bio_scheme) outcome" where
  "readsb s dev =
     andThen (bread s dev 1)
       (\<lambda>(bp, s). let sb = parse_sb (b_data (bufs s ! bp))
                  in andThen (brelse s bp) (\<lambda>s. Ok (sb, s)))"

section \<open>The log\<close>

record logst = bio +
  log_start :: u32
  log_size :: int
  outstanding :: int
  committing :: bool
  log_dev :: u32
  lh_n :: int
  lh_block :: "u32 list"

definition install_one :: "nat \<Rightarrow> 'a logst_scheme \<Rightarrow> 'a logst_scheme outcome" where
  "install_one tail s =
     andThen (bread s (log_dev s) (log_start s + of_nat tail + 1))
       (\<lambda>(lbuf, s). andThen (bread s (log_dev s) (lh_block s ! tail))
          (\<lambda>(dbuf, s). andThen (bwrite (set_data s dbuf (b_data (bufs s ! lbuf))) dbuf)
             (\<lambda>s. andThen (brelse s lbuf) (\<lambda>s. brelse s dbuf))))"

definition install_trans :: "'a logst_scheme \<Rightarrow> 'a logst_scheme outcome" where
  "install_trans s = for_each install_one [0..<nat (lh_n s)] s"

text \<open>\<^verbatim>\<open>read_head\<close> trusts the count on the disk; beyond LOGSIZE it writes outside the array.\<close>

definition read_head :: "'a logst_scheme \<Rightarrow> 'a logst_scheme outcome" where
  "read_head s =
     andThen (bread s (log_dev s) (log_start s))
       (\<lambda>(b, s).
          let d = b_data (bufs s ! b);
              n = sint (get32 0 d)
          in if n > int LOGSIZE then Fault ''read_head: write outside log.lh.block''
             else
               let s = s\<lparr>lh_n := n,
                     lh_block := map (\<lambda>i. get32 (4 + 4 * i) d) [0..<nat n] @ drop (nat n) (lh_block s)\<rparr>
               in brelse s b)"

definition put_head :: "int \<Rightarrow> u32 list \<Rightarrow> block \<Rightarrow> block" where
  "put_head n bs d = fold (\<lambda>i. put32 (4 + 4 * i) (bs ! i)) [0..<nat n] (put32 0 (of_int n) d)"

definition write_head :: "'a logst_scheme \<Rightarrow> 'a logst_scheme outcome" where
  "write_head s =
     andThen (bread s (log_dev s) (log_start s))
       (\<lambda>(b, s). andThen (bwrite (set_data s b (put_head (lh_n s) (lh_block s) (b_data (bufs s ! b)))) b)
          (\<lambda>s. brelse s b))"

definition recover_from_log :: "'a logst_scheme \<Rightarrow> 'a logst_scheme outcome" where
  "recover_from_log s =
     andThen (read_head s) (\<lambda>s. andThen (install_trans s) (\<lambda>s. write_head (s\<lparr>lh_n := 0\<rparr>)))"

definition initlog :: "'a logst_scheme \<Rightarrow> u32 \<Rightarrow> 'a logst_scheme outcome" where
  "initlog s dev =
     andThen (readsb s dev)
       (\<lambda>(sb, s). recover_from_log
          (s\<lparr>log_start := sb_logstart sb, log_size := sint (sb_nlog sb), log_dev := dev\<rparr>))"

definition begin_op :: "'a logst_scheme \<Rightarrow> 'a logst_scheme outcome" where
  "begin_op s =
     (if committing s then Fault ''begin_op: would sleep''
      else if lh_n s + (outstanding s + 1) * MAXOPBLOCKS > int LOGSIZE then Fault ''begin_op: would sleep''
      else Ok (s\<lparr>outstanding := outstanding s + 1\<rparr>))"

definition write_log_one :: "nat \<Rightarrow> 'a logst_scheme \<Rightarrow> 'a logst_scheme outcome" where
  "write_log_one tail s =
     andThen (bread s (log_dev s) (log_start s + of_nat tail + 1))
       (\<lambda>(to, s). andThen (bread s (log_dev s) (lh_block s ! tail))
          (\<lambda>(from, s). andThen (bwrite (set_data s to (b_data (bufs s ! from))) to)
             (\<lambda>s. andThen (brelse s from) (\<lambda>s. brelse s to))))"

definition write_log :: "'a logst_scheme \<Rightarrow> 'a logst_scheme outcome" where
  "write_log s = for_each write_log_one [0..<nat (lh_n s)] s"

definition commit :: "'a logst_scheme \<Rightarrow> 'a logst_scheme outcome" where
  "commit s =
     (if lh_n s > 0 then
        andThen (write_log s)
          (\<lambda>s. andThen (write_head s)
             (\<lambda>s. andThen (install_trans s) (\<lambda>s. write_head (s\<lparr>lh_n := 0\<rparr>))))
      else Ok s)"

definition end_op :: "'a logst_scheme \<Rightarrow> 'a logst_scheme outcome" where
  "end_op s =
     (let s = s\<lparr>outstanding := outstanding s - 1\<rparr>
      in if committing s then Panic ''log.committing''
         else if outstanding s = 0 then
           andThen (commit (s\<lparr>committing := True\<rparr>)) (\<lambda>s. Ok (s\<lparr>committing := False\<rparr>))
         else Ok s)"

definition log_write :: "'a logst_scheme \<Rightarrow> nat \<Rightarrow> 'a logst_scheme outcome" where
  "log_write s b =
     (if lh_n s \<ge> int LOGSIZE \<or> lh_n s \<ge> log_size s - 1 then Panic ''too big a transaction''
      else if outstanding s < 1 then Panic ''log_write outside of trans''
      else
        let n = b_blockno (bufs s ! b);
            i = (case first_idx (\<lambda>x. x = n) (take (nat (lh_n s)) (lh_block s)) of Some i \<Rightarrow> i | None \<Rightarrow> nat (lh_n s));
            s = s\<lparr>lh_block := (lh_block s)[i := n]\<rparr>;
            s = (if int i = lh_n s then s\<lparr>lh_n := lh_n s + 1\<rparr> else s)
        in Ok (set_dirty s b))"

section \<open>Copying blocks through the cache\<close>

definition same_rest :: "'a bio_scheme \<Rightarrow> 'a bio_scheme \<Rightarrow> bool" where
  "same_rest s s' \<longleftrightarrow> image s' = image s \<and> havedisk1 s' = havedisk1 s \<and> bio.more s' = bio.more s"

lemma same_rest_refl [simp]: "same_rest s s"
  by (simp add: same_rest_def)

lemma same_rest_trans: "same_rest s s' \<Longrightarrow> same_rest s' s'' \<Longrightarrow> same_rest s s''"
  by (simp add: same_rest_def)

lemma same_rest_updates:
  "s' = s\<lparr>bufs := x\<rparr> \<Longrightarrow> same_rest s s'" "s' = s\<lparr>bufs := x, dwrites := w\<rparr> \<Longrightarrow> same_rest s s'"
  "s' = s\<lparr>bufs := x, lru := l\<rparr> \<Longrightarrow> same_rest s s'" "same_rest s (set_data s b d)"
  by (simp_all add: same_rest_def set_data_def upd_buf_def)

lemma same_rest_log:
  assumes "same_rest s (s' :: 'a logst_scheme)"
  shows "log_start s' = log_start s" "log_size s' = log_size s" "outstanding s' = outstanding s"
    "committing s' = committing s" "log_dev s' = log_dev s" "lh_n s' = lh_n s" "lh_block s' = lh_block s"
    "logst.more s' = logst.more s"
  using assms by (cases s, cases s', simp add: same_rest_def)+

lemma same_rest_lh_n: "same_rest s s' \<Longrightarrow> same_rest (s\<lparr>lh_n := x\<rparr>) (s'\<lparr>lh_n := x\<rparr>)" for s :: "'a logst_scheme"
  by (cases s, cases s') (simp add: same_rest_def)

lemma settled_unheld:
  assumes "bio_wf s" "k \<notin> held s"
  shows "settled s k"
proof (cases "\<exists>i. cached s k i")
  case True
  then obtain i where i: "cached s k i" by blast
  then have i': "i < 30" "b_blockno (bufs s ! i) = k" "b_valid (bufs s ! i)" by (auto simp: cached_def)
  then have "\<not> b_locked (bufs s ! i)" using assms(2) by (auto simp: held_def)
  with i' wf_bufD(4) [OF bio_wfD(6) [OF assms(1) i'(1)]] bcontent_cached [OF assms(1) i]
  show ?thesis by (cases "b_dirty (bufs s ! i)") (auto simp: settled_def dirtyset_def)
next
  case False
  with bcontent_uncached [of s k] show ?thesis by (simp add: settled_def)
qed

lemma recyclable_card:
  assumes "bio_wf s" "card (held s \<union> dirtyset s) < 30"
  shows "recyclable s"
proof (rule ccontr)
  assume "\<not> recyclable s"
  then have all: "b_locked (bufs s ! i) \<or> b_dirty (bufs s ! i)" if "i < 30" for i
    using that by (auto simp: recyclable_def)
  note wf = bio_wfD [OF assms(1)]
  have dev: "b_dev (bufs s ! i) = 1" if "i < 30" for i using wf_bufD(2) [OF wf(6) [OF that]] all [OF that] by blast
  have "inj_on (\<lambda>i. b_blockno (bufs s ! i)) {..<30}" using wf(7) dev by (auto simp: inj_on_def)
  then have "card ((\<lambda>i. b_blockno (bufs s ! i)) ` {..<30}) = 30" by (simp add: card_image)
  moreover have "(\<lambda>i. b_blockno (bufs s ! i)) ` {..<30} \<subseteq> held s \<union> dirtyset s"
    using all by (auto simp: held_def dirtyset_def)
  moreover have "finite (held s \<union> dirtyset s)" by (simp add: held_def dirtyset_def)
  ultimately show False using assms(2) card_mono by (metis not_less)
qed

lemma bread_total:
  assumes "bio_wf s" "n < 1000" "n \<notin> held s" "n \<in> dirtyset s \<or> card (held s \<union> dirtyset s) < 30"
  obtains b s' where "bread s 1 n = Ok (b, s')"
  using bread_succeeds [OF assms(1-3)] recyclable_card [OF assms(1)] assms(4) that by (auto simp: recyclable_def)

text \<open>What copying block \<open>src\<close> to block \<open>dst\<close> and writing it to the disk does.\<close>

definition block_copied :: "'a bio_scheme \<Rightarrow> u32 \<Rightarrow> u32 \<Rightarrow> 'a bio_scheme \<Rightarrow> bool" where
  "block_copied s src dst s' \<longleftrightarrow> bio_wf s' \<and> held s' = held s \<and> dirtyset s' = dirtyset s - {dst} \<and>
     (\<forall>k. bcontent s' k = (if k = dst then bcontent s src else bcontent s k)) \<and>
     dwrites s' = ((1, dst), bcontent s src) # dwrites s \<and> same_rest s s'"

text \<open>Operations on one buffer leave the others to their owners.\<close>

lemma owns_cong: "owns s b n \<Longrightarrow> bufs s' ! b = bufs s ! b \<Longrightarrow> owns s' b n"
  by (simp add: owns_def cached_def)

lemma owns_neq: "owns s b n \<Longrightarrow> owns s b' n' \<Longrightarrow> n \<noteq> n' \<Longrightarrow> b \<noteq> b'"
  by (auto simp: owns_def cached_def)

lemma owns_bread_other:
  assumes "bio_wf s" "owns s b n" "bread s 1 m = Ok (b', s')"
  shows "owns s' b n"
proof -
  have "b_locked (bufs s ! b)" using assms(2) by (simp add: owns_def)
  with assms(1,3) have "bufs s' ! b = bufs s ! b"
    by (cases rule: bread_cases) (auto intro!: nth_list_update_neq)
  with owns_cong [OF assms(2)] show ?thesis by blast
qed

lemma buf_ops_other:
  assumes "b \<noteq> b'"
  shows "bufs (set_data s b' d) ! b = bufs s ! b" "bufs (set_dirty s b') ! b = bufs s ! b"
    "bwrite s b' = Ok s' \<Longrightarrow> bufs s' ! b = bufs s ! b"
    "brelse s b' = Ok s' \<Longrightarrow> bufs s' ! b = bufs s ! b"
  using assms by (auto simp: set_data_def set_dirty_def bwrite_def iderw_def brelse_def Let_def upd_buf_def
      split: if_splits)

lemma owns_set_data_other: "owns s b n \<Longrightarrow> b \<noteq> b' \<Longrightarrow> owns (set_data s b' d) b n"
  and owns_bwrite_other: "owns s b n \<Longrightarrow> b \<noteq> b' \<Longrightarrow> bwrite s b' = Ok s' \<Longrightarrow> owns s' b n"
  and owns_brelse_other: "owns s b n \<Longrightarrow> b \<noteq> b' \<Longrightarrow> brelse s b' = Ok s' \<Longrightarrow> owns s' b n"
  using owns_cong buf_ops_other by metis+

lemma two_breads:
  assumes "bio_wf s" "held s = {}" "m < 1000" "n < 1000" "m \<noteq> n" "card (dirtyset s) < 30"
    "n \<in> dirtyset s \<or> Suc (card (dirtyset s)) < 30"
  obtains b1 b2 s1 s2 where "bread s 1 m = Ok (b1, s1)" "bread s1 1 n = Ok (b2, s2)" "bio_wf s2" "owns s2 b1 m" "owns s2 b2 n"
    "\<And>k. bcontent s2 k = bcontent s k" "held s2 = {m, n}" "dirtyset s2 = dirtyset s" "disk s2 = disk s" "dwrites s2 = dwrites s"
    "same_rest s s2" "same_rest s s1"
proof -
  obtain b1 s1 where r1: "bread s 1 m = Ok (b1, s1)" using bread_total [OF assms(1,3)] assms(2,6) by auto
  note o1 = bread_ok [OF assms(1) r1]
  have "finite (dirtyset s)" by (simp add: dirtyset_def)
  then have "n \<in> dirtyset s1 \<or> card (held s1 \<union> dirtyset s1) < 30"
    using assms(2,7) o1(5,6) by (auto simp: card_insert_if)
  then obtain b2 s2 where r2: "bread s1 1 n = Ok (b2, s2)"
    using bread_total [OF o1(1) assms(4)] o1(5) assms(2,5) by auto
  note o2 = bread_ok [OF o1(1) r2]
  show thesis
  proof (rule that [OF r1 r2 o2(1) owns_bread_other [OF o1(1,2) r2] o2(2)])
    show "same_rest s s1" using o1(9) same_rest_updates(1) by blast
    then show "same_rest s s2" using o2(9) same_rest_updates(1) same_rest_trans by blast
    show "dwrites s2 = dwrites s" by (subst o2(9), subst o1(9)) simp
  qed (use o1 o2 assms(2) in auto)
qed

lemma copied_release:
  assumes "bio_wf s2" "owns s2 b1 src" "owns s2 b2 dst" "src \<noteq> dst" "\<And>k. bcontent s2 k = bcontent s k"
    "held s2 = {src, dst}" "held s = {}" "dirtyset s2 = dirtyset s" "disk s2 = disk s" "dwrites s2 = dwrites s"
    "same_rest s s2" "bio_wf s"
  obtains s3 s4 s5 where "bwrite (set_data s2 b2 (b_data (bufs s2 ! b1))) b2 = Ok s3" "brelse s3 b1 = Ok s4"
    "brelse s4 b2 = Ok s5" "block_copied s src dst s5"
proof -
  have ne: "b1 \<noteq> b2" by (rule owns_neq [OF assms(2,3,4)])
  have d: "b_data (bufs s2 ! b1) = bcontent s src" using owns_facts(6) [OF assms(1,2)] assms(5) by simp
  define s2' where "s2' = set_data s2 b2 (b_data (bufs s2 ! b1))"
  have len: "length (b_data (bufs s2 ! b1)) = 512" using d bcontent_length [OF assms(12)] by simp
  note sd = set_data_ok [OF assms(1,3) len, folded s2'_def]
  obtain s3 where s3: "bwrite s2' b2 = Ok s3" "bio_wf s3" "owns s3 b2 dst" "\<And>k. bcontent s3 k = bcontent s2' k"
      "held s3 = held s2'" "dirtyset s3 = dirtyset s2' - {dst}" "dwrites s3 = ((1, dst), bcontent s2' dst) # dwrites s2'"
      "image s3 = image s2'" "s3 = s2'\<lparr>bufs := bufs s3, dwrites := dwrites s3\<rparr>"
    by (rule bwrite_ok [OF sd(1,2)]) blast
  have o13: "owns s3 b1 src"
    by (rule owns_bwrite_other [OF owns_set_data_other [OF assms(2) ne] ne]) (use s3(1) in \<open>simp add: s2'_def\<close>)
  have dw: "dwrites s3 = ((1, dst), bcontent s src) # dwrites s"
    using s3(7) sd(3) [of dst] d assms(10) by (simp add: s2'_def set_data_def)
  have img: "image s3 = image s" using s3(8) assms(11) by (simp add: s2'_def set_data_def same_rest_def)
  have dk: "disk s3 1 k = (if k = dst then bcontent s src else disk s 1 k)" for k
    using dw img by (simp add: disk_def disk_get_def)
  have c3: "bcontent s3 k = (if k = dst then bcontent s src else bcontent s k)" for k
    using s3(4) sd(3) assms(5) d by simp
  have "settled s src" using settled_unheld [OF assms(12)] assms(7) by simp
  then have "src \<in> dirtyset s3 \<or> bcontent s3 src = disk s3 1 src"
    using c3 [of src] dk [of src] s3(6) sd(5) assms(4,8) by (auto simp: settled_def)
  then obtain s4 where s4: "brelse s3 b1 = Ok s4" "bio_wf s4" "\<And>k. bcontent s4 k = bcontent s3 k"
      "held s4 = held s3 - {src}" "dirtyset s4 = dirtyset s3" "disk s4 = disk s3" "s4 = s3\<lparr>bufs := bufs s4, lru := lru s4\<rparr>"
    using brelse_ok [OF s3(2) o13] by blast
  have o24: "owns s4 b2 dst" using owns_brelse_other [OF s3(3) ne [symmetric] s4(1)] .
  have "dst \<in> dirtyset s4 \<or> bcontent s4 dst = disk s4 1 dst" using s4(3,6) c3 [of dst] dk [of dst] by simp
  then obtain s5 where s5: "brelse s4 b2 = Ok s5" "bio_wf s5" "\<And>k. bcontent s5 k = bcontent s4 k"
      "held s5 = held s4 - {dst}" "dirtyset s5 = dirtyset s4" "disk s5 = disk s4" "s5 = s4\<lparr>bufs := bufs s5, lru := lru s5\<rparr>"
    using brelse_ok [OF s4(2) o24] by blast
  have "same_rest s s5"
    using assms(11) same_rest_updates(4) [of s2 b2 "b_data (bufs s2 ! b1)"] same_rest_updates(2) [OF s3(9)]
      same_rest_updates(3) [OF s4(7)] same_rest_updates(3) [OF s5(7)]
    by (simp add: same_rest_def s2'_def)
  moreover have "dwrites s5 = ((1, dst), bcontent s src) # dwrites s" by (subst s5(7), subst s4(7)) (simp add: dw)
  ultimately have "block_copied s src dst s5"
    unfolding block_copied_def using s5(2-5) s4(3-5) c3 s3(5,6) sd(4,5) assms(6,7,8) by auto
  with s3(1) s4(1) s5(1) show thesis unfolding s2'_def by (rule that)
qed

text \<open>A loop of such copies.\<close>

definition blocks_copied :: "'a bio_scheme \<Rightarrow> (nat \<Rightarrow> u32) \<Rightarrow> (nat \<Rightarrow> u32) \<Rightarrow> nat list \<Rightarrow> 'a bio_scheme \<Rightarrow> bool" where
  "blocks_copied s src dst ts s' \<longleftrightarrow> bio_wf s' \<and> held s' = held s \<and> dirtyset s' = dirtyset s - dst ` set ts \<and>
     (\<forall>t\<in>set ts. bcontent s' (dst t) = bcontent s (src t)) \<and>
     (\<forall>k. k \<notin> dst ` set ts \<longrightarrow> bcontent s' k = bcontent s k) \<and>
     dwrites s' = rev (map (\<lambda>t. ((1, dst t), bcontent s (src t))) ts) @ dwrites s \<and> same_rest s s'"

lemma copy_loop:
  assumes step: "\<And>s t ts. I s (t # ts) \<Longrightarrow> \<exists>s'. f t s = Ok s' \<and> block_copied s (src t) (dst t) s' \<and> I s' ts"
  shows "I s ts \<Longrightarrow> bio_wf s \<Longrightarrow> distinct (map dst ts) \<Longrightarrow> src ` set ts \<inter> dst ` set ts = {} \<Longrightarrow>
    \<exists>s'. for_each f ts s = Ok s' \<and> blocks_copied s src dst ts s' \<and> I s' []"
proof (induction ts arbitrary: s)
  case (Cons t ts)
  obtain s1 where s1: "f t s = Ok s1" "block_copied s (src t) (dst t) s1" "I s1 ts"
    using step [OF Cons.prems(1)] by blast
  have d: "bio_wf s1" "held s1 = held s" "dirtyset s1 = dirtyset s - {dst t}"
    "\<And>k. bcontent s1 k = (if k = dst t then bcontent s (src t) else bcontent s k)"
    "dwrites s1 = ((1, dst t), bcontent s (src t)) # dwrites s" "same_rest s s1"
    using s1(2) by (auto simp: block_copied_def)
  obtain s' where s': "for_each f ts s1 = Ok s'" "blocks_copied s1 src dst ts s'" "I s' []"
    using Cons.IH [OF s1(3) d(1)] Cons.prems(3,4) by auto
  have src: "bcontent s1 (src u) = bcontent s (src u)" if "u \<in> set ts" for u
  proof -
    have "src u \<noteq> dst t" using Cons.prems(4) that by (metis IntI empty_iff image_eqI list.set_intros)
    then show ?thesis using d(4) by simp
  qed
  have fresh: "dst t \<notin> dst ` set ts" using Cons.prems(3) by auto
  have "blocks_copied s src dst (t # ts) s'"
    unfolding blocks_copied_def
  proof (intro conjI)
    show "bio_wf s'" "held s' = held s" "dirtyset s' = dirtyset s - dst ` set (t # ts)"
      using s'(2) d(2,3) by (auto simp: blocks_copied_def)
    show "\<forall>u\<in>set (t # ts). bcontent s' (dst u) = bcontent s (src u)"
      using s'(2) d(4) [of "dst t"] src fresh by (auto simp: blocks_copied_def)
    show "\<forall>k. k \<notin> dst ` set (t # ts) \<longrightarrow> bcontent s' k = bcontent s k"
      using s'(2) d(4) by (auto simp: blocks_copied_def)
    have "map (\<lambda>t. ((1, dst t), bcontent s1 (src t))) ts = map (\<lambda>t. ((1 :: u32, dst t), bcontent s (src t))) ts"
      using src by simp
    then show "dwrites s' = rev (map (\<lambda>t. ((1, dst t), bcontent s (src t))) (t # ts)) @ dwrites s"
      using s'(2) d(5) by (simp add: blocks_copied_def)
    show "same_rest s s'" using s'(2) d(6) same_rest_trans by (auto simp: blocks_copied_def)
  qed
  with s1(1) s' show ?case by auto
qed (simp add: blocks_copied_def)

section \<open>The layout of the log\<close>

definition log_blk :: "'a logst_scheme \<Rightarrow> nat \<Rightarrow> u32" where
  "log_blk s i = log_start s + of_nat i + 1"

definition log_region :: "'a logst_scheme \<Rightarrow> u32 set" where
  "log_region s = insert (log_start s) (log_blk s ` {..<29})"

text \<open>The header names at most 29 distinct home blocks outside the log, which has the 30 blocks mkfs
  gives it.\<close>

definition log_ok :: "'a logst_scheme \<Rightarrow> bool" where
  "log_ok s \<longleftrightarrow> log_dev s = 1 \<and> length (lh_block s) = LOGSIZE \<and> 0 \<le> lh_n s \<and> lh_n s \<le> 29 \<and>
     unat (log_start s) + 30 \<le> 1000 \<and> distinct (take (nat (lh_n s)) (lh_block s)) \<and>
     (\<forall>b\<in>set (take (nat (lh_n s)) (lh_block s)). b < FSSIZE \<and> b \<notin> log_region s)"

lemma log_blk_facts:
  assumes "log_ok s" "i < 29"
  shows "log_blk s i < 1000" "log_blk s i \<noteq> log_start s" "log_blk s i \<in> log_region s"
    "j < 29 \<Longrightarrow> log_blk s i = log_blk s j \<Longrightarrow> i = j" "log_start s < 1000"
proof -
  have un: "unat (log_blk s i) = unat (log_start s) + i + 1" if "i < 29" for i
    using assms(1) that by (simp add: log_blk_def log_ok_def unat_word_ariths unat_of_nat)
  then show "log_blk s i < 1000" "log_blk s i \<noteq> log_start s" "log_start s < 1000"
    using assms by (auto simp: word_less_nat_alt log_ok_def word_unat_eq_iff)
  show "log_blk s i \<in> log_region s" using assms(2) by (simp add: log_region_def)
  show "j < 29 \<Longrightarrow> log_blk s i = log_blk s j \<Longrightarrow> i = j"
    using un [OF assms(2)] un [of j] by (simp add: word_unat_eq_iff)
qed

lemma home_facts:
  assumes "log_ok s" "i < nat (lh_n s)"
  shows "lh_block s ! i < 1000" "lh_block s ! i \<notin> log_region s" "i < 29" "i < length (lh_block s)"
    "j < nat (lh_n s) \<Longrightarrow> lh_block s ! i = lh_block s ! j \<Longrightarrow> i = j"
proof -
  have l: "nat (lh_n s) \<le> length (lh_block s)" "i < length (lh_block s)" "i < 29" using assms by (auto simp: log_ok_def)
  have "lh_block s ! i \<in> set (take (nat (lh_n s)) (lh_block s))"
    using assms(2) l by (auto simp: in_set_conv_nth intro!: exI [of _ i])
  with assms(1) show "lh_block s ! i < 1000" "lh_block s ! i \<notin> log_region s" by (auto simp: log_ok_def)
  show "i < 29" "i < length (lh_block s)" by (rule l)+
  show "j < nat (lh_n s) \<Longrightarrow> lh_block s ! i = lh_block s ! j \<Longrightarrow> i = j"
    using assms l nth_eq_iff_index_eq [of "take (nat (lh_n s)) (lh_block s)" i j] by (simp add: log_ok_def)
qed

lemma log_region_rest: "same_rest s s' \<Longrightarrow> log_region s' = log_region s" for s :: "'a logst_scheme"
  using same_rest_log(1) [of s s'] by (simp add: log_region_def log_blk_def)

lemma log_ok_rest: "same_rest s s' \<Longrightarrow> log_ok s' = log_ok s" for s :: "'a logst_scheme"
  using same_rest_log [of s s'] log_region_rest [of s s'] by (simp add: log_ok_def)

section \<open>Installing and logging\<close>

lemma install_one_ok:
  assumes "bio_wf s" "held s = {}" "log_ok s" "t < nat (lh_n s)" "card (dirtyset s) < 30"
    "lh_block s ! t \<in> dirtyset s \<or> Suc (card (dirtyset s)) < 30"
  shows "\<exists>s'. install_one t s = Ok s' \<and> block_copied s (log_blk s t) (lh_block s ! t) s'"
proof -
  note h = home_facts [OF assms(3,4)] and l = log_blk_facts [OF assms(3) h(3)]
  have ne: "log_blk s t \<noteq> lh_block s ! t" using h(2) l(3) by auto
  have dev: "log_dev s = 1" using assms(3) by (simp add: log_ok_def)
  obtain b1 b2 s1 s2 where r: "bread s 1 (log_blk s t) = Ok (b1, s1)" "bread s1 1 (lh_block s ! t) = Ok (b2, s2)"
      "bio_wf s2" "owns s2 b1 (log_blk s t)" "owns s2 b2 (lh_block s ! t)"
      "\<And>k. bcontent s2 k = bcontent s k" "held s2 = {log_blk s t, lh_block s ! t}" "dirtyset s2 = dirtyset s"
      "disk s2 = disk s" "dwrites s2 = dwrites s" "same_rest s s2" "same_rest s s1"
    by (rule two_breads [OF assms(1,2) l(1) h(1) ne assms(5,6)]; blast)
  obtain s3 s4 s5 where "bwrite (set_data s2 b2 (b_data (bufs s2 ! b1))) b2 = Ok s3" "brelse s3 b1 = Ok s4"
      "brelse s4 b2 = Ok s5" "block_copied s (log_blk s t) (lh_block s ! t) s5"
    by (rule copied_release [OF r(3-5) ne r(6,7) assms(2) r(8-11) assms(1)])
  with r(1,2) dev same_rest_log [OF r(12)] show ?thesis by (simp add: install_one_def log_blk_def)
qed

lemma write_log_one_ok:
  assumes "bio_wf s" "held s = {}" "log_ok s" "t < nat (lh_n s)" "card (dirtyset s) < 30"
    "lh_block s ! t \<in> dirtyset s"
  shows "\<exists>s'. write_log_one t s = Ok s' \<and> block_copied s (lh_block s ! t) (log_blk s t) s'"
proof -
  note h = home_facts [OF assms(3,4)] and l = log_blk_facts [OF assms(3) h(3)]
  have ne: "log_blk s t \<noteq> lh_block s ! t" "lh_block s ! t \<noteq> log_blk s t" using h(2) l(3) by auto
  have dev: "log_dev s = 1" using assms(3) by (simp add: log_ok_def)
  obtain b1 b2 s1 s2 where r: "bread s 1 (log_blk s t) = Ok (b1, s1)" "bread s1 1 (lh_block s ! t) = Ok (b2, s2)"
      "bio_wf s2" "owns s2 b1 (log_blk s t)" "owns s2 b2 (lh_block s ! t)"
      "\<And>k. bcontent s2 k = bcontent s k" "held s2 = {log_blk s t, lh_block s ! t}" "dirtyset s2 = dirtyset s"
      "disk s2 = disk s" "dwrites s2 = dwrites s" "same_rest s s2" "same_rest s s1"
    by (rule two_breads [OF assms(1,2) l(1) h(1) ne(1) assms(5) disjI1 [OF assms(6)]]; blast)
  have hl: "held s2 = {lh_block s ! t, log_blk s t}" using r(7) by auto
  obtain s3 s4 s5 where "bwrite (set_data s2 b1 (b_data (bufs s2 ! b2))) b1 = Ok s3" "brelse s3 b2 = Ok s4"
      "brelse s4 b1 = Ok s5" "block_copied s (lh_block s ! t) (log_blk s t) s5"
    by (rule copied_release [OF r(3,5,4) ne(2) r(6) hl assms(2) r(8-11) assms(1)])
  with r(1,2) dev same_rest_log [OF r(12)] show ?thesis by (simp add: write_log_one_def log_blk_def)
qed

lemma install_trans_ok:
  assumes "bio_wf s" "held s = {}" "log_ok s" "card (dirtyset s) < 29 \<or>
     card (dirtyset s) < 30 \<and> (\<forall>t<nat (lh_n s). lh_block s ! t \<in> dirtyset s)"
  shows "\<exists>s'. install_trans s = Ok s' \<and> blocks_copied s (log_blk s) (\<lambda>t. lh_block s ! t) [0..<nat (lh_n s)] s'"
proof -
  define I where "I x ts \<longleftrightarrow> bio_wf x \<and> held x = {} \<and> same_rest s x \<and> set ts \<subseteq> {..<nat (lh_n s)} \<and> distinct ts \<and>
    (card (dirtyset x) < 29 \<or> card (dirtyset x) < 30 \<and> (\<forall>t\<in>set ts. lh_block s ! t \<in> dirtyset x))" for x ts
  have "\<exists>x'. install_one t x = Ok x' \<and> block_copied x (log_blk s t) (lh_block s ! t) x' \<and> I x' ts"
    if i: "I x (t # ts)" for x t ts
  proof -
    have x: "bio_wf x" "held x = {}" "same_rest s x" "t < nat (lh_n s)" "card (dirtyset x) < 30" using i by (auto simp: I_def)
    note e = same_rest_log [OF x(3)] and ok = log_ok_rest [OF x(3)]
    obtain x' where x': "install_one t x = Ok x'" "block_copied x (log_blk s t) (lh_block s ! t) x'"
      using install_one_ok [of x t] x ok e assms(3) i by (auto simp: I_def log_blk_def)
    have f: "finite (dirtyset x)" by (simp add: dirtyset_def)
    have d: "dirtyset x' = dirtyset x - {lh_block s ! t}" using x'(2) by (simp add: block_copied_def)
    have "card (dirtyset x') < 29"
    proof (cases "lh_block s ! t \<in> dirtyset x")
      case True
      then show ?thesis using f x(5) card_gt_0_iff [of "dirtyset x"] by (auto simp: d card_Diff_singleton)
    next
      case False
      then show ?thesis using i d by (auto simp: I_def)
    qed
    with x' x(2,3) i have "I x' ts" using same_rest_trans by (auto simp: I_def block_copied_def)
    with x' show ?thesis by blast
  qed
  note loop = copy_loop [of I install_one, OF this]
  have "I s [0..<nat (lh_n s)]" using assms by (auto simp: I_def)
  moreover have "distinct (map (\<lambda>t. lh_block s ! t) [0..<nat (lh_n s)])"
    using home_facts(5) [OF assms(3)] by (auto simp: distinct_map inj_on_def)
  moreover have "log_blk s ` set [0..<nat (lh_n s)] \<inter> (\<lambda>t. lh_block s ! t) ` set [0..<nat (lh_n s)] = {}"
    using home_facts(2,3) [OF assms(3)] log_blk_facts(3) [OF assms(3)] by fastforce
  ultimately show ?thesis using loop [of s "[0..<nat (lh_n s)]"] assms(1) unfolding install_trans_def by blast
qed

lemma write_log_ok:
  assumes "bio_wf s" "held s = {}" "log_ok s" "card (dirtyset s) < 30"
    "\<forall>t<nat (lh_n s). lh_block s ! t \<in> dirtyset s" "dirtyset s \<inter> log_region s = {}"
  shows "\<exists>s'. write_log s = Ok s' \<and> blocks_copied s (\<lambda>t. lh_block s ! t) (log_blk s) [0..<nat (lh_n s)] s'"
proof -
  define I where "I x ts \<longleftrightarrow> bio_wf x \<and> held x = {} \<and> same_rest s x \<and> set ts \<subseteq> {..<nat (lh_n s)} \<and>
    dirtyset x = dirtyset s" for x :: "'a logst_scheme" and ts
  have "\<exists>x'. write_log_one t x = Ok x' \<and> block_copied x (lh_block s ! t) (log_blk s t) x' \<and> I x' ts"
    if i: "I x (t # ts)" for x t ts
  proof -
    have x: "bio_wf x" "held x = {}" "same_rest s x" "t < nat (lh_n s)" "dirtyset x = dirtyset s" using i by (auto simp: I_def)
    note e = same_rest_log [OF x(3)] and ok = log_ok_rest [OF x(3)]
    obtain x' where x': "write_log_one t x = Ok x'" "block_copied x (lh_block s ! t) (log_blk s t) x'"
      using write_log_one_ok [of x t] x ok e assms(3,4,5) by (auto simp: log_blk_def)
    have "log_blk s t \<notin> dirtyset s"
      using log_blk_facts(3) [OF assms(3) home_facts(3) [OF assms(3) x(4)]] assms(6) by blast
    with x' x(2,3,5) i have "I x' ts" using same_rest_trans by (auto simp: I_def block_copied_def)
    with x' show ?thesis by blast
  qed
  note loop = copy_loop [of I write_log_one, OF this]
  have "I s [0..<nat (lh_n s)]" using assms by (auto simp: I_def)
  moreover have "distinct (map (log_blk s) [0..<nat (lh_n s)])"
    using log_blk_facts(4) [OF assms(3)] home_facts(3) [OF assms(3)] by (auto simp: distinct_map inj_on_def)
  moreover have "(\<lambda>t. lh_block s ! t) ` set [0..<nat (lh_n s)] \<inter> log_blk s ` set [0..<nat (lh_n s)] = {}"
    using home_facts(2,3) [OF assms(3)] log_blk_facts(3) [OF assms(3)] by fastforce
  ultimately show ?thesis using loop [of s "[0..<nat (lh_n s)]"] assms(1) unfolding write_log_def by blast
qed

section \<open>The header block\<close>

lemma put_head_fold:
  "n \<le> 30 \<Longrightarrow> length d = 512 \<Longrightarrow> length (fold (\<lambda>i. put32 (4 + 4 * i) (bs ! i)) [0..<n] d) = 512 \<and>
   get32 0 (fold (\<lambda>i. put32 (4 + 4 * i) (bs ! i)) [0..<n] d) = get32 0 d \<and>
   (\<forall>i<n. get32 (4 + 4 * i) (fold (\<lambda>i. put32 (4 + 4 * i) (bs ! i)) [0..<n] d) = bs ! i)"
proof (induction n)
  case (Suc n)
  let ?d = "fold (\<lambda>i. put32 (4 + 4 * i) (bs ! i)) [0..<n] d"
  have IH: "length ?d = 512" "get32 0 ?d = get32 0 d" "\<And>i. i < n \<Longrightarrow> get32 (4 + 4 * i) ?d = bs ! i"
    using Suc by auto
  have "get32 (4 + 4 * i) (put32 (4 + 4 * n) (bs ! n) ?d) = bs ! i" if "i < Suc n" for i
    using that IH Suc.prems(1) by (cases "i = n") (auto simp: get_put_field_other)
  moreover have "get32 0 (put32 (4 + 4 * n) (bs ! n) ?d) = get32 0 d"
    using IH Suc.prems(1) by (simp add: get_put_field_other)
  ultimately show ?case using IH Suc.prems(1) by simp
qed simp

lemma put_head_ok:
  assumes "0 \<le> n" "n \<le> 30" "length d = 512"
  shows "length (put_head n bs d) = 512" "sint (get32 0 (put_head n bs d)) = n"
    "i < nat n \<Longrightarrow> get32 (4 + 4 * i) (put_head n bs d) = bs ! i"
proof -
  have "nat n \<le> 30" using assms(2) by simp
  from put_head_fold [OF this, of "put32 0 (of_int n) d" bs] assms(3)
  have f: "length (put_head n bs d) = 512" "get32 0 (put_head n bs d) = of_int n"
    "\<And>i. i < nat n \<Longrightarrow> get32 (4 + 4 * i) (put_head n bs d) = bs ! i" by (simp_all add: put_head_def)
  show "length (put_head n bs d) = 512" by (rule f)
  show "i < nat n \<Longrightarrow> get32 (4 + 4 * i) (put_head n bs d) = bs ! i" by (rule f)
  have "sint (of_int n :: u32) = n"
    using assms(1,2) by (simp add: sint_sbintrunc' signed_take_bit_int_eq_self)
  with f(2) show "sint (get32 0 (put_head n bs d)) = n" by simp
qed

lemma write_head_ok:
  assumes "bio_wf s" "held s = {}" "log_ok s" "card (dirtyset s) < 30"
  shows "\<exists>s'. write_head s = Ok s' \<and> bio_wf s' \<and> held s' = {} \<and> dirtyset s' = dirtyset s - {log_start s} \<and>
    (\<forall>k. bcontent s' k = (if k = log_start s then put_head (lh_n s) (lh_block s) (bcontent s k) else bcontent s k)) \<and>
    dwrites s' = ((1, log_start s), put_head (lh_n s) (lh_block s) (bcontent s (log_start s))) # dwrites s \<and> same_rest s s'"
proof -
  let ?n = "log_start s"
  have lo: "log_dev s = 1" "0 \<le> lh_n s" "lh_n s \<le> 30" using assms(3) by (auto simp: log_ok_def)
  have n: "?n < 1000" using log_blk_facts(5) [OF assms(3), of 0] by simp
  obtain b s1 where r: "bread s 1 ?n = Ok (b, s1)" using bread_total [OF assms(1) n] assms(2,4) by auto
  note o = bread_ok [OF assms(1) r]
  have e: "same_rest s s1" using o(9) same_rest_updates(1) by blast
  define d where "d = put_head (lh_n s) (lh_block s) (bcontent s ?n)"
  have len: "length d = 512" unfolding d_def using put_head_ok(1) lo bcontent_length [OF assms(1)] by blast
  note sd = set_data_ok [OF o(1,2) len]
  obtain s3 where s3: "bwrite (set_data s1 b d) b = Ok s3" "bio_wf s3" "owns s3 b ?n"
      "\<And>k. bcontent s3 k = bcontent (set_data s1 b d) k" "held s3 = held (set_data s1 b d)"
      "dirtyset s3 = dirtyset (set_data s1 b d) - {?n}"
      "dwrites s3 = ((1, ?n), bcontent (set_data s1 b d) ?n) # dwrites (set_data s1 b d)"
      "image s3 = image (set_data s1 b d)" "s3 = (set_data s1 b d)\<lparr>bufs := bufs s3, dwrites := dwrites s3\<rparr>"
    by (rule bwrite_ok [OF sd(1,2)]) blast
  have c3: "bcontent s3 k = (if k = ?n then d else bcontent s k)" for k using s3(4) sd(3) o(3) by simp
  have dw: "dwrites s3 = ((1, ?n), d) # dwrites s"
    using s3(7) sd(3) [of ?n] o(9) by (metis bio.select_convs(2) bio.surjective bio.update_convs(4) set_data_def upd_buf_simps(3))
  have "bcontent s3 ?n = disk s3 1 ?n" using c3 dw by (simp add: disk_def disk_get_def)
  then obtain s4 where s4: "brelse s3 b = Ok s4" "bio_wf s4" "\<And>k. bcontent s4 k = bcontent s3 k"
      "held s4 = held s3 - {?n}" "dirtyset s4 = dirtyset s3" "disk s4 = disk s3" "s4 = s3\<lparr>bufs := bufs s4, lru := lru s4\<rparr>"
    using brelse_ok [OF s3(2,3)] by blast
  have "same_rest s s4"
    using e same_rest_updates(4) [of s1 b d] same_rest_updates(2) [OF s3(9)] same_rest_updates(3) [OF s4(7)]
    by (simp add: same_rest_def)
  moreover have "write_head s = Ok s4"
    using r lo(1) same_rest_log(6,7) [OF e] o(4) s3(1) s4(1) by (simp add: write_head_def d_def)
  moreover have "dwrites s4 = ((1, ?n), d) # dwrites s" by (subst s4(7)) (simp add: dw)
  ultimately show ?thesis
    using s4(2-5) c3 s3(5,6) sd(4,5) o(5,6) assms(2) by (intro exI [of _ s4]) (auto simp: d_def)
qed

lemma bio_lh_update [simp]:
  fixes s :: "'a logst_scheme"
  shows "bio_wf (s\<lparr>lh_n := x\<rparr>) = bio_wf s" "owns (s\<lparr>lh_n := x\<rparr>) = owns s" "bcontent (s\<lparr>lh_n := x\<rparr>) = bcontent s"
    "held (s\<lparr>lh_n := x\<rparr>) = held s" "dirtyset (s\<lparr>lh_n := x\<rparr>) = dirtyset s" "disk (s\<lparr>lh_n := x\<rparr>) = disk s"
    "bio_wf (s\<lparr>lh_block := y\<rparr>) = bio_wf s" "owns (s\<lparr>lh_block := y\<rparr>) = owns s" "bcontent (s\<lparr>lh_block := y\<rparr>) = bcontent s"
    "held (s\<lparr>lh_block := y\<rparr>) = held s" "dirtyset (s\<lparr>lh_block := y\<rparr>) = dirtyset s" "disk (s\<lparr>lh_block := y\<rparr>) = disk s"
  by (rule bio_view_cong; simp)+

lemma read_head_ok:
  assumes "bio_wf s" "held s = {}" "card (dirtyset s) < 30" "log_dev s = 1" "log_start s < 1000"
    "sint (get32 0 (bcontent s (log_start s))) \<le> 30"
  shows "\<exists>s'. read_head s = Ok s' \<and> bio_wf s' \<and> held s' = {} \<and> dirtyset s' = dirtyset s \<and> bcontent s' = bcontent s \<and>
    disk s' = disk s \<and> dwrites s' = dwrites s \<and> image s' = image s \<and> log_start s' = log_start s \<and> log_dev s' = 1 \<and> log_size s' = log_size s \<and>
    lh_n s' = sint (get32 0 (bcontent s (log_start s))) \<and>
    lh_block s' = map (\<lambda>i. get32 (4 + 4 * i) (bcontent s (log_start s))) [0..<nat (lh_n s')] @ drop (nat (lh_n s')) (lh_block s)"
proof -
  let ?n = "log_start s"
  obtain b s1 where r: "bread s 1 ?n = Ok (b, s1)" using bread_total [OF assms(1,5)] assms(2,3) by auto
  note o = bread_ok [OF assms(1) r]
  have e: "same_rest s s1" using o(9) same_rest_updates(1) by blast
  let ?d = "bcontent s ?n"
  define s2 where "s2 = s1\<lparr>lh_n := sint (get32 0 ?d), lh_block := map (\<lambda>i. get32 (4 + 4 * i) ?d)
     [0..<nat (sint (get32 0 ?d))] @ drop (nat (sint (get32 0 ?d))) (lh_block s)\<rparr>"
  have "settled s ?n" using settled_unheld [OF assms(1)] assms(2) by simp
  then have "?n \<in> dirtyset s2 \<or> bcontent s2 ?n = disk s2 1 ?n"
    using o(3,6,8) by (simp add: s2_def settled_def)
  moreover have "bio_wf s2" "owns s2 b ?n" using o(1,2) by (simp_all add: s2_def)
  ultimately obtain s4 where s4: "brelse s2 b = Ok s4" "bio_wf s4" "\<And>k. bcontent s4 k = bcontent s2 k"
      "held s4 = held s2 - {?n}" "dirtyset s4 = dirtyset s2" "disk s4 = disk s2" "s4 = s2\<lparr>bufs := bufs s4, lru := lru s4\<rparr>"
    using brelse_ok by blast
  have rh: "read_head s = Ok s4"
    using r assms(4,6) o(4) s4(1) same_rest_log [OF e] by (simp add: read_head_def Let_def s2_def)
  have f: "same_rest s2 s4" using same_rest_updates(3) [OF s4(7)] .
  have dw: "dwrites s4 = dwrites s" by (subst s4(7), simp add: s2_def, subst o(9)) simp
  have img: "image s4 = image s" using e f by (simp add: same_rest_def s2_def)
  show ?thesis
    using rh s4(2-6) dw img o(3,5,6,8) assms(2,4) same_rest_log [OF f] same_rest_log [OF e]
    by (intro exI [of _ s4]) (auto simp: s2_def fun_eq_iff)
qed

section \<open>Commit\<close>

text \<open>A running transaction: exactly the blocks in the header are dirty, nobody holds a buffer, and
  the log on the disk is empty.\<close>

definition trans_ok :: "'a logst_scheme \<Rightarrow> bool" where
  "trans_ok s \<longleftrightarrow> bio_wf s \<and> held s = {} \<and> log_ok s \<and>
     dirtyset s = set (take (nat (lh_n s)) (lh_block s)) \<and> get32 0 (disk s 1 (log_start s)) = 0"

lemma trans_okD:
  assumes "trans_ok s"
  shows "bio_wf s" "held s = {}" "log_ok s" "dirtyset s = (\<lambda>t. lh_block s ! t) ` {..<nat (lh_n s)}"
    "get32 0 (disk s 1 (log_start s)) = 0" "card (dirtyset s) < 30" "\<forall>t<nat (lh_n s). lh_block s ! t \<in> dirtyset s"
    "dirtyset s \<inter> log_region s = {}"
proof -
  show s: "bio_wf s" "held s = {}" "log_ok s" "get32 0 (disk s 1 (log_start s)) = 0" using assms by (auto simp: trans_ok_def)
  have "nat (lh_n s) \<le> length (lh_block s)" using s(3) by (auto simp: log_ok_def)
  then have "set (take (nat (lh_n s)) (lh_block s)) = (\<lambda>t. lh_block s ! t) ` {..<nat (lh_n s)}"
    using nth_image [of "nat (lh_n s)" "lh_block s"] by (simp add: atLeast0LessThan)
  with assms show d: "dirtyset s = (\<lambda>t. lh_block s ! t) ` {..<nat (lh_n s)}" by (simp add: trans_ok_def)
  have "card (dirtyset s) \<le> nat (lh_n s)" unfolding d using card_image_le [of "{..<nat (lh_n s)}"] by simp
  then show "card (dirtyset s) < 30" using s(3) by (auto simp: log_ok_def)
  show "\<forall>t<nat (lh_n s). lh_block s ! t \<in> dirtyset s" using d by auto
  show "dirtyset s \<inter> log_region s = {}" unfolding d using home_facts(2) [OF s(3)] by auto
qed

text \<open>The disk writes of a commit, newest first.\<close>

definition log_writes :: "'a logst_scheme \<Rightarrow> nat \<Rightarrow> disk_write list" where
  "log_writes s j = rev (map (\<lambda>t. ((1, log_blk s t), bcontent s (lh_block s ! t))) [0..<j])"

definition home_writes :: "'a logst_scheme \<Rightarrow> nat \<Rightarrow> disk_write list" where
  "home_writes s j = rev (map (\<lambda>t. ((1, lh_block s ! t), bcontent s (lh_block s ! t))) [0..<j])"

definition head_write :: "'a logst_scheme \<Rightarrow> disk_write" where
  "head_write s = ((1, log_start s), put_head (lh_n s) (lh_block s) (bcontent s (log_start s)))"

definition clear_write :: "'a logst_scheme \<Rightarrow> disk_write" where
  "clear_write s = ((1, log_start s), put_head 0 (lh_block s) (snd (head_write s)))"

lemma commit_ok:
  assumes "trans_ok s" "0 < lh_n s"
  shows "\<exists>s'. commit s = Ok s' \<and> bio_wf s' \<and> held s' = {} \<and> dirtyset s' = {} \<and>
    (\<forall>k. k \<notin> log_region s \<longrightarrow> bcontent s' k = bcontent s k) \<and> same_rest (s\<lparr>lh_n := 0\<rparr>) s' \<and>
    dwrites s' = clear_write s # home_writes s (nat (lh_n s)) @ head_write s # log_writes s (nat (lh_n s)) @ dwrites s"
proof -
  note T = trans_okD [OF assms(1)]
  let ?n = "nat (lh_n s)"
  obtain s1 where s1: "write_log s = Ok s1" "blocks_copied s (\<lambda>t. lh_block s ! t) (log_blk s) [0..<?n] s1"
    using write_log_ok [OF T(1-3,6-8)] by blast
  have b1: "bio_wf s1" "held s1 = {}" "same_rest s s1" "dwrites s1 = log_writes s ?n @ dwrites s"
    "\<And>t. t < ?n \<Longrightarrow> bcontent s1 (log_blk s t) = bcontent s (lh_block s ! t)"
    "\<And>k. k \<notin> log_blk s ` {..<?n} \<Longrightarrow> bcontent s1 k = bcontent s k"
    using s1(2) T(2) by (auto simp: blocks_copied_def log_writes_def atLeast0LessThan)
  have d1: "dirtyset s1 = dirtyset s"
    using s1(2) T(8) log_blk_facts(3) [OF T(3)] home_facts(3) [OF T(3)] by (auto simp: blocks_copied_def)
  note e1 = same_rest_log [OF b1(3)]
  have st: "log_start s \<notin> log_blk s ` {..<?n}" using log_blk_facts(2) [OF T(3)] home_facts(3) [OF T(3)] by fastforce
  obtain s2 where s2: "write_head s1 = Ok s2" "bio_wf s2" "held s2 = {}" "dirtyset s2 = dirtyset s1 - {log_start s1}"
      "\<And>k. bcontent s2 k = (if k = log_start s1 then put_head (lh_n s1) (lh_block s1) (bcontent s1 k) else bcontent s1 k)"
      "dwrites s2 = ((1, log_start s1), put_head (lh_n s1) (lh_block s1) (bcontent s1 (log_start s1))) # dwrites s1"
      "same_rest s1 s2"
    using write_head_ok [OF b1(1,2)] log_ok_rest [OF b1(3)] T(3,6) d1 by auto
  have r2: "same_rest s s2" using b1(3) s2(7) same_rest_trans by blast
  note e2 = same_rest_log [OF r2]
  have lb2: "log_blk s2 = log_blk s" using e2(1) by (simp add: log_blk_def fun_eq_iff)
  have "log_start s \<notin> dirtyset s" using T(8) by (auto simp: log_region_def)
  then have d2: "dirtyset s2 = dirtyset s" using s2(4) d1 e1(1) by simp
  have dw2: "dwrites s2 = head_write s # log_writes s ?n @ dwrites s"
    using s2(6) e1 b1(4) b1(6) [OF st] by (simp add: head_write_def)
  have c2: "bcontent s2 (log_blk s t) = bcontent s (lh_block s ! t)" if "t < ?n" for t
    using s2(5) [of "log_blk s t"] b1(5) [OF that] e1(1) log_blk_facts(2) [OF T(3) home_facts(3) [OF T(3) that]] by simp
  have c2': "bcontent s2 k = bcontent s k" if "k \<notin> log_region s" for k
  proof -
    have "k \<noteq> log_start s" "k \<notin> log_blk s ` {..<?n}" using that home_facts(3) [OF T(3)] by (auto simp: log_region_def)
    then show ?thesis using s2(5) [of k] b1(6) [of k] e1(1) by simp
  qed
  have ok2: "log_ok s2" using log_ok_rest [OF r2] T(3) by simp
  have "card (dirtyset s2) < 30 \<and> (\<forall>t<nat (lh_n s2). lh_block s2 ! t \<in> dirtyset s2)"
    using T(6,7) d2 e2 by simp
  then obtain s3 where s3: "install_trans s2 = Ok s3"
      "blocks_copied s2 (log_blk s) (\<lambda>t. lh_block s ! t) [0..<?n] s3"
    using install_trans_ok [OF s2(2,3) ok2] e2 lb2 by auto
  have b3: "bio_wf s3" "held s3 = {}" "same_rest s2 s3" "dirtyset s3 = {}"
    using s3(2) s2(3) d2 T(4) by (auto simp: blocks_copied_def atLeast0LessThan)
  have "map (\<lambda>t. ((1 :: u32, lh_block s ! t), bcontent s2 (log_blk s t))) [0..<?n] =
      map (\<lambda>t. ((1, lh_block s ! t), bcontent s (lh_block s ! t))) [0..<?n]" using c2 by simp
  then have dw3: "dwrites s3 = home_writes s ?n @ dwrites s2"
    using s3(2) by (simp add: blocks_copied_def home_writes_def)
  have c3: "bcontent s3 k = bcontent s k" if "k \<notin> log_region s" for k
  proof (cases "k \<in> (\<lambda>t. lh_block s ! t) ` {..<?n}")
    case True
    then show ?thesis using s3(2) c2 by (auto simp: blocks_copied_def)
  next
    case False
    then show ?thesis using s3(2) c2' [OF that] by (auto simp: blocks_copied_def atLeast0LessThan)
  qed
  have st3: "bcontent s3 (log_start s) = snd (head_write s)"
  proof -
    have "log_start s \<in> log_region s" by (simp add: log_region_def)
    then have "log_start s \<notin> (\<lambda>t. lh_block s ! t) ` {..<?n}" using home_facts(2) [OF T(3)] by force
    then have "bcontent s3 (log_start s) = bcontent s2 (log_start s)"
      using s3(2) by (auto simp: blocks_copied_def atLeast0LessThan)
    then show ?thesis using s2(5) [of "log_start s"] e1 b1(6) [OF st] by (simp add: head_write_def)
  qed
  have ok3: "log_ok (s3\<lparr>lh_n := 0\<rparr>)" using log_ok_rest [OF b3(3)] ok2 by (simp add: log_ok_def log_region_def log_blk_def)
  have r3: "same_rest s s3" using r2 b3(3) same_rest_trans by blast
  note e3 = same_rest_log [OF r3]
  obtain s4 where s4: "write_head (s3\<lparr>lh_n := 0\<rparr>) = Ok s4" "bio_wf s4" "held s4 = {}" "dirtyset s4 = {}"
      "\<And>k. k \<noteq> log_start s \<Longrightarrow> bcontent s4 k = bcontent s3 k"
      "dwrites s4 = ((1, log_start s), put_head 0 (lh_block s) (bcontent s3 (log_start s))) # dwrites s3"
      "same_rest (s3\<lparr>lh_n := 0\<rparr>) s4"
    using write_head_ok [of "s3\<lparr>lh_n := 0\<rparr>"] b3 ok3 e3 by auto
  have "same_rest (s\<lparr>lh_n := 0\<rparr>) s4" using same_rest_trans [OF same_rest_lh_n [OF r3] s4(7)] .
  moreover have "bcontent s4 k = bcontent s k" if "k \<notin> log_region s" for k
    using s4(5) [of k] c3 [OF that] that by (auto simp: log_region_def)
  moreover have "dwrites s4 = clear_write s # home_writes s ?n @ head_write s # log_writes s ?n @ dwrites s"
    using s4(6) dw3 dw2 st3 by (simp add: clear_write_def)
  ultimately show ?thesis using s1(1) s2(1) s3(1) s4(1-4) assms(2) by (auto simp: commit_def)
qed

section \<open>Recovery\<close>

lemma read_release_ok:
  assumes "bio_wf s" "n < 1000" "n \<notin> held s" "n \<in> dirtyset s \<or> card (held s \<union> dirtyset s) < 30"
  obtains b s1 s2 where "bread s 1 n = Ok (b, s1)" "b_data (bufs s1 ! b) = bcontent s n" "brelse s1 b = Ok s2" "bio_wf s2"
    "bcontent s2 = bcontent s" "held s2 = held s" "dirtyset s2 = dirtyset s" "disk s2 = disk s" "dwrites s2 = dwrites s"
    "same_rest s s2" "same_rest s s1"
proof -
  obtain b s1 where r: "bread s 1 n = Ok (b, s1)" by (rule bread_total [OF assms])
  note o = bread_ok [OF assms(1) r]
  have "n \<in> dirtyset s1 \<or> bcontent s1 n = disk s1 1 n"
    using settled_unheld [OF assms(1,3)] o(3,6,8) by (simp add: settled_def)
  then obtain s2 where s2: "brelse s1 b = Ok s2" "bio_wf s2" "\<And>k. bcontent s2 k = bcontent s1 k"
      "held s2 = held s1 - {n}" "dirtyset s2 = dirtyset s1" "disk s2 = disk s1" "s2 = s1\<lparr>bufs := bufs s2, lru := lru s2\<rparr>"
    using brelse_ok [OF o(1,2)] by blast
  have e: "same_rest s s1" "same_rest s s2"
    using o(9) same_rest_updates(1) same_rest_updates(3) [OF s2(7)] same_rest_trans by blast+
  have "dwrites s2 = dwrites s" by (subst s2(7), simp, subst o(9)) simp
  then show thesis using that [OF r o(4) s2(1,2)] e s2 o assms(3) by (auto simp: fun_eq_iff)
qed

text \<open>Recovery installs the blocks the header on the disk names, and clears the header.\<close>

lemma recover_ok:
  assumes "bio_wf s" "held s = {}" "dirtyset s = {}" "log_dev s = 1" "length (lh_block s) = 30"
    "unat (log_start s) + 30 \<le> 1000" "sint (get32 0 (bcontent s (log_start s))) = int n" "n \<le> 29"
    "\<And>t. t < n \<Longrightarrow> get32 (4 + 4 * t) (bcontent s (log_start s)) = home t"
    "inj_on home {..<n}" "\<And>t. t < n \<Longrightarrow> home t < 1000 \<and> home t \<notin> log_region s"
  shows "\<exists>s'. recover_from_log s = Ok s' \<and> trans_ok s' \<and> lh_n s' = 0 \<and> log_region s' = log_region s \<and>
    (\<forall>t<n. bcontent s' (home t) = bcontent s (log_blk s t)) \<and>
    (\<forall>k. k \<notin> log_region s \<longrightarrow> k \<notin> home ` {..<n} \<longrightarrow> bcontent s' k = bcontent s k)"
proof -
  have ls: "log_start s < 1000" using assms(6) by (simp add: word_less_nat_alt)
  obtain s1 where s1: "read_head s = Ok s1" "bio_wf s1" "held s1 = {}" "dirtyset s1 = {}" "bcontent s1 = bcontent s"
      "log_start s1 = log_start s" "log_dev s1 = 1" "lh_n s1 = int n"
      "lh_block s1 = map (\<lambda>i. get32 (4 + 4 * i) (bcontent s (log_start s))) [0..<n] @ drop n (lh_block s)"
    using read_head_ok [OF assms(1,2) _ assms(4) ls] assms(3,7,8) by auto
  have lb: "log_blk s1 = log_blk s" "log_region s1 = log_region s" using s1(6) by (auto simp: log_blk_def log_region_def fun_eq_iff)
  have nth: "lh_block s1 ! t = home t" if "t < n" for t using s1(9) assms(9) that by (simp add: nth_append)
  have tk: "take n (lh_block s1) = map home [0..<n]"
    using assms(5,8,9) s1(9) by (intro nth_equalityI) auto
  have "length (lh_block s1) = 30" using s1(9) assms(5,8) by simp
  then have ok1: "log_ok s1"
    unfolding log_ok_def using s1(6-8) assms(6,8,10,11) lb by (auto simp: tk distinct_map atLeast0LessThan)
  obtain s2 where s2: "install_trans s1 = Ok s2" "blocks_copied s1 (log_blk s1) (\<lambda>t. lh_block s1 ! t) [0..<nat (lh_n s1)] s2"
    using install_trans_ok [OF s1(2,3) ok1] s1(4) by auto
  have b2: "bio_wf s2" "held s2 = {}" "dirtyset s2 = {}" "same_rest s1 s2"
    "\<And>t. t < n \<Longrightarrow> bcontent s2 (home t) = bcontent s (log_blk s t)"
    "\<And>k. k \<notin> home ` {..<n} \<Longrightarrow> bcontent s2 k = bcontent s k"
    using s2(2) s1(3,4,5,8) nth lb(1) by (auto simp: blocks_copied_def atLeast0LessThan)
  note e2 = same_rest_log [OF b2(4)]
  have ok2: "log_ok (s2\<lparr>lh_n := 0\<rparr>)" using log_ok_rest [OF b2(4)] ok1 by (simp add: log_ok_def log_region_def log_blk_def)
  obtain s3 where s3: "write_head (s2\<lparr>lh_n := 0\<rparr>) = Ok s3" "bio_wf s3" "held s3 = {}" "dirtyset s3 = {}"
      "\<And>k. bcontent s3 k = (if k = log_start s then put_head 0 (lh_block s2) (bcontent s2 k) else bcontent s2 k)"
      "same_rest (s2\<lparr>lh_n := 0\<rparr>) s3"
    using write_head_ok [of "s2\<lparr>lh_n := 0\<rparr>"] b2 ok2 e2 s1(6) by auto
  note e3 = same_rest_log [OF s3(6)]
  have "settled s3 (log_start s)" using settled_unheld [OF s3(2)] s3(3) by simp
  then have "disk s3 1 (log_start s) = put32 0 0 (bcontent s2 (log_start s))"
    using s3(4) s3(5) [of "log_start s"] by (simp add: settled_def put_head_def)
  then have "get32 0 (disk s3 1 (log_start s)) = 0" using bcontent_length [OF b2(1), of "log_start s"] by simp
  then have "trans_ok s3"
    unfolding trans_ok_def using s3(2-4) log_ok_rest [OF s3(6)] ok2 e3 e2 s1(6) by simp
  moreover have "log_region s3 = log_region s" using e3(1) e2(1) s1(6) by (simp add: log_region_def log_blk_def)
  moreover have "bcontent s3 (home t) = bcontent s (log_blk s t)" if "t < n" for t
    using s3(5) [of "home t"] b2(5) [OF that] assms(11) [OF that] by (auto simp: log_region_def)
  moreover have "bcontent s3 k = bcontent s k" if "k \<notin> log_region s" "k \<notin> home ` {..<n}" for k
    using s3(5) [of k] b2(6) [OF that(2)] that(1) by (auto simp: log_region_def)
  ultimately show ?thesis
    using s1(1) s2(1) s3(1) e3(6) by (auto simp: recover_from_log_def)
qed

lemma readsb_ok:
  assumes "bio_wf s" "held s = {}" "card (dirtyset s) < 30"
  shows "\<exists>s'. readsb s 1 = Ok (parse_sb (bcontent s 1), s') \<and> bio_wf s' \<and> bcontent s' = bcontent s \<and> held s' = {} \<and>
    dirtyset s' = dirtyset s \<and> disk s' = disk s \<and> dwrites s' = dwrites s \<and> same_rest s s'"
proof -
  obtain b s1 s2 where "bread s 1 1 = Ok (b, s1)" "b_data (bufs s1 ! b) = bcontent s 1" "brelse s1 b = Ok s2" "bio_wf s2"
    "bcontent s2 = bcontent s" "held s2 = held s" "dirtyset s2 = dirtyset s" "disk s2 = disk s" "dwrites s2 = dwrites s"
    "same_rest s s2" "same_rest s s1"
    by (rule read_release_ok [OF assms(1), of 1]) (use assms in auto)
  then show ?thesis using assms(2) by (simp add: readsb_def)
qed

section \<open>Crashes\<close>

text \<open>Power is lost after the disk writes \<open>ws\<close>; the machine starts again with an empty cache and the
  in-memory log of a zeroed data segment.\<close>

definition crash :: "'a logst_scheme \<Rightarrow> disk_write list \<Rightarrow> 'a logst_scheme" where
  "crash s ws = binit (s\<lparr>dwrites := ws, log_start := 0, log_size := 0, outstanding := 0, committing := False,
     log_dev := 0, lh_n := 0, lh_block := replicate LOGSIZE 0\<rparr>)"

lemma crash_state:
  assumes "havedisk1 s" "\<And>n. length (disk_get (image s) ws 1 n) = 512"
  shows "bio_wf (crash s ws)" "held (crash s ws) = {}" "dirtyset (crash s ws) = {}"
    "bcontent (crash s ws) k = disk_get (image s) ws 1 k" "length (lh_block (crash s ws)) = 30"
proof -
  let ?s = "s\<lparr>dwrites := ws, log_start := 0, log_size := 0, outstanding := 0, committing := False,
     log_dev := 0, lh_n := 0, lh_block := replicate LOGSIZE 0\<rparr>"
  have d: "disk ?s 1 n = disk_get (image s) ws 1 n" for n by (simp add: disk_def)
  have "length (disk ?s 1 n) = 512" for n using assms(2) unfolding d .
  note b = binit_wf [of ?s, OF _ this] and cr = crash_def [of s ws]
  show "bio_wf (crash s ws)" "held (crash s ws) = {}" "dirtyset (crash s ws) = {}" using b(1,3,4) assms(1) unfolding cr by simp_all
  show "bcontent (crash s ws) k = disk_get (image s) ws 1 k" using b(5) [of k] assms(1) unfolding cr d by simp
  show "length (lh_block (crash s ws)) = 30" by (simp add: cr binit_def)
qed

lemma crash_recovers:
  assumes "havedisk1 s" "\<And>k. length (disk_get (image s) ws 1 k) = 512" "log_ok s"
    "sb_logstart (parse_sb (disk_get (image s) ws 1 1)) = log_start s" "n = 0 \<or> n = nat (lh_n s)"
    "sint (get32 0 (disk_get (image s) ws 1 (log_start s))) = int n"
    "\<And>t. t < n \<Longrightarrow> get32 (4 + 4 * t) (disk_get (image s) ws 1 (log_start s)) = lh_block s ! t"
  shows "\<exists>c. initlog (crash s ws) 1 = Ok c \<and> trans_ok c \<and> lh_n c = 0 \<and> log_region c = log_region s \<and>
    (\<forall>t<n. bcontent c (lh_block s ! t) = disk_get (image s) ws 1 (log_blk s t)) \<and>
    (\<forall>k. k \<notin> log_region s \<longrightarrow> k \<notin> (\<lambda>t. lh_block s ! t) ` {..<n} \<longrightarrow> bcontent c k = disk_get (image s) ws 1 k)"
proof -
  note c = crash_state [of s ws, OF assms(1,2)]
  let ?sb = "parse_sb (disk_get (image s) ws 1 1)"
  obtain s1 where s1: "readsb (crash s ws) 1 = Ok (?sb, s1)" "bio_wf s1" "bcontent s1 = bcontent (crash s ws)" "held s1 = {}"
      "dirtyset s1 = {}" "same_rest (crash s ws) s1"
    using readsb_ok [OF c(1,2)] c(3,4) by auto
  note e = same_rest_log [OF s1(6)]
  define s2 where "s2 = s1\<lparr>log_start := sb_logstart ?sb, log_size := sint (sb_nlog ?sb), log_dev := 1\<rparr>"
  have v: "bio_wf s2" "held s2 = {}" "dirtyset s2 = {}" "bcontent s2 k = disk_get (image s) ws 1 k" for k
    using bio_view_cong [of s2 s1] s1(2-5) c(4) by (simp_all add: s2_def)
  have l2: "log_start s2 = log_start s" "log_dev s2 = 1" "length (lh_block s2) = 30"
    using assms(4) e(7) c(5) by (simp_all add: s2_def)
  have lb: "log_blk s2 = log_blk s" "log_region s2 = log_region s" using l2(1) by (auto simp: log_blk_def log_region_def fun_eq_iff)
  have n: "n \<le> nat (lh_n s)" "n \<le> 29" "unat (log_start s2) + 30 \<le> 1000" using assms(3,5) l2(1) by (auto simp: log_ok_def)
  have home: "lh_block s ! t < 1000 \<and> lh_block s ! t \<notin> log_region s2" if "t < n" for t
    using home_facts(1,2) [OF assms(3), of t] that n(1) lb by simp
  have inj: "inj_on (\<lambda>t. lh_block s ! t) {..<n}" using home_facts(5) [OF assms(3)] n(1) by (auto simp: inj_on_def)
  have "\<exists>c. recover_from_log s2 = Ok c \<and> trans_ok c \<and> lh_n c = 0 \<and> log_region c = log_region s2 \<and>
    (\<forall>t<n. bcontent c (lh_block s ! t) = bcontent s2 (log_blk s2 t)) \<and>
    (\<forall>k. k \<notin> log_region s2 \<longrightarrow> k \<notin> (\<lambda>t. lh_block s ! t) ` {..<n} \<longrightarrow> bcontent c k = bcontent s2 k)"
    by (rule recover_ok [OF v(1-3) l2(2,3) n(3) _ n(2) _ inj home]) (use assms(6,7) v(4) l2(1) in simp_all)
  with s1(1) v(4) lb show ?thesis by (simp add: initlog_def s2_def)
qed

text \<open>The disk after a batch of writes to distinct blocks, and the prefixes of a batch.\<close>

definition batch :: "(nat \<Rightarrow> u32) \<Rightarrow> (nat \<Rightarrow> block) \<Rightarrow> nat \<Rightarrow> disk_write list" where
  "batch d c j = rev (map (\<lambda>t. ((1, d t), c t)) [0..<j])"

lemma writes_batch:
  "log_writes s j = batch (log_blk s) (\<lambda>t. bcontent s (lh_block s ! t)) j"
  "home_writes s j = batch (\<lambda>t. lh_block s ! t) (\<lambda>t. bcontent s (lh_block s ! t)) j"
  by (simp_all add: log_writes_def home_writes_def batch_def)

lemma drop_batch: "drop i (batch d c j) = batch d c (j - i)"
  by (simp add: batch_def drop_rev take_map take_upt min_def)

lemma length_batch [simp]: "length (batch d c j) = j"
  by (simp add: batch_def)

lemma batch_Suc: "batch d c (Suc j) = ((1, d j), c j) # batch d c j"
  by (simp add: batch_def)

lemma disk_get_Cons: "disk_get img (((1, m), x) # ws) 1 k = (if k = m then x else disk_get img ws 1 k)"
  by (simp add: disk_get_def)

lemma disk_get_batch:
  "k \<notin> d ` {..<j} \<Longrightarrow> disk_get img (batch d c j @ ws) 1 k = disk_get img ws 1 k"
  "inj_on d {..<j} \<Longrightarrow> t < j \<Longrightarrow> disk_get img (batch d c j @ ws) 1 (d t) = c t"
proof (induction j)
  case (Suc j)
  {
    case 1
    then show ?case using Suc.IH(1) by (auto simp: batch_Suc disk_get_Cons lessThan_Suc)
  next
    case 2
    then have "inj_on d {..<j}" "t < j \<Longrightarrow> d t \<noteq> d j" by (auto simp: lessThan_Suc inj_on_def)
    with 2 Suc.IH(2) show ?case by (cases "t = j") (auto simp: batch_Suc disk_get_Cons less_Suc_eq)
  }
qed (simp_all add: batch_def)

lemma disk_get_batch_length:
  "(\<And>k. length (disk_get img ws 1 k) = n) \<Longrightarrow> (\<And>t. t < j \<Longrightarrow> length (c t) = n) \<Longrightarrow>
   length (disk_get img (batch d c j @ ws) 1 k) = n"
  by (induction j) (simp_all add: batch_def disk_get_Cons)

text \<open>The super block, which recovery reads first, lies outside the log and is not being written.\<close>

definition sb_ok :: "'a logst_scheme \<Rightarrow> bool" where
  "sb_ok s \<longleftrightarrow> 1 \<notin> log_region s \<and> 1 \<notin> dirtyset s \<and> sb_logstart (parse_sb (disk s 1 1)) = log_start s"

definition recovers_to :: "'a logst_scheme \<Rightarrow> disk_write list \<Rightarrow> (u32 \<Rightarrow> block) \<Rightarrow> bool" where
  "recovers_to s ws dk \<longleftrightarrow> (\<exists>c. initlog (crash s ws) 1 = Ok c \<and> trans_ok c \<and> lh_n c = 0 \<and> log_region c = log_region s \<and>
     (\<forall>k. k \<notin> log_region s \<longrightarrow> bcontent c k = dk k))"

lemma trans_facts:
  assumes "trans_ok s"
  shows "havedisk1 s" "\<And>k. length (disk_get (image s) (dwrites s) 1 k) = 512" "disk s 1 k = disk_get (image s) (dwrites s) 1 k"
    "inj_on (log_blk s) {..<nat (lh_n s)}" "inj_on (\<lambda>t. lh_block s ! t) {..<nat (lh_n s)}"
    "log_start s \<notin> log_blk s ` {..<nat (lh_n s)}" "log_start s \<notin> (\<lambda>t. lh_block s ! t) ` {..<nat (lh_n s)}"
    "k \<notin> log_region s \<Longrightarrow> k \<notin> log_blk s ` {..<nat (lh_n s)}" "k \<notin> dirtyset s \<Longrightarrow> bcontent s k = disk s 1 k"
    "j < nat (lh_n s) \<Longrightarrow> log_blk s j \<notin> (\<lambda>t. lh_block s ! t) ` {..<nat (lh_n s)}" "j < nat (lh_n s) \<Longrightarrow> log_blk s j \<noteq> log_start s"
proof -
  note T = trans_okD [OF assms]
  note h = home_facts [OF T(3)] and l = log_blk_facts [OF T(3)]
  show dk: "disk s 1 k = disk_get (image s) (dwrites s) 1 k" for k by (simp add: disk_def)
  show "havedisk1 s" "\<And>k. length (disk_get (image s) (dwrites s) 1 k) = 512" using bio_wfD(4,5) [OF T(1)] dk by auto
  show "inj_on (log_blk s) {..<nat (lh_n s)}" using l(4) h(3) by (auto simp: inj_on_def)
  show "inj_on (\<lambda>t. lh_block s ! t) {..<nat (lh_n s)}" using h(5) by (auto simp: inj_on_def)
  show "log_start s \<notin> log_blk s ` {..<nat (lh_n s)}" using l(2) h(3) by fastforce
  have "log_start s \<in> log_region s" by (simp add: log_region_def)
  then show "log_start s \<notin> (\<lambda>t. lh_block s ! t) ` {..<nat (lh_n s)}" using h(2) by force
  show "k \<notin> log_region s \<Longrightarrow> k \<notin> log_blk s ` {..<nat (lh_n s)}" using l(3) h(3) by auto
  show "k \<notin> dirtyset s \<Longrightarrow> bcontent s k = disk s 1 k"
    using settled_unheld [OF T(1), of k] T(2) by (simp add: settled_def)
  show "j < nat (lh_n s) \<Longrightarrow> log_blk s j \<notin> (\<lambda>t. lh_block s ! t) ` {..<nat (lh_n s)}" using l(3) [OF h(3)] h(2) by force
  show "j < nat (lh_n s) \<Longrightarrow> log_blk s j \<noteq> log_start s" using l(2) [OF h(3)] by blast
qed

lemma crash_before:
  assumes "trans_ok s" "sb_ok s" "j \<le> nat (lh_n s)"
  shows "recovers_to s (log_writes s j @ dwrites s) (disk s 1)"
proof -
  note T = trans_okD [OF assms(1)] and F = trans_facts [OF assms(1)]
  let ?ws = "log_writes s j @ dwrites s"
  have sub: "{..<j} \<subseteq> {..<nat (lh_n s)}" using assms(3) by auto
  have dk: "disk_get (image s) ?ws 1 k = disk s 1 k" if "k \<notin> log_blk s ` {..<nat (lh_n s)}" for k
  proof -
    have "k \<notin> log_blk s ` {..<j}" using that subsetD [OF image_mono [OF sub]] by metis
    from disk_get_batch(1) [OF this] F(3) show ?thesis by (simp add: writes_batch)
  qed
  have len: "length (disk_get (image s) ?ws 1 k) = 512" for k
    unfolding writes_batch by (rule disk_get_batch_length) (use F(2) bcontent_length [OF T(1)] in auto)
  have sb: "1 \<notin> log_blk s ` {..<nat (lh_n s)}" "sb_logstart (parse_sb (disk s 1 1)) = log_start s"
    using F(8) [of 1] assms(2) by (auto simp: sb_ok_def)
  from crash_recovers [OF F(1) len T(3), of 0] dk [OF sb(1)] dk [OF F(6)] sb(2) T(5)
  obtain c where "initlog (crash s ?ws) 1 = Ok c" "trans_ok c" "lh_n c = 0" "log_region c = log_region s"
      "\<And>k. k \<notin> log_region s \<Longrightarrow> bcontent c k = disk_get (image s) ?ws 1 k" by auto
  with dk F(8) show ?thesis by (auto simp: recovers_to_def)
qed

lemma after_head:
  assumes "trans_ok s" "j \<le> nat (lh_n s)"
  defines "ws \<equiv> home_writes s j @ head_write s # log_writes s (nat (lh_n s)) @ dwrites s"
  shows "length (disk_get (image s) ws 1 k) = 512" "disk_get (image s) ws 1 (log_start s) = snd (head_write s)"
    "t < nat (lh_n s) \<Longrightarrow> disk_get (image s) ws 1 (log_blk s t) = bcontent s (lh_block s ! t)"
    "k \<notin> log_region s \<Longrightarrow> k \<notin> dirtyset s \<Longrightarrow> disk_get (image s) ws 1 k = bcontent s k"
    "j = nat (lh_n s) \<Longrightarrow> k \<notin> log_region s \<Longrightarrow> disk_get (image s) ws 1 k = bcontent s k"
proof -
  note T = trans_okD [OF assms(1)] and F = trans_facts [OF assms(1)]
  let ?n = "nat (lh_n s)" and ?home = "\<lambda>t. lh_block s ! t"
  have sub: "{..<j} \<subseteq> {..<?n}" using assms(2) by auto
  have hd: "head_write s = ((1, log_start s), snd (head_write s))" by (simp add: head_write_def)
  have dk1: "disk_get (image s) ws 1 k = (if k = log_start s then snd (head_write s)
      else disk_get (image s) (log_writes s ?n @ dwrites s) 1 k)" if "k \<notin> ?home ` {..<j}" for k
    unfolding ws_def writes_batch using disk_get_batch(1) [OF that] disk_get_Cons hd by metis
  have dk2: "disk_get (image s) ws 1 (?home t) = bcontent s (?home t)" if "t < j" for t
    unfolding ws_def writes_batch using disk_get_batch(2) [OF inj_on_subset [OF F(5) sub] that] by simp
  have out: "k \<notin> ?home ` {..<j}" if "k \<notin> ?home ` {..<?n}" for k
    using that subsetD [OF image_mono [OF sub]] by metis
  show "disk_get (image s) ws 1 (log_start s) = snd (head_write s)" using dk1 [OF out [OF F(7)]] by simp
  show "disk_get (image s) ws 1 (log_blk s t) = bcontent s (?home t)" if "t < ?n"
    using dk1 [OF out [OF F(10) [OF that]]] F(11) [OF that] disk_get_batch(2) [OF F(4) that] by (simp add: writes_batch)
  have "length (snd (head_write s)) = 512"
    using put_head_ok(1) [of "lh_n s"] T(3) bcontent_length [OF T(1)] by (auto simp: head_write_def log_ok_def)
  moreover have "length (disk_get (image s) (log_writes s ?n @ dwrites s) 1 k) = 512" for k
    unfolding writes_batch by (rule disk_get_batch_length) (use F(2) bcontent_length [OF T(1)] in auto)
  ultimately have "length (disk_get (image s) (head_write s # log_writes s ?n @ dwrites s) 1 k) = 512" for k
    by (subst hd) (simp add: disk_get_Cons)
  then show "length (disk_get (image s) ws 1 k) = 512"
    unfolding ws_def by (subst writes_batch(2)) (rule disk_get_batch_length, use bcontent_length [OF T(1)] in auto)
  show clean: "disk_get (image s) ws 1 k = bcontent s k" if "k \<notin> log_region s" "k \<notin> dirtyset s" for k
  proof -
    have "k \<notin> ?home ` {..<j}" "k \<noteq> log_start s" using that T(4) out by (auto simp: log_region_def)
    then show ?thesis
      using dk1 [of k] disk_get_batch(1) [OF F(8) [OF that(1)]] F(3) F(9) [OF that(2)] by (simp add: writes_batch)
  qed
  show "disk_get (image s) ws 1 k = bcontent s k" if "j = ?n" "k \<notin> log_region s"
    using clean [OF that(2)] dk2 that(1) T(4) by (cases "k \<in> dirtyset s") auto
qed

lemma crash_after:
  assumes "trans_ok s" "sb_ok s" "j \<le> nat (lh_n s)"
  shows "recovers_to s (home_writes s j @ head_write s # log_writes s (nat (lh_n s)) @ dwrites s) (bcontent s)"
proof -
  note T = trans_okD [OF assms(1)] and F = trans_facts [OF assms(1)] and A = after_head [OF assms(1,3)]
  let ?n = "nat (lh_n s)" and ?ws = "home_writes s j @ head_write s # log_writes s (nat (lh_n s)) @ dwrites s"
  have sb: "sb_logstart (parse_sb (disk_get (image s) ?ws 1 1)) = log_start s"
    using A(4) [of 1] F(9) [of 1] assms(2) by (simp add: sb_ok_def)
  have hd: "sint (get32 0 (snd (head_write s))) = int ?n" "t < ?n \<Longrightarrow> get32 (4 + 4 * t) (snd (head_write s)) = lh_block s ! t" for t
    using put_head_ok [of "lh_n s"] T(3) bcontent_length [OF T(1)] by (auto simp: head_write_def log_ok_def)
  from crash_recovers [OF F(1) A(1) T(3) sb, of ?n] hd A(2)
  obtain c where c: "initlog (crash s ?ws) 1 = Ok c" "trans_ok c" "lh_n c = 0" "log_region c = log_region s"
      "\<And>t. t < ?n \<Longrightarrow> bcontent c (lh_block s ! t) = disk_get (image s) ?ws 1 (log_blk s t)"
      "\<And>k. k \<notin> log_region s \<Longrightarrow> k \<notin> dirtyset s \<Longrightarrow> bcontent c k = disk_get (image s) ?ws 1 k"
    unfolding T(4) by auto
  have "bcontent c k = bcontent s k" if "k \<notin> log_region s" for k
    using c(5) A(3) c(6) [OF that] A(4) [OF that] T(4) by (cases "k \<in> dirtyset s") auto
  with c(1-4) show ?thesis by (auto simp: recovers_to_def)
qed

lemma crash_done:
  assumes "trans_ok s" "sb_ok s"
  shows "recovers_to s (clear_write s # home_writes s (nat (lh_n s)) @ head_write s # log_writes s (nat (lh_n s)) @ dwrites s) (bcontent s)"
proof -
  note T = trans_okD [OF assms(1)] and F = trans_facts [OF assms(1)] and A = after_head [OF assms(1) order_refl]
  let ?ws = "home_writes s (nat (lh_n s)) @ head_write s # log_writes s (nat (lh_n s)) @ dwrites s"
  have dk: "disk_get (image s) (clear_write s # ?ws) 1 k = (if k = log_start s then put32 0 0 (snd (head_write s)) else disk_get (image s) ?ws 1 k)" for k
    unfolding clear_write_def by (simp add: disk_get_Cons put_head_def)
  have len: "length (disk_get (image s) (clear_write s # ?ws) 1 k) = 512" for k
    using A(1) [of k] A(1) [of "log_start s"] A(2) by (simp add: dk)
  have s1: "1 \<notin> log_region s" "1 \<noteq> log_start s" "1 \<notin> dirtyset s" using assms(2) by (auto simp: sb_ok_def log_region_def)
  have sb: "sb_logstart (parse_sb (disk_get (image s) (clear_write s # ?ws) 1 1)) = log_start s"
    unfolding dk using A(4) [OF s1(1,3)] F(9) [OF s1(3)] s1(2) assms(2) by (simp add: sb_ok_def)
  have "length (snd (head_write s)) = 512" using A(1) [of "log_start s"] A(2) by simp
  with crash_recovers [OF F(1) len T(3) sb, of 0] dk [of "log_start s"]
  obtain c where c: "initlog (crash s (clear_write s # ?ws)) 1 = Ok c" "trans_ok c" "lh_n c = 0" "log_region c = log_region s"
      "\<And>k. k \<notin> log_region s \<Longrightarrow> bcontent c k = disk_get (image s) (clear_write s # ?ws) 1 k" by auto
  moreover have "disk_get (image s) (clear_write s # ?ws) 1 k = bcontent s k" if "k \<notin> log_region s" for k
    using A(5) [OF refl that] that by (auto simp: dk log_region_def)
  ultimately show ?thesis by (auto simp: recovers_to_def)
qed

end
