(* ===== verification/Txn.thy ===== *)
theory Txn
  imports Log
begin

text \<open>
  Block access inside a transaction. The file system reads and updates blocks in two patterns,
  bread-brelse and bread-change-log_write-brelse; \<open>read_block\<close> and \<open>modify_block\<close> name them, and
  their effect is stated on the logical contents \<open>bcontent\<close> of the blocks. The properties are the
  crash atomicity of \<^verbatim>\<open>end_op\<close> and the reservation rule of \<^verbatim>\<open>begin_op\<close>.
\<close>

section \<open>A state inside a transaction\<close>

definition in_txn :: "'a logst_scheme \<Rightarrow> bool" where
  "in_txn s \<longleftrightarrow> bio_wf s \<and> log_ok s \<and> log_size s = int LOGSIZE \<and>
     dirtyset s = set (take (nat (lh_n s)) (lh_block s)) \<and> get32 0 (disk s 1 (log_start s)) = 0"

lemma trans_in_txn: "in_txn s \<Longrightarrow> held s = {} \<Longrightarrow> trans_ok s"
  by (simp add: in_txn_def trans_ok_def)

lemma in_txn_trans: "trans_ok s \<Longrightarrow> log_size s = 30 \<Longrightarrow> in_txn s"
  by (simp add: in_txn_def trans_ok_def)

text \<open>The state above the log, and the log's own parameters, are not touched.\<close>

definition log_frame :: "'a logst_scheme \<Rightarrow> 'a logst_scheme \<Rightarrow> bool" where
  "log_frame s s' \<longleftrightarrow> image s' = image s \<and> dwrites s' = dwrites s \<and> log_start s' = log_start s \<and> log_size s' = log_size s \<and>
     outstanding s' = outstanding s \<and> committing s' = committing s \<and> log_dev s' = log_dev s \<and>
     havedisk1 s' = havedisk1 s \<and> logst.more s' = logst.more s"

lemma log_frame_refl [simp]: "log_frame s s"
  by (simp add: log_frame_def)

lemma log_frame_trans: "log_frame s s' \<Longrightarrow> log_frame s' s'' \<Longrightarrow> log_frame s s''"
  by (simp add: log_frame_def)

lemma log_frame_rest: "same_rest s s' \<Longrightarrow> dwrites s' = dwrites s \<Longrightarrow> log_frame s s'" for s :: "'a logst_scheme"
  using same_rest_log [of s s'] by (simp add: log_frame_def same_rest_def)

lemma log_frame_region:
  assumes "log_frame s s'"
  shows "log_region s' = log_region s" "disk s' = disk s"
proof -
  show "log_region s' = log_region s" using assms by (simp add: log_frame_def log_region_def log_blk_def)
  show "disk s' = disk s" using assms by (intro ext) (simp add: log_frame_def disk_def)
qed

lemma in_txn_rest:
  assumes "in_txn s" "bio_wf s'" "same_rest s s'" "dirtyset s' = dirtyset s" "dwrites s' = dwrites s"
  shows "in_txn s'"
proof -
  have "disk s' = disk s" using log_frame_region(2) [OF log_frame_rest [OF assms(3,5)]] .
  then show ?thesis using assms(1,2,4) log_ok_rest [OF assms(3)] same_rest_log [OF assms(3)] by (simp add: in_txn_def)
qed

lemma in_txn_card: "in_txn s \<Longrightarrow> int (card (dirtyset s)) = lh_n s"
  by (auto simp: in_txn_def log_ok_def distinct_card)

lemma take_upd_append: "n < length xs \<Longrightarrow> take (Suc n) (xs[n := x]) = take n xs @ [x]"
  by (simp add: take_Suc_conv_app_nth)

lemma log_write_ok:
  assumes "in_txn s" "owns s b n" "n \<notin> log_region s" "1 \<le> outstanding s" "lh_n s < 29"
  shows "\<exists>s'. log_write s b = Ok s' \<and> in_txn s' \<and> owns s' b n \<and> bcontent s' = bcontent s \<and> held s' = held s \<and>
    dirtyset s' = insert n (dirtyset s) \<and> log_frame s s'"
proof -
  have t: "bio_wf s" "log_ok s" "log_size s = 30" "dirtyset s = set (take (nat (lh_n s)) (lh_block s))"
    "get32 0 (disk s 1 (log_start s)) = 0" using assms(1) by (auto simp: in_txn_def)
  have l: "0 \<le> lh_n s" "length (lh_block s) = 30" using t(2) by (auto simp: log_ok_def)
  note o = owns_facts [OF t(1) assms(2)]
  let ?n = "nat (lh_n s)"
  define j where "j = (case first_idx (\<lambda>x. x = n) (take ?n (lh_block s)) of Some i \<Rightarrow> i | None \<Rightarrow> ?n)"
  define s1 where "s1 = s\<lparr>lh_block := (lh_block s)[j := n]\<rparr>"
  define s2 where "s2 = (if int j = lh_n s then s1\<lparr>lh_n := lh_n s + 1\<rparr> else s1)"
  have lw: "log_write s b = Ok (set_dirty s2 b)"
    using assms(4,5) t(3) o(3) l by (simp add: log_write_def Let_def j_def s1_def s2_def)
  have v: "bio_wf s2" "owns s2 b n" "bcontent s2 = bcontent s" "held s2 = held s" "dirtyset s2 = dirtyset s" "disk s2 = disk s"
    using t(1) assms(2) by (simp_all add: s2_def s1_def)
  note sd = set_dirty_ok [OF v(1,2)]
  have fr: "log_frame s (set_dirty s2 b)"
    by (simp add: log_frame_def s2_def s1_def set_dirty_def upd_buf_def)
  have keep: "log_start (set_dirty s2 b) = log_start s2" "lh_n (set_dirty s2 b) = lh_n s2" "lh_block (set_dirty s2 b) = lh_block s2"
    "log_dev (set_dirty s2 b) = log_dev s" "log_start s2 = log_start s"
    by (simp_all add: set_dirty_def upd_buf_def s2_def s1_def)
  have tk: "take (nat (lh_n s2)) (lh_block s2) = (if n \<in> dirtyset s then take ?n (lh_block s) else take ?n (lh_block s) @ [n])
     \<and> lh_n s2 = (if n \<in> dirtyset s then lh_n s else lh_n s + 1) \<and> length (lh_block s2) = 30"
  proof (cases "n \<in> dirtyset s")
    case True
    then obtain i where i: "first_idx (\<lambda>x. x = n) (take ?n (lh_block s)) = Some i"
      using t(4) by (cases "first_idx (\<lambda>x. x = n) (take ?n (lh_block s))") (auto simp: first_idx_None)
    from first_idx_SomeD [OF i] have "i < ?n" "lh_block s ! i = n" by auto
    with i True l show ?thesis by (auto simp: j_def s1_def s2_def)
  next
    case False
    then have "first_idx (\<lambda>x. x = n) (take ?n (lh_block s)) = None" using t(4) by (auto simp: first_idx_None)
    then have "j = ?n" by (simp add: j_def)
    with False l assms(5) show ?thesis by (simp add: s1_def s2_def nat_add_distrib take_upd_append)
  qed
  have dirty: "dirtyset (set_dirty s2 b) = set (take (nat (lh_n s2)) (lh_block s2))"
    using sd(5) v(5) tk t(4) by auto
  have ok: "log_ok (set_dirty s2 b)"
    unfolding log_ok_def keep
  proof (intro conjI)
    show "distinct (take (nat (lh_n s2)) (lh_block s2))" using tk t(2,4) by (auto simp: log_ok_def)
    show "\<forall>k\<in>set (take (nat (lh_n s2)) (lh_block s2)). k < 1000 \<and> k \<notin> log_region (set_dirty s2 b)"
      using tk t(2) o(7) assms(3) log_frame_region(1) [OF fr] by (auto simp: log_ok_def split: if_splits)
  qed (use t(2) tk assms(5) keep(5) in \<open>auto simp: log_ok_def split: if_splits\<close>)
  have "in_txn (set_dirty s2 b)"
    unfolding in_txn_def using sd(1) ok dirty t(3,5) keep sd(6) v(6) fr by (simp add: log_frame_def)
  with lw sd v fr show ?thesis by (auto simp: fun_eq_iff)
qed

section \<open>Reading and updating a block\<close>

definition read_block :: "'a logst_scheme \<Rightarrow> u32 \<Rightarrow> u32 \<Rightarrow> (block \<times> 'a logst_scheme) outcome" where
  "read_block s dev n =
     andThen (bread s dev n)
       (\<lambda>(bp, s). let d = b_data (bufs s ! bp) in andThen (brelse s bp) (\<lambda>s. Ok (d, s)))"

definition modify_block :: "'a logst_scheme \<Rightarrow> u32 \<Rightarrow> u32 \<Rightarrow> (block \<Rightarrow> block) \<Rightarrow> 'a logst_scheme outcome" where
  "modify_block s dev n f =
     andThen (bread s dev n)
       (\<lambda>(bp, s). andThen (log_write (set_data s bp (f (b_data (bufs s ! bp)))) bp) (\<lambda>s. brelse s bp))"

text \<open>There is a buffer for block \<open>n\<close>.\<close>

definition avail :: "'a bio_scheme \<Rightarrow> u32 \<Rightarrow> bool" where
  "avail s n \<longleftrightarrow> n < FSSIZE \<and> n \<notin> held s \<and> (n \<in> dirtyset s \<or> card (held s \<union> dirtyset s) < NBUF)"

lemma read_block_ok:
  assumes "in_txn s" "avail s n"
  shows "\<exists>s'. read_block s 1 n = Ok (bcontent s n, s') \<and> in_txn s' \<and> bcontent s' = bcontent s \<and> held s' = held s \<and>
    dirtyset s' = dirtyset s \<and> log_frame s s'"
proof -
  have wf: "bio_wf s" and a: "n < 1000" "n \<notin> held s" "n \<in> dirtyset s \<or> card (held s \<union> dirtyset s) < 30"
    using assms by (auto simp: in_txn_def avail_def)
  obtain b s1 s2 where r: "bread s 1 n = Ok (b, s1)" "b_data (bufs s1 ! b) = bcontent s n" "brelse s1 b = Ok s2" "bio_wf s2"
      "bcontent s2 = bcontent s" "held s2 = held s" "dirtyset s2 = dirtyset s" "disk s2 = disk s" "dwrites s2 = dwrites s"
      "same_rest s s2" "same_rest s s1"
    by (rule read_release_ok [OF wf a])
  with in_txn_rest [OF assms(1) r(4,10,7,9)] log_frame_rest [OF r(10,9)] show ?thesis by (simp add: read_block_def)
qed

lemma bread_in_txn:
  assumes "in_txn s" "avail s n"
  shows "\<exists>b s'. bread s 1 n = Ok (b, s') \<and> in_txn s' \<and> owns s' b n \<and> b_data (bufs s' ! b) = bcontent s n \<and>
    bcontent s' = bcontent s \<and> held s' = insert n (held s) \<and> dirtyset s' = dirtyset s \<and> log_frame s s' \<and>
    (\<forall>m. settled s' m = settled s m)"
proof -
  have wf: "bio_wf s" and a: "n < 1000" "n \<notin> held s" "n \<in> dirtyset s \<or> card (held s \<union> dirtyset s) < 30"
    using assms by (auto simp: in_txn_def avail_def)
  obtain b s' where r: "bread s 1 n = Ok (b, s')" by (rule bread_total [OF wf a])
  note o = bread_ok [OF wf r]
  have e: "same_rest s s'" "dwrites s' = dwrites s"
    using o(9) same_rest_updates(1) by blast (subst o(9), simp)
  show ?thesis
    using r in_txn_rest [OF assms(1) o(1) e(1) o(6) e(2)] o log_frame_rest [OF e] by (auto simp: fun_eq_iff settled_def)
qed

lemma set_data_in_txn:
  assumes "in_txn s" "owns s b n" "length d = 512"
  shows "in_txn (set_data s b d)" "owns (set_data s b d) b n" "bcontent (set_data s b d) = (bcontent s)(n := d)"
    "held (set_data s b d) = held s" "dirtyset (set_data s b d) = dirtyset s" "log_frame s (set_data s b d)"
    "outstanding (set_data s b d) = outstanding s" "lh_n (set_data s b d) = lh_n s"
proof -
  have wf: "bio_wf s" using assms(1) by (simp add: in_txn_def)
  note sd = set_data_ok [OF wf assms(2,3)]
  have "same_rest s (set_data s b d)" "dwrites (set_data s b d) = dwrites s"
    by (rule same_rest_updates(4)) (simp add: set_data_def)
  with in_txn_rest [OF assms(1) sd(1) _ sd(5)] sd log_frame_rest
  show "in_txn (set_data s b d)" "owns (set_data s b d) b n" "bcontent (set_data s b d) = (bcontent s)(n := d)"
    "held (set_data s b d) = held s" "dirtyset (set_data s b d) = dirtyset s" "log_frame s (set_data s b d)"
    by (auto simp: fun_eq_iff)
qed (simp_all add: set_data_def upd_buf_def)

lemma brelse_in_txn:
  assumes "in_txn s" "owns s b n" "n \<in> dirtyset s \<or> bcontent s n = disk s 1 n"
  shows "\<exists>s'. brelse s b = Ok s' \<and> in_txn s' \<and> bcontent s' = bcontent s \<and> held s' = held s - {n} \<and>
    dirtyset s' = dirtyset s \<and> log_frame s s'"
proof -
  have wf: "bio_wf s" using assms(1) by (simp add: in_txn_def)
  obtain s' where s': "brelse s b = Ok s'" "bio_wf s'" "\<And>k. bcontent s' k = bcontent s k"
      "held s' = held s - {n}" "dirtyset s' = dirtyset s" "disk s' = disk s" "s' = s\<lparr>bufs := bufs s', lru := lru s'\<rparr>"
    using brelse_ok [OF wf assms(2,3)] by blast
  have e: "same_rest s s'" "dwrites s' = dwrites s"
    by (rule same_rest_updates(3) [OF s'(7)]) (subst s'(7), simp)
  show ?thesis using s' in_txn_rest [OF assms(1) s'(2) e(1) s'(5) e(2)] log_frame_rest [OF e] by (auto simp: fun_eq_iff)
qed

lemma modify_block_ok:
  assumes "in_txn s" "avail s n" "n \<notin> log_region s" "1 \<le> outstanding s" "lh_n s < 29"
    "length (f (bcontent s n)) = 512"
  shows "\<exists>s'. modify_block s 1 n f = Ok s' \<and> in_txn s' \<and> bcontent s' = (bcontent s)(n := f (bcontent s n)) \<and> held s' = held s \<and>
    dirtyset s' = insert n (dirtyset s) \<and> log_frame s s'"
proof -
  obtain b s1 where r: "bread s 1 n = Ok (b, s1)" "in_txn s1" "owns s1 b n" "b_data (bufs s1 ! b) = bcontent s n"
      "bcontent s1 = bcontent s" "held s1 = insert n (held s)" "dirtyset s1 = dirtyset s" "log_frame s s1"
    using bread_in_txn [OF assms(1,2)] by blast
  let ?d = "f (bcontent s n)"
  note sd = set_data_in_txn [OF r(2,3) assms(6)]
  have "lh_n s1 = lh_n s" using in_txn_card [OF r(2)] in_txn_card [OF assms(1)] r(7) by simp
  moreover have "n \<notin> log_region (set_data s1 b ?d)"
    using assms(3) log_frame_region(1) [OF r(8)] log_frame_region(1) [OF sd(6)] by simp
  moreover have "1 \<le> outstanding (set_data s1 b ?d)" using assms(4) r(8) sd(7) by (simp add: log_frame_def)
  ultimately obtain s2 where s2: "log_write (set_data s1 b ?d) b = Ok s2" "in_txn s2" "owns s2 b n"
      "bcontent s2 = bcontent (set_data s1 b ?d)" "held s2 = held (set_data s1 b ?d)"
      "dirtyset s2 = insert n (dirtyset (set_data s1 b ?d))" "log_frame (set_data s1 b ?d) s2"
    using log_write_ok [OF sd(1,2)] sd(8) assms(5) by auto
  obtain s3 where s3: "brelse s2 b = Ok s3" "in_txn s3" "bcontent s3 = bcontent s2" "held s3 = held s2 - {n}"
      "dirtyset s3 = dirtyset s2" "log_frame s2 s3"
    using brelse_in_txn [OF s2(2,3)] s2(6) by auto
  have "log_frame s s3" using log_frame_trans [OF log_frame_trans [OF log_frame_trans [OF r(8) sd(6)] s2(7)] s3(6)] .
  moreover have "n \<notin> held s" using assms(2) by (simp add: avail_def)
  ultimately show ?thesis using r s2 s3 sd by (auto simp: modify_block_def)
qed

text \<open>Buffers that somebody holds keep their owner and their data while others are used.\<close>

definition keeps :: "'a bio_scheme \<Rightarrow> 'a bio_scheme \<Rightarrow> bool" where
  "keeps s s' \<longleftrightarrow> (\<forall>b m. owns s b m \<longrightarrow> owns s' b m \<and> bufs s' ! b = bufs s ! b)"

lemma keeps_refl [simp]: "keeps s s"
  by (simp add: keeps_def)

lemma keeps_trans: "keeps s s' \<Longrightarrow> keeps s' s'' \<Longrightarrow> keeps s s''"
  unfolding keeps_def by metis

lemma bread_keeps:
  assumes "in_txn s" "bread s 1 n = Ok (b, s')"
  shows "keeps s s'" "owns s c m \<Longrightarrow> c \<noteq> b"
proof -
  have wf: "bio_wf s" using assms(1) by (simp add: in_txn_def)
  have ne: "c \<noteq> b" if "owns s c m" for c m
    using wf assms(2) by (cases rule: bread_cases) (use that in \<open>auto simp: owns_def\<close>)
  have "bufs s' ! c = bufs s ! c" if "c \<noteq> b" for c
    using wf assms(2) by (cases rule: bread_cases) (use that in auto)
  with ne show "keeps s s'" using owns_cong unfolding keeps_def by blast
  show "owns s c m \<Longrightarrow> c \<noteq> b" by (rule ne)
qed

lemma keeps_other:
  assumes "keeps s s1" "\<And>c m. owns s c m \<Longrightarrow> c \<noteq> b" "\<And>c. c \<noteq> b \<Longrightarrow> bufs s2 ! c = bufs s1 ! c"
  shows "keeps s s2"
  unfolding keeps_def using assms owns_cong unfolding keeps_def by metis

lemma log_write_other: "log_write s b = Ok s' \<Longrightarrow> c \<noteq> b \<Longrightarrow> bufs s' ! c = bufs s ! c"
  by (auto simp: log_write_def Let_def set_dirty_def upd_buf_def split: if_splits)

lemma logged_other:
  assumes "log_write (set_data s b d) b = Ok s2" "brelse s2 b = Ok s3" "c \<noteq> b"
  shows "bufs s3 ! c = bufs s ! c"
  using log_write_other [OF assms(1,3)] buf_ops_other(1) [OF assms(3)] buf_ops_other(4) [OF assms(3,2)] by simp

lemma block_ops_keep:
  assumes "in_txn s"
  shows "read_block s 1 n = Ok (d, s') \<Longrightarrow> keeps s s'" "modify_block s 1 n f = Ok s' \<Longrightarrow> keeps s s'"
proof -
  show "keeps s s'" if "read_block s 1 n = Ok (d, s')"
  proof -
    from that obtain b s1 where r: "bread s 1 n = Ok (b, s1)" "brelse s1 b = Ok s'" by (auto simp: read_block_def Let_def)
    show ?thesis by (rule keeps_other [OF bread_keeps [OF assms r(1)] buf_ops_other(4) [OF _ r(2)]])
  qed
  show "keeps s s'" if "modify_block s 1 n f = Ok s'"
  proof -
    from that obtain b s1 s2 where r: "bread s 1 n = Ok (b, s1)" "log_write (set_data s1 b (f (b_data (bufs s1 ! b)))) b = Ok s2" "brelse s2 b = Ok s'"
      by (auto simp: modify_block_def)
    show ?thesis by (rule keeps_other [OF bread_keeps [OF assms r(1)] logged_other [OF r(2,3)]])
  qed
qed

section \<open>Commit\<close>

lemma bio_op_update [simp]:
  fixes s :: "'a logst_scheme"
  shows "bio_wf (s\<lparr>outstanding := x\<rparr>) = bio_wf s" "bcontent (s\<lparr>outstanding := x\<rparr>) = bcontent s"
    "held (s\<lparr>outstanding := x\<rparr>) = held s" "dirtyset (s\<lparr>outstanding := x\<rparr>) = dirtyset s" "disk (s\<lparr>outstanding := x\<rparr>) = disk s"
    "bio_wf (s\<lparr>committing := y\<rparr>) = bio_wf s" "bcontent (s\<lparr>committing := y\<rparr>) = bcontent s"
    "held (s\<lparr>committing := y\<rparr>) = held s" "dirtyset (s\<lparr>committing := y\<rparr>) = dirtyset s" "disk (s\<lparr>committing := y\<rparr>) = disk s"
  by (rule bio_view_cong; simp)+

lemma log_op_update [simp]:
  "log_region (s\<lparr>outstanding := x\<rparr>) = log_region s" "log_region (s\<lparr>committing := y\<rparr>) = log_region s"
  "log_ok (s\<lparr>outstanding := x\<rparr>) = log_ok s" "log_ok (s\<lparr>committing := y\<rparr>) = log_ok s"
  "in_txn (s\<lparr>outstanding := x\<rparr>) = in_txn s" "in_txn (s\<lparr>committing := y\<rparr>) = in_txn s"
  "trans_ok (s\<lparr>outstanding := x\<rparr>) = trans_ok s" "trans_ok (s\<lparr>committing := y\<rparr>) = trans_ok s"
  by (simp_all add: log_region_def log_blk_def log_ok_def in_txn_def trans_ok_def)

text \<open>The disk writes of a commit; none when nothing was logged.\<close>

definition commit_writes :: "'a logst_scheme \<Rightarrow> disk_write list" where
  "commit_writes s = (if lh_n s > 0 then clear_write s # home_writes s (nat (lh_n s)) @ head_write s # log_writes s (nat (lh_n s)) else [])"

lemma end_op_ok:
  assumes "trans_ok s" "outstanding s = 1" "\<not> committing s"
  shows "\<exists>s'. end_op s = Ok s' \<and> bio_wf s' \<and> held s' = {} \<and> dirtyset s' = {} \<and> lh_n s' = 0 \<and> outstanding s' = 0 \<and>
    \<not> committing s' \<and> (\<forall>k. k \<notin> log_region s \<longrightarrow> bcontent s' k = bcontent s k) \<and> logst.more s' = logst.more s \<and>
    log_start s' = log_start s \<and> log_size s' = log_size s \<and> log_dev s' = log_dev s \<and> lh_block s' = lh_block s \<and>
    dwrites s' = commit_writes s @ dwrites s \<and> image s' = image s"
proof (cases "0 < lh_n s")
  case True
  let ?s = "s\<lparr>outstanding := 0, committing := True\<rparr>"
  have cw: "clear_write ?s = clear_write s" "home_writes ?s = home_writes s" "head_write ?s = head_write s" "log_writes ?s = log_writes s"
    by (simp_all add: clear_write_def home_writes_def head_write_def log_writes_def log_blk_def fun_eq_iff)
  obtain s1 where s1: "commit ?s = Ok s1" "bio_wf s1" "held s1 = {}" "dirtyset s1 = {}"
      "\<And>k. k \<notin> log_region s \<Longrightarrow> bcontent s1 k = bcontent s k" "same_rest (?s\<lparr>lh_n := 0\<rparr>) s1"
      "dwrites s1 = commit_writes s @ dwrites s"
    using commit_ok [of ?s] True assms(1) by (auto simp: cw commit_writes_def)
  note e = same_rest_log [OF s1(6)]
  have "end_op s = Ok (s1\<lparr>committing := False\<rparr>)" using assms s1(1) by (simp add: end_op_def)
  moreover have "image s1 = image s" using s1(6) by (simp add: same_rest_def)
  ultimately show ?thesis using s1 e by simp
next
  case False
  note T = trans_okD [OF assms(1)]
  have n: "lh_n s = 0" using False T(3) by (simp add: log_ok_def)
  have "end_op s = Ok (s\<lparr>outstanding := 0, committing := False\<rparr>)"
    using assms n by (simp add: end_op_def commit_def)
  then show ?thesis using T n assms by (simp add: commit_writes_def)
qed

lemma commit_prefix:
  assumes "trans_ok s" "sb_ok s" "m \<le> length (commit_writes s)"
  shows "recovers_to s (drop m (commit_writes s) @ dwrites s) (disk s 1) \<or>
    recovers_to s (drop m (commit_writes s) @ dwrites s) (bcontent s)"
proof (cases "0 < lh_n s")
  case False
  then have "commit_writes s = []" by (simp add: commit_writes_def)
  then show ?thesis using crash_before [OF assms(1,2), of 0] by (simp add: log_writes_def)
next
  case True
  let ?n = "nat (lh_n s)"
  have len: "length (home_writes s j) = j" "length (log_writes s j) = j" for j by (simp_all add: home_writes_def log_writes_def)
  have cw: "commit_writes s = clear_write s # home_writes s ?n @ head_write s # log_writes s ?n" using True by (simp add: commit_writes_def)
  have "m \<le> 2 * ?n + 2" using assms(3) unfolding cw by (simp add: len)
  then consider "m = 0" | "0 < m" "m \<le> Suc ?n" | "Suc ?n < m" by linarith
  then show ?thesis
  proof cases
    case 1
    then show ?thesis using crash_done [OF assms(1,2)] cw by simp
  next
    case 2
    then obtain k where k: "m = Suc k" "k \<le> ?n" by (cases m) auto
    then have "drop m (commit_writes s) = home_writes s (?n - k) @ head_write s # log_writes s ?n"
      unfolding cw by (simp add: writes_batch drop_batch)
    then show ?thesis using crash_after [OF assms(1,2), of "?n - k"] by simp
  next
    case 3
    then obtain k where k: "m = Suc (Suc ?n + k)" using less_imp_Suc_add by blast
    then have "drop m (commit_writes s) = log_writes s (?n - k)"
      unfolding cw by (simp add: writes_batch drop_batch batch_def [of _ _ 0])
    then show ?thesis using crash_before [OF assms(1,2), of "?n - k"] by simp
  qed
qed

text \<open>C27: Commit is atomic. When the last operation of a transaction ends, \<^verbatim>\<open>end_op\<close> returns with every
  block outside the log on the disk as the transaction left it in the cache. If power fails after any
  number of the disk writes it performs, and the machine restarts and runs \<^verbatim>\<open>initlog\<close>, then recovery
  succeeds and the disk outside the log is either exactly as before the transaction or exactly as
  after it.\<close>

theorem log_commit_atomic:
  assumes "trans_ok s" "sb_ok s" "outstanding s = 1" "\<not> committing s"
  shows "\<exists>s'. end_op s = Ok s' \<and> (\<forall>k. k \<notin> log_region s \<longrightarrow> disk s' 1 k = bcontent s k) \<and>
    (\<forall>m\<le>length (dwrites s') - length (dwrites s). \<exists>c. initlog (crash s (drop m (dwrites s'))) 1 = Ok c \<and>
       trans_ok c \<and> lh_n c = 0 \<and>
       ((\<forall>k. k \<notin> log_region s \<longrightarrow> bcontent c k = disk s 1 k) \<or> (\<forall>k. k \<notin> log_region s \<longrightarrow> bcontent c k = bcontent s k)))"
proof -
  obtain s' where s': "end_op s = Ok s'" "bio_wf s'" "held s' = {}" "dirtyset s' = {}"
      "\<And>k. k \<notin> log_region s \<Longrightarrow> bcontent s' k = bcontent s k" "dwrites s' = commit_writes s @ dwrites s"
    using end_op_ok [OF assms(1,3,4)] by blast
  have "bcontent s' k = disk s' 1 k" for k using settled_unheld [OF s'(2)] s'(3,4) by (simp add: settled_def)
  then have d: "disk s' 1 k = bcontent s k" if "k \<notin> log_region s" for k using s'(5) [OF that] by simp
  have "recovers_to s (drop m (dwrites s')) (disk s 1) \<or> recovers_to s (drop m (dwrites s')) (bcontent s)"
    if "m \<le> length (dwrites s') - length (dwrites s)" for m
    using commit_prefix [OF assms(1,2), of m] that s'(6) by simp
  then show ?thesis using s'(1) d unfolding recovers_to_def by blast
qed

lemma binit_in_txn:
  assumes "havedisk1 s" "\<And>n. length (disk s 1 n) = 512" "log_dev s = 1" "length (lh_block s) = 30" "lh_n s = 0" "log_size s = 30"
    "unat (log_start s) + 30 \<le> 1000" "get32 0 (disk s 1 (log_start s)) = 0"
  shows "in_txn (binit s)" "held (binit s) = {}" "dirtyset (binit s) = {}" "bcontent (binit s) = disk s 1" "disk (binit s) = disk s"
proof -
  note b = binit_wf [OF assms(1,2)]
  show dk: "disk (binit s) = disk s" by (simp add: binit_def)
  show "held (binit s) = {}" "dirtyset (binit s) = {}" by (rule b(3,4))+
  show "bcontent (binit s) = disk s 1" using b(5) by (simp add: fun_eq_iff)
  have l: "log_dev (binit s) = 1" "length (lh_block (binit s)) = 30" "lh_n (binit s) = 0" "log_size (binit s) = 30" "log_start (binit s) = log_start s"
    using assms by (simp_all add: binit_def)
  then show "in_txn (binit s)" using b(1,4) assms(7,8) dk by (simp add: in_txn_def log_ok_def)
qed

text \<open>A freshly made disk: a super block with the log at block 2, all other blocks zero; one operation
  has begun.\<close>

definition demo_log :: logst where
  "demo_log = binit \<lparr>image = (\<lambda>d n. if n = 1 then put32 16 2 (put32 12 30 (replicate BSIZE 0)) else replicate BSIZE 0),
     dwrites = [], havedisk1 = True, bufs = [], lru = [], log_start = 2, log_size = 30, outstanding = 1, committing = False,
     log_dev = 1, lh_n = 0, lh_block = replicate LOGSIZE 0\<rparr>"

lemma demo_log_facts:
  "in_txn demo_log" "held demo_log = {}" "dirtyset demo_log = {}" "outstanding demo_log = 1" "\<not> committing demo_log"
  "lh_n demo_log = 0" "log_region demo_log = insert 2 ((\<lambda>i. 3 + of_nat i) ` {..<29})"
  "disk demo_log 1 k = (if k = 1 then put32 16 2 (put32 12 30 (replicate 512 0)) else replicate 512 0)"
  "bcontent demo_log k = disk demo_log 1 k"
proof -
  define d where "d = \<lparr>image = (\<lambda>d n. if n = 1 then put32 16 2 (put32 12 30 (replicate 512 0)) else replicate 512 0),
     dwrites = [], havedisk1 = True, bufs = [], lru = [], log_start = 2 :: u32, log_size = 30, outstanding = 1, committing = False,
     log_dev = 1, lh_n = 0, lh_block = replicate 30 0\<rparr>"
  have dk: "disk d 1 k = (if k = 1 then put32 16 2 (put32 12 30 (replicate 512 0)) else replicate 512 0)" for k
    by (simp add: d_def disk_def disk_get_def)
  have "length (disk d 1 k) = 512" for k unfolding dk by simp
  note b = binit_wf [of d, OF _ this]
  have dd: "demo_log = binit d" by (simp add: demo_log_def d_def)
  show "held demo_log = {}" "dirtyset demo_log = {}" using b(3,4) by (simp_all add: dd d_def)
  have ddk: "disk demo_log = disk d" by (simp add: dd binit_def)
  show "disk demo_log 1 k = (if k = 1 then put32 16 2 (put32 12 30 (replicate 512 0)) else replicate 512 0)"
    unfolding ddk by (rule dk)
  show "bcontent demo_log k = disk demo_log 1 k" using b(5) [of k] ddk by (simp add: dd d_def)
  show f: "outstanding demo_log = 1" "\<not> committing demo_log" "lh_n demo_log = 0" by (simp_all add: demo_log_def binit_def)
  have g: "log_start demo_log = 2" "log_size demo_log = 30" "log_dev demo_log = 1" "length (lh_block demo_log) = 30"
    by (simp_all add: demo_log_def binit_def)
  show "log_region demo_log = insert 2 ((\<lambda>i. 3 + of_nat i) ` {..<29})"
    by (simp add: log_region_def log_blk_def g add.commute add.left_commute)
  have "bio_wf demo_log" using b(1) by (simp add: dd d_def)
  moreover have "get32 0 (replicate 512 0) = 0" by (simp add: get32_def word32_def get_bytes_def)
  ultimately show "in_txn demo_log"
    using f g b(4) by (simp add: in_txn_def log_ok_def ddk dk, simp add: dd d_def)
qed

lemma demo_logged:
  "\<exists>s. modify_block demo_log 1 100 (\<lambda>_. replicate 512 7) = Ok s \<and> trans_ok s \<and> sb_ok s \<and> outstanding s = 1 \<and> \<not> committing s \<and>
     bcontent s 100 = replicate 512 7 \<and> disk s 1 100 = replicate 512 0 \<and> 100 \<notin> log_region s"
proof -
  note d = demo_log_facts
  have out: "k \<notin> log_region demo_log" if "k \<noteq> 2" "k < 3 \<or> 32 \<le> k" for k
    using that unfolding d(7) by (auto simp: word_less_nat_alt word_le_nat_alt unat_word_ariths unat_of_nat)
  have "avail demo_log 100" using d(2,3) by (simp add: avail_def)
  from modify_block_ok [OF d(1) this out, of "\<lambda>_. replicate 512 7"] d
  obtain s where s: "modify_block demo_log 1 100 (\<lambda>_. replicate 512 7) = Ok s" "in_txn s"
      "bcontent s = (bcontent demo_log)(100 := replicate 512 7)" "held s = {}" "dirtyset s = {100}" "log_frame demo_log s"
    by auto
  note fr = log_frame_region [OF s(6)]
  have "sb_logstart (parse_sb (disk s 1 1)) = 2" using d(8) [of 1] fr(2) by (simp add: parse_sb_def)
  moreover have "log_start s = 2" using s(6) by (simp add: log_frame_def demo_log_def binit_def)
  ultimately have "sb_ok s" using s(5) fr(1) out [of 1] by (simp add: sb_ok_def)
  then show ?thesis
    using s trans_in_txn [OF s(2,4)] d(4,5) fr d(8) [of 100] out [of 100] by (auto simp: log_frame_def)
qed

theorem log_commit_atomic_witness:
  "\<exists>s s'. modify_block demo_log 1 100 (\<lambda>_. replicate 512 7) = Ok s \<and> end_op s = Ok s' \<and> disk s 1 100 = replicate 512 0 \<and>
     disk s' 1 100 = replicate 512 7 \<and>
     (\<forall>m\<le>length (dwrites s') - length (dwrites s). \<exists>c. initlog (crash s (drop m (dwrites s'))) 1 = Ok c \<and>
        (bcontent c 100 = replicate 512 0 \<or> bcontent c 100 = replicate 512 7))"
proof -
  obtain s where s: "modify_block demo_log 1 100 (\<lambda>_. replicate 512 7) = Ok s" "trans_ok s" "sb_ok s" "outstanding s = 1" "\<not> committing s"
     "bcontent s 100 = replicate 512 7" "disk s 1 100 = replicate 512 0" "100 \<notin> log_region s" using demo_logged by blast
  show ?thesis using log_commit_atomic [OF s(2-5)] s(1,6-8) by metis
qed

end
