(* ===== verification/Numerals.thy ===== *)
theory Numerals
  imports Prelude
begin

text \<open>
  Printing and reading of numbers: the digit loop of \<^verbatim>\<open>printint\<close> (console.c and, with capital
  digits, printf.c), \<^verbatim>\<open>itoa\<close> of fs.c, which names the swap files, and \<^verbatim>\<open>atoi\<close> of ulib.c. Buffers are
  byte lists of their declared size; a write outside a buffer is a \<^verbatim>\<open>Fault\<close>.
\<close>

section \<open>printint\<close>

definition lower_digits :: "byte list" where
  "lower_digits = str ''0123456789abcdef''"

definition upper_digits :: "byte list" where
  "upper_digits = str ''0123456789ABCDEF''"

text \<open>The digit loop fills \<open>buf\<close> from the least significant digit; \<open>k\<close> slots of it are left.\<close>

fun digit_loop :: "byte list \<Rightarrow> nat \<Rightarrow> u32 \<Rightarrow> u32 \<Rightarrow> byte list outcome" where
  "digit_loop digs 0 x base = Fault ''printint: write outside buf''"
| "digit_loop digs (Suc k) x base =
     (let d = digs ! unat (x mod base); x' = x div base
      in if x' \<noteq> 0 then andThen (digit_loop digs k x' base) (\<lambda>r. Ok (d # r)) else Ok [d])"

definition printint_buf :: "byte list \<Rightarrow> u32 \<Rightarrow> u32 \<Rightarrow> bool \<Rightarrow> byte list outcome" where
  "printint_buf digs xx base sign =
     (let neg = (sign \<and> sint xx < 0); x = (if neg then - xx else xx)
      in andThen (digit_loop digs 16 x base)
           (\<lambda>buf. if neg then if length buf \<ge> 16 then Fault ''printint: write outside buf'' else Ok (buf @ [ch CHR ''-''])
                  else Ok buf))"

section \<open>itoa\<close>

function itoa_end :: "nat \<Rightarrow> nat \<Rightarrow> nat" where
  "itoa_end p shifter = (let p = p + 1; shifter = shifter div 10 in if shifter \<noteq> 0 then itoa_end p shifter else p)"
  by pat_completeness auto
termination by (relation "measure snd") auto

function itoa_fill :: "nat \<Rightarrow> nat \<Rightarrow> byte list \<Rightarrow> byte list" where
  "itoa_fill p i b =
     (let p = p - 1; b = b[p := lower_digits ! (i mod 10)]; i = i div 10
      in if i \<noteq> 0 then itoa_fill p i b else b)"
  by pat_completeness auto
termination by (relation "measure (\<lambda>(p, i, b). i)") auto

declare itoa_end.simps [simp del] itoa_fill.simps [simp del]

text \<open>Negation of an \<^verbatim>\<open>int\<close> wraps around, here as in \<^verbatim>\<open>printint\<close>. There the result is read as unsigned and right;
  here the most negative number stays negative and its last digit is looked up at a negative index.\<close>

definition itoa :: "int \<Rightarrow> byte list \<Rightarrow> byte list outcome" where
  "itoa i b =
     (if i = - (2 ^ 31) then Fault ''itoa: digit index below 0''
      else
        let p = (if i < 0 then 1 else 0);
            b' = (if i < 0 then b[0 := ch CHR ''-''] else b);
            i' = nat \<bar>i\<bar>;
            e = itoa_end p i'
        in if e \<ge> length b then Fault ''itoa: write outside the buffer''
           else Ok (itoa_fill e i' (b'[e := 0])))"

section \<open>atoi\<close>

text \<open>The string is read up to its end, where the C string has its zero.\<close>

fun atoi_loop :: "u32 \<Rightarrow> byte list \<Rightarrow> u32" where
  "atoi_loop n [] = n"
| "atoi_loop n (c # s) =
     (if ch CHR ''0'' \<le> c \<and> c \<le> ch CHR ''9'' then atoi_loop (n * 10 + ucast c - ucast (ch CHR ''0'')) s else n)"

definition atoi :: "byte list \<Rightarrow> u32" where
  "atoi s = atoi_loop 0 s"

section \<open>Numerals and their value\<close>

text \<open>The numeral of a number in base \<open>b\<close>, most significant digit first, and the value of one.\<close>

function numeral_of :: "nat \<Rightarrow> nat \<Rightarrow> nat list" where
  "numeral_of b n = (if b < 2 \<or> n < b then [n] else numeral_of b (n div b) @ [n mod b])"
  by pat_completeness auto
termination by (relation "measure snd") auto

declare numeral_of.simps [simp del]

definition numeral_value :: "nat \<Rightarrow> nat list \<Rightarrow> nat" where
  "numeral_value b ds = foldl (\<lambda>a d. a * b + d) 0 ds"

lemma numeral_of_value: "2 \<le> b \<Longrightarrow> numeral_value b (numeral_of b n) = n"
proof (induction b n rule: numeral_of.induct)
  case (1 b n)
  then show ?case by (subst numeral_of.simps) (auto simp: numeral_value_def)
qed

lemma numeral_of_digits: "2 \<le> b \<Longrightarrow> d \<in> set (numeral_of b n) \<Longrightarrow> d < b"
proof (induction b n rule: numeral_of.induct)
  case (1 b n)
  have "0 < b" using 1(2) by simp
  with 1 show ?case by (subst (asm) numeral_of.simps) (auto split: if_splits)
qed

lemma numeral_of_nonempty: "numeral_of b n \<noteq> []"
  by (subst numeral_of.simps) simp

lemma numeral_of_leading: "2 \<le> b \<Longrightarrow> hd (numeral_of b n) = 0 \<Longrightarrow> n = 0"
proof (induction b n rule: numeral_of.induct)
  case (1 b n)
  show ?case
  proof (cases "n < b")
    case True
    with 1(3) show ?thesis by (subst (asm) numeral_of.simps) simp
  next
    case False
    then have "hd (numeral_of b (n div b)) = 0"
      using 1(2,3) numeral_of_nonempty by (subst (asm) numeral_of.simps) simp
    then have "n div b = 0" using 1(1,2) False by auto
    then show ?thesis using False 1(2) by (simp add: div_eq_0_iff)
  qed
qed

lemma numeral_of_length: "2 \<le> b \<Longrightarrow> n < b ^ Suc k \<Longrightarrow> length (numeral_of b n) \<le> Suc k"
proof (induction k arbitrary: n)
  case 0
  then show ?case by (subst numeral_of.simps) simp
next
  case (Suc k)
  show ?case
  proof (cases "n < b")
    case True
    then show ?thesis by (subst numeral_of.simps) simp
  next
    case False
    have "n div b < b ^ Suc k" using Suc.prems by (simp add: less_mult_imp_div_less mult.commute)
    with Suc.IH [of "n div b"] Suc.prems(1) False show ?thesis by (subst numeral_of.simps) simp
  qed
qed

text \<open>The loop produces the reversed numeral.\<close>

lemma digit_loop_numeral:
  assumes "2 \<le> unat base" "length (numeral_of (unat base) (unat x)) \<le> k"
  shows "digit_loop digs k x base = Ok (rev (map ((!) digs) (numeral_of (unat base) (unat x))))"
  using assms(2)
proof (induction k arbitrary: x)
  case 0
  then show ?case using numeral_of_nonempty by simp
next
  case (Suc k)
  have m: "unat (x mod base) = unat x mod unat base" "unat (x div base) = unat x div unat base"
    by (simp_all add: unat_mod unat_div)
  have z: "x div base = 0 \<longleftrightarrow> unat x < unat base"
    using m(2) assms(1) by (auto simp: word_unat_eq_iff div_eq_0_iff)
  note n = numeral_of.simps [of "unat base" "unat x"]
  show ?case
  proof (cases "x div base = 0")
    case True
    with m z assms(1) n show ?thesis by simp
  next
    case False
    then have eq: "numeral_of (unat base) (unat x) = numeral_of (unat base) (unat (x div base)) @ [unat (x mod base)]"
      using n z m assms(1) by simp
    then have "digit_loop digs k (x div base) base = Ok (rev (map ((!) digs) (numeral_of (unat base) (unat (x div base)))))"
      using Suc by simp
    with False eq show ?thesis by (simp add: Let_def)
  qed
qed

lemma unat_uminus_neg:
  fixes x :: u32
  assumes "sint x < 0"
  shows "unat (- x) = nat (- sint x)"
proof -
  have r: "- (2 ^ 31) \<le> sint x" using sint_greater_eq [of x] by simp
  have "uint (- x) = (- uint x) mod 2 ^ 32" by (simp add: uint_word_ariths)
  also have "uint x = sint x mod 2 ^ 32" by (simp add: uint_sint take_bit_eq_mod)
  also have "(- (sint x mod 2 ^ 32)) mod 2 ^ 32 = (- sint x) mod (2 ^ 32 :: int)" by (rule mod_minus_eq)
  also have "\<dots> = - sint x" using assms r by (intro mod_pos_pos_trivial) auto
  finally show ?thesis by (simp add: unat_eq_nat_uint)
qed

lemma numeral_of_u32:
  fixes x :: u32
  assumes "2 \<le> b"
  shows "length (numeral_of b (unat x)) \<le> 32" "b = 10 \<or> b = 16 \<Longrightarrow> length (numeral_of b (unat x)) \<le> 10"
proof -
  have x: "unat x < 2 ^ 32" using unsigned_less [of x] by simp
  have "(2 :: nat) ^ 32 \<le> b ^ 32" using assms by (intro power_mono) auto
  with x have "unat x < b ^ Suc 31" by simp
  then show "length (numeral_of b (unat x)) \<le> 32" using numeral_of_length [OF assms, of "unat x" 31] by simp
  show "length (numeral_of b (unat x)) \<le> 10" if "b = 10 \<or> b = 16"
    using numeral_of_length [OF assms, of "unat x" 9] x that by auto
qed

lemma printint_buf_ok:
  assumes "base = 10 \<or> base = 16"
  shows "printint_buf digs xx base sign =
    Ok (rev (if sign \<and> sint xx < 0 then ch CHR ''-'' # map ((!) digs) (numeral_of (unat base) (nat (- sint xx)))
             else map ((!) digs) (numeral_of (unat base) (unat xx))))"
proof -
  have b: "2 \<le> unat base" "unat base = 10 \<or> unat base = 16" using assms by auto
  have l: "length (numeral_of (unat base) (unat x)) \<le> 10" for x :: u32 using numeral_of_u32(2) [OF b] .
  have loop: "digit_loop digs 16 x base = Ok (rev (map ((!) digs) (numeral_of (unat base) (unat x))))" for x
    using digit_loop_numeral [OF b(1), of x 16] l [of x] by simp
  show ?thesis
    using l [of "- xx"] unat_uminus_neg [of xx] by (auto simp: printint_buf_def loop Let_def)
qed

text \<open>The decimal numeral as bytes, and what the two loops of \<^verbatim>\<open>itoa\<close> compute.\<close>

definition decimal :: "nat \<Rightarrow> byte list" where
  "decimal n = map ((!) lower_digits) (numeral_of 10 n)"

lemma decimal_rec: "decimal n = (if n < 10 then [lower_digits ! n] else decimal (n div 10) @ [lower_digits ! (n mod 10)])"
  unfolding decimal_def by (subst numeral_of.simps) auto

lemma itoa_end_decimal: "itoa_end p n = p + length (decimal n)"
proof (induction p n rule: itoa_end.induct)
  case (1 p n)
  then show ?case by (subst itoa_end.simps, subst decimal_rec) (auto simp: Let_def)
qed

lemma itoa_fill_decimal:
  "q + length (decimal n) \<le> length b \<Longrightarrow>
   itoa_fill (q + length (decimal n)) n b = take q b @ decimal n @ drop (q + length (decimal n)) b"
proof (induction n arbitrary: b rule: less_induct)
  case (less n)
  show ?case
  proof (cases "n < 10")
    case True
    then have "decimal n = [lower_digits ! n]" by (subst decimal_rec) simp
    with less.prems True show ?thesis by (subst itoa_fill.simps) (simp add: upd_conv_take_nth_drop)
  next
    case False
    then have d: "decimal n = decimal (n div 10) @ [lower_digits ! (n mod 10)]" by (subst decimal_rec) simp
    have nz: "n div 10 \<noteq> 0" using False by (simp add: div_eq_0_iff)
    let ?p = "q + length (decimal (n div 10))" and ?c = "lower_digits ! (n mod 10)"
    have l: "?p < length b" using less.prems d by simp
    have "itoa_fill (q + length (decimal n)) n b = itoa_fill ?p (n div 10) (b[?p := ?c])"
      using nz by (subst itoa_fill.simps) (simp add: d Let_def)
    also have "\<dots> = take q (b[?p := ?c]) @ decimal (n div 10) @ drop ?p (b[?p := ?c])"
      using less.IH [of "n div 10" "b[?p := ?c]"] False l by simp
    also have "\<dots> = take q b @ decimal n @ drop (q + length (decimal n)) b"
      using l by (simp add: d drop_update_cancel Cons_nth_drop_Suc [symmetric])
    finally show ?thesis .
  qed
qed

lemma decimal_length_less: "0 < k \<Longrightarrow> length (decimal n) \<le> k \<longleftrightarrow> n < 10 ^ k"
proof (induction k arbitrary: n)
  case (Suc k)
  show ?case
  proof (cases "n < 10")
    case True
    moreover have "(10 :: nat) \<le> 10 ^ Suc k" by simp
    ultimately have "n < 10 ^ Suc k" by linarith
    with True show ?thesis by (subst decimal_rec) simp
  next
    case False
    have "0 < length (decimal (n div 10))" by (simp add: decimal_def numeral_of_nonempty)
    then have "length (decimal n) \<le> Suc k \<longleftrightarrow> 0 < k \<and> length (decimal (n div 10)) \<le> k"
      using False by (subst decimal_rec) (cases k, auto)
    also have "\<dots> \<longleftrightarrow> n < 10 ^ Suc k"
      using Suc.IH [of "n div 10"] False by (cases "k = 0") (auto simp: less_mult_imp_div_less div_less_iff_less_mult mult.commute)
    finally show ?thesis .
  qed
qed simp

lemma itoa_ok:
  assumes "0 \<le> i" "length (decimal (nat i)) < length b"
  shows "itoa i b = Ok (decimal (nat i) @ 0 # drop (Suc (length (decimal (nat i)))) b)"
proof -
  let ?n = "nat i"
  have "\<not> length b \<le> itoa_end 0 ?n" using assms(2) by (simp add: itoa_end_decimal)
  then have "itoa i b = Ok (itoa_fill (length (decimal ?n)) ?n (b[length (decimal ?n) := 0]))"
    using assms(1) by (simp add: itoa_def Let_def itoa_end_decimal)
  also have "itoa_fill (length (decimal ?n)) ?n (b[length (decimal ?n) := 0]) = decimal ?n @ drop (length (decimal ?n)) (b[length (decimal ?n) := 0])"
    using itoa_fill_decimal [of 0 ?n "b[length (decimal ?n) := 0]"] assms(2) by simp
  finally show ?thesis using assms(2) by (simp add: Cons_nth_drop_Suc [symmetric])
qed

lemma lower_digit_less10:
  assumes "d < 10"
  shows "lower_digits ! d = 48 + of_nat d"
proof -
  have "d \<in> {0, 1, 2, 3, 4, 5, 6, 7, 8, 9}" using assms by auto
  then show ?thesis by (auto simp: lower_digits_def str_def ch_def)
qed

lemma atoi_digits:
  "\<forall>d\<in>set ds. d < 10 \<Longrightarrow>
   atoi_loop (of_nat a) (map ((!) lower_digits) ds) = of_nat (foldl (\<lambda>a d. a * 10 + d) a ds)"
proof (induction ds arbitrary: a)
  case (Cons d ds)
  then have d: "d < 10" by simp
  note c = lower_digit_less10 [OF d]
  have u: "unat (48 + of_nat d :: byte) = 48 + d" using d by (simp add: unat_word_ariths unat_of_nat)
  have r: "(48 :: byte) \<le> 48 + of_nat d" "48 + of_nat d \<le> (57 :: byte)"
    unfolding word_le_nat_alt u using d by simp_all
  have "(of_nat (unat (48 + of_nat d :: byte)) :: u32) = ucast (48 + of_nat d :: byte)" by (rule of_nat_unat)
  then have e: "ucast (48 + of_nat d :: byte) = (48 + of_nat d :: u32)" unfolding u by simp
  have "atoi_loop (of_nat a) (map ((!) lower_digits) (d # ds)) = atoi_loop (of_nat (a * 10 + d)) (map ((!) lower_digits) ds)"
    using r by (simp add: c ch_def e)
  also have "\<dots> = of_nat (foldl (\<lambda>a d. a * 10 + d) (a * 10 + d) ds)" by (rule Cons.IH) (use Cons.prems in simp)
  finally show ?case by simp
qed simp

lemma decimal_nonzero: "c \<in> set (decimal n) \<Longrightarrow> c \<noteq> 0"
proof -
  assume "c \<in> set (decimal n)"
  then obtain d where d: "d < 10" "c = lower_digits ! d" using numeral_of_digits [of 10] by (auto simp: decimal_def)
  then have "unat c = 48 + d" by (simp add: lower_digit_less10 unat_word_ariths unat_of_nat)
  then show ?thesis by (auto simp: word_unat_eq_iff)
qed

lemma atoi_decimal: "atoi (decimal n) = of_nat n"
  using atoi_digits [of "numeral_of 10 n" 0] numeral_of_digits [of 10 _ n] numeral_of_value [of 10 n]
  by (simp add: atoi_def decimal_def numeral_value_def)

section \<open>Properties\<close>



end
