(* ===== verification/Ring.thy ===== *)
theory Ring
  imports Prelude
begin

text \<open>
  Ring buffers indexed by free-running 32-bit counters taken modulo the size, as the console input
  buffer and the pipes use them. When the size divides 2^32 the counters may wrap around. The locale
  is instantiated with the two sizes of the kernel.
\<close>

definition ring :: "'a list \<Rightarrow> u32 \<Rightarrow> nat \<Rightarrow> 'a list" where
  "ring b r n = map (\<lambda>i. b ! (unat (r + of_nat i) mod length b)) [0..<n]"

lemma length_ring [simp]: "length (ring b r n) = n"
  by (simp add: ring_def)

lemma ring_0 [simp]: "ring b r 0 = []"
  by (simp add: ring_def)

lemma ring_Suc: "ring b r (Suc n) = ring b r n @ [b ! (unat (r + of_nat n) mod length b)]"
  by (simp add: ring_def)

lemma ring_pop: "ring b r (Suc n) = b ! (unat r mod length b) # ring b (r + 1) n"
  by (simp add: ring_def upt_conv_Cons map_Suc_upt [symmetric] algebra_simps del: upt_Suc)

lemma take_ring: "k \<le> n \<Longrightarrow> take k (ring b r n) = ring b r k"
  by (simp add: ring_def take_map)

lemma ring_split: "ring b r (k + n) = ring b r k @ ring b (r + of_nat k) n"
  by (induction n) (simp_all add: ring_Suc add.assoc)

locale ring_size =
  fixes size :: nat
  assumes size_dvd: "size dvd 2 ^ 32" and size_pos: "0 < size"
begin

lemma index: "unat (r + of_nat i :: u32) mod size = (unat r + i) mod size"
proof -
  have "unat (r + of_nat i :: u32) = (unat r + i) mod 2 ^ 32"
    by (simp add: unat_word_ariths unat_of_nat mod_add_right_eq)
  then show ?thesis using mod_mod_cancel [OF size_dvd] by simp
qed

lemma index_inj_le:
  assumes "i \<le> j" "j < size" "(u + i) mod size = (u + j) mod size"
  shows "i = j"
proof -
  have "size dvd (u + j) - (u + i)" using assms(1,3) mod_eq_dvd_iff_nat [of "u + i" "u + j" size] by simp
  then have "size dvd j - i" by simp
  moreover have "j - i < size" using assms(1,2) by simp
  ultimately have "j - i = 0" using dvd_imp_le [of size "j - i"] by linarith
  with assms(1) show ?thesis by simp
qed

lemma index_inj:
  assumes "i < size" "j < size" "unat (r + of_nat i :: u32) mod size = unat (r + of_nat j) mod size"
  shows "i = j"
  using index_inj_le [of i j "unat r"] index_inj_le [of j i "unat r"] assms by (cases "i \<le> j") (auto simp: index)

lemma push:
  assumes "length b = size" "n < size"
  shows "ring (b[unat (r + of_nat n) mod size := x]) r (Suc n) = ring b r n @ [x]"
proof -
  have "b[unat (r + of_nat n) mod size := x] ! (unat (r + of_nat i) mod size) = b ! (unat (r + of_nat i) mod size)" if "i < n" for i
    using that assms index_inj [of i n r] by (auto intro!: nth_list_update_neq)
  then have "ring (b[unat (r + of_nat n) mod size := x]) r n = ring b r n" using assms(1) by (simp add: ring_def)
  moreover have "unat (r + of_nat n) mod size < length b" using assms(1) size_pos by simp
  ultimately show ?thesis using assms(1) by (simp add: ring_Suc)
qed

end

interpretation input_ring: ring_size 128
  by unfold_locales simp_all

interpretation pipe_ring: ring_size 512
  by unfold_locales simp_all

text \<open>Counters: the number of elements between two of them.\<close>

lemma counter_bump:
  assumes "unat (e - r) < 2 ^ 31"
  shows "unat (e + 1 - r :: u32) = Suc (unat (e - r))"
proof -
  have e: "e + 1 - r = (e - r) + 1" by simp
  have "unat ((e - r) + 1) = (unat (e - r) + 1) mod 2 ^ 32" by (simp add: unat_word_ariths)
  then show ?thesis unfolding e using assms by simp
qed

lemma counter_drop:
  assumes "unat (e - r) = Suc n"
  shows "unat (e - (r + 1) :: u32) = n" "unat (e - 1 - r) = n"
proof -
  have e: "e - (r + 1) = (e - r) - 1" "e - 1 - r = (e - r) - 1" by simp_all
  have "unat ((e - r) - 1) = n" using assms unat_minus_one [of "e - r"] by (auto simp: word_unat_eq_iff)
  then show "unat (e - (r + 1)) = n" "unat (e - 1 - r) = n" unfolding e by simp_all
qed

lemma counter_at: "unat (e - r :: u32) = n \<Longrightarrow> e = r + of_nat n"
  by (metis add.commute diff_add_cancel of_nat_unat ucast_id)

end
