(* ===== verification/Console.thy ===== *)
theory Console
  imports Numerals Ring
begin

text \<open>
  The console of console.c: the screen and the serial line as output, \<^verbatim>\<open>printint\<close> and \<^verbatim>\<open>cprintf\<close>, and
  the line-edited input buffer. The CRT controller's cursor register and the text memory are fields
  of the state, the serial line is the list of bytes sent so far. \<^verbatim>\<open>wakeup\<close> has no effect here, and a
  reader who would sleep gets the outcome \<^verbatim>\<open>Fault\<close>. The locking of the inode around
  \<^verbatim>\<open>consoleread\<close> and \<^verbatim>\<open>consolewrite\<close> is in the file-system theory.
\<close>

abbreviation (input) INPUT_BUF :: nat where "INPUT_BUF \<equiv> 128"
abbreviation (input) BACKSPACE :: int where "BACKSPACE \<equiv> 0x100"

record console =
  uart :: bool
  uart_out :: "byte list"
  crt :: "u16 list"
  crt_pos :: int
  panicked :: bool
  in_buf :: "byte list"
  in_r :: u32
  in_w :: u32
  in_e :: u32

section \<open>Output\<close>

definition uartputc :: "console \<Rightarrow> int \<Rightarrow> console" where
  "uartputc s c = (if \<not> uart s then s else s\<lparr>uart_out := uart_out s @ [word_of_int c]\<rparr>)"

text \<open>\<^verbatim>\<open>cgaputc\<close> moves the cursor, writing the character, and scrolls when the cursor reaches line 24.\<close>

definition cga_move :: "int \<Rightarrow> u16 list \<Rightarrow> int \<Rightarrow> u16 list \<times> int" where
  "cga_move c m pos =
     (if c = 10 then (m, pos + (80 - pos mod 80))
      else if c = BACKSPACE then (m, if pos > 0 then pos - 1 else pos)
      else (m[nat pos := (word_of_int c AND 0xff) OR 0x0700], pos + 1))"

definition cga_scroll :: "u16 list \<Rightarrow> int \<Rightarrow> u16 list \<times> int" where
  "cga_scroll m pos =
     (if pos div 80 \<ge> 24
      then let m = take (23 * 80) (drop 80 m) @ drop (23 * 80) m; pos = pos - 80
           in (take (nat pos) m @ replicate (24 * 80 - nat pos) 0 @ drop (24 * 80) m, pos)
      else (m, pos))"

definition cgaputc :: "console \<Rightarrow> int \<Rightarrow> console outcome" where
  "cgaputc s c =
     (if c \<noteq> 10 \<and> c \<noteq> BACKSPACE \<and> (crt_pos s < 0 \<or> crt_pos s < 25 * 80 \<and> nat (crt_pos s) \<ge> length (crt s)) then Fault ''cgaputc: write outside crt''
      else
        let (m, pos) = cga_move c (crt s) (crt_pos s)
        in if pos < 0 \<or> pos > 25 * 80 then Panic ''pos under/overflow''
           else
             let (m, pos) = cga_scroll m pos
             in if nat pos \<ge> length m then Fault ''cgaputc: write outside crt''
                else Ok (s\<lparr>crt := m[nat pos := 0x20 OR 0x0700], crt_pos := pos\<rparr>))"

definition consputc :: "console \<Rightarrow> int \<Rightarrow> console outcome" where
  "consputc s c =
     (if panicked s then Fault ''consputc: stopped''
      else if c = BACKSPACE then cgaputc (uartputc (uartputc (uartputc s 8) 32) 8) c
      else cgaputc (uartputc s c) c)"

definition cons_puts :: "console \<Rightarrow> byte list \<Rightarrow> console outcome" where
  "cons_puts s cs = for_each (\<lambda>c s. consputc s (uint c)) cs s"

definition printint :: "console \<Rightarrow> u32 \<Rightarrow> u32 \<Rightarrow> bool \<Rightarrow> console outcome" where
  "printint s xx base sign = andThen (printint_buf lower_digits xx base sign) (\<lambda>buf. cons_puts s (rev buf))"

text \<open>An argument of \<^verbatim>\<open>cprintf\<close> is a word, or a pointer to a string (\<open>None\<close> is the null pointer).\<close>

datatype vararg = Num u32 | Str "byte list option"

fun cprintf_loop :: "console \<Rightarrow> byte list \<Rightarrow> vararg list \<Rightarrow> console outcome" where
  "cprintf_loop s [] args = Ok s"
| "cprintf_loop s (c # fmt) args =
     (if c \<noteq> ch CHR ''%'' then andThen (consputc s (uint c)) (\<lambda>s. cprintf_loop s fmt args)
      else
        case fmt of
          [] \<Rightarrow> Ok s
        | c # fmt \<Rightarrow>
            if c = ch CHR ''d'' then
              (case args of Num x # args \<Rightarrow> andThen (printint s x 10 True) (\<lambda>s. cprintf_loop s fmt args)
               | _ \<Rightarrow> Fault ''cprintf: bad argument'')
            else if c = ch CHR ''x'' \<or> c = ch CHR ''p'' then
              (case args of Num x # args \<Rightarrow> andThen (printint s x 16 False) (\<lambda>s. cprintf_loop s fmt args)
               | _ \<Rightarrow> Fault ''cprintf: bad argument'')
            else if c = ch CHR ''s'' then
              (case args of Str p # args \<Rightarrow>
                 andThen (cons_puts s (case p of Some t \<Rightarrow> t | None \<Rightarrow> str ''(null)'')) (\<lambda>s. cprintf_loop s fmt args)
               | _ \<Rightarrow> Fault ''cprintf: bad argument'')
            else if c = ch CHR ''%'' then andThen (consputc s (uint c)) (\<lambda>s. cprintf_loop s fmt args)
            else andThen (consputc s (uint (ch CHR ''%''))) (\<lambda>s. andThen (consputc s (uint c)) (\<lambda>s. cprintf_loop s fmt args)))"

definition cprintf :: "console \<Rightarrow> byte list option \<Rightarrow> vararg list \<Rightarrow> console outcome" where
  "cprintf s fmt args = (case fmt of None \<Rightarrow> Panic ''null fmt'' | Some f \<Rightarrow> cprintf_loop s f args)"

section \<open>Input\<close>

text \<open>Control characters: \<open>C('P') = 16\<close>, \<open>C('U') = 21\<close>, \<open>C('H') = 8\<close>, \<open>C('D') = 4\<close>.\<close>

lemma cgaputc_input: "cgaputc s c = Ok s' \<Longrightarrow> in_buf s' = in_buf s \<and> in_r s' = in_r s \<and> in_w s' = in_w s \<and> in_e s' = in_e s \<and> panicked s' = panicked s"
  by (auto simp: cgaputc_def Let_def split: if_splits prod.splits)

lemma consputc_input [frame]: "consputc s c = Ok s' \<Longrightarrow> in_buf s' = in_buf s \<and> in_r s' = in_r s \<and> in_w s' = in_w s \<and> in_e s' = in_e s \<and> panicked s' = panicked s"
  by (auto simp: consputc_def uartputc_def dest!: cgaputc_input split: if_splits)

function kill_line :: "console \<Rightarrow> console outcome" where
  "kill_line s =
     (if in_e s \<noteq> in_w s \<and> in_buf s ! (unat (in_e s - 1) mod INPUT_BUF) \<noteq> 10
      then andThen (consputc (s\<lparr>in_e := in_e s - 1\<rparr>) BACKSPACE) kill_line else Ok s)"
  by pat_completeness auto
termination
proof (relation "measure (\<lambda>s. unat (in_e s - in_w s))", simp)
  fix s s'
  assume a: "in_e s \<noteq> in_w s \<and> in_buf s ! (unat (in_e s - 1) mod 128) \<noteq> 10" "consputc (s\<lparr>in_e := in_e s - 1\<rparr>) BACKSPACE = Ok s'"
  have "unat (in_e s - in_w s - 1) < unat (in_e s - in_w s)"
    using a(1) by (intro unat_pred_less) simp
  then show "(s', s) \<in> measure (\<lambda>s. unat (in_e s - in_w s))"
    using consputc_input [OF a(2)] by (simp add: diff_right_commute [of "in_e s" 1])
qed

declare kill_line.simps [simp del]

text \<open>One round of the loop of \<^verbatim>\<open>consoleintr\<close>, for a character \<open>c\<close> that \<^verbatim>\<open>getc\<close> returned; the flag is
  \<^verbatim>\<open>doprocdump\<close>.\<close>

definition consoleintr_char :: "byte \<Rightarrow> console \<times> bool \<Rightarrow> (console \<times> bool) outcome" where
  "consoleintr_char c = (\<lambda>(s, dump).
     if c = 16 then Ok (s, True)
     else if c = 21 then andThen (kill_line s) (\<lambda>s. Ok (s, dump))
     else if c = 8 \<or> c = 0x7f then
       if in_e s \<noteq> in_w s then andThen (consputc (s\<lparr>in_e := in_e s - 1\<rparr>) BACKSPACE) (\<lambda>s. Ok (s, dump)) else Ok (s, dump)
     else if c \<noteq> 0 \<and> in_e s - in_r s < of_nat INPUT_BUF then
       let c = (if c = 13 then 10 else c);
           s = s\<lparr>in_buf := (in_buf s)[unat (in_e s) mod INPUT_BUF := c], in_e := in_e s + 1\<rparr>
       in andThen (consputc s (uint c))
            (\<lambda>s. Ok (if c = 10 \<or> c = 4 \<or> in_e s = in_r s + of_nat INPUT_BUF then s\<lparr>in_w := in_e s\<rparr> else s, dump))
     else Ok (s, dump))"

definition consoleintr :: "byte list \<Rightarrow> console \<Rightarrow> (console \<times> bool) outcome" where
  "consoleintr cs s = for_each consoleintr_char cs (s, False)"

text \<open>The loop of \<^verbatim>\<open>consoleread\<close>: \<open>n\<close> bytes are still wanted of \<open>target\<close>. The result is the bytes
  stored at \<^verbatim>\<open>dst\<close> and whether the reader found itself killed, for the return value -1.\<close>

fun consoleread_loop :: "bool \<Rightarrow> nat \<Rightarrow> nat \<Rightarrow> console \<Rightarrow> ((bool \<times> byte list) \<times> console) outcome" where
  "consoleread_loop killed target 0 s = Ok ((False, []), s)"
| "consoleread_loop killed target (Suc n) s =
     (if in_r s = in_w s then if killed then Ok ((True, []), s) else Fault ''consoleread: would sleep''
      else
        let c = in_buf s ! (unat (in_r s) mod INPUT_BUF); s' = s\<lparr>in_r := in_r s + 1\<rparr>
        in if c = 4 then Ok ((False, []), if Suc n < target then s'\<lparr>in_r := in_r s' - 1\<rparr> else s')
           else if c = 10 then Ok ((False, [c]), s')
           else andThen (consoleread_loop killed target n s') (\<lambda>((k, cs), s). Ok ((k, c # cs), s)))"

section \<open>The screen\<close>

text \<open>The text memory has 25 lines of 80; the cursor stays in the first 24.\<close>

definition screen_wf :: "console \<Rightarrow> bool" where
  "screen_wf s \<longleftrightarrow> length (crt s) = 25 * 80 \<and> 0 \<le> crt_pos s \<and> crt_pos s < 24 * 80 \<and> \<not> panicked s"

lemma cga_move_ok:
  assumes "0 \<le> pos" "pos < 1920" "cga_move c m pos = (m', pos')"
  shows "length m' = length m" "0 \<le> pos'" "pos' \<le> 1920"
proof -
  have "pos div 80 \<le> 23" using assms(2) by linarith
  then have "pos + (80 - pos mod 80) \<le> 1920" using mult_div_mod_eq [of 80 pos] by linarith
  moreover have "0 \<le> pos + (80 - pos mod 80)" using assms(1) pos_mod_bound [of 80 pos] by linarith
  ultimately show "length m' = length m" "0 \<le> pos'" "pos' \<le> 1920" using assms by (auto simp: cga_move_def split: if_splits)
qed

lemma cga_scroll_ok:
  assumes "0 \<le> pos" "pos \<le> 1920" "length m = 2000" "cga_scroll m pos = (m', pos')"
  shows "length m' = 2000" "0 \<le> pos'" "pos' < 1920"
proof (atomize (full), cases "pos div 80 \<ge> 24")
  case True
  then have "pos = 1920" using assms(2) by linarith
  with assms(3,4) show "length m' = 2000 \<and> 0 \<le> pos' \<and> pos' < 1920" by (auto simp: cga_scroll_def Let_def)
next
  case False
  with assms show "length m' = 2000 \<and> 0 \<le> pos' \<and> pos' < 1920" by (auto simp: cga_scroll_def)
qed

lemma cgaputc_ok:
  assumes "screen_wf s"
  shows "\<exists>s'. cgaputc s c = Ok s' \<and> screen_wf s' \<and> s' = s\<lparr>crt := crt s', crt_pos := crt_pos s'\<rparr>"
proof -
  have w: "length (crt s) = 2000" "0 \<le> crt_pos s" "crt_pos s < 1920" "\<not> panicked s" using assms by (auto simp: screen_wf_def)
  obtain m p where mp: "cga_move c (crt s) (crt_pos s) = (m, p)" by (cases "cga_move c (crt s) (crt_pos s)")
  note mo = cga_move_ok [OF w(2,3) mp]
  obtain m' p' where mp': "cga_scroll m p = (m', p')" by (cases "cga_scroll m p")
  have lm: "length m = 2000" using mo(1) w(1) by simp
  note sc = cga_scroll_ok [OF mo(2,3) lm mp']
  have "cgaputc s c = Ok (s\<lparr>crt := m'[nat p' := 0x20 OR 0x0700], crt_pos := p'\<rparr>)"
    using w mo sc nat_less_iff [OF w(2), of 2000] nat_less_iff [OF sc(2), of 2000] by (simp add: cgaputc_def mp mp')
  then show ?thesis using sc w(4) by (simp add: screen_wf_def)
qed

lemma consputc_ok:
  assumes "screen_wf s"
  shows "\<exists>s'. consputc s c = Ok s' \<and> screen_wf s' \<and> in_buf s' = in_buf s \<and> in_r s' = in_r s \<and> in_w s' = in_w s \<and> in_e s' = in_e s"
proof -
  have u: "screen_wf (uartputc s c)" if "screen_wf s" for s c using that by (simp add: uartputc_def screen_wf_def)
  have np: "\<not> panicked s" using assms by (simp add: screen_wf_def)
  have "\<exists>s'. consputc s c = Ok s' \<and> screen_wf s'"
    using np cgaputc_ok [OF u [OF assms], of c c] cgaputc_ok [OF u [OF u [OF u [OF assms]]], of 8 32 8 c]
    by (cases "c = 0x100") (auto simp: consputc_def)
  then obtain s' where "consputc s c = Ok s'" "screen_wf s'" by blast
  with consputc_input show ?thesis by blast
qed

section \<open>The input buffer as two strings\<close>

text \<open>What is in the buffer: the bytes a reader may take and, after them, the line being edited.\<close>

definition in_chars :: "console \<Rightarrow> byte list" where
  "in_chars s = ring (in_buf s) (in_r s) (unat (in_e s - in_r s))"

definition in_ready :: "console \<Rightarrow> byte list" where
  "in_ready s = take (unat (in_w s - in_r s)) (in_chars s)"

definition in_edit :: "console \<Rightarrow> byte list" where
  "in_edit s = drop (unat (in_w s - in_r s)) (in_chars s)"

definition input_wf :: "console \<Rightarrow> bool" where
  "input_wf s \<longleftrightarrow> length (in_buf s) = INPUT_BUF \<and> unat (in_w s - in_r s) \<le> unat (in_e s - in_r s) \<and>
     unat (in_e s - in_r s) \<le> INPUT_BUF \<and> 10 \<notin> set (in_edit s)"

text \<open>The line discipline: what a key does to the two strings.\<close>

definition line_key :: "byte \<Rightarrow> byte list \<times> byte list \<Rightarrow> byte list \<times> byte list" where
  "line_key c = (\<lambda>(ready, edit).
     if c = 16 \<or> c = 0 then (ready, edit)
     else if c = 21 then (ready, [])
     else if c = 8 \<or> c = 0x7f then (ready, butlast edit)
     else if length ready + length edit \<ge> INPUT_BUF then (ready, edit)
     else
       let c = (if c = 13 then 10 else c); edit = edit @ [c]
       in if c = 10 \<or> c = 4 \<or> length ready + length edit = INPUT_BUF then (ready @ edit, []) else (ready, edit))"

lemma in_edit_empty:
  assumes "input_wf s"
  shows "in_edit s = [] \<longleftrightarrow> in_e s = in_w s"
proof -
  have "in_edit s = [] \<longleftrightarrow> unat (in_e s - in_r s) = unat (in_w s - in_r s)"
    using assms by (auto simp: input_wf_def in_edit_def in_chars_def)
  also have "\<dots> \<longleftrightarrow> in_e s - in_r s = in_w s - in_r s" by (simp add: word_unat_eq_iff)
  finally show ?thesis by simp
qed

lemma input_back:
  assumes "input_wf s" "in_e s \<noteq> in_w s"
  shows "input_wf (s\<lparr>in_e := in_e s - 1\<rparr>)" "in_ready (s\<lparr>in_e := in_e s - 1\<rparr>) = in_ready s"
    "in_edit (s\<lparr>in_e := in_e s - 1\<rparr>) = butlast (in_edit s)"
    "in_buf s ! (unat (in_e s - 1) mod INPUT_BUF) = last (in_edit s)" "in_edit s \<noteq> []"
proof -
  let ?s = "s\<lparr>in_e := in_e s - 1\<rparr>" and ?w = "unat (in_w s - in_r s)"
  have i: "length (in_buf s) = 128" "?w \<le> unat (in_e s - in_r s)" "unat (in_e s - in_r s) \<le> 128" "10 \<notin> set (in_edit s)"
    using assms(1) by (auto simp: input_wf_def)
  show ne: "in_edit s \<noteq> []" using in_edit_empty [OF assms(1)] assms(2) by simp
  then have "?w < unat (in_e s - in_r s)" using i(2) by (auto simp: in_edit_def in_chars_def)
  then obtain n where n: "unat (in_e s - in_r s) = Suc n" "?w \<le> n" by (cases "unat (in_e s - in_r s)") auto
  note d = counter_drop(2) [OF n(1)]
  have e1: "in_e s - 1 = in_r s + of_nat n" by (rule counter_at [OF d])
  have c: "in_chars s = in_chars ?s @ [in_buf s ! (unat (in_e s - 1) mod 128)]"
    using n(1) d e1 i(1) by (simp add: in_chars_def ring_Suc)
  have l: "length (in_chars ?s) = n" using d by (simp add: in_chars_def)
  show r: "in_ready ?s = in_ready s" using c l n(2) by (simp add: in_ready_def)
  have e: "in_edit s = in_edit ?s @ [in_buf s ! (unat (in_e s - 1) mod 128)]" using c l n(2) by (simp add: in_edit_def)
  then show "in_edit ?s = butlast (in_edit s)" "in_buf s ! (unat (in_e s - 1) mod 128) = last (in_edit s)" by simp_all
  show "input_wf ?s" using i n d e by (simp add: input_wf_def)
qed

lemma input_view_cong:
  assumes "in_buf s' = in_buf s" "in_r s' = in_r s" "in_w s' = in_w s" "in_e s' = in_e s"
  shows "input_wf s' = input_wf s" "in_ready s' = in_ready s" "in_edit s' = in_edit s"
  using assms by (simp_all add: input_wf_def in_ready_def in_edit_def in_chars_def)

lemma rubout:
  assumes "screen_wf s" "input_wf s" "in_e s \<noteq> in_w s"
  obtains s' where "consputc (s\<lparr>in_e := in_e s - 1\<rparr>) BACKSPACE = Ok s'" "screen_wf s'" "input_wf s'"
    "in_ready s' = in_ready s" "in_edit s' = butlast (in_edit s)" "in_w s' = in_w s"
proof -
  have "screen_wf (s\<lparr>in_e := in_e s - 1\<rparr>)" using assms(1) by (simp add: screen_wf_def)
  from consputc_ok [OF this, of BACKSPACE] obtain s' where s': "consputc (s\<lparr>in_e := in_e s - 1\<rparr>) BACKSPACE = Ok s'" "screen_wf s'"
      "in_buf s' = in_buf s" "in_r s' = in_r s" "in_w s' = in_w s" "in_e s' = in_e s - 1" by auto
  then have "input_wf s' = input_wf (s\<lparr>in_e := in_e s - 1\<rparr>)" "in_ready s' = in_ready (s\<lparr>in_e := in_e s - 1\<rparr>)"
      "in_edit s' = in_edit (s\<lparr>in_e := in_e s - 1\<rparr>)"
    using input_view_cong [of s' "s\<lparr>in_e := in_e s - 1\<rparr>"] by simp_all
  with s' input_back [OF assms(2,3)] show thesis by (intro that [of s']) simp_all
qed

lemma kill_line_ok:
  "screen_wf s \<Longrightarrow> input_wf s \<Longrightarrow>
   \<exists>s'. kill_line s = Ok s' \<and> screen_wf s' \<and> input_wf s' \<and> in_ready s' = in_ready s \<and> in_edit s' = []"
proof (induction "length (in_edit s)" arbitrary: s)
  case 0
  then show ?case using in_edit_empty [of s] by (subst kill_line.simps) simp
next
  case (Suc n)
  then have ne: "in_e s \<noteq> in_w s" using in_edit_empty [of s] by auto
  note b = input_back [OF Suc.prems(2) ne]
  have "last (in_edit s) \<noteq> 10" using Suc.prems(2) b(5) last_in_set by (force simp: input_wf_def)
  then have k: "kill_line s = andThen (consputc (s\<lparr>in_e := in_e s - 1\<rparr>) BACKSPACE) kill_line"
    using ne b(4) by (subst kill_line.simps) simp
  obtain s1 where s1: "consputc (s\<lparr>in_e := in_e s - 1\<rparr>) BACKSPACE = Ok s1" "screen_wf s1" "input_wf s1"
    "in_ready s1 = in_ready s" "in_edit s1 = butlast (in_edit s)"
    using rubout [OF Suc.prems ne] by metis
  then have "n = length (in_edit s1)" using Suc.hyps(2) by simp
  from Suc.hyps(1) [OF this s1(2,3)] s1 k show ?case by simp
qed

lemma input_push:
  fixes s :: console and c :: byte
  assumes "input_wf s" "unat (in_e s - in_r s) < INPUT_BUF"
  defines "s1 \<equiv> s\<lparr>in_buf := (in_buf s)[unat (in_e s) mod INPUT_BUF := c], in_e := in_e s + 1\<rparr>"
  shows "in_ready s1 = in_ready s" "in_edit s1 = in_edit s @ [c]" "c \<noteq> 10 \<Longrightarrow> input_wf s1"
    "input_wf (s1\<lparr>in_w := in_e s1\<rparr>)" "in_ready (s1\<lparr>in_w := in_e s1\<rparr>) = in_ready s @ in_edit s @ [c]" "in_edit (s1\<lparr>in_w := in_e s1\<rparr>) = []"
    "in_e s1 = in_r s1 + 128 \<longleftrightarrow> Suc (length (in_ready s) + length (in_edit s)) = 128"
proof -
  let ?n = "unat (in_e s - in_r s)" and ?w = "unat (in_w s - in_r s)"
  have i: "length (in_buf s) = 128" "?w \<le> ?n" "?n \<le> 128" "10 \<notin> set (in_edit s)" using assms(1) by (auto simp: input_wf_def)
  have b: "unat (in_e s + 1 - in_r s) = Suc ?n" using assms(2) by (intro counter_bump) simp
  have e: "in_e s = in_r s + of_nat ?n" by (rule counter_at) simp
  have c: "in_chars s1 = in_chars s @ [c]"
    using input_ring.push [OF i(1), of ?n "in_r s" c] assms(2) b e by (simp add: in_chars_def s1_def)
  have l: "length (in_chars s) = ?n" by (simp add: in_chars_def)
  have f: "in_w s1 = in_w s" "in_r s1 = in_r s" "in_e s1 = in_e s + 1" "length (in_buf s1) = 128" by (simp_all add: s1_def i(1))
  show r1: "in_ready s1 = in_ready s" using c l i(2) f by (simp add: in_ready_def)
  show e1: "in_edit s1 = in_edit s @ [c]" using c l i(2) f by (simp add: in_edit_def)
  show "c \<noteq> 10 \<Longrightarrow> input_wf s1" using i e1 f b assms(2) by (auto simp: input_wf_def)
  have c2: "in_chars (s1\<lparr>in_w := in_e s1\<rparr>) = in_chars s1" by (simp add: in_chars_def)
  have l1: "length (in_chars s1) = unat (in_e s1 - in_r s1)" by (simp add: in_chars_def)
  have app: "in_chars s = in_ready s @ in_edit s" by (simp add: in_ready_def in_edit_def)
  show "in_ready (s1\<lparr>in_w := in_e s1\<rparr>) = in_ready s @ in_edit s @ [c]" "in_edit (s1\<lparr>in_w := in_e s1\<rparr>) = []"
    using c2 l1 c app by (simp_all add: in_ready_def [of "s1\<lparr>in_w := in_e s1\<rparr>"] in_edit_def [of "s1\<lparr>in_w := in_e s1\<rparr>"])
  then show "input_wf (s1\<lparr>in_w := in_e s1\<rparr>)" using f b assms(2) by (simp add: input_wf_def)
  have "length (in_ready s) + length (in_edit s) = ?n" using app l by (metis length_append)
  moreover have "in_e s1 = in_r s1 + 128 \<longleftrightarrow> in_e s + 1 - in_r s = 128" unfolding f by (simp only: diff_eq_eq add.commute)
  then have "in_e s1 = in_r s1 + 128 \<longleftrightarrow> Suc ?n = 128" using b by (simp add: word_unat_eq_iff)
  ultimately show "in_e s1 = in_r s1 + 128 \<longleftrightarrow> Suc (length (in_ready s) + length (in_edit s)) = 128" by simp
qed

lemma key_step:
  assumes "screen_wf s" "input_wf s"
  shows "\<exists>s'. consoleintr_char c (s, d) = Ok (s', d \<or> c = 16) \<and> screen_wf s' \<and> input_wf s' \<and>
    (in_ready s', in_edit s') = line_key c (in_ready s, in_edit s)"
proof -
  have app: "length (in_ready s) + length (in_edit s) = unat (in_e s - in_r s)"
    using assms(2) by (simp add: in_ready_def in_edit_def in_chars_def input_wf_def)
  have lt: "in_e s - in_r s < 128 \<longleftrightarrow> unat (in_e s - in_r s) < 128" by (simp add: word_less_nat_alt)
  consider "c = 16 \<or> c = 0" | "c = 21" | "c = 8 \<or> c = 0x7f" | (full) "c \<notin> {16, 0, 21, 8, 0x7f}" "\<not> unat (in_e s - in_r s) < 128"
    | (store) "c \<notin> {16, 0, 21, 8, 0x7f}" "unat (in_e s - in_r s) < 128" by blast
  then show ?thesis
  proof cases
    case 1
    then show ?thesis using assms by (auto simp: consoleintr_char_def line_key_def)
  next
    case 2
    then show ?thesis using kill_line_ok [OF assms] by (auto simp: consoleintr_char_def line_key_def)
  next
    case 3
    show ?thesis
    proof (cases "in_e s = in_w s")
      case True
      then show ?thesis using 3 assms in_edit_empty [OF assms(2)] by (auto simp: consoleintr_char_def line_key_def)
    next
      case False
      from rubout [OF assms False] obtain s' where "consputc (s\<lparr>in_e := in_e s - 1\<rparr>) BACKSPACE = Ok s'" "screen_wf s'" "input_wf s'"
        "in_ready s' = in_ready s" "in_edit s' = butlast (in_edit s)" by metis
      with 3 False show ?thesis by (auto simp: consoleintr_char_def line_key_def)
    qed
  next
    case full
    then show ?thesis using assms app lt by (auto simp: consoleintr_char_def line_key_def)
  next
    case store
    define x where "x = (if c = 13 then 10 else c)"
    define s1 where "s1 = s\<lparr>in_buf := (in_buf s)[unat (in_e s) mod INPUT_BUF := x], in_e := in_e s + 1\<rparr>"
    note p = input_push [OF assms(2) store(2), of x, folded s1_def]
    have "screen_wf s1" using assms(1) by (simp add: screen_wf_def s1_def)
    from consputc_ok [OF this, of "uint x"] obtain s2 where s2: "consputc s1 (uint x) = Ok s2" "screen_wf s2"
      "in_buf s2 = in_buf s1" "in_r s2 = in_r s1" "in_w s2 = in_w s1" "in_e s2 = in_e s1" by blast
    note v = input_view_cong [OF s2(3-6)]
    have v': "input_wf (s2\<lparr>in_w := in_e s2\<rparr>)" "in_ready (s2\<lparr>in_w := in_e s2\<rparr>) = in_ready s @ in_edit s @ [x]" "in_edit (s2\<lparr>in_w := in_e s2\<rparr>) = []"
      using input_view_cong [of "s2\<lparr>in_w := in_e s2\<rparr>" "s1\<lparr>in_w := in_e s1\<rparr>"] s2(3-6) p(4-6) by simp_all
    have step: "consoleintr_char c (s, d) = Ok (if x = 10 \<or> x = 4 \<or> in_e s2 = in_r s2 + 128 then s2\<lparr>in_w := in_e s2\<rparr> else s2, d \<or> c = 16)"
      using store s2(1) lt by (simp add: consoleintr_char_def Let_def x_def s1_def)
    have key: "line_key c (in_ready s, in_edit s) =
        (if x = 10 \<or> x = 4 \<or> in_e s2 = in_r s2 + 128 then (in_ready s @ in_edit s @ [x], []) else (in_ready s, in_edit s @ [x]))"
      using store app p(7) s2(4,6) by (simp add: line_key_def Let_def x_def)
    have "screen_wf (s2\<lparr>in_w := in_e s2\<rparr>)" using s2(2) by (simp add: screen_wf_def)
    moreover have "x \<noteq> 10 \<Longrightarrow> input_wf s2" using v(1) p(3) by simp
    moreover have "in_ready s2 = in_ready s" "in_edit s2 = in_edit s @ [x]" using v p(1,2) by simp_all
    ultimately show ?thesis
      unfolding step key using s2(2) v' by (cases "x = 10 \<or> x = 4 \<or> in_e s2 = in_r s2 + 128") simp_all
  qed
qed

lemma consoleintr_ok:
  "screen_wf s \<Longrightarrow> input_wf s \<Longrightarrow>
   \<exists>s'. for_each consoleintr_char cs (s, d) = Ok (s', d \<or> 16 \<in> set cs) \<and> screen_wf s' \<and> input_wf s' \<and>
     (in_ready s', in_edit s') = fold line_key cs (in_ready s, in_edit s)"
proof (induction cs arbitrary: s d)
  case (Cons c cs)
  obtain s1 where s1: "consoleintr_char c (s, d) = Ok (s1, d \<or> c = 16)" "screen_wf s1" "input_wf s1"
      "(in_ready s1, in_edit s1) = line_key c (in_ready s, in_edit s)"
    using key_step [OF Cons.prems] by blast
  from Cons.IH [OF s1(2,3), of "d \<or> c = 16"] s1(1,4) show ?case by (auto simp: disj_assoc)
qed simp

text \<open>What a reader of at most \<open>n\<close> bytes gets of the ready bytes: a line, or what is before an end-of-file
  mark; \<open>None\<close> when it has to wait.\<close>

fun read_line :: "nat \<Rightarrow> nat \<Rightarrow> byte list \<Rightarrow> (byte list \<times> byte list) option" where
  "read_line target 0 cs = Some ([], cs)"
| "read_line target (Suc n) [] = None"
| "read_line target (Suc n) (c # cs) =
     (if c = 4 then Some ([], if Suc n < target then c # cs else cs)
      else if c = 10 then Some ([c], cs)
      else map_option (\<lambda>(l, rest). (c # l, rest)) (read_line target n cs))"

lemma input_pop:
  assumes "input_wf s" "in_r s \<noteq> in_w s"
  shows "in_ready s = in_buf s ! (unat (in_r s) mod INPUT_BUF) # in_ready (s\<lparr>in_r := in_r s + 1\<rparr>)"
    "in_edit (s\<lparr>in_r := in_r s + 1\<rparr>) = in_edit s" "input_wf (s\<lparr>in_r := in_r s + 1\<rparr>)"
proof -
  let ?s = "s\<lparr>in_r := in_r s + 1\<rparr>"
  have i: "length (in_buf s) = 128" "unat (in_w s - in_r s) \<le> unat (in_e s - in_r s)" "unat (in_e s - in_r s) \<le> 128"
    using assms(1) by (auto simp: input_wf_def)
  have "in_w s - in_r s \<noteq> 0" using assms(2) by simp
  then obtain w where w: "unat (in_w s - in_r s) = Suc w" using not0_implies_Suc by (auto simp: word_unat_eq_iff)
  with i(2) obtain n where n: "unat (in_e s - in_r s) = Suc n" by (cases "unat (in_e s - in_r s)") auto
  note d = counter_drop(1) [OF w] counter_drop(1) [OF n]
  have c: "in_chars s = in_buf s ! (unat (in_r s) mod 128) # in_chars ?s" using n d i(1) by (simp add: in_chars_def ring_pop)
  show "in_ready s = in_buf s ! (unat (in_r s) mod 128) # in_ready ?s" using c w d by (simp add: in_ready_def)
  show e: "in_edit ?s = in_edit s" using c w d by (simp add: in_edit_def)
  then show "input_wf ?s" using assms(1) w n d i by (simp add: input_wf_def)
qed

lemma consoleread_ok:
  "input_wf s \<Longrightarrow>
   (case read_line target n (in_ready s) of
      Some (l, rest) \<Rightarrow> \<exists>s'. consoleread_loop False target n s = Ok ((False, l), s') \<and> in_ready s' = rest \<and> in_edit s' = in_edit s \<and> input_wf s'
    | None \<Rightarrow> consoleread_loop False target n s = Fault ''consoleread: would sleep'')"
proof (induction n arbitrary: s)
  case (Suc n)
  show ?case
  proof (cases "in_r s = in_w s")
    case True
    then have "in_ready s = []" by (simp add: in_ready_def)
    with True show ?thesis by simp
  next
    case False
    note p = input_pop [OF Suc.prems False]
    let ?c = "in_buf s ! (unat (in_r s) mod 128)" and ?s = "s\<lparr>in_r := in_r s + 1\<rparr>"
    show ?thesis
    proof (cases "?c = 4 \<or> ?c = 10")
      case True
      then show ?thesis using p False Suc.prems by (auto simp: p(1) Let_def)
    next
      case c: False
      have l: "consoleread_loop False target (Suc n) s =
          andThen (consoleread_loop False target n ?s) (\<lambda>((k, cs), s). Ok ((k, ?c # cs), s))"
        using False c by (simp add: Let_def)
      show ?thesis
        unfolding l using Suc.IH [OF p(3)] c p(1,2) by (auto split: option.splits)
    qed
  qed
qed simp

section \<open>Properties\<close>

lemma consputc_out:
  assumes "screen_wf s" "uart s"
  shows "\<exists>s'. consputc s (uint (c :: byte)) = Ok s' \<and> screen_wf s' \<and> uart s' \<and> uart_out s' = uart_out s @ [c]"
proof -
  let ?u = "uartputc s (uint c)"
  have u: "screen_wf ?u" "uart ?u" "uart_out ?u = uart_out s @ [c]" using assms by (simp_all add: uartputc_def screen_wf_def)
  have "uint c < 256" using uint_bounded [of c] by simp
  then have c: "consputc s (uint c) = cgaputc ?u (uint c)" using assms(1) by (simp add: consputc_def screen_wf_def)
  obtain s' where s': "cgaputc ?u (uint c) = Ok s'" "screen_wf s'" "s' = ?u\<lparr>crt := crt s', crt_pos := crt_pos s'\<rparr>"
    using cgaputc_ok [OF u(1)] by blast
  have "uart s'" "uart_out s' = uart_out s @ [c]" by (subst s'(3), simp add: u)+
  with c s' show ?thesis by simp
qed

lemma cons_puts_out:
  "screen_wf s \<Longrightarrow> uart s \<Longrightarrow> \<exists>s'. cons_puts s cs = Ok s' \<and> screen_wf s' \<and> uart s' \<and> uart_out s' = uart_out s @ cs"
proof (induction cs arbitrary: s)
  case (Cons c cs)
  from consputc_out [OF Cons.prems, of c] obtain s1 where "consputc s (uint c) = Ok s1" "screen_wf s1" "uart s1" "uart_out s1 = uart_out s @ [c]"
    by blast
  with Cons.IH [of s1] show ?case by (simp add: cons_puts_def)
qed (simp add: cons_puts_def)

text \<open>C20: \<^verbatim>\<open>printint\<close> prints the number: in base 10 the decimal numeral of the signed value, after a minus
  sign when it is negative (the most negative value included), in base 16 the hexadecimal numeral of
  the unsigned value; its 16-byte buffer never overflows.\<close>

theorem printint_prints_numeral:
  assumes "screen_wf s" "uart s"
  shows "(\<exists>s'. printint s xx 10 True = Ok s' \<and> screen_wf s' \<and>
      uart_out s' = uart_out s @ (if sint xx < 0 then [ch CHR ''-''] else []) @ decimal (nat \<bar>sint xx\<bar>)) \<and>
    (\<exists>s'. printint s xx 16 False = Ok s' \<and> screen_wf s' \<and>
      uart_out s' = uart_out s @ map ((!) lower_digits) (numeral_of 16 (unat xx)))"
proof
  have e: "unat xx = nat \<bar>sint xx\<bar>" if "\<not> sint xx < 0"
  proof -
    have "take_bit 32 (sint xx) = sint xx" using that sint_less [of xx] by (intro take_bit_int_eq_self) simp_all
    then show ?thesis using that by (simp add: unat_eq_nat_uint uint_sint)
  qed
  show "\<exists>s'. printint s xx 10 True = Ok s' \<and> screen_wf s' \<and>
      uart_out s' = uart_out s @ (if sint xx < 0 then [ch CHR ''-''] else []) @ decimal (nat \<bar>sint xx\<bar>)"
    using cons_puts_out [OF assms] e by (auto simp: printint_def printint_buf_ok decimal_def)
  show "\<exists>s'. printint s xx 16 False = Ok s' \<and> screen_wf s' \<and> uart_out s' = uart_out s @ map ((!) lower_digits) (numeral_of 16 (unat xx))"
    using cons_puts_out [OF assms] by (auto simp: printint_def printint_buf_ok)
qed

text \<open>C19: The console input buffer implements the line discipline. Whatever keys arrive, \<^verbatim>\<open>consoleintr\<close>
  neither panics nor writes outside the screen or the buffer, and its effect on the ring buffer (with
  its wrapping 32-bit counters) is the effect of the keys on the pair of ready bytes and edited line;
  a reader then gets exactly the bytes the discipline assigns to it, or waits when there are none.\<close>

theorem console_line_discipline:
  assumes "screen_wf s" "input_wf s"
  shows "\<exists>s'. consoleintr cs s = Ok (s', 16 \<in> set cs) \<and> screen_wf s' \<and> input_wf s' \<and>
    (in_ready s', in_edit s') = fold line_key cs (in_ready s, in_edit s) \<and>
    (case read_line n n (in_ready s') of
       Some (l, rest) \<Rightarrow> \<exists>s''. consoleread_loop False n n s' = Ok ((False, l), s'') \<and> in_ready s'' = rest \<and> in_edit s'' = in_edit s'
     | None \<Rightarrow> consoleread_loop False n n s' = Fault ''consoleread: would sleep'')"
proof -
  obtain s' where s': "consoleintr cs s = Ok (s', 16 \<in> set cs)" "screen_wf s'" "input_wf s'"
      "(in_ready s', in_edit s') = fold line_key cs (in_ready s, in_edit s)"
    using consoleintr_ok [OF assms, of cs False] by (auto simp: consoleintr_def)
  with consoleread_ok [OF s'(3), of n n] show ?thesis by (auto split: option.splits)
qed

text \<open>The boot state with the counters about to wrap; the line \<open>ab<backspace>c<return>\<close> and the start of another.\<close>

definition demo_console :: console where
  "demo_console = \<lparr>uart = True, uart_out = [], crt = replicate (25 * 80) 0, crt_pos = 0, panicked = False,
     in_buf = replicate INPUT_BUF 0, in_r = - 1, in_w = - 1, in_e = - 1\<rparr>"

theorem console_line_discipline_witness:
  "\<exists>s' s''. consoleintr [97, 98, 8, 99, 13, 100] demo_console = Ok (s', False) \<and> in_ready s' = [97, 99, 10] \<and> in_edit s' = [100] \<and>
     consoleread_loop False 100 100 s' = Ok ((False, [97, 99, 10]), s'') \<and> in_ready s'' = []"
proof -
  have "screen_wf demo_console" "input_wf demo_console" "in_ready demo_console = []" "in_edit demo_console = []"
    by (simp_all add: demo_console_def screen_wf_def input_wf_def in_ready_def in_edit_def in_chars_def)
  note w = this
  have f: "fold line_key [97, 98, 8, 99, 13, 100] ([], []) = ([97, 99, 10], [100])" by (simp add: line_key_def)
  have "read_line 100 100 [97, 99, 10] = Some ([97, 99, 10], [])" by code_simp
  with console_line_discipline [OF w(1,2), of "[97, 98, 8, 99, 13, 100]" 100] w(3,4) f show ?thesis by auto
qed

theorem printint_prints_numeral_witness:
  "\<exists>s'. printint demo_console (- 42) 10 True = Ok s' \<and> uart_out s' = str ''-42''"
proof -
  have "screen_wf demo_console" "uart demo_console" "uart_out demo_console = []" by (simp_all add: demo_console_def screen_wf_def)
  moreover have "decimal 42 = str ''42''" by (simp add: decimal_rec [of 42] decimal_rec [of 4] lower_digits_def str_def)
  ultimately show ?thesis using printint_prints_numeral [of demo_console "- 42"] by (auto simp: str_def)
qed

end
