(* ===== verification/Strings.thy ===== *)
theory Strings
  imports Prelude
begin

text \<open>
  The string functions of string.c (kernel) and ulib.c (user) on the bytes from a pointer on. A C
  string ends at its first zero byte; past the end of the list a zero is read. The result of a copy
  is the list of bytes written.
\<close>

definition cstr :: "byte list \<Rightarrow> byte list" where
  "cstr p = takeWhile (\<lambda>c. c \<noteq> 0) p"

fun deref :: "byte list \<Rightarrow> byte" where
  "deref [] = 0"
| "deref (c # p) = c"

fun strncmp :: "byte list \<Rightarrow> byte list \<Rightarrow> nat \<Rightarrow> int" where
  "strncmp p q 0 = 0"
| "strncmp p q (Suc n) =
     (if deref p \<noteq> 0 \<and> deref p = deref q then strncmp (tl p) (tl q) n else uint (deref p) - uint (deref q))"

fun strncpy :: "byte list \<Rightarrow> nat \<Rightarrow> byte list" where
  "strncpy t 0 = []"
| "strncpy t (Suc n) = (if deref t \<noteq> 0 then deref t # strncpy (tl t) n else 0 # replicate n 0)"

fun safestrcpy_loop :: "byte list \<Rightarrow> nat \<Rightarrow> byte list" where
  "safestrcpy_loop t 0 = []"
| "safestrcpy_loop t (Suc n) = (if deref t \<noteq> 0 then deref t # safestrcpy_loop (tl t) n else [0])"

definition safestrcpy :: "byte list \<Rightarrow> int \<Rightarrow> byte list" where
  "safestrcpy t n = (if n \<le> 0 then [] else safestrcpy_loop t (nat (n - 1)) @ [0])"

fun strlen :: "byte list \<Rightarrow> nat" where
  "strlen [] = 0"
| "strlen (c # s) = (if c = 0 then 0 else Suc (strlen s))"

fun strcmp :: "byte list \<Rightarrow> byte list \<Rightarrow> int" where
  "strcmp [] q = uint (0 :: byte) - uint (deref q)"
| "strcmp (c # p) q = (if c \<noteq> 0 \<and> c = deref q then strcmp p (tl q) else uint c - uint (deref q))"

fun strcpy :: "byte list \<Rightarrow> byte list" where
  "strcpy [] = [0]"
| "strcpy (c # t) = (if c \<noteq> 0 then c # strcpy t else [0])"

text \<open>\<^verbatim>\<open>strchr\<close> returns the rest of the string from the first occurrence on.\<close>

fun strchr :: "byte list \<Rightarrow> byte \<Rightarrow> byte list option" where
  "strchr [] c = None"
| "strchr (x # s) c = (if x = 0 then None else if x = c then Some (x # s) else strchr s c)"

section \<open>What they compute\<close>

lemma cstr_simps [simp]: "cstr [] = []" "cstr (c # p) = (if c = 0 then [] else c # cstr p)"
  by (simp_all add: cstr_def)

lemma cstr_unfold: "cstr p = (if deref p = 0 then [] else deref p # cstr (tl p))"
  by (cases p) auto

lemma cstr_nonzero: "c \<in> set (cstr p) \<Longrightarrow> c \<noteq> 0"
  by (induction p) (auto split: if_splits)

lemma cstr_id: "0 \<notin> set p \<Longrightarrow> cstr p = p"
  by (induction p) auto

lemma strlen_cstr: "strlen s = length (cstr s)"
  by (induction s) auto

lemma strcpy_cstr: "strcpy s = cstr s @ [0]"
  by (induction s) auto

lemma strncmp_0_iff: "strncmp p q n = 0 \<longleftrightarrow> take n (cstr p) = take n (cstr q)"
proof (induction p q n rule: strncmp.induct)
  case (2 p q n)
  note u = cstr_unfold [of p] cstr_unfold [of q]
  show ?case
  proof (cases "deref p \<noteq> 0 \<and> deref p = deref q")
    case True
    then show ?thesis using 2 by (simp add: u)
  next
    case False
    then show ?thesis by (auto simp: u word_uint_eq_iff)
  qed
qed simp

lemma strcmp_0_iff: "strcmp p q = 0 \<longleftrightarrow> cstr p = cstr q"
proof (induction p q rule: strcmp.induct)
  case (1 q)
  then show ?case by (simp add: cstr_unfold [of q] word_uint_eq_iff)
next
  case (2 c p q)
  then show ?case by (auto simp: cstr_unfold [of q] word_uint_eq_iff)
qed

lemma length_strncpy [simp]: "length (strncpy t n) = n"
  by (induction t n rule: strncpy.induct) auto

lemma strncpy_eq: "strncpy t n = take n (cstr t) @ replicate (n - length (cstr t)) 0"
proof (induction t n rule: strncpy.induct)
  case (2 t n)
  then show ?case by (simp add: cstr_unfold [of t])
qed simp

lemma cstr_strncpy: "cstr (strncpy t n) = take n (cstr t)"
proof -
  have "0 \<notin> set (take n (cstr t))" using cstr_nonzero [of 0 t] by (auto dest: in_set_takeD)
  then have "cstr (take n (cstr t) @ replicate k 0) = take n (cstr t)" for k
    by (cases k) (auto simp: cstr_def takeWhile_append2 takeWhile_tail intro!: takeWhile_eq_all_conv [THEN iffD2])
  then show ?thesis by (simp add: strncpy_eq)
qed

text \<open>A copy that reaches the end of the string writes its zero, and then the final one after it.\<close>

lemma safestrcpy_loop_eq: "safestrcpy_loop t n = take n (cstr t) @ (if strlen t < n then [0] else [])"
proof (induction t n rule: safestrcpy_loop.induct)
  case (2 t n)
  then show ?case by (simp add: strlen_cstr cstr_unfold [of t])
qed simp

text \<open>C22: the copies and comparisons are those of C strings. \<^verbatim>\<open>strlen\<close>, \<^verbatim>\<open>strcpy\<close> and \<^verbatim>\<open>strcmp\<close> measure, copy and compare
  the bytes before the first zero. \<^verbatim>\<open>strncpy\<close> writes exactly \<open>n\<close> bytes, the first \<open>n\<close> characters of the string and then
  zeros, so that a directory name stored with it compares equal under \<^verbatim>\<open>strncmp\<close> with exactly the strings that agree
  with it in their first \<open>n\<close> characters. \<^verbatim>\<open>safestrcpy\<close> into \<open>n + 1\<close> bytes writes the first \<open>n\<close> characters and a zero,
  with a second zero when the string is shorter, and nothing into an array without room.\<close>

theorem bounded_string_copies:
  "strlen t = length (cstr t) \<and> strcpy t = cstr t @ [0] \<and> (strcmp s t = 0 \<longleftrightarrow> cstr s = cstr t) \<and>
   strncpy t n = take n (cstr t) @ replicate (n - strlen t) 0 \<and> length (strncpy t n) = n \<and>
   (strncmp s t n = 0 \<longleftrightarrow> take n (cstr s) = take n (cstr t)) \<and>
   (strncmp s (strncpy t n) n = 0 \<longleftrightarrow> take n (cstr s) = take n (cstr t)) \<and>
   safestrcpy t (int (Suc n)) = take n (cstr t) @ (if strlen t < n then [0, 0] else [0]) \<and>
   safestrcpy t (- int n) = []"
proof -
  have "strncmp s (strncpy t n) n = 0 \<longleftrightarrow> take n (cstr s) = take n (cstr t)" by (simp add: strncmp_0_iff cstr_strncpy)
  then show ?thesis
    by (simp add: strncmp_0_iff strcmp_0_iff strlen_cstr strcpy_cstr safestrcpy_def safestrcpy_loop_eq) (simp add: strncpy_eq)
qed

end
