(* ===== verification/Fs.thy ===== *)
theory Fs
  imports Txn Console Strings
begin

text \<open>
  The file system of fs.c on the log and the buffer cache: the block allocator, on-disk and cached
  inodes, file contents, directories and path names, with the console driver's entry points that
  \<^verbatim>\<open>readi\<close> and \<^verbatim>\<open>writei\<close> call through \<^verbatim>\<open>devsw\<close>. A pointer to a cached inode is its index, the entries of
  \<^verbatim>\<open>devsw\<close> are tags for the functions they point to. Buffers passed to and from the caller are byte
  lists. Fields \<open>my_killed\<close> and \<open>my_cwd\<close> stand for \<^verbatim>\<open>myproc()->killed\<close> and \<^verbatim>\<open>myproc()->cwd\<close>.
\<close>

section \<open>State\<close>

abbreviation (input) NINODE :: nat where "NINODE \<equiv> 50"
abbreviation (input) NDEV :: nat where "NDEV \<equiv> 10"
abbreviation (input) NDIRECT :: nat where "NDIRECT \<equiv> 12"
abbreviation (input) NINDIRECT :: nat where "NINDIRECT \<equiv> 128"
abbreviation (input) MAXFILE :: nat where "MAXFILE \<equiv> 140"
abbreviation (input) IPB :: nat where "IPB \<equiv> 8"
abbreviation (input) BPB :: nat where "BPB \<equiv> 4096"
abbreviation (input) DIRSIZ :: nat where "DIRSIZ \<equiv> 14"
abbreviation (input) ROOTDEV :: u32 where "ROOTDEV \<equiv> 1"
abbreviation (input) ROOTINO :: u32 where "ROOTINO \<equiv> 1"
abbreviation (input) T_DIR :: u16 where "T_DIR \<equiv> 1"
abbreviation (input) T_FILE :: u16 where "T_FILE \<equiv> 2"
abbreviation (input) T_DEV :: u16 where "T_DEV \<equiv> 3"

record dinode =
  d_type :: u16
  d_major :: u16
  d_minor :: u16
  d_nlink :: u16
  d_size :: u32
  d_addrs :: "u32 list"

record inode =
  i_dev :: u32
  i_inum :: u32
  i_ref :: int
  i_locked :: bool
  i_valid :: bool
  i_type :: u16
  i_major :: u16
  i_minor :: u16
  i_nlink :: u16
  i_size :: u32
  i_addrs :: "u32 list"

datatype devfn = Consoleread | Consolewrite

record fsst = logst +
  sb :: superblock
  inodes :: "inode list"
  cons :: console
  devsw_read :: "devfn option list"
  devsw_write :: "devfn option list"
  my_killed :: bool
  my_cwd :: nat

definition upd_inode :: "'a fsst_scheme \<Rightarrow> nat \<Rightarrow> (inode \<Rightarrow> inode) \<Rightarrow> 'a fsst_scheme" where
  "upd_inode s ip f = s\<lparr>inodes := (inodes s)[ip := f (inodes s ! ip)]\<rparr>"

text \<open>The record \<^verbatim>\<open>struct dinode\<close> has 64 bytes.\<close>

definition get_dinode :: "nat \<Rightarrow> block \<Rightarrow> dinode" where
  "get_dinode off d =
     \<lparr>d_type = get16 off d, d_major = get16 (off + 2) d, d_minor = get16 (off + 4) d, d_nlink = get16 (off + 6) d,
      d_size = get32 (off + 8) d, d_addrs = map (\<lambda>i. get32 (off + 12 + 4 * i) d) [0..<NDIRECT + 1]\<rparr>"

definition put_dinode :: "nat \<Rightarrow> dinode \<Rightarrow> block \<Rightarrow> block" where
  "put_dinode off di d =
     put_bytes off (bytes16 (d_type di) @ bytes16 (d_major di) @ bytes16 (d_minor di) @ bytes16 (d_nlink di) @
       bytes32 (d_size di) @ concat (map bytes32 (d_addrs di))) d"

definition dinode_bytes :: "dinode \<Rightarrow> byte list" where
  "dinode_bytes di = bytes16 (d_type di) @ bytes16 (d_major di) @ bytes16 (d_minor di) @ bytes16 (d_nlink di) @
     bytes32 (d_size di) @ concat (map bytes32 (d_addrs di))"

lemma length_dinode_bytes [simp]: "length (dinode_bytes di) = 12 + 4 * length (d_addrs di)"
  by (simp add: dinode_bytes_def)

lemma dinode_fields:
  "get_bytes 0 2 (dinode_bytes di) = bytes16 (d_type di)" "get_bytes 2 2 (dinode_bytes di) = bytes16 (d_major di)"
  "get_bytes 4 2 (dinode_bytes di) = bytes16 (d_minor di)" "get_bytes 6 2 (dinode_bytes di) = bytes16 (d_nlink di)"
  "get_bytes 8 4 (dinode_bytes di) = bytes32 (d_size di)"
  "i < length (d_addrs di) \<Longrightarrow> get_bytes (12 + 4 * i) 4 (dinode_bytes di) = bytes32 (d_addrs di ! i)"
  by (simp_all add: dinode_bytes_def get_bytes_append get_word) (simp_all add: get_bytes_def)

lemma put_dinode_bytes: "put_dinode off di d = put_bytes off (dinode_bytes di) d"
  by (simp add: put_dinode_def dinode_bytes_def)

lemma get_put_dinode:
  assumes "length (d_addrs di) = 13" "off + 64 \<le> length d"
  shows "length (put_dinode off di d) = length d" "get_dinode off (put_dinode off di d) = di"
    "off' + 64 \<le> length d \<Longrightarrow> off' + 64 \<le> off \<or> off + 64 \<le> off' \<Longrightarrow> get_dinode off' (put_dinode off di d) = get_dinode off' d"
proof -
  have l: "off + length (dinode_bytes di) \<le> length d" "length (dinode_bytes di) = 64" using assms by simp_all
  show "length (put_dinode off di d) = length d" using l(1) by (simp add: put_dinode_bytes)
  have g: "get_bytes (off + k) n (put_dinode off di d) = get_bytes k n (dinode_bytes di)" if "k + n \<le> 64" for k n
    unfolding put_dinode_bytes using get_put_inside [OF l(1)] that l(2) by simp
  have "map (\<lambda>i. get32 (off + 12 + 4 * i) (put_dinode off di d)) [0..<13] = d_addrs di"
    using assms(1) g by (intro nth_equalityI) (auto simp: get32_def add.assoc dinode_fields)
  then show "get_dinode off (put_dinode off di d) = di"
    using g [of 0 2] g [of 2 2] g [of 4 2] g [of 6 2] g [of 8 4]
    by (simp add: get_dinode_def get16_def get32_def dinode_fields)
  have o: "get_bytes (off' + k) n (put_dinode off di d) = get_bytes (off' + k) n d"
    if "off' + 64 \<le> length d" "off' + 64 \<le> off \<or> off + 64 \<le> off'" "k + n \<le> 64" for k n
    unfolding put_dinode_bytes by (rule get_put_other [OF l(1)]) (use that l(2) in auto)
  show "get_dinode off' (put_dinode off di d) = get_dinode off' d"
    if "off' + 64 \<le> length d" "off' + 64 \<le> off \<or> off + 64 \<le> off'"
    using o [OF that, of 0 2] o [OF that, of 2 2] o [OF that, of 4 2] o [OF that, of 6 2] o [OF that, of 8 4] o [OF that, of "12 + 4 * _" 4]
    by (auto simp: get_dinode_def get16_def get32_def add.assoc)
qed

definition IBLOCK :: "u32 \<Rightarrow> superblock \<Rightarrow> u32" where
  "IBLOCK i q = i div of_nat IPB + sb_inodestart q"

definition BBLOCK :: "u32 \<Rightarrow> superblock \<Rightarrow> u32" where
  "BBLOCK b q = b div of_nat BPB + sb_bmapstart q"

section \<open>Blocks\<close>

definition bzero :: "'a fsst_scheme \<Rightarrow> u32 \<Rightarrow> u32 \<Rightarrow> 'a fsst_scheme outcome" where
  "bzero s dev bno = modify_block s dev bno (\<lambda>d. replicate BSIZE 0)"

definition bmap_bit :: "block \<Rightarrow> nat \<Rightarrow> bool" where
  "bmap_bit d bi = (d ! (bi div 8) AND push_bit (bi mod 8) 1 \<noteq> 0)"

definition bmap_set :: "nat \<Rightarrow> block \<Rightarrow> block" where
  "bmap_set bi d = d[bi div 8 := d ! (bi div 8) OR push_bit (bi mod 8) 1]"

definition bmap_clear :: "nat \<Rightarrow> block \<Rightarrow> block" where
  "bmap_clear bi d = d[bi div 8 := d ! (bi div 8) AND NOT (push_bit (bi mod 8) 1)]"

text \<open>The outer loop of \<^verbatim>\<open>balloc\<close>, over the first block \<open>b\<close> of each bitmap block; the inner one stops at
  the first clear bit.\<close>

fun balloc_loop :: "'a fsst_scheme \<Rightarrow> u32 \<Rightarrow> nat list \<Rightarrow> (u32 \<times> 'a fsst_scheme) outcome" where
  "balloc_loop s dev [] = Panic ''balloc: out of blocks''"
| "balloc_loop s dev (b # bs) =
     andThen (bread s dev (BBLOCK (of_nat b) (sb s)))
       (\<lambda>(bp, s).
          let d = b_data (bufs s ! bp)
          in case find (\<lambda>bi. b + bi < unat (sb_size (sb s)) \<and> \<not> bmap_bit d bi) [0..<BPB] of
               Some bi \<Rightarrow>
                 andThen (log_write (set_data s bp (bmap_set bi d)) bp)
                   (\<lambda>s. andThen (brelse s bp)
                      (\<lambda>s. andThen (bzero s dev (of_nat (b + bi))) (\<lambda>s. Ok (of_nat (b + bi), s))))
             | None \<Rightarrow> andThen (brelse s bp) (\<lambda>s. balloc_loop s dev bs))"

definition balloc :: "'a fsst_scheme \<Rightarrow> u32 \<Rightarrow> (u32 \<times> 'a fsst_scheme) outcome" where
  "balloc s dev = balloc_loop s dev (map (\<lambda>i. i * BPB) [0..<(unat (sb_size (sb s)) + BPB - 1) div BPB])"

definition bfree :: "'a fsst_scheme \<Rightarrow> u32 \<Rightarrow> u32 \<Rightarrow> 'a fsst_scheme outcome" where
  "bfree s dev b =
     andThen (readsb s dev)
       (\<lambda>(nsb, s). let s = s\<lparr>sb := nsb\<rparr>
          in andThen (bread s dev (BBLOCK b (sb s)))
               (\<lambda>(bp, s).
                  let bi = unat b mod BPB; d = b_data (bufs s ! bp)
                  in if \<not> bmap_bit d bi then Panic ''freeing free block''
                     else andThen (log_write (set_data s bp (bmap_clear bi d)) bp) (\<lambda>s. brelse s bp)))"

section \<open>Inodes\<close>

definition iinit :: "'a fsst_scheme \<Rightarrow> u32 \<Rightarrow> 'a fsst_scheme outcome" where
  "iinit s dev =
     andThen (readsb (s\<lparr>inodes := map (\<lambda>ip. ip\<lparr>i_locked := False\<rparr>) (inodes s)\<rparr>) dev)
       (\<lambda>(nsb, s). let s = s\<lparr>sb := nsb\<rparr>
          in andThen (cprintf (cons s)
               (Some (str ''sb: size %d nblocks %d ninodes %d nlog %d logstart %d inodestart %d bmap start %d'' @ [10]))
               (map Num [sb_size nsb, sb_nblocks nsb, sb_ninodes nsb, sb_nlog nsb, sb_logstart nsb, sb_inodestart nsb, sb_bmapstart nsb]))
               (\<lambda>c. Ok (s\<lparr>cons := c\<rparr>)))"

definition iget :: "'a fsst_scheme \<Rightarrow> u32 \<Rightarrow> u32 \<Rightarrow> (nat \<times> 'a fsst_scheme) outcome" where
  "iget s dev inum =
     (case find (\<lambda>i. i_ref (inodes s ! i) > 0 \<and> i_dev (inodes s ! i) = dev \<and> i_inum (inodes s ! i) = inum) [0..<NINODE] of
        Some i \<Rightarrow> Ok (i, upd_inode s i (\<lambda>ip. ip\<lparr>i_ref := i_ref ip + 1\<rparr>))
      | None \<Rightarrow>
          (case find (\<lambda>i. i_ref (inodes s ! i) = 0) [0..<NINODE] of
             None \<Rightarrow> Panic ''iget: no inodes''
           | Some i \<Rightarrow> Ok (i, upd_inode s i (\<lambda>ip. ip\<lparr>i_dev := dev, i_inum := inum, i_ref := 1, i_valid := False\<rparr>))))"

fun ialloc_loop :: "'a fsst_scheme \<Rightarrow> u32 \<Rightarrow> u16 \<Rightarrow> nat list \<Rightarrow> (nat \<times> 'a fsst_scheme) outcome" where
  "ialloc_loop s dev type [] = Panic ''ialloc: no inodes''"
| "ialloc_loop s dev type (inum # is) =
     andThen (bread s dev (IBLOCK (of_nat inum) (sb s)))
       (\<lambda>(bp, s).
          let d = b_data (bufs s ! bp); off = 64 * (inum mod IPB)
          in if get16 off d = 0 then
               andThen (log_write (set_data s bp (put16 off type (put_bytes off (replicate 64 0) d))) bp)
                 (\<lambda>s. andThen (brelse s bp) (\<lambda>s. iget s dev (of_nat inum)))
             else andThen (brelse s bp) (\<lambda>s. ialloc_loop s dev type is))"

definition ialloc :: "'a fsst_scheme \<Rightarrow> u32 \<Rightarrow> u16 \<Rightarrow> (nat \<times> 'a fsst_scheme) outcome" where
  "ialloc s dev type = ialloc_loop s dev type [1..<unat (sb_ninodes (sb s))]"

definition to_dinode :: "inode \<Rightarrow> dinode" where
  "to_dinode ip = \<lparr>d_type = i_type ip, d_major = i_major ip, d_minor = i_minor ip, d_nlink = i_nlink ip,
     d_size = i_size ip, d_addrs = i_addrs ip\<rparr>"

definition iupdate :: "'a fsst_scheme \<Rightarrow> nat \<Rightarrow> 'a fsst_scheme outcome" where
  "iupdate s i =
     (let ip = inodes s ! i
      in modify_block s (i_dev ip) (IBLOCK (i_inum ip) (sb s)) (put_dinode (64 * (unat (i_inum ip) mod IPB)) (to_dinode ip)))"

definition idup :: "'a fsst_scheme \<Rightarrow> nat \<Rightarrow> nat \<times> 'a fsst_scheme" where
  "idup s i = (i, upd_inode s i (\<lambda>ip. ip\<lparr>i_ref := i_ref ip + 1\<rparr>))"

definition acquiresleep_inode :: "'a fsst_scheme \<Rightarrow> nat \<Rightarrow> 'a fsst_scheme outcome" where
  "acquiresleep_inode s i =
     (if i_locked (inodes s ! i) then Fault ''acquiresleep: would sleep''
      else Ok (upd_inode s i (\<lambda>ip. ip\<lparr>i_locked := True\<rparr>)))"

definition releasesleep_inode :: "'a fsst_scheme \<Rightarrow> nat \<Rightarrow> 'a fsst_scheme" where
  "releasesleep_inode s i = upd_inode s i (\<lambda>ip. ip\<lparr>i_locked := False\<rparr>)"

definition load_inode :: "dinode \<Rightarrow> inode \<Rightarrow> inode" where
  "load_inode di ip = ip\<lparr>i_type := d_type di, i_major := d_major di, i_minor := d_minor di, i_nlink := d_nlink di,
     i_size := d_size di, i_addrs := d_addrs di, i_valid := True\<rparr>"

definition ilock :: "'a fsst_scheme \<Rightarrow> nat option \<Rightarrow> 'a fsst_scheme outcome" where
  "ilock s p =
     (case p of
        None \<Rightarrow> Panic ''ilock''
      | Some i \<Rightarrow>
          if i_ref (inodes s ! i) < 1 then Panic ''ilock''
          else
            andThen (acquiresleep_inode s i)
              (\<lambda>s. let ip = inodes s ! i
                   in if i_valid ip then Ok s
                      else
                        andThen (read_block s (i_dev ip) (IBLOCK (i_inum ip) (sb s)))
                          (\<lambda>(d, s). let s = upd_inode s i (load_inode (get_dinode (64 * (unat (i_inum ip) mod IPB)) d))
                             in if i_type (inodes s ! i) = 0 then Panic ''ilock: no type'' else Ok s)))"

definition iunlock :: "'a fsst_scheme \<Rightarrow> nat option \<Rightarrow> 'a fsst_scheme outcome" where
  "iunlock s p =
     (case p of
        None \<Rightarrow> Panic ''iunlock''
      | Some i \<Rightarrow>
          if \<not> i_locked (inodes s ! i) \<or> i_ref (inodes s ! i) < 1 then Panic ''iunlock''
          else Ok (releasesleep_inode s i))"

section \<open>Inode contents\<close>

definition set_addr :: "'a fsst_scheme \<Rightarrow> nat \<Rightarrow> nat \<Rightarrow> u32 \<Rightarrow> 'a fsst_scheme" where
  "set_addr s i k a = upd_inode s i (\<lambda>ip. ip\<lparr>i_addrs := (i_addrs ip)[k := a]\<rparr>)"

text \<open>\<open>addrs[k]\<close>, allocating the block when there is none.\<close>

definition addr_or_alloc :: "'a fsst_scheme \<Rightarrow> nat \<Rightarrow> nat \<Rightarrow> (u32 \<times> 'a fsst_scheme) outcome" where
  "addr_or_alloc s i k =
     (let a = i_addrs (inodes s ! i) ! k
      in if a = 0 then andThen (balloc s (i_dev (inodes s ! i))) (\<lambda>(a, s). Ok (a, set_addr s i k a))
         else Ok (a, s))"

text \<open>The indirect part of \<^verbatim>\<open>bmap\<close>: entry \<open>k\<close> of the indirect block \<open>a\<close>.\<close>

definition bmap_indirect :: "'a fsst_scheme \<Rightarrow> nat \<Rightarrow> u32 \<Rightarrow> nat \<Rightarrow> (u32 \<times> 'a fsst_scheme) outcome" where
  "bmap_indirect s i a k =
     andThen (bread s (i_dev (inodes s ! i)) a)
       (\<lambda>(bp, s). let a = get32 (4 * k) (b_data (bufs s ! bp))
          in if a = 0 then
               andThen (balloc s (i_dev (inodes s ! i)))
                 (\<lambda>(a, s). andThen (log_write (set_data s bp (put32 (4 * k) a (b_data (bufs s ! bp)))) bp)
                    (\<lambda>s. andThen (brelse s bp) (\<lambda>s. Ok (a, s))))
             else andThen (brelse s bp) (\<lambda>s. Ok (a, s)))"

definition bmap :: "'a fsst_scheme \<Rightarrow> nat \<Rightarrow> u32 \<Rightarrow> (u32 \<times> 'a fsst_scheme) outcome" where
  "bmap s i bn =
     (if bn < of_nat NDIRECT then addr_or_alloc s i (unat bn)
      else
        let bn = bn - of_nat NDIRECT
        in if bn < of_nat NINDIRECT
           then andThen (addr_or_alloc s i NDIRECT) (\<lambda>(a, s). bmap_indirect s i a (unat bn))
           else Panic ''bmap: out of range'')"

definition itrunc_direct :: "nat \<Rightarrow> nat \<Rightarrow> 'a fsst_scheme \<Rightarrow> 'a fsst_scheme outcome" where
  "itrunc_direct i k s =
     (if i_addrs (inodes s ! i) ! k \<noteq> 0
      then andThen (bfree s (i_dev (inodes s ! i)) (i_addrs (inodes s ! i) ! k)) (\<lambda>s. Ok (set_addr s i k 0))
      else Ok s)"

definition itrunc :: "'a fsst_scheme \<Rightarrow> nat \<Rightarrow> 'a fsst_scheme outcome" where
  "itrunc s i =
     andThen (for_each (itrunc_direct i) [0..<NDIRECT] s)
       (\<lambda>s. let dev = i_dev (inodes s ! i)
          in andThen
               (if i_addrs (inodes s ! i) ! NDIRECT \<noteq> 0
                then
                  andThen (bread s dev (i_addrs (inodes s ! i) ! NDIRECT))
                    (\<lambda>(bp, s). let d = b_data (bufs s ! bp)
                       in andThen (for_each (\<lambda>j s. if get32 (4 * j) d \<noteq> 0 then bfree s dev (get32 (4 * j) d) else Ok s) [0..<NINDIRECT] s)
                            (\<lambda>s. andThen (brelse s bp)
                               (\<lambda>s. andThen (bfree s dev (i_addrs (inodes s ! i) ! NDIRECT)) (\<lambda>s. Ok (set_addr s i NDIRECT 0)))))
                else Ok s)
               (\<lambda>s. iupdate (upd_inode s i (\<lambda>ip. ip\<lparr>i_size := 0\<rparr>)) i))"

definition iput :: "'a fsst_scheme \<Rightarrow> nat \<Rightarrow> 'a fsst_scheme outcome" where
  "iput s i =
     andThen (acquiresleep_inode s i)
       (\<lambda>s. andThen
          (if i_valid (inodes s ! i) \<and> i_nlink (inodes s ! i) = 0 \<and> i_ref (inodes s ! i) = 1
           then
             andThen (itrunc s i)
               (\<lambda>s. andThen (iupdate (upd_inode s i (\<lambda>ip. ip\<lparr>i_type := 0\<rparr>)) i)
                  (\<lambda>s. Ok (upd_inode s i (\<lambda>ip. ip\<lparr>i_valid := False\<rparr>))))
           else Ok s)
          (\<lambda>s. Ok (upd_inode (releasesleep_inode s i) i (\<lambda>ip. ip\<lparr>i_ref := i_ref ip - 1\<rparr>))))"

definition iunlockput :: "'a fsst_scheme \<Rightarrow> nat \<Rightarrow> 'a fsst_scheme outcome" where
  "iunlockput s i = andThen (iunlock s (Some i)) (\<lambda>s. iput s i)"

record stat =
  st_type :: u16
  st_dev :: u32
  st_ino :: u32
  st_nlink :: u16
  st_size :: u32

definition stati :: "'a fsst_scheme \<Rightarrow> nat \<Rightarrow> stat" where
  "stati s i = (let ip = inodes s ! i
     in \<lparr>st_type = i_type ip, st_dev = i_dev ip, st_ino = i_inum ip, st_nlink = i_nlink ip, st_size = i_size ip\<rparr>)"

text \<open>The device functions of console.c, and the call through \<^verbatim>\<open>devsw\<close>. A call that reads returns its
  result and the bytes it stored at \<^verbatim>\<open>dst\<close>.\<close>

definition consoleread :: "'a fsst_scheme \<Rightarrow> nat \<Rightarrow> int \<Rightarrow> ((int \<times> byte list) \<times> 'a fsst_scheme) outcome" where
  "consoleread s i n =
     andThen (iunlock s (Some i))
       (\<lambda>s. andThen (consoleread_loop (my_killed s) (nat n) (nat n) (cons s))
          (\<lambda>((k, bs), c). andThen (ilock (s\<lparr>cons := c\<rparr>) (Some i))
             (\<lambda>s. Ok ((if k then - 1 else int (length bs), bs), s))))"

definition consolewrite :: "'a fsst_scheme \<Rightarrow> nat \<Rightarrow> byte list \<Rightarrow> (int \<times> 'a fsst_scheme) outcome" where
  "consolewrite s i bs =
     andThen (iunlock s (Some i))
       (\<lambda>s. andThen (cons_puts (cons s) bs)
          (\<lambda>c. andThen (ilock (s\<lparr>cons := c\<rparr>) (Some i)) (\<lambda>s. Ok (int (length bs), s))))"

definition dev_read :: "'a fsst_scheme \<Rightarrow> nat \<Rightarrow> u32 \<Rightarrow> ((int \<times> byte list) \<times> 'a fsst_scheme) outcome" where
  "dev_read s i n =
     (let major = sint (i_major (inodes s ! i))
      in if major < 0 \<or> major \<ge> int NDEV then Ok ((- 1, []), s)
         else case devsw_read s ! nat major of
                None \<Rightarrow> Ok ((- 1, []), s)
              | Some Consoleread \<Rightarrow> consoleread s i (sint n)
              | Some Consolewrite \<Rightarrow> Fault ''devsw: wrong function'')"

definition dev_write :: "'a fsst_scheme \<Rightarrow> nat \<Rightarrow> byte list \<Rightarrow> (int \<times> 'a fsst_scheme) outcome" where
  "dev_write s i bs =
     (let major = sint (i_major (inodes s ! i))
      in if major < 0 \<or> major \<ge> int NDEV then Ok (- 1, s)
         else case devsw_write s ! nat major of
                None \<Rightarrow> Ok (- 1, s)
              | Some Consolewrite \<Rightarrow> consolewrite s i bs
              | Some Consoleread \<Rightarrow> Fault ''devsw: wrong function'')"

text \<open>The copy loops of \<^verbatim>\<open>readi\<close> and \<^verbatim>\<open>writei\<close>: \<open>n\<close> bytes, respectively the bytes \<open>src\<close>, are left.\<close>

function readi_loop :: "'a fsst_scheme \<Rightarrow> nat \<Rightarrow> nat \<Rightarrow> nat \<Rightarrow> (byte list \<times> 'a fsst_scheme) outcome" where
  "readi_loop s i off n =
     (if n = 0 then Ok ([], s)
      else
        andThen (bmap s i (of_nat (off div BSIZE)))
          (\<lambda>(a, s). andThen (read_block s (i_dev (inodes s ! i)) a)
             (\<lambda>(d, s). let m = min n (BSIZE - off mod BSIZE)
                in andThen (readi_loop s i (off + m) (n - m)) (\<lambda>(bs, s). Ok (get_bytes (off mod BSIZE) m d @ bs, s)))))"
  by pat_completeness auto
termination by (relation "measure (\<lambda>(s, i, off, n). n)") auto

definition readi :: "'a fsst_scheme \<Rightarrow> nat \<Rightarrow> u32 \<Rightarrow> u32 \<Rightarrow> ((int \<times> byte list) \<times> 'a fsst_scheme) outcome" where
  "readi s i off n =
     (let ip = inodes s ! i
      in if i_type ip = T_DEV then dev_read s i n
         else if off > i_size ip \<or> off + n < off then Ok ((- 1, []), s)
         else
           let n = (if off + n > i_size ip then i_size ip - off else n)
           in andThen (readi_loop s i (unat off) (unat n)) (\<lambda>(bs, s). Ok ((sint n, bs), s)))"

function writei_loop :: "'a fsst_scheme \<Rightarrow> nat \<Rightarrow> byte list \<Rightarrow> nat \<Rightarrow> 'a fsst_scheme outcome" where
  "writei_loop s i src off =
     (if src = [] then Ok s
      else
        andThen (bmap s i (of_nat (off div BSIZE)))
          (\<lambda>(a, s). let m = min (length src) (BSIZE - off mod BSIZE)
             in andThen (modify_block s (i_dev (inodes s ! i)) a (put_bytes (off mod BSIZE) (take m src)))
                  (\<lambda>s. writei_loop s i (drop m src) (off + m))))"
  by pat_completeness auto
termination by (relation "measure (\<lambda>(s, i, src, off). length src)") auto

declare readi_loop.simps [simp del] writei_loop.simps [simp del]

definition writei :: "'a fsst_scheme \<Rightarrow> nat \<Rightarrow> byte list \<Rightarrow> u32 \<Rightarrow> (int \<times> 'a fsst_scheme) outcome" where
  "writei s i src off =
     (let ip = inodes s ! i; n = of_nat (length src)
      in if i_type ip = T_DEV then dev_write s i src
         else if off > i_size ip \<or> off + n < off then Ok (- 1, s)
         else if off + n > of_nat (MAXFILE * BSIZE) then Ok (- 1, s)
         else
           andThen (writei_loop s i src (unat off))
             (\<lambda>s. if n > 0 \<and> off + n > i_size (inodes s ! i)
                  then andThen (iupdate (upd_inode s i (\<lambda>ip. ip\<lparr>i_size := off + n\<rparr>)) i) (\<lambda>s. Ok (sint n, s))
                  else Ok (sint n, s)))"

section \<open>Directories\<close>

definition namecmp :: "byte list \<Rightarrow> byte list \<Rightarrow> int" where
  "namecmp p q = strncmp p q DIRSIZ"

record dirent =
  de_inum :: u16
  de_name :: "byte list"

definition get_dirent :: "byte list \<Rightarrow> dirent" where
  "get_dirent bs = \<lparr>de_inum = word16 bs, de_name = get_bytes 2 DIRSIZ bs\<rparr>"

definition put_dirent :: "dirent \<Rightarrow> byte list" where
  "put_dirent de = bytes16 (de_inum de) @ de_name de"

text \<open>The offsets of the entries of a directory.\<close>

definition dirent_offs :: "u32 \<Rightarrow> nat list" where
  "dirent_offs sz = map (\<lambda>k. 16 * k) [0..<(unat sz + 15) div 16]"

text \<open>The result is the inode found and the offset stored at \<^verbatim>\<open>poff\<close>, or \<open>None\<close> for 0.\<close>

fun dirlookup_loop :: "'a fsst_scheme \<Rightarrow> nat \<Rightarrow> byte list \<Rightarrow> nat list \<Rightarrow> ((nat \<times> u32) option \<times> 'a fsst_scheme) outcome" where
  "dirlookup_loop s dp name [] = Ok (None, s)"
| "dirlookup_loop s dp name (off # offs) =
     andThen (readi s dp (of_nat off) 16)
       (\<lambda>((r, bs), s). let de = get_dirent bs
          in if r \<noteq> 16 then Panic ''dirlookup read''
             else if de_inum de = 0 then dirlookup_loop s dp name offs
             else if namecmp name (de_name de) = 0
             then andThen (iget s (i_dev (inodes s ! dp)) (ucast (de_inum de))) (\<lambda>(i, s). Ok (Some (i, of_nat off), s))
             else dirlookup_loop s dp name offs)"

definition dirlookup :: "'a fsst_scheme \<Rightarrow> nat \<Rightarrow> byte list \<Rightarrow> ((nat \<times> u32) option \<times> 'a fsst_scheme) outcome" where
  "dirlookup s dp name =
     (if i_type (inodes s ! dp) \<noteq> T_DIR then Panic ''dirlookup not DIR''
      else dirlookup_loop s dp name (dirent_offs (i_size (inodes s ! dp))))"

text \<open>The search of \<^verbatim>\<open>dirlink\<close> for an empty entry; past the last one it stops at the first offset not
  below the size.\<close>

fun empty_dirent :: "'a fsst_scheme \<Rightarrow> nat \<Rightarrow> nat list \<Rightarrow> (nat \<times> 'a fsst_scheme) outcome" where
  "empty_dirent s dp [] = Ok (16 * length (dirent_offs (i_size (inodes s ! dp))), s)"
| "empty_dirent s dp (off # offs) =
     andThen (readi s dp (of_nat off) 16)
       (\<lambda>((r, bs), s). if r \<noteq> 16 then Panic ''dirlink read''
          else if de_inum (get_dirent bs) = 0 then Ok (off, s) else empty_dirent s dp offs)"

definition dirlink :: "'a fsst_scheme \<Rightarrow> nat \<Rightarrow> byte list \<Rightarrow> u32 \<Rightarrow> (int \<times> 'a fsst_scheme) outcome" where
  "dirlink s dp name inum =
     andThen (dirlookup s dp name)
       (\<lambda>(r, s). case r of
          Some (i, off) \<Rightarrow> andThen (iput s i) (\<lambda>s. Ok (- 1, s))
        | None \<Rightarrow>
            andThen (empty_dirent s dp (dirent_offs (i_size (inodes s ! dp))))
              (\<lambda>(off, s). andThen (writei s dp (put_dirent \<lparr>de_inum = ucast inum, de_name = strncpy name DIRSIZ\<rparr>) (of_nat off))
                 (\<lambda>(r, s). if r \<noteq> 16 then Panic ''dirlink'' else Ok (0, s))))"

section \<open>Paths\<close>

text \<open>\<^verbatim>\<open>skipelem\<close> returns the element (at most DIRSIZ bytes of it) and the rest of the path. Paths
  are strings without their terminating zero.\<close>

definition skipelem :: "byte list \<Rightarrow> (byte list \<times> byte list) option" where
  "skipelem path =
     (let path = dropWhile (\<lambda>c. c = ch CHR ''/'') path
      in if path = [] then None
         else
           let s = takeWhile (\<lambda>c. c \<noteq> ch CHR ''/'') path;
               path = dropWhile (\<lambda>c. c \<noteq> ch CHR ''/'') path
           in Some (if length s \<ge> DIRSIZ then take DIRSIZ s else s, dropWhile (\<lambda>c. c = ch CHR ''/'') path))"

lemma skipelem_shorter:
  assumes "skipelem path = Some (name, rest)"
  shows "length rest < length path"
proof -
  let ?p = "dropWhile (\<lambda>c. c = ch CHR ''/'') path"
  have p: "?p \<noteq> []" "rest = dropWhile (\<lambda>c. c = ch CHR ''/'') (dropWhile (\<lambda>c. c \<noteq> ch CHR ''/'') ?p)"
    using assms by (auto simp: skipelem_def Let_def split: if_splits)
  then obtain c q where cq: "?p = c # q" by (cases ?p) auto
  then have "c \<noteq> ch CHR ''/''" by (simp add: dropWhile_eq_Cons_conv)
  then have "length (dropWhile (\<lambda>c. c \<noteq> ch CHR ''/'') ?p) < length ?p" using cq by (simp add: le_imp_less_Suc length_dropWhile_le)
  moreover have "length rest \<le> length (dropWhile (\<lambda>c. c \<noteq> ch CHR ''/'') ?p)" unfolding p(2) by (rule length_dropWhile_le)
  moreover have "length ?p \<le> length path" by (rule length_dropWhile_le)
  ultimately show ?thesis by linarith
qed

text \<open>The loop of \<^verbatim>\<open>namex\<close>. The result is the inode and, for the parent, the last path element.\<close>

function namex_loop :: "bool \<Rightarrow> 'a fsst_scheme \<Rightarrow> nat \<Rightarrow> byte list \<Rightarrow> byte list \<Rightarrow> ((nat \<times> byte list) option \<times> 'a fsst_scheme) outcome" where
  "namex_loop nameiparent s i path name =
     (case skipelem path of
        None \<Rightarrow> if nameiparent then andThen (iput s i) (\<lambda>s. Ok (None, s)) else Ok (Some (i, name), s)
      | Some (name, path) \<Rightarrow>
          andThen (ilock s (Some i))
            (\<lambda>s. if i_type (inodes s ! i) \<noteq> T_DIR then andThen (iunlockput s i) (\<lambda>s. Ok (None, s))
                 else if nameiparent \<and> path = [] then andThen (iunlock s (Some i)) (\<lambda>s. Ok (Some (i, name), s))
                 else
                   andThen (dirlookup s i name)
                     (\<lambda>(r, s). case r of
                        None \<Rightarrow> andThen (iunlockput s i) (\<lambda>s. Ok (None, s))
                      | Some (nxt, off) \<Rightarrow> andThen (iunlockput s i) (\<lambda>s. namex_loop nameiparent s nxt path name))))"
  by pat_completeness auto
termination
  by (relation "measure (\<lambda>(b, s, i, path, name). length path)") (auto dest: skipelem_shorter)

declare namex_loop.simps [simp del]

definition namex :: "'a fsst_scheme \<Rightarrow> byte list \<Rightarrow> bool \<Rightarrow> ((nat \<times> byte list) option \<times> 'a fsst_scheme) outcome" where
  "namex s path nameiparent =
     andThen (if deref path = ch CHR ''/'' then iget s ROOTDEV ROOTINO else Ok (idup s (my_cwd s)))
       (\<lambda>(i, s). namex_loop nameiparent s i path [])"

definition namei :: "'a fsst_scheme \<Rightarrow> byte list \<Rightarrow> (nat option \<times> 'a fsst_scheme) outcome" where
  "namei s path = andThen (namex s path False) (\<lambda>(r, s). Ok (map_option fst r, s))"

definition nameiparent :: "'a fsst_scheme \<Rightarrow> byte list \<Rightarrow> ((nat \<times> byte list) option \<times> 'a fsst_scheme) outcome" where
  "nameiparent s path = namex s path True"

end
