(* ===== verification/Pipe.thy ===== *)
theory Pipe
  imports Ring
begin

text \<open>
  The data path of pipe.c: the ring buffer of a pipe, what one uninterrupted run of \<^verbatim>\<open>pipewrite\<close> and
  \<^verbatim>\<open>piperead\<close> does under the lock of the pipe, and a step relation in which any number of writers and
  readers of one pipe interleave at the points where the code gives up that lock: when it sleeps and
  when it returns. The allocation of pipes and their use through files is in the theory of files.
\<close>

abbreviation (input) PIPESIZE :: nat where "PIPESIZE \<equiv> 512"

record pipe =
  p_data :: "byte list"
  nread :: u32
  nwrite :: u32
  readopen :: bool
  writeopen :: bool

text \<open>The fields that \<^verbatim>\<open>pipealloc\<close> sets; the data array holds what the fresh page held.\<close>

definition init_pipe :: "byte list \<Rightarrow> pipe" where
  "init_pipe d = \<lparr>p_data = d, nread = 0, nwrite = 0, readopen = True, writeopen = True\<rparr>"

text \<open>A run ends with the value the call returns, or sleeping with what it has left to do.\<close>

datatype ('r, 'a) run = Return 'r | Sleep 'a

definition pipe_put :: "pipe \<Rightarrow> byte \<Rightarrow> pipe" where
  "pipe_put p c = p\<lparr>p_data := (p_data p)[unat (nwrite p) mod PIPESIZE := c], nwrite := nwrite p + 1\<rparr>"

fun pipewrite_run :: "bool \<Rightarrow> pipe \<Rightarrow> byte list \<Rightarrow> pipe \<times> (bool, byte list) run" where
  "pipewrite_run killed p [] = (p, Return True)"
| "pipewrite_run killed p (c # cs) =
     (if nwrite p = nread p + of_nat PIPESIZE
      then if \<not> readopen p \<or> killed then (p, Return False) else (p, Sleep (c # cs))
      else pipewrite_run killed (pipe_put p c) cs)"

fun piperead_copy :: "pipe \<Rightarrow> nat \<Rightarrow> byte list \<times> pipe" where
  "piperead_copy p 0 = ([], p)"
| "piperead_copy p (Suc n) =
     (if nread p = nwrite p then ([], p)
      else case piperead_copy (p\<lparr>nread := nread p + 1\<rparr>) n of
        (bs, p') \<Rightarrow> (p_data p ! (unat (nread p) mod PIPESIZE) # bs, p'))"

definition piperead_run :: "bool \<Rightarrow> pipe \<Rightarrow> nat \<Rightarrow> pipe \<times> (byte list option, nat) run" where
  "piperead_run killed p n =
     (if nread p = nwrite p \<and> writeopen p
      then if killed then (p, Return None) else (p, Sleep n)
      else case piperead_copy p n of (bs, p') \<Rightarrow> (p', Return (Some bs)))"

section \<open>The contents of a pipe\<close>

definition pcount :: "pipe \<Rightarrow> nat" where
  "pcount p = unat (nwrite p - nread p)"

definition pcontents :: "pipe \<Rightarrow> byte list" where
  "pcontents p = ring (p_data p) (nread p) (pcount p)"

definition pipe_wf :: "pipe \<Rightarrow> bool" where
  "pipe_wf p \<longleftrightarrow> length (p_data p) = PIPESIZE \<and> pcount p \<le> PIPESIZE"

lemma pipe_full_iff: "pipe_wf p \<Longrightarrow> nwrite p = nread p + of_nat PIPESIZE \<longleftrightarrow> pcount p = PIPESIZE"
  using counter_at [of "nwrite p" "nread p" 512] by (auto simp: pcount_def)

lemma pipe_empty_iff: "nread p = nwrite p \<longleftrightarrow> pcontents p = []" "pcontents p = [] \<longleftrightarrow> pcount p = 0"
proof -
  show e: "pcontents p = [] \<longleftrightarrow> pcount p = 0" by (metis length_0_conv length_ring pcontents_def)
  show "nread p = nwrite p \<longleftrightarrow> pcontents p = []" unfolding e by (auto simp: pcount_def unat_eq_0)
qed

lemma length_pcontents [simp]: "length (pcontents p) = pcount p"
  by (simp add: pcontents_def)

lemma pipe_put_ok:
  assumes "pipe_wf p" "pcount p < PIPESIZE"
  shows "pipe_wf (pipe_put p c)" "pcontents (pipe_put p c) = pcontents p @ [c]"
    "readopen (pipe_put p c) = readopen p" "writeopen (pipe_put p c) = writeopen p" "nwrite (pipe_put p c) = nwrite p + 1"
proof -
  have n: "pcount (pipe_put p c) = Suc (pcount p)"
    using counter_bump [of "nwrite p" "nread p"] assms(2) by (simp add: pcount_def pipe_put_def)
  have w: "nwrite p = nread p + of_nat (pcount p)" by (rule counter_at) (simp add: pcount_def)
  show "pipe_wf (pipe_put p c)" using assms n by (simp add: pipe_wf_def) (simp add: pipe_put_def)
  show "pcontents (pipe_put p c) = pcontents p @ [c]"
    using pipe_ring.push [of "p_data p" "pcount p" "nread p" c] assms w unfolding pcontents_def n
    by (simp add: pipe_put_def pipe_wf_def)
qed (simp_all add: pipe_put_def)

text \<open>One run of \<^verbatim>\<open>pipewrite\<close>: it stores a prefix of the bytes and stops when they are all stored or the pipe is full.\<close>

lemma pipewrite_run_ok:
  assumes "pipe_wf p"
  shows "\<exists>p' k. fst (pipewrite_run killed p cs) = p' \<and> pipe_wf p' \<and> k \<le> length cs \<and>
    pcontents p' = pcontents p @ take k cs \<and> readopen p' = readopen p \<and> writeopen p' = writeopen p \<and>
    nwrite p' = nwrite p + of_nat k \<and>
    snd (pipewrite_run killed p cs) =
      (if k = length cs then Return True else if \<not> readopen p \<or> killed then Return False else Sleep (drop k cs)) \<and>
    (k < length cs \<longrightarrow> pcount p' = PIPESIZE)"
  using assms
proof (induction cs arbitrary: p)
  case Nil
  then show ?case by simp
next
  case (Cons c cs)
  show ?case
  proof (cases "pcount p = PIPESIZE")
    case True
    then show ?thesis using Cons.prems pipe_full_iff [OF Cons.prems] by (intro exI [of _ p] exI [of _ 0]) auto
  next
    case False
    then have lt: "pcount p < 512" using Cons.prems by (simp add: pipe_wf_def)
    note P = pipe_put_ok [OF Cons.prems lt, of c]
    obtain p' k where k: "fst (pipewrite_run killed (pipe_put p c) cs) = p'" "pipe_wf p'" "k \<le> length cs"
      "pcontents p' = pcontents p @ c # take k cs" "readopen p' = readopen p" "writeopen p' = writeopen p" "nwrite p' = nwrite p + 1 + of_nat k"
      "snd (pipewrite_run killed (pipe_put p c) cs) =
        (if k = length cs then Return True else if \<not> readopen p \<or> killed then Return False else Sleep (drop k cs))"
      "k < length cs \<longrightarrow> pcount p' = PIPESIZE"
      using Cons.IH [OF P(1)] unfolding P(2-5) append_assoc append.simps by blast
    then show ?thesis using False pipe_full_iff [OF Cons.prems] by (intro exI [of _ p'] exI [of _ "Suc k"]) simp
  qed
qed

lemma piperead_copy_ok:
  assumes "pipe_wf p" "piperead_copy p n = (bs, p')"
  shows "bs = take n (pcontents p)" "pcontents p' = drop n (pcontents p)" "pipe_wf p'"
    "readopen p' = readopen p" "writeopen p' = writeopen p"
proof -
  have "bs = take n (pcontents p) \<and> pcontents p' = drop n (pcontents p) \<and> pipe_wf p' \<and> readopen p' = readopen p \<and> writeopen p' = writeopen p"
    using assms
  proof (induction p n arbitrary: bs p' rule: piperead_copy.induct)
    case (1 p)
    then show ?case by simp
  next
    case (2 p n)
    show ?case
    proof (cases "nread p = nwrite p")
      case True
      then show ?thesis using 2 pipe_empty_iff(1) [of p] by simp
    next
      case False
      let ?q = "p\<lparr>nread := nread p + 1\<rparr>"
      obtain j where j: "pcount p = Suc j" using False pipe_empty_iff [of p] by (cases "pcount p") auto
      have q: "pcount ?q = j" using counter_drop(1) [of "nwrite p" "nread p" j] j by (simp add: pcount_def)
      have c: "pcontents p = p_data p ! (unat (nread p) mod 512) # pcontents ?q"
        using "2.prems"(1) unfolding pcontents_def j q by (simp add: ring_pop pipe_wf_def)
      have "pipe_wf ?q" using "2.prems"(1) j q by (simp add: pipe_wf_def)
      then show ?thesis using 2 False c by (auto split: prod.splits)
    qed
  qed
  then show "bs = take n (pcontents p)" "pcontents p' = drop n (pcontents p)" "pipe_wf p'"
    "readopen p' = readopen p" "writeopen p' = writeopen p" by simp_all
qed

section \<open>Writers and readers that interleave\<close>

text \<open>
  The lock of the pipe is held from the entry of \<^verbatim>\<open>pipewrite\<close> or \<^verbatim>\<open>piperead\<close> to the next sleep or return, so a run is one
  step. \<^verbatim>\<open>wakeup\<close> makes every sleeping reader (or writer) runnable; \<^verbatim>\<open>kill\<close> does so for one process. Three
  fields are histories that the code does not have: \<open>asked\<close> the bytes that the calls of each writer were given, where a
  call that fails takes back what it had left, \<open>hist\<close> the bytes of the callers that have been taken, with the writer,
  and \<open>rcvd\<close> the bytes delivered. The bytes of \<open>asked\<close> and \<open>hist\<close> come from the arguments of the calls; only
  the number of bytes that a run has taken is read from the counter of the pipe. \<open>aborted\<close> tells whether a killed
  writer has left the pipe.
\<close>

datatype wthread = WIdle | WRun "byte list" | WSleep "byte list"
datatype rthread = RIdle | RRun nat | RSleep nat

fun w_wake :: "wthread \<Rightarrow> wthread" where
  "w_wake (WSleep cs) = WRun cs"
| "w_wake w = w"

fun r_wake :: "rthread \<Rightarrow> rthread" where
  "r_wake (RSleep n) = RRun n"
| "r_wake r = r"

record psys =
  pp :: pipe
  wth :: "nat \<Rightarrow> wthread"
  rth :: "nat \<Rightarrow> rthread"
  asked :: "nat \<Rightarrow> byte list"
  hist :: "(nat \<times> byte) list"
  rcvd :: "byte list"
  aborted :: bool

definition wake_readers :: "psys \<Rightarrow> psys" where
  "wake_readers s = s\<lparr>rth := r_wake \<circ> rth s\<rparr>"

definition wake_writers :: "psys \<Rightarrow> psys" where
  "wake_writers s = s\<lparr>wth := w_wake \<circ> wth s\<rparr>"

text \<open>The effect of one run of \<^verbatim>\<open>pipewrite\<close> by writer \<open>i\<close>: the wakeup before the sleep, the one before the return, and
  none when the call returns -1.\<close>

definition w_step :: "bool \<Rightarrow> nat \<Rightarrow> byte list \<Rightarrow> psys \<Rightarrow> psys" where
  "w_step killed i cs s =
     (case pipewrite_run killed (pp s) cs of (p, r) \<Rightarrow>
        let k = unat (nwrite p - nwrite (pp s));
            s' = s\<lparr>pp := p, hist := hist s @ map (Pair i) (take k cs)\<rparr>
        in case r of
             Return True \<Rightarrow> wake_readers (s'\<lparr>wth := (wth s)(i := WIdle)\<rparr>)
           | Return False \<Rightarrow>
               s'\<lparr>wth := (wth s)(i := WIdle), aborted := aborted s \<or> readopen p,
                  asked := (asked s)(i := take (length (asked s i) - (length cs - k)) (asked s i))\<rparr>
           | Sleep rest \<Rightarrow> wake_readers (s'\<lparr>wth := (wth s)(i := WSleep rest)\<rparr>))"

definition r_step :: "bool \<Rightarrow> nat \<Rightarrow> nat \<Rightarrow> psys \<Rightarrow> psys" where
  "r_step killed i n s =
     (case piperead_run killed (pp s) n of
        (p, Return None) \<Rightarrow> s\<lparr>pp := p, rth := (rth s)(i := RIdle)\<rparr>
      | (p, Return (Some bs)) \<Rightarrow> wake_writers (s\<lparr>pp := p, rth := (rth s)(i := RIdle), rcvd := rcvd s @ bs\<rparr>)
      | (p, Sleep m) \<Rightarrow> s\<lparr>pp := p, rth := (rth s)(i := RSleep m)\<rparr>)"

text \<open>An end of the pipe is closed when no call on it is in progress.\<close>

inductive pipe_step :: "psys \<Rightarrow> psys \<Rightarrow> bool" where
  w_call: "wth s i = WIdle \<Longrightarrow> writeopen (pp s) \<Longrightarrow> pipe_step s (s\<lparr>wth := (wth s)(i := WRun cs), asked := (asked s)(i := asked s i @ cs)\<rparr>)"
| w_run: "wth s i = WRun cs \<Longrightarrow> pipe_step s (w_step killed i cs s)"
| w_kill: "pipe_step s (s\<lparr>wth := (wth s)(i := w_wake (wth s i))\<rparr>)"
| w_close: "\<forall>i. wth s i = WIdle \<Longrightarrow> pipe_step s (wake_readers (s\<lparr>pp := (pp s)\<lparr>writeopen := False\<rparr>\<rparr>))"
| r_call: "rth s i = RIdle \<Longrightarrow> readopen (pp s) \<Longrightarrow> pipe_step s (s\<lparr>rth := (rth s)(i := RRun n)\<rparr>)"
| r_run: "rth s i = RRun n \<Longrightarrow> pipe_step s (r_step killed i n s)"
| r_kill: "pipe_step s (s\<lparr>rth := (rth s)(i := r_wake (rth s i))\<rparr>)"
| r_close: "\<forall>i. rth s i = RIdle \<Longrightarrow> pipe_step s (wake_writers (s\<lparr>pp := (pp s)\<lparr>readopen := False\<rparr>\<rparr>))"

definition psys_init :: "byte list \<Rightarrow> psys" where
  "psys_init d = \<lparr>pp = init_pipe d, wth = (\<lambda>_. WIdle), rth = (\<lambda>_. RIdle), asked = (\<lambda>_. []), hist = [], rcvd = [], aborted = False\<rparr>"

inductive pipe_reach :: "psys \<Rightarrow> bool" where
  start: "length d = PIPESIZE \<Longrightarrow> pipe_reach (psys_init d)"
| step: "pipe_reach s \<Longrightarrow> pipe_step s t \<Longrightarrow> pipe_reach t"

text \<open>What a writer has left to do, and what it has put into the pipe.\<close>

fun todo :: "wthread \<Rightarrow> byte list" where
  "todo WIdle = []"
| "todo (WRun cs) = cs"
| "todo (WSleep cs) = cs"

definition put_by :: "nat \<Rightarrow> (nat \<times> byte) list \<Rightarrow> byte list" where
  "put_by i h = map snd (filter (\<lambda>x. fst x = i) h)"

definition pipe_inv :: "psys \<Rightarrow> bool" where
  "pipe_inv s \<longleftrightarrow> pipe_wf (pp s) \<and> map snd (hist s) = rcvd s @ pcontents (pp s) \<and>
     (\<forall>i. asked s i = put_by i (hist s) @ todo (wth s i)) \<and>
     (\<forall>i cs. wth s i = WSleep cs \<longrightarrow> pcount (pp s) = PIPESIZE \<and> readopen (pp s) \<and> cs \<noteq> []) \<and>
     (\<forall>i n. rth s i = RSleep n \<and> \<not> aborted s \<longrightarrow> pcount (pp s) = 0 \<and> writeopen (pp s)) \<and>
     (\<forall>i. rth s i \<noteq> RIdle \<longrightarrow> readopen (pp s))"

lemma wake_simps [simp]: "w_wake w \<noteq> WSleep cs" "r_wake r \<noteq> RSleep n" "r_wake r = RIdle \<longleftrightarrow> r = RIdle"
  by (cases w; simp) (cases r; simp)+

lemma put_by_run: "put_by j (h @ map (Pair i) cs) = put_by j h @ (if j = i then cs else [])"
  by (simp add: put_by_def comp_def filter_map)

lemma put_by_Nil [simp]: "put_by i [] = []"
  by (simp add: put_by_def)

lemma todo_wake [simp]: "todo (w_wake w) = todo w"
  by (cases w) simp_all

lemma pipe_same [simp]: "pcount (p\<lparr>writeopen := b\<rparr>) = pcount p" "pcount (p\<lparr>readopen := b\<rparr>) = pcount p"
  "pcontents (p\<lparr>writeopen := b\<rparr>) = pcontents p" "pcontents (p\<lparr>readopen := b\<rparr>) = pcontents p"
  "pipe_wf (p\<lparr>writeopen := b\<rparr>) = pipe_wf p" "pipe_wf (p\<lparr>readopen := b\<rparr>) = pipe_wf p"
  by (simp_all add: pcount_def pcontents_def pipe_wf_def)

text \<open>One run of a writer as a step of the system: \<open>k\<close> bytes taken.\<close>

lemma w_step_cases:
  assumes "pipe_wf (pp s)"
  obtains p k where "pipe_wf p" "k \<le> length cs" "pcontents p = pcontents (pp s) @ take k cs" "pcount p = pcount (pp s) + k"
    "readopen p = readopen (pp s)" "writeopen p = writeopen (pp s)" "k < length cs \<Longrightarrow> pcount p = 512"
    "w_step killed i cs s =
       (let s' = s\<lparr>pp := p, hist := hist s @ map (Pair i) (take k cs)\<rparr>
        in if k = length cs then wake_readers (s'\<lparr>wth := (wth s)(i := WIdle)\<rparr>)
           else if \<not> readopen p \<or> killed
           then s'\<lparr>wth := (wth s)(i := WIdle), aborted := aborted s \<or> readopen p,
                   asked := (asked s)(i := take (length (asked s i) - (length cs - k)) (asked s i))\<rparr>
           else wake_readers (s'\<lparr>wth := (wth s)(i := WSleep (drop k cs))\<rparr>))"
proof -
  obtain p r where pr: "pipewrite_run killed (pp s) cs = (p, r)" by (cases "pipewrite_run killed (pp s) cs")
  obtain k where k: "pipe_wf p" "k \<le> length cs" "pcontents p = pcontents (pp s) @ take k cs"
    "readopen p = readopen (pp s)" "writeopen p = writeopen (pp s)" "nwrite p = nwrite (pp s) + of_nat k"
    "r = (if k = length cs then Return True else if \<not> readopen (pp s) \<or> killed then Return False else Sleep (drop k cs))"
    "k < length cs \<longrightarrow> pcount p = 512"
    using pipewrite_run_ok [OF assms, of killed cs] unfolding pr fst_conv snd_conv by blast
  have len: "pcount p = pcount (pp s) + k" using arg_cong [OF k(3), of length] k(2) by simp
  then have "k \<le> 512" using k(1) by (simp add: pipe_wf_def)
  then have "unat (nwrite p - nwrite (pp s)) = k" using k(6) by (simp add: unat_of_nat)
  then show thesis using that [of p k] k len pr by (simp add: w_step_def Let_def)
qed

lemma w_step_inv:
  assumes "pipe_inv s" "wth s i = WRun cs"
  shows "pipe_inv (w_step killed i cs s)"
proof -
  have I: "pipe_wf (pp s)" "map snd (hist s) = rcvd s @ pcontents (pp s)" "\<And>j. asked s j = put_by j (hist s) @ todo (wth s j)"
    "\<And>j cs. wth s j = WSleep cs \<Longrightarrow> pcount (pp s) = 512 \<and> readopen (pp s) \<and> cs \<noteq> []"
    "\<And>j n. rth s j = RSleep n \<Longrightarrow> \<not> aborted s \<Longrightarrow> pcount (pp s) = 0 \<and> writeopen (pp s)"
    "\<And>j. rth s j \<noteq> RIdle \<Longrightarrow> readopen (pp s)"
    using assms(1) by (auto simp: pipe_inv_def)
  obtain p k where k: "pipe_wf p" "k \<le> length cs" "pcontents p = pcontents (pp s) @ take k cs" "pcount p = pcount (pp s) + k"
    "readopen p = readopen (pp s)" "writeopen p = writeopen (pp s)" "k < length cs \<Longrightarrow> pcount p = 512"
    and w: "w_step killed i cs s =
       (let s' = s\<lparr>pp := p, hist := hist s @ map (Pair i) (take k cs)\<rparr>
        in if k = length cs then wake_readers (s'\<lparr>wth := (wth s)(i := WIdle)\<rparr>)
           else if \<not> readopen p \<or> killed
           then s'\<lparr>wth := (wth s)(i := WIdle), aborted := aborted s \<or> readopen p,
                   asked := (asked s)(i := take (length (asked s i) - (length cs - k)) (asked s i))\<rparr>
           else wake_readers (s'\<lparr>wth := (wth s)(i := WSleep (drop k cs))\<rparr>))"
    by (rule w_step_cases [OF I(1), of cs killed i]) (rule that; assumption)
  have full: "pcount (pp s) = 512 \<Longrightarrow> pcount p = 512" using k(1,4) by (simp add: pipe_wf_def)
  have h: "map snd (hist s @ map (Pair i) (take k cs)) = rcvd s @ pcontents p" using I(2) k(3) by (simp add: comp_def)
  have ai: "asked s i = put_by i (hist s) @ cs" using I(3) [of i] assms(2) by simp
  consider "k = length cs" | "k < length cs" "\<not> readopen p \<or> killed" | "k < length cs" "readopen p" "\<not> killed" using k(2) by linarith
  then show ?thesis
  proof cases
    case 1
    then show ?thesis using I k h full ai unfolding w
      by (auto simp: pipe_inv_def wake_readers_def Let_def put_by_run)
  next
    case 2
    moreover have "\<exists>j n. rth s j = RSleep n \<Longrightarrow> readopen p" using I(6) k(5) by force
    ultimately show ?thesis using I k h full ai unfolding w
      by (auto simp: pipe_inv_def Let_def put_by_run)
  next
    case 3
    then show ?thesis using I k h full ai unfolding w
      by (auto simp: pipe_inv_def wake_readers_def Let_def put_by_run)
  qed
qed

lemma r_step_inv:
  assumes "pipe_inv s" "rth s i = RRun n"
  shows "pipe_inv (r_step killed i n s)"
proof (cases "nread (pp s) = nwrite (pp s) \<and> writeopen (pp s)")
  case True
  then have "pcount (pp s) = 0" using pipe_empty_iff [of "pp s"] by simp
  then show ?thesis using True assms by (auto simp: r_step_def piperead_run_def pipe_inv_def)
next
  case False
  obtain bs p where c: "piperead_copy (pp s) n = (bs, p)" by (cases "piperead_copy (pp s) n")
  have wf: "pipe_wf (pp s)" using assms(1) by (simp add: pipe_inv_def)
  note C = piperead_copy_ok [OF wf c]
  have z: "pcount (pp s) = 0 \<Longrightarrow> pcount p = 0" using arg_cong [OF C(2), of length] by simp
  have "r_step killed i n s = wake_writers (s\<lparr>pp := p, rth := (rth s)(i := RIdle), rcvd := rcvd s @ bs\<rparr>)"
    using False c by (auto simp: r_step_def piperead_run_def)
  then show ?thesis using assms(1) C z by (auto simp: pipe_inv_def wake_writers_def)
qed

lemma pipe_step_inv: "pipe_step s t \<Longrightarrow> pipe_inv s \<Longrightarrow> pipe_inv t"
proof (induction rule: pipe_step.induct)
  case (w_run s i cs killed)
  then show ?case using w_step_inv by blast
next
  case (r_run s i n killed)
  then show ?case using r_step_inv by blast
qed (auto simp: pipe_inv_def wake_readers_def wake_writers_def)

lemma pipe_reach_inv: "pipe_reach s \<Longrightarrow> pipe_inv s"
proof (induction rule: pipe_reach.induct)
  case (start d)
  then show ?case by (simp add: pipe_inv_def psys_init_def init_pipe_def pipe_wf_def pcount_def pcontents_def)
next
  case (step s t)
  then show ?case by (blast intro: pipe_step_inv)
qed

text \<open>The other side wakes whoever sleeps.\<close>

lemma reader_wakes_writers:
  assumes "pipe_inv s" "wth s i = WSleep cs"
  shows "wth (r_step killed j n s) i = WRun cs"
proof -
  have "pcount (pp s) = 512" using assms by (auto simp: pipe_inv_def)
  then have "nread (pp s) \<noteq> nwrite (pp s)" using pipe_empty_iff [of "pp s"] by simp
  then show ?thesis
    using assms(2) by (cases "piperead_copy (pp s) n") (simp add: r_step_def piperead_run_def wake_writers_def)
qed

lemma writer_wakes_readers:
  assumes "pipe_inv s" "rth s j = RSleep n"
  shows "rth (w_step False i cs s) j = RRun n"
proof -
  have wf: "pipe_wf (pp s)" "readopen (pp s)" using assms by (auto simp: pipe_inv_def)
  show ?thesis
    by (rule w_step_cases [OF wf(1), of cs False i]) (use wf(2) assms(2) in \<open>simp add: Let_def wake_readers_def\<close>)
qed

text \<open>C14: however writers, readers, kills and closes of a pipe interleave, the bytes delivered so far followed by the
  bytes in the ring are exactly the bytes taken from the callers so far, in order, with at most 512 in the ring, and what each
  writer was given is what it has put into the pipe followed by what it has left to do; so a call that returns its count
  has put all its bytes. A writer sleeps only while the ring is full and the pipe open for reading, and every run of a reader
  wakes it. Unless a killed writer has left a full ring, a reader sleeps only while the ring is empty and the pipe open for
  writing, so writers and readers never sleep at once, and every run of a writer that is not killed wakes it.\<close>

theorem pipe_fifo_no_deadlock:
  assumes "pipe_reach s"
  shows "map snd (hist s) = rcvd s @ pcontents (pp s) \<and> length (pcontents (pp s)) \<le> PIPESIZE \<and>
    (\<forall>i. asked s i = put_by i (hist s) @ todo (wth s i)) \<and>
    (\<forall>i cs. wth s i = WSleep cs \<longrightarrow>
       pcount (pp s) = PIPESIZE \<and> readopen (pp s) \<and> (\<forall>killed j n. wth (r_step killed j n s) i = WRun cs)) \<and>
    (\<not> aborted s \<longrightarrow> (\<forall>j n. rth s j = RSleep n \<longrightarrow>
       pcontents (pp s) = [] \<and> writeopen (pp s) \<and> (\<forall>i cs. wth s i \<noteq> WSleep cs) \<and> (\<forall>i cs. rth (w_step False i cs s) j = RRun n)))"
proof -
  have I: "pipe_inv s" by (rule pipe_reach_inv [OF assms])
  show ?thesis
    using I pipe_empty_iff(2) [of "pp s"] reader_wakes_writers [OF I] writer_wakes_readers [OF I]
    by (auto simp: pipe_inv_def pipe_wf_def)
qed

text \<open>A writer stores two bytes and a reader takes the first.\<close>

theorem pipe_fifo_no_deadlock_witness:
  "\<exists>s. pipe_reach s \<and> asked s 0 = [1, 2] \<and> put_by 0 (hist s) = [1, 2] \<and> rcvd s = [1] \<and> pcontents (pp s) = [2]"
proof -
  let ?s0 = "psys_init (replicate 512 0)"
  let ?s1 = "?s0\<lparr>wth := (wth ?s0)(0 := WRun [1, 2]), asked := (asked ?s0)(0 := asked ?s0 0 @ [1, 2])\<rparr>"
  let ?s2 = "w_step False 0 [1, 2] ?s1"
  let ?s3 = "?s2\<lparr>rth := (rth ?s2)(0 := RRun 1)\<rparr>"
  let ?s4 = "r_step False 0 1 ?s3"
  have s2: "?s2 = \<lparr>pp = \<lparr>p_data = (replicate 512 0)[0 := 1, 1 := 2], nread = 0, nwrite = 2, readopen = True, writeopen = True\<rparr>,
      wth = (\<lambda>_. WIdle), rth = (\<lambda>_. RIdle), asked = (\<lambda>_. [])(0 := [1, 2]), hist = [(0, 1), (0, 2)], rcvd = [], aborted = False\<rparr>"
    by (simp add: psys_init_def init_pipe_def w_step_def pipe_put_def wake_readers_def Let_def comp_def fun_eq_iff)
  have s4: "asked ?s4 0 = [1, 2]" "hist ?s4 = [(0, 1), (0, 2)]" "rcvd ?s4 = [1]" "wth ?s4 0 = WIdle"
    unfolding s2 by (simp_all add: r_step_def piperead_run_def wake_writers_def)
  have "pipe_step ?s0 ?s1" by (rule pipe_step.w_call) (simp_all add: psys_init_def init_pipe_def)
  moreover have "pipe_step ?s1 ?s2" by (rule pipe_step.w_run) simp
  moreover have "pipe_step ?s2 ?s3" by (rule pipe_step.r_call) (simp_all add: s2)
  moreover have "pipe_step ?s3 ?s4" by (rule pipe_step.r_run) simp
  ultimately have r: "pipe_reach ?s4" by (meson pipe_reach.step pipe_reach.start length_replicate)
  obtain t where t: "pipe_reach t" "asked t 0 = [1, 2]" "hist t = [(0, 1), (0, 2)]" "rcvd t = [1]" "wth t 0 = WIdle" using r s4 by blast
  have "map snd (hist t) = rcvd t @ pcontents (pp t)" "asked t 0 = put_by 0 (hist t) @ todo (wth t 0)"
    using pipe_fifo_no_deadlock [OF t(1)] by blast+
  then have "pcontents (pp t) = [2]" "put_by 0 (hist t) = [1, 2]" using t(2-5) by simp_all
  then show ?thesis using t by blast
qed

lemma w_step_abort:
  assumes "pipewrite_run killed (pp s) cs = (p, Return False)"
  shows "rth (w_step killed i cs s) = rth s" "pp (w_step killed i cs s) = p" "wth (w_step killed i cs s) i = WIdle"
  using assms by (simp_all add: w_step_def Let_def)

text \<open>C15: a writer of a pipe that is killed leaves a wakeup out: a reader sleeps on the empty pipe, the writer stores 512 of
  its 513 bytes, finds the ring full and returns -1; the reader still sleeps although the ring holds 512 bytes for it.\<close>

theorem pipe_killed_writer_loses_wakeup:
  "\<exists>s. pipe_reach s \<and> rth s 0 = RSleep 1 \<and> length (pcontents (pp s)) = 512 \<and> wth s 0 = WIdle"
proof -
  let ?s0 = "psys_init (replicate 512 0)" and ?cs = "replicate 513 (7 :: byte)"
  let ?s1 = "?s0\<lparr>rth := (rth ?s0)(0 := RRun 1)\<rparr>"
  let ?s2 = "r_step False 0 1 ?s1"
  let ?s3 = "?s2\<lparr>wth := (wth ?s2)(0 := WRun ?cs), asked := (asked ?s2)(0 := asked ?s2 0 @ ?cs)\<rparr>"
  let ?s4 = "w_step True 0 ?cs ?s3"
  have s2: "?s2 = ?s0\<lparr>rth := (rth ?s0)(0 := RSleep 1)\<rparr>" by (simp add: psys_init_def init_pipe_def r_step_def piperead_run_def)
  have p3: "pp ?s3 = init_pipe (replicate 512 0)" unfolding s2 by (simp add: psys_init_def)
  have wf: "pipe_wf (pp ?s3)" "pcontents (pp ?s3) = []" "pcount (pp ?s3) = 0"
    unfolding p3 by (simp_all add: init_pipe_def pipe_wf_def pcount_def pcontents_def)
  obtain k where k: "pipe_wf (fst (pipewrite_run True (pp ?s3) ?cs))" "pcontents (fst (pipewrite_run True (pp ?s3) ?cs)) = take k ?cs"
    "k \<le> 513" "k < 513 \<longrightarrow> pcount (fst (pipewrite_run True (pp ?s3) ?cs)) = 512"
    "snd (pipewrite_run True (pp ?s3) ?cs) = (if k = 513 then Return True else Return False)"
    using pipewrite_run_ok [OF wf(1), of True ?cs] wf(2) by auto
  have "k < 513" using k(1,3) arg_cong [OF k(2), of length] by (auto simp: pipe_wf_def)
  then have r: "pipewrite_run True (pp ?s3) ?cs = (fst (pipewrite_run True (pp ?s3) ?cs), Return False)"
    "pcount (fst (pipewrite_run True (pp ?s3) ?cs)) = 512" using k(4,5) by (auto simp: prod_eq_iff)
  have s4: "rth ?s4 0 = RSleep 1" "pcount (pp ?s4) = 512" "wth ?s4 0 = WIdle"
    using w_step_abort [OF r(1), of 0] r(2) unfolding s2 by simp_all
  have "pipe_step ?s0 ?s1" by (rule pipe_step.r_call) (simp_all add: psys_init_def init_pipe_def)
  moreover have "pipe_step ?s1 ?s2" by (rule pipe_step.r_run) simp
  moreover have "pipe_step ?s2 ?s3" unfolding s2 by (rule pipe_step.w_call) (simp_all add: psys_init_def init_pipe_def)
  moreover have "pipe_step ?s3 ?s4" by (rule pipe_step.w_run) simp
  ultimately have "pipe_reach ?s4" by (meson pipe_reach.step pipe_reach.start length_replicate)
  then show ?thesis using s4 by (intro exI [of _ ?s4]) simp
qed

end
