(* ===== verification/Memory.thy ===== *)
theory Memory
  imports Prelude
begin

text \<open>
  Byte-addressed memory as the kernel sees it through its own mapping, little-endian
  32-bit loads and stores, and the block operations of string.c (\<^verbatim>\<open>memset\<close>,
  \<^verbatim>\<open>memmove\<close>, \<^verbatim>\<open>memcmp\<close>) with the string instructions of x86.h they are built on.
  The closed forms proved here are what the page-table and allocator proofs use.
\<close>

type_synonym memory = "addr \<Rightarrow> byte"

section \<open>Words in memory\<close>

definition load32 :: "memory \<Rightarrow> addr \<Rightarrow> u32" where
  "load32 m a =
     (ucast (m a) OR push_bit 8 (ucast (m (a + 1)))
      OR push_bit 16 (ucast (m (a + 2))) OR push_bit 24 (ucast (m (a + 3))))"

definition store32 :: "memory \<Rightarrow> addr \<Rightarrow> u32 \<Rightarrow> memory" where
  "store32 m a w =
     m(a := ucast w, a + 1 := ucast (drop_bit 8 w),
       a + 2 := ucast (drop_bit 16 w), a + 3 := ucast (drop_bit 24 w))"

section \<open>String instructions and block operations\<close>

text \<open>\<^verbatim>\<open>rep stosb\<close> and \<^verbatim>\<open>rep stosl\<close> with the direction flag clear.\<close>

fun stosb :: "memory \<Rightarrow> addr \<Rightarrow> byte \<Rightarrow> nat \<Rightarrow> memory" where
  "stosb m a c 0 = m"
| "stosb m a c (Suc n) = stosb (m(a := c)) (a + 1) c n"

fun stosl :: "memory \<Rightarrow> addr \<Rightarrow> u32 \<Rightarrow> nat \<Rightarrow> memory" where
  "stosl m a w 0 = m"
| "stosl m a w (Suc n) = stosl (store32 m a w) (a + 4) w n"

definition memset :: "memory \<Rightarrow> addr \<Rightarrow> u32 \<Rightarrow> u32 \<Rightarrow> memory" where
  "memset m dst c n =
     (if dst mod 4 = 0 \<and> n mod 4 = 0 then
        (let c = c AND 0xFF in
         stosl m dst (push_bit 24 c OR push_bit 16 c OR push_bit 8 c OR c) (unat (n div 4)))
      else stosb m dst (ucast c) (unat n))"

text \<open>The two copy loops of \<^verbatim>\<open>memmove\<close>: from the end downwards and from the start upwards.\<close>

fun copy_down :: "memory \<Rightarrow> addr \<Rightarrow> addr \<Rightarrow> nat \<Rightarrow> memory" where
  "copy_down m d s 0 = m"
| "copy_down m d s (Suc n) = copy_down (m(d - 1 := m (s - 1))) (d - 1) (s - 1) n"

fun copy_up :: "memory \<Rightarrow> addr \<Rightarrow> addr \<Rightarrow> nat \<Rightarrow> memory" where
  "copy_up m d s 0 = m"
| "copy_up m d s (Suc n) = copy_up (m(d := m s)) (d + 1) (s + 1) n"

definition memmove :: "memory \<Rightarrow> addr \<Rightarrow> addr \<Rightarrow> u32 \<Rightarrow> memory" where
  "memmove m dst src n =
     (if src < dst \<and> dst < src + n then copy_down m (dst + n) (src + n) (unat n)
      else copy_up m dst src (unat n))"

definition memcpy :: "memory \<Rightarrow> addr \<Rightarrow> addr \<Rightarrow> u32 \<Rightarrow> memory" where
  "memcpy m dst src n = memmove m dst src n"

fun memcmp_loop :: "memory \<Rightarrow> addr \<Rightarrow> addr \<Rightarrow> nat \<Rightarrow> int" where
  "memcmp_loop m s1 s2 0 = 0"
| "memcmp_loop m s1 s2 (Suc n) =
     (if m s1 \<noteq> m s2 then uint (m s1) - uint (m s2)
      else memcmp_loop m (s1 + 1) (s2 + 1) n)"

definition memcmp :: "memory \<Rightarrow> addr \<Rightarrow> addr \<Rightarrow> u32 \<Rightarrow> int" where
  "memcmp m v1 v2 n = memcmp_loop m v1 v2 (unat n)"

section \<open>Loads and stores\<close>

lemma store32_apply:
  "store32 m a w x =
     (if x = a + 3 then ucast (drop_bit 24 w)
      else if x = a + 2 then ucast (drop_bit 16 w)
      else if x = a + 1 then ucast (drop_bit 8 w)
      else if x = a then ucast w else m x)"
  by (simp add: store32_def)

lemma load32_store32_same [simp]: "load32 (store32 m a w) a = w"
proof (rule bit_word_eqI)
  fix n assume "n < LENGTH(32)"
  then have n: "n < 32" by simp
  have "bit (load32 (store32 m a w) a) n =
      (n < 8 \<and> bit w n \<or> (8 \<le> n \<and> n < 16) \<and> bit w n \<or>
       (16 \<le> n \<and> n < 24) \<and> bit w n \<or> (24 \<le> n \<and> n < 32) \<and> bit w n)"
    using n by (auto simp: load32_def store32_def bit_simps)
  then show "bit (load32 (store32 m a w) a) n = bit w n" using n by auto
qed

lemma load32_cong:
  "m a = m' a \<Longrightarrow> m (a + 1) = m' (a + 1) \<Longrightarrow> m (a + 2) = m' (a + 2) \<Longrightarrow> m (a + 3) = m' (a + 3)
   \<Longrightarrow> load32 m a = load32 m' a"
  by (simp add: load32_def)


lemma unat_diff_Suc_iff:
  fixes x a :: addr
  shows "unat (x - (a + 1)) < n \<or> x = a \<longleftrightarrow> unat (x - a) < Suc n"
proof (cases "x = a")
  case False
  then have "x - a \<noteq> 0" by simp
  then have "unat (x - a - 1) = unat (x - a) - 1" and "0 < unat (x - a)"
    by (simp_all add: unat_minus_one unat_gt_0)
  with False show ?thesis by (auto simp: algebra_simps)
qed simp

section \<open>Closed forms of the block operations\<close>

lemma stosb_apply:
  "n \<le> 2 ^ 32 \<Longrightarrow> stosb m a c n x = (if unat (x - a) < n then c else m x)"
proof (induction n arbitrary: m a)
  case (Suc n)
  then have "stosb m a c (Suc n) x = (if unat (x - (a + 1)) < n then c else if x = a then c else m x)"
    by simp
  then show ?case using unat_diff_Suc_iff [of x a n] Suc.prems by auto
qed simp

lemma stosl_eq_stosb:
  assumes "ucast w = c" "ucast (drop_bit 8 w) = c" "ucast (drop_bit 16 w) = c"
    "ucast (drop_bit 24 w) = c"
  shows "stosl m a w n = stosb m a c (4 * n)"
proof (induction n arbitrary: m a)
  case (Suc n)
  have four: "4 * Suc n = Suc (Suc (Suc (Suc (4 * n))))" by simp
  have "stosb m a c (4 * Suc n) =
      stosb (m(a := c, a + 1 := c, a + 1 + 1 := c, a + 1 + 1 + 1 := c)) (a + 1 + 1 + 1 + 1) c (4 * n)"
    by (simp only: four stosb.simps)
  moreover have "store32 m a w = m(a := c, a + 1 := c, a + 1 + 1 := c, a + 1 + 1 + 1 := c)"
    using assms by (simp add: store32_def add.assoc)
  moreover have "a + 1 + 1 + 1 + 1 = a + 4" by (simp add: add.assoc)
  ultimately show ?case by (simp only: stosl.simps Suc.IH)
qed simp

lemma replicated_byte:
  fixes c :: u32
  defines "b \<equiv> c AND 0xFF"
  defines "w \<equiv> push_bit 24 b OR push_bit 16 b OR push_bit 8 b OR b"
  shows "ucast w = (ucast c :: byte)" "ucast (drop_bit 8 w) = (ucast c :: byte)"
    "ucast (drop_bit 16 w) = (ucast c :: byte)" "ucast (drop_bit 24 w) = (ucast c :: byte)"
proof -
  have b: "bit b n \<longleftrightarrow> n < 8 \<and> bit c n" for n
  proof -
    have "b = c AND mask 8" by (simp add: b_def mask_eq_exp_minus_1)
    then show ?thesis by (auto simp: bit_simps dest: bit_imp_le_length)
  qed
  show "ucast w = (ucast c :: byte)" "ucast (drop_bit 8 w) = (ucast c :: byte)"
    "ucast (drop_bit 16 w) = (ucast c :: byte)" "ucast (drop_bit 24 w) = (ucast c :: byte)"
    by (rule bit_word_eqI, auto simp: w_def bit_simps b)+
qed

lemma memset_apply: "memset m dst c n x = (if x - dst < n then ucast c else m x)"
proof -
  have bound: "unat n \<le> 2 ^ 32" using unsigned_less [of n, where ?'a = nat] by simp
  have "memset m dst c n = stosb m dst (ucast c) (unat n)"
  proof (cases "dst mod 4 = 0 \<and> n mod 4 = 0")
    case True
    then have "4 * unat (n div 4) = unat n"
      by (simp add: unat_div word_unat_eq_iff [of "n mod 4"] unat_mod dvd_mult_div_cancel
          dvd_eq_mod_eq_0)
    with True show ?thesis
      by (simp only: memset_def Let_def if_True simp_thms stosl_eq_stosb [OF replicated_byte])
  qed (auto simp: memset_def)
  then show ?thesis by (simp add: stosb_apply [OF bound] word_less_nat_alt)
qed

lemma copy_up_apply:
  assumes "n \<le> 2 ^ 32" "\<forall>k. 0 < k \<and> k < n \<longrightarrow> d \<noteq> s + of_nat k"
  shows "copy_up m d s n x = (if unat (x - d) < n then m (s + (x - d)) else m x)"
  using assms
proof (induction n arbitrary: m d s)
  case (Suc n)
  let ?m = "m(d := m s)"
  have sep: "\<forall>k. 0 < k \<and> k < n \<longrightarrow> d + 1 \<noteq> s + 1 + of_nat k"
    using Suc.prems by (auto simp: algebra_simps)
  have "copy_up m d s (Suc n) x =
      (if unat (x - (d + 1)) < n then ?m (s + 1 + (x - (d + 1))) else ?m x)"
    unfolding copy_up.simps using Suc.prems by (intro Suc.IH sep) simp
  moreover have "?m (s + (x - d)) = m (s + (x - d))" if "unat (x - (d + 1)) < n" "x \<noteq> d"
  proof -
    have "unat (x - d) < Suc n" using that unat_diff_Suc_iff [of x d n] by blast
    moreover have "0 < unat (x - d)" using that by (simp add: unat_gt_0)
    ultimately have "d \<noteq> s + of_nat (unat (x - d))" using Suc.prems(2) by blast
    then show ?thesis by simp
  qed
  ultimately show ?case using unat_diff_Suc_iff [of x d n] by (auto simp: algebra_simps)
qed simp

lemma copy_down_apply:
  assumes "n \<le> 2 ^ 32" "\<forall>k. 0 < k \<and> k < n \<longrightarrow> s \<noteq> d + of_nat k"
  shows "copy_down m (d + of_nat n) (s + of_nat n) n x =
    (if unat (x - d) < n then m (s + (x - d)) else m x)"
  using assms
proof (induction n arbitrary: m)
  case (Suc n)
  let ?m = "m(d + of_nat n := m (s + of_nat n))"
  have "copy_down m (d + of_nat (Suc n)) (s + of_nat (Suc n)) (Suc n) x =
      (if unat (x - d) < n then ?m (s + (x - d)) else ?m x)"
  proof -
    have pred: "d + of_nat (Suc n) - 1 = d + of_nat n" "s + of_nat (Suc n) - 1 = s + of_nat n"
      by simp_all
    show ?thesis unfolding copy_down.simps pred using Suc.prems by (intro Suc.IH) auto
  qed
  moreover have "s + (x - d) \<noteq> d + of_nat n" if "unat (x - d) < n"
  proof
    assume "s + (x - d) = d + of_nat n"
    then have "s = d + (of_nat n - of_nat (unat (x - d)))" by (simp add: algebra_simps)
    then have "s = d + of_nat (n - unat (x - d))" using that by (simp add: of_nat_diff)
    then show False using Suc.prems(2) that by (auto dest!: spec [of _ "n - unat (x - d)"])
  qed
  moreover have "x = d + of_nat n \<longleftrightarrow> unat (x - d) = n"
  proof
    assume "x = d + of_nat n"
    then show "unat (x - d) = n" using Suc.prems(1) by (simp add: unat_of_nat)
  qed auto
  ultimately show ?case by (auto simp: less_Suc_eq)
qed simp

lemma memmove_apply:
  assumes "unat src + unat n < 2 ^ 32" "unat dst + unat n < 2 ^ 32"
  shows "memmove m dst src n x = (if x - dst < n then m (src + (x - dst)) else m x)"
proof -
  have n: "unat n \<le> 2 ^ 32" using assms by simp
  have sum: "unat (src + n) = unat src + unat n" "unat (dst + n) = unat dst + unat n"
    using assms by (simp_all add: unat_word_ariths)
  have off: "unat (a + of_nat k) = unat a + k" if "unat a + unat n < 2 ^ 32" "k < unat n"
    for a :: addr and k
    using that by (simp add: unat_word_ariths unat_of_nat)
  show ?thesis
  proof (cases "src < dst \<and> dst < src + n")
    case True
    then have "\<forall>k. 0 < k \<and> k < unat n \<longrightarrow> src \<noteq> dst + of_nat k"
      using off [OF assms(2)] by (auto simp: word_less_nat_alt word_unat_eq_iff)
    from copy_down_apply [OF n this] True show ?thesis
      by (simp add: memmove_def word_less_nat_alt)
  next
    case False
    then have "\<forall>k. 0 < k \<and> k < unat n \<longrightarrow> dst \<noteq> src + of_nat k"
      using off [OF assms(1)] by (auto simp: word_less_nat_alt word_unat_eq_iff sum)
    from copy_up_apply [OF n this] False show ?thesis
      by (auto simp: memmove_def word_less_nat_alt)
  qed
qed

lemma memcmp_loop_zero_iff:
  "memcmp_loop m a b n = 0 \<longleftrightarrow> (\<forall>i < n. m (a + of_nat i) = m (b + of_nat i))"
proof (induction n arbitrary: a b)
  case (Suc n)
  have "uint (m a) - uint (m b) \<noteq> 0" if "m a \<noteq> m b" using that by (simp add: word_uint_eq_iff)
  with Suc show ?case
    by (auto simp: less_Suc_eq_0_disj algebra_simps)
qed simp

section \<open>Properties\<close>

text \<open>C37: \<^verbatim>\<open>memmove\<close> copies the block as if through a buffer, whatever the overlap of source and
  destination (neither block reaching the top of the address space), and changes no other byte.\<close>

theorem memmove_copies_overlapping:
  assumes "unat src + unat n < 2 ^ 32" "unat dst + unat n < 2 ^ 32"
  shows "memmove m dst src n = (\<lambda>x. if x - dst < n then m (src + (x - dst)) else m x)"
  using memmove_apply [OF assms] by (intro ext)

theorem memmove_copies_overlapping_witness:
  "memmove (\<lambda>a. ucast a) 0x1002 0x1000 8 =
     (\<lambda>x. if x - 0x1002 < 8 then ucast (0x1000 + (x - 0x1002)) else ucast x)"
  by (rule memmove_copies_overlapping) simp_all

text \<open>C38: \<^verbatim>\<open>memset\<close> sets exactly the \<open>n\<close> bytes from \<open>dst\<close> to the low byte of \<open>c\<close>, and its word-wise
  fast path agrees with the byte-wise one for every alignment and length.\<close>

theorem memset_fills_block:
  "memset m dst c n = (\<lambda>x. if x - dst < n then ucast c else m x)"
  using memset_apply by (intro ext)

end
