(* ===== verification/Mmu.thy ===== *)
theory Mmu
  imports Memory
begin

text \<open>
  Paging constants and address arithmetic of mmu.h and memlayout.h, and the memory
  layout constants of param.h that the other components use. Pages are identified by
  their base address; \<open>PGROUNDDOWN\<close> is the page of an address.
\<close>

section \<open>Constants\<close>

abbreviation (input) PGSIZE :: u32 where "PGSIZE \<equiv> 4096"
abbreviation (input) KERNBASE :: u32 where "KERNBASE \<equiv> 0x80000000"
abbreviation (input) EXTMEM :: u32 where "EXTMEM \<equiv> 0x100000"
abbreviation (input) PHYSTOP :: u32 where "PHYSTOP \<equiv> 0xE000000"
abbreviation (input) DEVSPACE :: u32 where "DEVSPACE \<equiv> 0xFE000000"
abbreviation (input) KERNLINK :: u32 where "KERNLINK \<equiv> 0x80100000"

abbreviation (input) PTE_P :: u32 where "PTE_P \<equiv> 0x001"
abbreviation (input) PTE_W :: u32 where "PTE_W \<equiv> 0x002"
abbreviation (input) PTE_U :: u32 where "PTE_U \<equiv> 0x004"
abbreviation (input) PTE_A :: u32 where "PTE_A \<equiv> 0x020"
abbreviation (input) PTE_PG :: u32 where "PTE_PG \<equiv> 0x200"
abbreviation (input) MSB :: u32 where "MSB \<equiv> 0x80000000"

abbreviation (input) MAX_PSYC_PAGES :: nat where "MAX_PSYC_PAGES \<equiv> 16"
abbreviation (input) MAX_TOTAL_PAGES :: nat where "MAX_TOTAL_PAGES \<equiv> 32"

section \<open>Address macros\<close>

definition V2P :: "addr \<Rightarrow> u32" where
  "V2P a = a - KERNBASE"

definition P2V :: "u32 \<Rightarrow> addr" where
  "P2V a = a + KERNBASE"

definition PDX :: "addr \<Rightarrow> u32" where
  "PDX va = drop_bit 22 va AND 0x3FF"

definition PTX :: "addr \<Rightarrow> u32" where
  "PTX va = drop_bit 12 va AND 0x3FF"

definition PGADDR :: "u32 \<Rightarrow> u32 \<Rightarrow> u32 \<Rightarrow> addr" where
  "PGADDR d t p = (push_bit 22 d OR push_bit 12 t OR p)"

definition PGROUNDUP :: "u32 \<Rightarrow> u32" where
  "PGROUNDUP sz = (sz + PGSIZE - 1) AND NOT (PGSIZE - 1)"

definition PGROUNDDOWN :: "u32 \<Rightarrow> u32" where
  "PGROUNDDOWN a = a AND NOT (PGSIZE - 1)"

definition PTE_ADDR :: "u32 \<Rightarrow> u32" where
  "PTE_ADDR pte = pte AND NOT 0xFFF"

definition PTE_FLAGS :: "u32 \<Rightarrow> u32" where
  "PTE_FLAGS pte = pte AND 0xFFF"

section \<open>Rounding\<close>

lemma mask12: "(0xFFF :: u32) = mask 12" "PGSIZE - 1 = (mask 12 :: u32)"
  by (simp_all add: mask_eq_exp_minus_1)

lemma mask10: "(0x3FF :: u32) = mask 10"
  by (simp add: mask_eq_exp_minus_1)

lemma bit_PGROUNDDOWN: "bit (PGROUNDDOWN a) n \<longleftrightarrow> 12 \<le> n \<and> bit a n"
  unfolding PGROUNDDOWN_def mask12 by (auto simp: bit_simps not_less dest: bit_imp_le_length)

lemma bit_PTE_ADDR: "bit (PTE_ADDR a) n \<longleftrightarrow> 12 \<le> n \<and> bit a n"
  unfolding PTE_ADDR_def mask12 by (auto simp: bit_simps not_less dest: bit_imp_le_length)

lemma bit_PTE_FLAGS: "bit (PTE_FLAGS a) n \<longleftrightarrow> n < 12 \<and> bit a n"
  unfolding PTE_FLAGS_def mask12 by (auto simp: bit_simps not_less dest: bit_imp_le_length)

lemma bit_PDX: "bit (PDX a) n \<longleftrightarrow> n < 10 \<and> bit a (22 + n)"
  unfolding PDX_def mask10 by (auto simp: bit_simps add.commute)

lemma bit_PTX: "bit (PTX a) n \<longleftrightarrow> n < 10 \<and> bit a (12 + n)"
  unfolding PTX_def mask10 by (auto simp: bit_simps add.commute)

lemmas bit_macros = bit_PGROUNDDOWN bit_PTE_ADDR bit_PTE_FLAGS bit_PDX bit_PTX

lemma PTE_ADDR_eq_PGROUNDDOWN: "PTE_ADDR a = PGROUNDDOWN a"
  by (rule bit_word_eqI) (simp add: bit_macros)

lemma PGROUNDDOWN_idem [simp]: "PGROUNDDOWN (PGROUNDDOWN a) = PGROUNDDOWN a"
  by (rule bit_word_eqI) (simp add: bit_macros)

definition page_aligned :: "addr \<Rightarrow> bool" where
  "page_aligned a \<longleftrightarrow> a mod PGSIZE = 0"

lemma page_aligned_iff: "page_aligned a \<longleftrightarrow> PGROUNDDOWN a = a"
proof -
  have eq: "a mod PGSIZE = take_bit 12 a" by (simp add: take_bit_eq_mod)
  have "take_bit 12 a = 0 \<longleftrightarrow> PGROUNDDOWN a = a"
    unfolding bit_eq_iff by (auto simp: bit_macros bit_simps not_less)
  with eq show ?thesis by (simp add: page_aligned_def)
qed

lemma page_aligned_PGROUNDDOWN [simp]: "page_aligned (PGROUNDDOWN a)"
  by (simp add: page_aligned_iff)

lemma bit_small:
  fixes k :: u32
  assumes "unat k < 2 ^ m" "m \<le> n"
  shows "\<not> bit k n"
proof -
  have "take_bit m (unat k) = unat k" using assms(1) by (simp add: take_bit_nat_eq_self_iff)
  then have "\<not> bit (unat k) n" using assms(2) by (metis bit_take_bit_iff not_le)
  then show ?thesis by (auto simp: bit_unsigned_iff dest: bit_imp_le_length)
qed

lemma PGROUNDDOWN_add:
  assumes "page_aligned p" "k < PGSIZE"
  shows "PGROUNDDOWN (p + k) = p"
proof -
  have k: "\<not> bit k n" if "12 \<le> n" for n using bit_small [of k 12 n] assms(2) that by (simp add: word_less_nat_alt)
  have p: "\<not> bit p n" if "n < 12" for n
    using assms(1) that bit_PGROUNDDOWN [of p n] by (auto simp: page_aligned_iff)
  have "p + k = p OR k"
    by (rule disjunctive_add) (meson k p not_le)
  then show ?thesis
    by (intro bit_word_eqI) (auto simp: bit_macros bit_simps k p intro: ccontr)
qed

lemma PGROUNDDOWN_split: "x = PGROUNDDOWN x + take_bit 12 x"
proof -
  have "PGROUNDDOWN x + take_bit 12 x = PGROUNDDOWN x OR take_bit 12 x"
    by (rule disjunctive_add) (auto simp: bit_macros bit_simps)
  also have "\<dots> = x" by (rule bit_word_eqI) (auto simp: bit_macros bit_simps)
  finally show ?thesis by simp
qed

lemma take_bit_12_less: "take_bit 12 (x :: u32) < PGSIZE"
  using take_bit_nat_less_exp [of 12 "unat x"]
  by (simp add: word_less_nat_alt unsigned_take_bit_eq)

lemma in_page_iff: "page_aligned p \<Longrightarrow> x - p < PGSIZE \<longleftrightarrow> PGROUNDDOWN x = p"
proof
  assume "page_aligned p" "x - p < PGSIZE"
  then have "PGROUNDDOWN (p + (x - p)) = p" by (rule PGROUNDDOWN_add)
  then show "PGROUNDDOWN x = p" by simp
next
  assume "PGROUNDDOWN x = p"
  then have "x - p = take_bit 12 x" using PGROUNDDOWN_split [of x] by (simp add: algebra_simps)
  then show "x - p < PGSIZE" by (simp only: take_bit_12_less)
qed

lemma PGROUNDDOWN_less: "x - PGROUNDDOWN x < PGSIZE"
  by (simp add: in_page_iff)

lemma unat_PGROUNDDOWN: "unat (PGROUNDDOWN a) = unat a div 4096 * 4096"
proof -
  have low: "unat (take_bit 12 a) = unat a mod 4096"
    by (simp add: take_bit_eq_mod unat_mod)
  have "take_bit 12 a \<le> a" by (simp add: word_le_nat_alt low)
  moreover have "PGROUNDDOWN a = a - take_bit 12 a"
    using PGROUNDDOWN_split [of a] by (simp add: algebra_simps)
  ultimately have "unat (PGROUNDDOWN a) = unat a - unat a mod 4096"
    by (simp add: unat_sub low)
  then show ?thesis by (simp add: minus_mod_eq_div_mult)
qed

lemma PGROUNDUP_eq: "PGROUNDUP sz = PGROUNDDOWN (sz + 4095)"
  by (simp add: PGROUNDUP_def PGROUNDDOWN_def add.commute)

lemma page_aligned_PGROUNDUP [simp]: "page_aligned (PGROUNDUP a)"
  by (simp add: PGROUNDUP_eq)

lemma PDX_PTX_inj:
  "PDX a = PDX b \<and> PTX a = PTX b \<longleftrightarrow> PGROUNDDOWN a = PGROUNDDOWN b"
proof
  assume "PDX a = PDX b \<and> PTX a = PTX b"
  then have d: "\<And>n. n < 10 \<Longrightarrow> bit a (22 + n) = bit b (22 + n)"
    and t: "\<And>n. n < 10 \<Longrightarrow> bit a (12 + n) = bit b (12 + n)"
    by (metis bit_PDX, metis bit_PTX)
  show "PGROUNDDOWN a = PGROUNDDOWN b"
  proof (rule bit_word_eqI)
    fix n assume "n < LENGTH(32)"
    then have "n < 12 \<or> n - 12 < 10 \<and> 12 \<le> n \<or> n - 22 < 10 \<and> 22 \<le> n" by auto
    then show "bit (PGROUNDDOWN a) n = bit (PGROUNDDOWN b) n"
      using d [of "n - 22"] t [of "n - 12"] by (auto simp: bit_macros)
  qed
next
  assume "PGROUNDDOWN a = PGROUNDDOWN b"
  then have "\<And>n. 12 \<le> n \<Longrightarrow> bit a n = bit b n" by (metis bit_PGROUNDDOWN)
  then show "PDX a = PDX b \<and> PTX a = PTX b"
    by (auto intro!: bit_word_eqI simp: bit_macros)
qed

lemma PDX_less: "PDX va < 1024" and PTX_less: "PTX va < 1024"
proof -
  have "PDX va = take_bit 10 (drop_bit 22 va)" "PTX va = take_bit 10 (drop_bit 12 va)"
    by (simp_all add: PDX_def PTX_def mask10 take_bit_eq_mask)
  moreover have "take_bit 10 (x :: u32) < 1024" for x
    using take_bit_nat_less_exp [of 10 "unat x"]
    by (simp add: word_less_nat_alt unsigned_take_bit_eq)
  ultimately show "PDX va < 1024" "PTX va < 1024" by simp_all
qed

lemma PGADDR_split: "PGADDR (PDX va) (PTX va) (PTE_FLAGS va) = va"
proof (rule bit_word_eqI)
  fix n assume "n < LENGTH(32)"
  then consider "n < 12" | "12 \<le> n" "n < 22" | "22 \<le> n" "n < 32" by fastforce
  then show "bit (PGADDR (PDX va) (PTX va) (PTE_FLAGS va)) n = bit va n"
    by cases (auto simp: PGADDR_def bit_macros bit_simps)
qed

section \<open>Word slots of a page\<close>

text \<open>The byte addresses of 32-bit slot \<open>i\<close> of page \<open>p\<close> lie in \<open>p\<close>, and distinct slots are disjoint.\<close>

definition slot :: "addr \<Rightarrow> u32 \<Rightarrow> addr" where
  "slot p i = p + 4 * i"

lemma slot_off: "i < 1024 \<Longrightarrow> k < 4 \<Longrightarrow> 4 * i + k < PGSIZE"
  by (simp add: word_less_nat_alt unat_word_ariths)

lemma PGROUNDDOWN_slot_add [simp]:
  "page_aligned p \<Longrightarrow> i < 1024 \<Longrightarrow> k < 4 \<Longrightarrow> PGROUNDDOWN (slot p i + k) = p"
  using PGROUNDDOWN_add [of p "4 * i + k"] slot_off [of i k] by (simp add: slot_def add.assoc)

lemma PGROUNDDOWN_slot [simp]: "page_aligned p \<Longrightarrow> i < 1024 \<Longrightarrow> PGROUNDDOWN (slot p i) = p"
  using PGROUNDDOWN_slot_add [of p i 0] by simp

lemma unat_slot_off: "i < 1024 \<Longrightarrow> k < 4 \<Longrightarrow> unat (4 * i + k) = 4 * unat i + unat k"
  for i k :: u32
  by (simp add: word_less_nat_alt unat_word_ariths)

lemma slot_byte_eq:
  assumes "page_aligned p" "page_aligned q" "i < 1024" "j < 1024" "k < 4" "l < 4"
  shows "slot p i + k = slot q j + l \<longleftrightarrow> p = q \<and> i = j \<and> k = l"
proof
  assume eq: "slot p i + k = slot q j + l"
  have "p = q" using arg_cong [OF eq, of PGROUNDDOWN] assms by simp
  with eq have "4 * i + k = 4 * j + l" by (simp add: slot_def add.assoc)
  then have "4 * unat i + unat k = 4 * unat j + unat l"
    using assms unat_slot_off [of i k] unat_slot_off [of j l] by simp
  moreover have "unat k < 4" "unat l < 4" using assms by (simp_all add: word_less_nat_alt)
  ultimately have "unat i = unat j" "unat k = unat l" by presburger+
  with \<open>p = q\<close> show "p = q \<and> i = j \<and> k = l" by (simp add: word_unat_eq_iff)
qed simp

lemma store32_slot_byte:
  assumes "page_aligned p" "page_aligned q" "i < 1024" "j < 1024" "l < 4" "p \<noteq> q \<or> i \<noteq> j"
  shows "store32 m (slot p i) w (slot q j + l) = m (slot q j + l)"
proof -
  have "slot q j + l \<noteq> slot p i + k" if "k < 4" for k
    using slot_byte_eq [OF assms(2,1,4,3,5) that] assms(6) by auto
  from this [of 0] this [of 1] this [of 2] this [of 3] show ?thesis
    by (simp add: store32_apply)
qed

lemma load32_store32_slot:
  assumes "page_aligned p" "page_aligned q" "i < 1024" "j < 1024" "p \<noteq> q \<or> i \<noteq> j"
  shows "load32 (store32 m (slot p i) w) (slot q j) = load32 m (slot q j)"
  using store32_slot_byte [OF assms(1-4) _ assms(5), of 0] store32_slot_byte [OF assms(1-4) _ assms(5), of 1]
    store32_slot_byte [OF assms(1-4) _ assms(5), of 2] store32_slot_byte [OF assms(1-4) _ assms(5), of 3]
  by (intro load32_cong) simp_all

text \<open>Memories that agree on a page agree on its word slots.\<close>

definition same_page :: "memory \<Rightarrow> memory \<Rightarrow> addr \<Rightarrow> bool" where
  "same_page m m' p \<longleftrightarrow> (\<forall>x. PGROUNDDOWN x = p \<longrightarrow> m x = m' x)"

lemma same_page_refl [simp]: "same_page m m p"
  by (simp add: same_page_def)

lemma same_page_trans: "same_page m1 m2 p \<Longrightarrow> same_page m2 m3 p \<Longrightarrow> same_page m1 m3 p"
  by (simp add: same_page_def)

lemma same_page_load32:
  assumes "same_page m m' p" "page_aligned p" "i < 1024"
  shows "load32 m (slot p i) = load32 m' (slot p i)"
  using assms PGROUNDDOWN_slot_add [OF assms(2,3), of 1] PGROUNDDOWN_slot_add [OF assms(2,3), of 2]
    PGROUNDDOWN_slot_add [OF assms(2,3), of 3]
  by (intro load32_cong) (simp_all add: same_page_def)

lemma same_page_store32:
  assumes "page_aligned p" "i < 1024" "q \<noteq> p"
  shows "same_page (store32 m (slot p i) w) m q"
proof -
  have "PGROUNDDOWN (slot p i + k) = p" if "k < 4" for k using that assms by simp
  from this [of 0] this [of 1] this [of 2] this [of 3] show ?thesis
    using assms(3) by (auto simp: same_page_def store32_apply)
qed

lemma same_page_memset:
  "page_aligned p \<Longrightarrow> q \<noteq> p \<Longrightarrow> same_page (memset m p c PGSIZE) m q"
  by (auto simp: same_page_def memset_apply in_page_iff)

lemma load32_memset_zero:
  assumes "page_aligned p" "i < 1024"
  shows "load32 (memset m p 0 PGSIZE) (slot p i) = 0"
  using assms PGROUNDDOWN_slot_add [OF assms, of 1] PGROUNDDOWN_slot_add [OF assms, of 2]
    PGROUNDDOWN_slot_add [OF assms, of 3]
  by (simp add: load32_def memset_apply in_page_iff)

lemma slot_0 [simp]: "slot p 0 = p"
  by (simp add: slot_def)

end
