(* ===== verification/Kalloc.thy ===== *)
theory Kalloc
  imports Mmu
begin

text \<open>
  The physical page allocator of kalloc.c. Free pages form a linked list threaded
  through their own first word (\<^verbatim>\<open>struct run\<close>), so the allocator state is the memory
  itself plus the head pointer. \<open>flist\<close> relates the list in memory to a HOL list and
  \<open>kinv\<close> is the allocator invariant; the locale \<open>page_allocator\<close> states what the
  rest of the kernel relies on.
\<close>

section \<open>State and operations\<close>

text \<open>
  \<open>kend\<close> and \<open>kdata\<close> are the linker symbols \<^verbatim>\<open>end\<close> and \<^verbatim>\<open>data\<close>, fixed addresses. \<open>use_lock\<close> is kept as data; the
  critical sections it guards are atomic here.
\<close>

record phys =
  mem :: memory
  freelist :: addr
  use_lock :: bool
  initial_pages :: u32
  kend :: addr
  kdata :: addr

definition kfree :: "'a phys_scheme \<Rightarrow> addr \<Rightarrow> 'a phys_scheme outcome" where
  "kfree s v =
     (if v mod PGSIZE \<noteq> 0 \<or> v < kend s \<or> V2P v \<ge> PHYSTOP then Panic ''kfree''
      else
        let m = memset (mem s) v 1 PGSIZE
        in Ok (s\<lparr>mem := store32 m v (freelist s), freelist := v\<rparr>))"

definition kalloc :: "'a phys_scheme \<Rightarrow> addr \<times> 'a phys_scheme" where
  "kalloc s =
     (let r = freelist s
      in (r, if r \<noteq> 0 then s\<lparr>freelist := load32 (mem s) r\<rparr> else s))"

lemma kfree_Ok_bounds:
  "kfree s v = Ok s' \<Longrightarrow> page_aligned v \<and> kend s \<le> v \<and> V2P v < PHYSTOP"
  by (auto simp: kfree_def page_aligned_def Let_def not_less split: if_splits)

lemma freerange_step:
  fixes p :: addr
  assumes "V2P p < PHYSTOP"
  shows "unat (0x8E000000 - p) < unat (0x8E001000 - p)"
proof -
  define y where "y = p - KERNBASE"
  have y: "unat y < 0xE000000" using assms by (simp add: V2P_def y_def word_less_nat_alt)
  have "p = y + KERNBASE" by (simp add: y_def)
  then have "0x8E001000 - p = 0xE001000 - y" "0x8E000000 - p = 0xE000000 - y" by simp_all
  moreover have "unat (0xE001000 - y) = 0xE001000 - unat y" "unat (0xE000000 - y) = 0xE000000 - unat y"
    using y by (simp_all add: unat_sub word_le_nat_alt)
  ultimately show ?thesis using y by (simp only:)
qed

function freerange_loop :: "'a phys_scheme \<Rightarrow> addr \<Rightarrow> addr \<Rightarrow> 'a phys_scheme outcome" where
  "freerange_loop s p vend =
     (if p + PGSIZE \<le> vend
      then andThen (kfree s p) (\<lambda>s'. freerange_loop s' (p + PGSIZE) vend)
      else Ok s)"
  by pat_completeness auto
termination
  by (relation "measure (\<lambda>(s, p, vend). unat (0x8E001000 - p))")
     (auto dest!: kfree_Ok_bounds intro: freerange_step)

declare freerange_loop.simps [simp del]

definition freerange :: "'a phys_scheme \<Rightarrow> addr \<Rightarrow> addr \<Rightarrow> 'a phys_scheme outcome" where
  "freerange s vstart vend = freerange_loop s (PGROUNDUP vstart) vend"

definition kinit1 :: "'a phys_scheme \<Rightarrow> addr \<Rightarrow> addr \<Rightarrow> 'a phys_scheme outcome" where
  "kinit1 s vstart vend = freerange (s\<lparr>use_lock := False\<rparr>) vstart vend"

definition kinit2 :: "'a phys_scheme \<Rightarrow> addr \<Rightarrow> addr \<Rightarrow> 'a phys_scheme outcome" where
  "kinit2 s vstart vend =
     andThen (freerange s vstart vend)
       (\<lambda>s. Ok (s\<lparr>initial_pages := (PGROUNDDOWN vend - PGROUNDUP vstart) div PGSIZE,
                  use_lock := True\<rparr>))"

text \<open>
  \<^verbatim>\<open>num_free\<close> follows the list until it meets the null pointer; on a cyclic list it
  does not return, which is the value \<open>None\<close>.
\<close>

partial_function (option) num_free_loop :: "memory \<Rightarrow> addr \<Rightarrow> nat \<Rightarrow> nat option" where
  "num_free_loop m r counter =
     (if r \<noteq> 0 then num_free_loop m (load32 m r) (Suc counter) else Some counter)"

definition num_free :: "'a phys_scheme \<Rightarrow> nat option" where
  "num_free s = num_free_loop (mem s) (freelist s) 0"

definition initial_pages_num :: "'a phys_scheme \<Rightarrow> u32" where
  "initial_pages_num s = initial_pages s"

section \<open>The free list and the allocator invariant\<close>

fun flist :: "memory \<Rightarrow> addr \<Rightarrow> addr list \<Rightarrow> bool" where
  "flist m r [] \<longleftrightarrow> r = 0"
| "flist m r (x # xs) \<longleftrightarrow> r = x \<and> x \<noteq> 0 \<and> flist m (load32 m x) xs"

definition kpage :: "'a phys_scheme \<Rightarrow> addr \<Rightarrow> bool" where
  "kpage s v \<longleftrightarrow> page_aligned v \<and> kend s \<le> v \<and> V2P v < PHYSTOP"

definition kinv :: "'a phys_scheme \<Rightarrow> addr list \<Rightarrow> bool" where
  "kinv s xs \<longleftrightarrow> flist (mem s) (freelist s) xs \<and> distinct xs \<and> (\<forall>x\<in>set xs. kpage s x)"

lemma kpage_nonzero: "kpage s v \<Longrightarrow> v \<noteq> 0"
  by (auto simp: kpage_def V2P_def)

lemma flist_same_page:
  "flist m r xs \<Longrightarrow> \<forall>x\<in>set xs. page_aligned x \<and> same_page m' m x \<Longrightarrow> flist m' r xs"
proof (induction xs arbitrary: r)
  case (Cons x xs)
  then have "load32 m' x = load32 m x" using same_page_load32 [of m' m x 0] by simp
  with Cons show ?case by simp
qed simp

lemma flist_unique: "flist m r xs \<Longrightarrow> flist m r ys \<Longrightarrow> xs = ys"
proof (induction xs arbitrary: r ys)
  case Nil
  then show ?case by (cases ys) auto
next
  case (Cons x xs)
  then obtain zs where ys: "ys = x # zs" by (cases ys) simp_all
  with Cons.prems have "flist m (load32 m x) xs" "flist m (load32 m x) zs" by simp_all
  then have "xs = zs" by (rule Cons.IH)
  with ys show ?case by simp
qed

lemma kinv_aligned: "kinv s xs \<Longrightarrow> x \<in> set xs \<Longrightarrow> page_aligned x"
  by (auto simp: kinv_def kpage_def)

lemma kinv_nonzero: "kinv s xs \<Longrightarrow> x \<in> set xs \<Longrightarrow> x \<noteq> 0"
  unfolding kinv_def using kpage_nonzero by blast

text \<open>Any change of memory outside the free pages keeps the invariant.\<close>

lemma kinv_mem_update [invs]:
  assumes "kinv s xs" "\<forall>x\<in>set xs. same_page m (mem s) x"
  shows "kinv (s\<lparr>mem := m\<rparr>) xs"
proof -
  have "flist m (freelist s) xs"
    using assms flist_same_page [of "mem s" "freelist s" xs m] by (simp add: kinv_def kpage_def)
  with assms show ?thesis by (simp add: kinv_def kpage_def)
qed

section \<open>Correctness of the operations\<close>

lemma kfree_ok:
  assumes "kinv s xs" "kpage s v" "v \<notin> set xs"
  obtains s' where "kfree s v = Ok s'" "kinv s' (v # xs)" "\<forall>q. q \<noteq> v \<longrightarrow> same_page (mem s') (mem s) q"
    "kend s' = kend s" "s' = s\<lparr>mem := mem s', freelist := v\<rparr>"
proof -
  define m where "m = store32 (memset (mem s) v 1 PGSIZE) v (freelist s)"
  define s' where "s' = s\<lparr>mem := m, freelist := v\<rparr>"
  have al: "page_aligned v" and nz: "v \<noteq> 0" using assms(2) kpage_nonzero by (auto simp: kpage_def)
  have same: "\<forall>q. q \<noteq> v \<longrightarrow> same_page m (mem s) q"
    using same_page_trans [OF same_page_store32 [OF al, of 0, unfolded slot_0] same_page_memset [OF al]]
    by (auto simp: m_def)
  have "kfree s v = Ok s'"
    using assms(2) by (simp add: kfree_def s'_def m_def kpage_def page_aligned_def Let_def not_le not_less)
  moreover have "load32 m v = freelist s" by (simp add: m_def)
  moreover have "flist m (freelist s) xs"
  proof (rule flist_same_page [of "mem s"])
    show "flist (mem s) (freelist s) xs" using assms(1) by (simp add: kinv_def)
    show "\<forall>x\<in>set xs. page_aligned x \<and> same_page m (mem s) x"
      using assms(1,3) same kinv_aligned by metis
  qed
  ultimately show thesis
    using assms nz same by (intro that [of s']) (auto simp: kinv_def kpage_def s'_def)
qed

lemma kalloc_Nil: "kinv s [] \<Longrightarrow> kalloc s = (0, s)"
  by (simp add: kinv_def kalloc_def)

lemma kalloc_Cons:
  assumes "kinv s (x # xs)"
  obtains s' where "kalloc s = (x, s')" "kinv s' xs" "mem s' = mem s" "kend s' = kend s"
    "s' = s\<lparr>freelist := freelist s'\<rparr>"
proof
  let ?s = "s\<lparr>freelist := load32 (mem s) x\<rparr>"
  show "kalloc s = (x, ?s)" "kinv ?s xs"
    using assms by (auto simp: kinv_def kalloc_def Let_def kpage_def)
qed simp_all

section \<open>Counting the free pages\<close>

lemma num_free_loop_flist: "flist m r xs \<Longrightarrow> num_free_loop m r n = Some (n + length xs)"
proof (induction xs arbitrary: r n)
  case Nil
  then show ?case by (subst num_free_loop.simps) simp
next
  case (Cons x xs)
  then show ?case by (subst num_free_loop.simps) simp
qed

lemma num_free_kinv: "kinv s xs \<Longrightarrow> num_free s = Some (length xs)"
  using num_free_loop_flist [of "mem s" "freelist s" xs 0] by (simp add: kinv_def num_free_def)

lemma num_free_loop_cycle:
  assumes ret: "num_free_loop m r n = Some c" and v: "v \<noteq> 0"
  shows "load32 m v = v \<longrightarrow> r \<noteq> v"
proof (rule num_free_loop.raw_induct [where P = "\<lambda>m r n c. load32 m v = v \<longrightarrow> r \<noteq> v", OF _ ret])
  fix f m r n c
  assume IH: "\<And>m r n c. f m r n = Some c \<Longrightarrow> load32 m v = v \<longrightarrow> r \<noteq> v"
    and eq: "(if r \<noteq> 0 then f m (load32 m r) (Suc n) else Some n) = Some c"
  show "load32 m v = v \<longrightarrow> r \<noteq> v"
  proof (intro impI notI)
    assume cyc: "load32 m v = v" and "r = v"
    with eq v have "f m v (Suc n) = Some c" by simp
    with IH cyc show False by blast
  qed
qed

section \<open>Initialisation\<close>

text \<open>The pages \<open>freerange\<close> visits, in order.\<close>

definition range_pages :: "addr \<Rightarrow> addr \<Rightarrow> addr list" where
  "range_pages p vend = map (\<lambda>i. p + PGSIZE * of_nat i) [0..<(unat vend - unat p) div 4096]"

lemma range_pages_Nil: "unat vend < unat p + 4096 \<Longrightarrow> range_pages p vend = []"
  by (simp add: range_pages_def)

lemma range_pages_Cons:
  assumes "unat p + 4096 \<le> unat vend"
  shows "range_pages p vend = p # range_pages (p + PGSIZE) vend"
proof -
  have "unat p + 4096 < 2 ^ 32" using assms unsigned_less [of vend, where ?'a = nat] by simp
  then have up: "unat (p + PGSIZE) = unat p + 4096" by (simp add: unat_word_ariths)
  have n: "(unat vend - unat p) div 4096 = Suc ((unat vend - unat (p + PGSIZE)) div 4096)"
    using assms up by (simp add: le_div_geq)
  show ?thesis
    unfolding range_pages_def n upt_conv_Cons [OF zero_less_Suc] map_Suc_upt [symmetric]
    by (simp add: algebra_simps)
qed

lemma length_range_pages: "length (range_pages p vend) = (unat vend - unat p) div 4096"
  by (simp add: range_pages_def)

lemma kfree_next_page:
  assumes "page_aligned p" "kend s \<le> p" "0x80000000 \<le> unat p" "unat p + 4096 \<le> unat vend"
    "unat vend \<le> 0x8E000000"
  shows "kpage s p" "page_aligned (p + PGSIZE)" "unat (p + PGSIZE) = unat p + 4096"
proof -
  show up: "unat (p + PGSIZE) = unat p + 4096" using assms by (simp add: unat_word_ariths)
  have "unat (V2P p) = unat p - 0x80000000"
    using assms by (simp add: V2P_def unat_sub word_le_nat_alt)
  then have "V2P p < PHYSTOP" using assms by (simp add: word_less_nat_alt)
  then show "kpage s p" using assms by (simp add: kpage_def)
  have "unat p mod 4096 = 0" using assms(1) by (simp add: page_aligned_def word_unat_eq_iff unat_mod)
  then show "page_aligned (p + PGSIZE)"
    by (simp add: page_aligned_def word_unat_eq_iff unat_mod up)
qed

lemma freerange_loop_ok:
  assumes "kinv s xs" "\<forall>x\<in>set xs. unat x < unat p" "page_aligned p" "kend s \<le> p"
    "0x80000000 \<le> unat p" "unat vend \<le> 0x8E000000" "unat p \<le> 0x8E000000"
  shows "\<exists>s'. freerange_loop s p vend = Ok s' \<and> kinv s' (rev (range_pages p vend) @ xs)
    \<and> kend s' = kend s"
  using assms
proof (induction s p vend arbitrary: xs rule: freerange_loop.induct)
  case (1 s p vend)
  have cond: "p + PGSIZE \<le> vend \<longleftrightarrow> unat p + 4096 \<le> unat vend"
    using "1.prems"(7) by (simp add: word_le_nat_alt unat_word_ariths)
  show ?case
  proof (cases "unat p + 4096 \<le> unat vend")
    case True
    note next_page = kfree_next_page [OF "1.prems"(3-5) True "1.prems"(6)]
    have go: "p + PGSIZE \<le> vend" using True cond by blast
    have fresh: "p \<notin> set xs" using "1.prems"(2) by blast
    obtain s' where s': "kfree s p = Ok s'" "kinv s' (p # xs)" "kend s' = kend s"
      using kfree_ok [OF "1.prems"(1) next_page(1) fresh] by metis
    have "\<exists>s''. freerange_loop s' (p + PGSIZE) vend = Ok s'' \<and>
        kinv s'' (rev (range_pages (p + PGSIZE) vend) @ p # xs) \<and> kend s'' = kend s'"
    proof (rule "1.IH" [OF go s'(1) s'(2) _ next_page(2)])
      show "\<forall>x\<in>set (p # xs). unat x < unat (p + PGSIZE)"
        using "1.prems"(2) next_page(3) by auto
      show "kend s' \<le> p + PGSIZE" "0x80000000 \<le> unat (p + PGSIZE)" "unat vend \<le> 0x8E000000"
        "unat (p + PGSIZE) \<le> 0x8E000000"
        using "1.prems"(4-6) next_page(3) s'(3) True by (simp_all add: word_le_nat_alt)
    qed
    with s' go show ?thesis
      by (auto simp: freerange_loop.simps [of s p vend] range_pages_Cons [OF True])
  next
    case False
    with cond "1.prems" show ?thesis
      by (simp add: freerange_loop.simps [of s p vend] range_pages_Nil)
  qed
qed

section \<open>The allocator as the rest of the kernel sees it\<close>

text \<open>
  A client holds the pages it was given. \<open>AAlloc\<close> asks for a page, \<open>AFree i\<close> gives back
  the \<open>i\<close>-th page it holds (and does nothing if it holds fewer).
\<close>

datatype aop = AAlloc | AFree nat

fun alloc_run :: "('s \<Rightarrow> addr \<times> 's) \<Rightarrow> ('s \<Rightarrow> addr \<Rightarrow> 's outcome) \<Rightarrow>
    aop list \<Rightarrow> 's \<Rightarrow> addr list \<Rightarrow> ('s \<times> addr list) outcome" where
  "alloc_run alloc free [] s held = Ok (s, held)"
| "alloc_run alloc free (AAlloc # ops) s held =
     (case alloc s of (r, s') \<Rightarrow>
        alloc_run alloc free ops s' (if r = 0 then held else r # held))"
| "alloc_run alloc free (AFree i # ops) s held =
     (if i < length held
      then andThen (free s (held ! i))
        (\<lambda>s'. alloc_run alloc free ops s' (take i held @ drop (Suc i) held))
      else alloc_run alloc free ops s held)"

locale page_allocator =
  fixes alloc :: "'s \<Rightarrow> addr \<times> 's"
    and free :: "'s \<Rightarrow> addr \<Rightarrow> 's outcome"
    and inv :: "'s \<Rightarrow> addr list \<Rightarrow> bool"
    and valid :: "'s \<Rightarrow> addr \<Rightarrow> bool"
  assumes alloc_empty: "inv s [] \<Longrightarrow> alloc s = (0, s)"
    and alloc_page: "inv s (x # xs) \<Longrightarrow>
      \<exists>s'. alloc s = (x, s') \<and> inv s' xs \<and> valid s' = valid s"
    and free_page: "inv s xs \<Longrightarrow> valid s v \<Longrightarrow> v \<notin> set xs \<Longrightarrow>
      \<exists>s'. free s v = Ok s' \<and> inv s' (v # xs) \<and> valid s' = valid s"
    and inv_distinct: "inv s xs \<Longrightarrow> distinct xs"
    and inv_valid: "inv s xs \<Longrightarrow> x \<in> set xs \<Longrightarrow> valid s x \<and> x \<noteq> 0"
begin

lemma run_safe:
  assumes "inv s xs" "distinct held" "set held \<inter> set xs = {}" "\<forall>v\<in>set held. valid s v"
  shows "\<exists>s' held' xs'. alloc_run alloc free ops s held = Ok (s', held') \<and> inv s' xs' \<and>
    distinct held' \<and> set held' \<inter> set xs' = {} \<and> set held' \<union> set xs' = set held \<union> set xs"
  using assms
proof (induction ops arbitrary: s xs held)
  case Nil
  then show ?case by auto
next
  case (Cons ope ops)
  show ?case
  proof (cases ope)
    case AAlloc
    show ?thesis
    proof (cases xs)
      case Nil
      with Cons.prems AAlloc Cons.IH [of s xs held] show ?thesis by (simp add: alloc_empty)
    next
      case (Cons x ys)
      then obtain s' where s': "alloc s = (x, s')" "inv s' ys" "valid s' = valid s"
        using Cons.prems(1) alloc_page by blast
      have "x \<noteq> 0" "valid s x" "x \<notin> set ys" "x \<notin> set held"
        using Cons.prems(1,3) Cons inv_valid inv_distinct by force+
      with Cons Cons.prems AAlloc s' Cons.IH [OF s'(2), of "x # held"] show ?thesis by simp
    qed
  next
    case (AFree i)
    show ?thesis
    proof (cases "i < length held")
      case True
      let ?rest = "take i held @ drop (Suc i) held"
      note rem = nth_removed [OF True]
      have v: "valid s (held ! i)" "held ! i \<notin> set xs" using Cons.prems rem(1) by auto
      then obtain s' where s': "free s (held ! i) = Ok s'" "inv s' (held ! i # xs)" "valid s' = valid s"
        using Cons.prems(1) free_page by blast
      have "set ?rest \<inter> set (held ! i # xs) = {}" "\<forall>v\<in>set ?rest. valid s' v"
        using Cons.prems rem s'(3) by auto
      from Cons.IH [OF s'(2) rem(3) [OF Cons.prems(2)] this] show ?thesis
        using AFree True s'(1) rem(1) by simp
    next
      case False
      with AFree Cons.prems Cons.IH [of s xs held] show ?thesis by simp
    qed
  qed
qed

end

lemma kpage_cong: "kend s' = kend s \<Longrightarrow> kpage s' = kpage s"
  by (simp add: kpage_def fun_eq_iff)

interpretation kmem: page_allocator kalloc kfree kinv kpage
proof
  fix s :: "'a phys_scheme" and xs v x
  show "kinv s [] \<Longrightarrow> kalloc s = (0, s)" by (rule kalloc_Nil)
  show "kinv s (x # xs) \<Longrightarrow> \<exists>s'. kalloc s = (x, s') \<and> kinv s' xs \<and> kpage s' = kpage s"
    by (metis kalloc_Cons kpage_cong)
  show "kinv s xs \<Longrightarrow> kpage s v \<Longrightarrow> v \<notin> set xs \<Longrightarrow>
      \<exists>s'. kfree s v = Ok s' \<and> kinv s' (v # xs) \<and> kpage s' = kpage s"
    by (metis kfree_ok kpage_cong)
  show "kinv s xs \<Longrightarrow> distinct xs" by (simp add: kinv_def)
  show "kinv s xs \<Longrightarrow> x \<in> set xs \<Longrightarrow> kpage s x \<and> x \<noteq> 0"
    using kinv_nonzero by (auto simp: kinv_def)
qed

section \<open>Properties\<close>

text \<open>A machine with an empty allocator, for the witnesses: the kernel ends at 0x80110000.\<close>

definition boot_state :: phys where
  "boot_state = \<lparr>mem = (\<lambda>_. 0), freelist = 0, use_lock = False, initial_pages = 0, kend = 0x80110000, kdata = 0x80108000\<rparr>"

lemma kinv_boot_state: "kinv boot_state []"
  by (simp add: kinv_def boot_state_def)

text \<open>C35: However a client interleaves \<^verbatim>\<open>kalloc\<close> and \<^verbatim>\<open>kfree\<close> of the pages it holds, no call
  panics, no page is ever handed out while it is still held, no held page is on the free
  list, and no page is lost: held and free pages together stay the same set.\<close>

theorem kalloc_never_double_allocates:
  assumes "kinv s xs"
  shows "\<exists>s' held' xs'. alloc_run kalloc kfree ops s [] = Ok (s', held') \<and> kinv s' xs' \<and>
    distinct held' \<and> set held' \<inter> set xs' = {} \<and> set held' \<union> set xs' = set xs"
  using kmem.run_safe [OF assms, of "[]" ops] by simp

theorem kalloc_never_double_allocates_witness:
  "\<exists>s' held' xs'. alloc_run kalloc kfree [AAlloc, AFree 0, AAlloc] boot_state [] = Ok (s', held') \<and>
     kinv s' xs' \<and> distinct held' \<and> set held' \<inter> set xs' = {} \<and> set held' \<union> set xs' = set []"
  by (rule kalloc_never_double_allocates [OF kinv_boot_state])

text \<open>C36: Initialising the allocator with \<^verbatim>\<open>freerange\<close> over page range [vstart, vend) above the
  pages it already has puts exactly the whole pages of the range on the free list, each once,
  and \<^verbatim>\<open>num_free\<close> then returns and counts them.\<close>

theorem freerange_adds_whole_pages:
  assumes "kinv s xs" "\<forall>x\<in>set xs. unat x < unat (PGROUNDUP vstart)" "kend s \<le> PGROUNDUP vstart"
    "0x80000000 \<le> unat (PGROUNDUP vstart)" "unat (PGROUNDUP vstart) \<le> 0x8E000000"
    "unat vend \<le> 0x8E000000"
  shows "\<exists>s'. freerange s vstart vend = Ok s' \<and>
    kinv s' (rev (range_pages (PGROUNDUP vstart) vend) @ xs) \<and>
    num_free s' = Some (length xs + (unat vend - unat (PGROUNDUP vstart)) div 4096)"
proof -
  obtain s' where "freerange s vstart vend = Ok s'"
    and inv: "kinv s' (rev (range_pages (PGROUNDUP vstart) vend) @ xs)"
    unfolding freerange_def
    using freerange_loop_ok [OF assms(1,2) page_aligned_PGROUNDUP assms(3,4,6,5)] by blast
  moreover have "num_free s' = Some (length xs + (unat vend - unat (PGROUNDUP vstart)) div 4096)"
    using num_free_kinv [OF inv] by (simp add: length_range_pages)
  ultimately show ?thesis by blast
qed

theorem freerange_adds_whole_pages_witness:
  "\<exists>s'. freerange boot_state 0x80110000 0x80400000 = Ok s' \<and>
    kinv s' (rev (range_pages (PGROUNDUP 0x80110000) 0x80400000) @ []) \<and>
    num_free s' = Some (length ([] :: addr list) + (unat (0x80400000 :: addr) - unat (PGROUNDUP 0x80110000)) div 4096)"
  by (rule freerange_adds_whole_pages [OF kinv_boot_state])
     (simp_all add: boot_state_def PGROUNDUP_def)

text \<open>C39: Freeing a page twice is not caught: the second \<^verbatim>\<open>kfree\<close> makes the free list cyclic, the
  next two \<^verbatim>\<open>kalloc\<close> calls hand out the same page, and \<^verbatim>\<open>num_free\<close> never returns.\<close>

theorem kfree_twice_makes_cycle:
  assumes "kfree s v = Ok s1" "kfree s1 v = Ok s2"
  shows "num_free s2 = None \<and> fst (kalloc s2) = v \<and> fst (kalloc (snd (kalloc s2))) = v"
proof -
  have v: "v \<noteq> 0" using kfree_Ok_bounds [OF assms(1)] kpage_nonzero [of s v] by (simp add: kpage_def)
  have "freelist s1 = v" using assms(1) by (auto simp: kfree_def Let_def split: if_splits)
  with assms(2) have s2: "freelist s2 = v" "load32 (mem s2) v = v"
    by (auto simp: kfree_def Let_def split: if_splits)
  then have "num_free s2 = None"
    using num_free_loop_cycle [of "mem s2" v 0 _ v] v
    by (cases "num_free_loop (mem s2) v 0") (auto simp: num_free_def)
  with s2 v show ?thesis by (simp add: kalloc_def Let_def)
qed

theorem kfree_twice_makes_cycle_witness:
  "\<exists>s1 s2. kfree boot_state 0x80200000 = Ok s1 \<and> kfree s1 0x80200000 = Ok s2 \<and> num_free s2 = None"
proof -
  have 1: "kpage boot_state 0x80200000" by (simp add: kpage_def boot_state_def page_aligned_def V2P_def)
  obtain s1 where s1: "kfree boot_state 0x80200000 = Ok s1" "kend s1 = kend boot_state"
    using kfree_ok [OF kinv_boot_state 1] by (metis empty_iff empty_set)
  obtain s2 where s2: "kfree s1 0x80200000 = Ok s2"
    using s1(2) by (simp add: kfree_def boot_state_def Let_def V2P_def)
  show ?thesis using s1 s2 kfree_twice_makes_cycle [OF s1(1) s2] by blast
qed

end
