(* ===== verification/PageTable.thy ===== *)
theory PageTable
  imports Kalloc
begin

text \<open>
  Two-level page tables (vm.c): the walk, mapping of a range, the flag operations, the
  translation of user addresses and \<^verbatim>\<open>copyout\<close>. A page directory is a page of memory, an entry
  is the word at \<open>slot pgdir i\<close>, and the null pointer is address 0. \<open>pte_val\<close> is the abstract
  page table: the entry of each virtual page, 0 where no table exists. \<open>pt_wf\<close> says that the
  directory and its tables are distinct pages that are not free.
\<close>

section \<open>Operations\<close>

definition walkpgdir :: "'a phys_scheme \<Rightarrow> addr \<Rightarrow> addr \<Rightarrow> bool \<Rightarrow> addr \<times> 'a phys_scheme" where
  "walkpgdir s pgdir va alloc =
     (let pde = slot pgdir (PDX va)
      in if load32 (mem s) pde AND PTE_P \<noteq> 0
         then (slot (P2V (PTE_ADDR (load32 (mem s) pde))) (PTX va), s)
         else if \<not> alloc then (0, s)
         else
           (case kalloc s of (pgtab, s) \<Rightarrow>
              if pgtab = 0 then (0, s)
              else
                let m = memset (mem s) pgtab 0 PGSIZE;
                    m = store32 m pde (V2P pgtab OR PTE_P OR PTE_W OR PTE_U)
                in (slot pgtab (PTX va), s\<lparr>mem := m\<rparr>)))"

text \<open>The loop of \<^verbatim>\<open>mappages\<close> runs until \<open>a = lst\<close>. Both are page-aligned, so the distance is never
  below a page; the branch for that case only makes the recursion well-founded.\<close>

function mappages_loop :: "'a phys_scheme \<Rightarrow> addr \<Rightarrow> addr \<Rightarrow> addr \<Rightarrow> u32 \<Rightarrow> u32 \<Rightarrow>
    (int \<times> 'a phys_scheme) outcome" where
  "mappages_loop s pgdir a lst pa perm =
     (case walkpgdir s pgdir a True of (pte, s) \<Rightarrow>
        if pte = 0 then Ok (-1, s)
        else if load32 (mem s) pte AND PTE_P \<noteq> 0 then Panic ''remap''
        else
          let s = s\<lparr>mem := store32 (mem s) pte (pa OR perm OR PTE_P)\<rparr>
          in if a = lst then Ok (0, s)
             else if lst - a < PGSIZE then Fault ''mappages: unaligned range''
             else mappages_loop s pgdir (a + PGSIZE) lst (pa + PGSIZE) perm)"
  by pat_completeness auto
termination
proof (relation "measure (\<lambda>(s, pgdir, a, lst, pa, perm). unat (lst - a))", goal_cases)
  case (2 s pgdir a lst pa perm)
  then have "PGSIZE \<le> lst - a" by (simp add: not_less)
  then have "unat (lst - a - PGSIZE) < unat (lst - a)" by (simp add: unat_sub word_le_nat_alt)
  then show ?case by (simp add: diff_diff_eq)
qed simp

declare mappages_loop.simps [simp del]

definition mappages :: "'a phys_scheme \<Rightarrow> addr \<Rightarrow> addr \<Rightarrow> u32 \<Rightarrow> u32 \<Rightarrow> u32 \<Rightarrow>
    (int \<times> 'a phys_scheme) outcome" where
  "mappages s pgdir va sz pa perm =
     mappages_loop s pgdir (PGROUNDDOWN va) (PGROUNDDOWN (va + sz - 1)) pa perm"

text \<open>The kernel's mappings, present in every page directory.\<close>

record kmap_entry =
  virt :: addr
  phys_start :: u32
  phys_end :: u32
  kperm :: u32

definition kmap :: "'a phys_scheme \<Rightarrow> kmap_entry list" where
  "kmap s =
     [\<lparr>virt = KERNBASE, phys_start = 0, phys_end = EXTMEM, kperm = PTE_W\<rparr>,
      \<lparr>virt = KERNLINK, phys_start = V2P KERNLINK, phys_end = V2P (kdata s), kperm = 0\<rparr>,
      \<lparr>virt = kdata s, phys_start = V2P (kdata s), phys_end = PHYSTOP, kperm = PTE_W\<rparr>,
      \<lparr>virt = DEVSPACE, phys_start = DEVSPACE, phys_end = 0, kperm = PTE_W\<rparr>]"

text \<open>\<^verbatim>\<open>inituvm\<close> does not check \<^verbatim>\<open>kalloc\<close>: with no free page it writes through the null pointer.\<close>

definition inituvm :: "'a phys_scheme \<Rightarrow> addr \<Rightarrow> addr \<Rightarrow> u32 \<Rightarrow> 'a phys_scheme outcome" where
  "inituvm s pgdir init sz =
     (if sz \<ge> PGSIZE then Panic ''inituvm: more than a page''
      else
        (case kalloc s of (page, s) \<Rightarrow>
           if page = 0 then Fault ''inituvm: null page''
           else
             andThen (mappages (s\<lparr>mem := memset (mem s) page 0 PGSIZE\<rparr>) pgdir 0 PGSIZE (V2P page) (PTE_W OR PTE_U))
               (\<lambda>(r, s). Ok (s\<lparr>mem := memmove (mem s) page init sz\<rparr>))))"

definition update_pte :: "string \<Rightarrow> 'a phys_scheme \<Rightarrow> addr \<Rightarrow> addr \<Rightarrow> (u32 \<Rightarrow> u32) \<Rightarrow> 'a phys_scheme outcome" where
  "update_pte msg s pgdir va f =
     (case walkpgdir s pgdir va False of (pte, s) \<Rightarrow>
        if pte = 0 then Panic msg
        else Ok (s\<lparr>mem := store32 (mem s) pte (f (load32 (mem s) pte))\<rparr>))"

definition clearpteu :: "'a phys_scheme \<Rightarrow> addr \<Rightarrow> addr \<Rightarrow> 'a phys_scheme outcome" where
  "clearpteu s pgdir uva = update_pte ''clearpteu'' s pgdir uva (\<lambda>e. e AND NOT PTE_U)"

definition setPTE_FLAG :: "'a phys_scheme \<Rightarrow> addr \<Rightarrow> addr \<Rightarrow> u32 \<Rightarrow> 'a phys_scheme outcome" where
  "setPTE_FLAG s pgdir va flag = update_pte ''setPTE_PG'' s pgdir va (\<lambda>e. e OR flag)"

definition clearPTE_FLAG :: "'a phys_scheme \<Rightarrow> addr \<Rightarrow> addr \<Rightarrow> u32 \<Rightarrow> 'a phys_scheme outcome" where
  "clearPTE_FLAG s pgdir va flag = update_pte ''setPTE_PG'' s pgdir va (\<lambda>e. e AND NOT flag)"

definition clearPTE_P :: "'a phys_scheme \<Rightarrow> addr \<Rightarrow> addr \<Rightarrow> 'a phys_scheme outcome" where
  "clearPTE_P s pgdir va = update_pte ''clearPTE_P'' s pgdir va (\<lambda>e. e AND NOT PTE_P)"

text \<open>Despite its name \<^verbatim>\<open>setPTE_PG\<close> sets the present bit.\<close>

definition setPTE_PG :: "'a phys_scheme \<Rightarrow> addr \<Rightarrow> addr \<Rightarrow> 'a phys_scheme outcome" where
  "setPTE_PG s pgdir va = update_pte ''setPTE_PG'' s pgdir va (\<lambda>e. e OR PTE_P)"

text \<open>\<^verbatim>\<open>isFlagged\<close> and \<^verbatim>\<open>uva2ka\<close> dereference the result of the walk without a null check.\<close>

definition read_pte :: "'a phys_scheme \<Rightarrow> addr \<Rightarrow> addr \<Rightarrow> u32 outcome" where
  "read_pte s pgdir va =
     (case walkpgdir s pgdir va False of (pte, s) \<Rightarrow>
        if pte = 0 then Fault ''null pte'' else Ok (load32 (mem s) pte))"

definition isFlagged :: "'a phys_scheme \<Rightarrow> addr \<Rightarrow> addr \<Rightarrow> u32 \<Rightarrow> bool outcome" where
  "isFlagged s pgdir va flag = andThen (read_pte s pgdir va) (\<lambda>e. Ok (flag AND e > 0))"

definition isPagedOut :: "'a phys_scheme \<Rightarrow> addr \<Rightarrow> addr \<Rightarrow> bool outcome" where
  "isPagedOut s pgdir va =
     andThen (isFlagged s pgdir va PTE_P)
       (\<lambda>present. if present then Ok False else isFlagged s pgdir (PGROUNDDOWN va) PTE_PG)"

definition uva2ka :: "'a phys_scheme \<Rightarrow> addr \<Rightarrow> addr \<Rightarrow> addr outcome" where
  "uva2ka s pgdir uva =
     andThen (read_pte s pgdir uva)
       (\<lambda>e. if e AND PTE_P = 0 then Ok 0
            else if e AND PTE_U = 0 then Ok 0
            else Ok (P2V (PTE_ADDR e)))"

function copyout :: "'a phys_scheme \<Rightarrow> addr \<Rightarrow> addr \<Rightarrow> addr \<Rightarrow> u32 \<Rightarrow> (int \<times> 'a phys_scheme) outcome" where
  "copyout s pgdir va buf len =
     (if len > 0 then
        (let va0 = PGROUNDDOWN va
         in andThen (uva2ka s pgdir va0)
           (\<lambda>pa0.
              if pa0 = 0 then Ok (-1, s)
              else
                let n = PGSIZE - (va - va0);
                    n = (if n > len then len else n)
                in copyout (s\<lparr>mem := memmove (mem s) (pa0 + (va - va0)) buf n\<rparr>) pgdir
                     (va0 + PGSIZE) (buf + n) (len - n)))
      else Ok (0, s))"
  by pat_completeness auto

lemma page_rest: "0 < PGSIZE - (va - PGROUNDDOWN va)" "unat (PGSIZE - (va - PGROUNDDOWN va)) \<le> 4096"
  "unat (PGSIZE - (va - PGROUNDDOWN va)) = 4096 - unat (va - PGROUNDDOWN va)"
proof -
  have l: "unat (va - PGROUNDDOWN va) < 4096" using PGROUNDDOWN_less [of va] by (simp add: word_less_nat_alt)
  then show "unat (PGSIZE - (va - PGROUNDDOWN va)) = 4096 - unat (va - PGROUNDDOWN va)"
    by (simp add: unat_sub word_le_nat_alt)
  with l show "0 < PGSIZE - (va - PGROUNDDOWN va)" "unat (PGSIZE - (va - PGROUNDDOWN va)) \<le> 4096"
    by (simp_all add: word_less_nat_alt)
qed

termination copyout
proof (relation "measure (\<lambda>(s, pgdir, va, buf, len). unat len)", goal_cases)
  case (2 s pgdir va buf len)
  then show ?case
    using page_rest(1) [of va] by (auto simp: not_less unat_sub word_less_nat_alt word_le_nat_alt)
qed simp

declare copyout.simps [simp del]

section \<open>The abstract page table\<close>

definition pde_of :: "memory \<Rightarrow> addr \<Rightarrow> u32 \<Rightarrow> u32" where
  "pde_of m pgdir i = load32 m (slot pgdir i)"

definition pde_present :: "memory \<Rightarrow> addr \<Rightarrow> u32 \<Rightarrow> bool" where
  "pde_present m pgdir i \<longleftrightarrow> pde_of m pgdir i AND PTE_P \<noteq> 0"

definition table_of :: "memory \<Rightarrow> addr \<Rightarrow> u32 \<Rightarrow> addr" where
  "table_of m pgdir i = P2V (PTE_ADDR (pde_of m pgdir i))"

definition pte_ptr :: "memory \<Rightarrow> addr \<Rightarrow> addr \<Rightarrow> addr" where
  "pte_ptr m pgdir va = slot (table_of m pgdir (PDX va)) (PTX va)"

definition pte_val :: "memory \<Rightarrow> addr \<Rightarrow> addr \<Rightarrow> u32" where
  "pte_val m pgdir va = (if pde_present m pgdir (PDX va) then load32 m (pte_ptr m pgdir va) else 0)"

definition tables :: "memory \<Rightarrow> addr \<Rightarrow> addr set" where
  "tables m pgdir = {table_of m pgdir i | i. i < 1024 \<and> pde_present m pgdir i}"

definition pt_wf :: "'a phys_scheme \<Rightarrow> addr \<Rightarrow> addr list \<Rightarrow> bool" where
  "pt_wf s pgdir xs \<longleftrightarrow> kinv s xs \<and> kpage s pgdir \<and> pgdir \<notin> set xs \<and>
     (\<forall>i<1024. pde_present (mem s) pgdir i \<longrightarrow>
        kpage s (table_of (mem s) pgdir i) \<and> table_of (mem s) pgdir i \<notin> set xs \<and>
        table_of (mem s) pgdir i \<noteq> pgdir) \<and>
     (\<forall>i<1024. \<forall>j<1024. pde_present (mem s) pgdir i \<and> pde_present (mem s) pgdir j \<and>
        table_of (mem s) pgdir i = table_of (mem s) pgdir j \<longrightarrow> i = j)"

lemma pt_wfD:
  assumes "pt_wf s pgdir xs"
  shows "kinv s xs" "kpage s pgdir" "pgdir \<notin> set xs" "page_aligned pgdir"
    "\<And>i. i < 1024 \<Longrightarrow> pde_present (mem s) pgdir i \<Longrightarrow> kpage s (table_of (mem s) pgdir i)"
    "\<And>i. i < 1024 \<Longrightarrow> pde_present (mem s) pgdir i \<Longrightarrow> table_of (mem s) pgdir i \<notin> set xs"
    "\<And>i. i < 1024 \<Longrightarrow> pde_present (mem s) pgdir i \<Longrightarrow> table_of (mem s) pgdir i \<noteq> pgdir"
    "\<And>i j. i < 1024 \<Longrightarrow> j < 1024 \<Longrightarrow> pde_present (mem s) pgdir i \<Longrightarrow> pde_present (mem s) pgdir j \<Longrightarrow>
      table_of (mem s) pgdir i = table_of (mem s) pgdir j \<Longrightarrow> i = j"
    "\<And>i. i < 1024 \<Longrightarrow> pde_present (mem s) pgdir i \<Longrightarrow> page_aligned (table_of (mem s) pgdir i)"
  using assms unfolding pt_wf_def kpage_def by blast+

lemma pt_wfI:
  assumes "kinv s xs" "kpage s pgdir" "pgdir \<notin> set xs"
    "\<And>i. i < 1024 \<Longrightarrow> pde_present (mem s) pgdir i \<Longrightarrow>
      kpage s (table_of (mem s) pgdir i) \<and> table_of (mem s) pgdir i \<notin> set xs \<and> table_of (mem s) pgdir i \<noteq> pgdir"
    "\<And>i j. i < 1024 \<Longrightarrow> j < 1024 \<Longrightarrow> pde_present (mem s) pgdir i \<Longrightarrow> pde_present (mem s) pgdir j \<Longrightarrow>
      table_of (mem s) pgdir i = table_of (mem s) pgdir j \<Longrightarrow> i = j"
  shows "pt_wf s pgdir xs"
  using assms unfolding pt_wf_def by blast

lemma kpage_high:
  assumes "kpage s v"
  shows "0x80000000 \<le> unat v \<and> unat v < 0x8E000000"
proof -
  define y where "y = V2P v"
  have y: "unat y < 0xE000000" using assms by (simp add: kpage_def y_def word_less_nat_alt)
  have "v = y + KERNBASE" by (simp add: y_def V2P_def)
  then have "unat v = unat y + 0x80000000" using y by (simp add: unat_word_ariths)
  with y show ?thesis by simp
qed

lemma page_aligned_unat: "page_aligned a \<longleftrightarrow> unat a mod 4096 = 0"
  by (simp add: page_aligned_def word_unat_eq_iff unat_mod)

lemma kpage_V2P: "kpage s v \<Longrightarrow> unat (V2P v) = unat v - 0x80000000"
  using kpage_high [of s v] by (simp add: V2P_def unat_sub word_le_nat_alt)

lemma page_aligned_V2P:
  assumes "kpage s v"
  shows "page_aligned (V2P v)"
proof -
  obtain q where "unat v = 4096 * q" using assms by (auto simp: kpage_def page_aligned_unat elim: dvdE)
  then have "unat (V2P v) = 4096 * (q - 0x80000)" using kpage_V2P [OF assms] by simp
  then show ?thesis unfolding page_aligned_unat by simp
qed

lemma slot_nonzero:
  assumes "kpage s p" "i < 1024"
  shows "slot p i \<noteq> 0"
proof
  assume "slot p i = 0"
  then have "PGROUNDDOWN 0 = p" using PGROUNDDOWN_slot [of p i] assms by (simp add: kpage_def)
  then show False using kpage_nonzero [OF assms(1)] by (simp add: PGROUNDDOWN_def)
qed

lemma walkpgdir_present:
  "pde_present (mem s) pgdir (PDX va) \<Longrightarrow> walkpgdir s pgdir va alloc = (pte_ptr (mem s) pgdir va, s)"
  by (simp add: walkpgdir_def pde_present_def pde_of_def pte_ptr_def table_of_def Let_def)

lemma walkpgdir_absent:
  "\<not> pde_present (mem s) pgdir (PDX va) \<Longrightarrow> walkpgdir s pgdir va False = (0, s)"
  by (simp add: walkpgdir_def pde_present_def pde_of_def Let_def)

lemma walkpgdir_state [frame]: "snd (walkpgdir s pgdir va False) = s"
  by (simp add: walkpgdir_def Let_def)

lemma pte_ptr_nonzero:
  "pt_wf s pgdir xs \<Longrightarrow> pde_present (mem s) pgdir (PDX va) \<Longrightarrow> pte_ptr (mem s) pgdir va \<noteq> 0"
  unfolding pte_ptr_def by (rule slot_nonzero [OF pt_wfD(5)]) (simp_all add: PDX_less PTX_less)

lemma read_pte_eq:
  "pt_wf s pgdir xs \<Longrightarrow> read_pte s pgdir va =
     (if pde_present (mem s) pgdir (PDX va) then Ok (pte_val (mem s) pgdir va) else Fault ''null pte'')"
  using pte_ptr_nonzero [of s pgdir xs va]
  by (simp add: read_pte_def walkpgdir_present walkpgdir_absent pte_val_def)

text \<open>Memory that differs only outside the directory, its tables and the free pages.\<close>

lemma pde_same_page:
  assumes "same_page m' m pgdir" "page_aligned pgdir" "i < 1024"
  shows "pde_of m' pgdir i = pde_of m pgdir i" "pde_present m' pgdir i = pde_present m pgdir i"
    "table_of m' pgdir i = table_of m pgdir i"
  using same_page_load32 [OF assms] by (simp_all add: pde_of_def pde_present_def table_of_def)

lemma pte_val_same_page:
  assumes "same_page m' m pgdir" "page_aligned pgdir"
    "pde_present m pgdir (PDX va) \<Longrightarrow> same_page m' m (table_of m pgdir (PDX va))"
    "pde_present m pgdir (PDX va) \<Longrightarrow> page_aligned (table_of m pgdir (PDX va))"
  shows "pte_val m' pgdir va = pte_val m pgdir va"
  using pde_same_page [OF assms(1,2) PDX_less] same_page_load32 [OF assms(3,4) PTX_less]
  by (simp add: pte_val_def pte_ptr_def)

lemma tables_same_page:
  "same_page m' m pgdir \<Longrightarrow> page_aligned pgdir \<Longrightarrow> tables m' pgdir = tables m pgdir"
  unfolding tables_def using pde_same_page by (metis (no_types, lifting))

lemma pt_wf_mem_update [invs]:
  assumes "pt_wf s pgdir xs" "\<forall>q \<in> insert pgdir (set xs). same_page m (mem s) q"
  shows "pt_wf (s\<lparr>mem := m\<rparr>) pgdir xs"
proof -
  note wf = pt_wfD [OF assms(1)]
  have eq: "pde_present m pgdir i = pde_present (mem s) pgdir i"
    "table_of m pgdir i = table_of (mem s) pgdir i" if "i < 1024" for i
    using pde_same_page [of m "mem s" pgdir i] assms(2) wf(4) that by auto
  show ?thesis
  proof (rule pt_wfI)
    show "kinv (s\<lparr>mem := m\<rparr>) xs" using kinv_mem_update [OF wf(1)] assms(2) by blast
  qed (use wf eq in \<open>auto simp: kpage_def\<close>)
qed

text \<open>Writing one entry changes the abstract table at that page only.\<close>

lemma set_pte:
  fixes w :: u32
  assumes "pt_wf s pgdir xs" "pde_present (mem s) pgdir (PDX va)"
  defines "m \<equiv> store32 (mem s) (pte_ptr (mem s) pgdir va) w"
  shows "pt_wf (s\<lparr>mem := m\<rparr>) pgdir xs"
    and "pte_val m pgdir va' = (if PGROUNDDOWN va' = PGROUNDDOWN va then w else pte_val (mem s) pgdir va')"
    and "q \<notin> tables (mem s) pgdir \<Longrightarrow> same_page m (mem s) q"
    and "tables m pgdir = tables (mem s) pgdir"
    and "pde_present m pgdir i = pde_present (mem s) pgdir i \<or> \<not> i < 1024"
proof -
  note wf = pt_wfD [OF assms(1)]
  let ?t = "table_of (mem s) pgdir"
  have t: "page_aligned (?t (PDX va))" "?t (PDX va) \<noteq> pgdir" "?t (PDX va) \<notin> set xs"
    "?t (PDX va) \<in> tables (mem s) pgdir"
    using wf(6,7,9) [OF PDX_less assms(2)] PDX_less assms(2) by (auto simp: tables_def)
  have other: "same_page m (mem s) q" if "q \<noteq> ?t (PDX va)" for q
    unfolding m_def pte_ptr_def using same_page_store32 [OF t(1) PTX_less that] .
  then show "q \<notin> tables (mem s) pgdir \<Longrightarrow> same_page m (mem s) q" using t(4) by metis
  have pg: "same_page m (mem s) pgdir" using other t(2) by metis
  show "tables m pgdir = tables (mem s) pgdir" by (rule tables_same_page [OF pg wf(4)])
  show "pde_present m pgdir i = pde_present (mem s) pgdir i \<or> \<not> i < 1024"
    using pde_same_page(2) [OF pg wf(4)] by blast
  show "pt_wf (s\<lparr>mem := m\<rparr>) pgdir xs"
    by (rule pt_wf_mem_update [OF assms(1)]) (use other t in \<open>auto intro!: other\<close>)
  show "pte_val m pgdir va' = (if PGROUNDDOWN va' = PGROUNDDOWN va then w else pte_val (mem s) pgdir va')"
  proof (cases "pde_present (mem s) pgdir (PDX va')")
    case True
    have "load32 m (slot (?t (PDX va')) (PTX va')) =
        (if PDX va' = PDX va \<and> PTX va' = PTX va then w else load32 (mem s) (slot (?t (PDX va')) (PTX va')))"
    proof (cases "PDX va' = PDX va \<and> PTX va' = PTX va")
      case False
      then have "?t (PDX va) \<noteq> ?t (PDX va') \<or> PTX va \<noteq> PTX va'"
        using wf(8) [OF PDX_less PDX_less assms(2) True] by auto
      with load32_store32_slot [OF t(1) wf(9) [OF PDX_less True] PTX_less PTX_less] False
      show ?thesis by (auto simp: m_def pte_ptr_def)
    qed (simp add: m_def pte_ptr_def)
    with True pde_same_page [OF pg wf(4) PDX_less, of va'] show ?thesis
      unfolding pte_val_def pte_ptr_def by (simp add: PDX_PTX_inj)
  next
    case False
    then have "PGROUNDDOWN va' \<noteq> PGROUNDDOWN va" using PDX_PTX_inj [of va' va] assms(2) by auto
    with False pde_same_page [OF pg wf(4) PDX_less, of va'] show ?thesis by (simp add: pte_val_def)
  qed
qed

text \<open>A walk that may allocate: it fails only with no free page, and a new table changes no entry.\<close>

lemma pde_new_table:
  assumes "kpage s x"
  defines "e \<equiv> V2P x OR PTE_P OR PTE_W OR PTE_U"
  shows "e AND PTE_P \<noteq> 0" "P2V (PTE_ADDR e) = x"
proof -
  have "bit e 0" by (simp add: e_def bit_simps)
  then have "bit (e AND PTE_P) 0" by (simp add: bit_simps)
  then show "e AND PTE_P \<noteq> 0" by auto
  have al: "page_aligned (V2P x)" using assms(1) by (rule page_aligned_V2P)
  have "PTE_ADDR e = V2P x"
  proof (rule bit_word_eqI)
    fix n
    have "bit (V2P x) n \<longrightarrow> 12 \<le> n"
      using al bit_PGROUNDDOWN [of "V2P x" n] unfolding page_aligned_iff by metis
    moreover have "\<not> bit (7 :: u32) n" if "12 \<le> n" using bit_small [of 7 12 n] that by simp
    moreover have "bit e n = bit (V2P x OR 7) n" by (simp add: e_def)
    ultimately show "bit (PTE_ADDR e) n = bit (V2P x) n" by (auto simp: bit_PTE_ADDR bit_simps)
  qed
  then show "P2V (PTE_ADDR e) = x" by (simp add: P2V_def V2P_def)
qed

lemma new_table:
  assumes "pt_wf s pgdir (x # ys)" "\<not> pde_present (mem s) pgdir d" "d < 1024"
  defines "m \<equiv> store32 (memset (mem s) x 0 PGSIZE) (slot pgdir d) (V2P x OR PTE_P OR PTE_W OR PTE_U)"
  shows "i < 1024 \<Longrightarrow> pde_present m pgdir i = (i = d \<or> pde_present (mem s) pgdir i)"
    and "i < 1024 \<Longrightarrow> table_of m pgdir i = (if i = d then x else table_of (mem s) pgdir i)"
    and "pte_val m pgdir va = pte_val (mem s) pgdir va"
    and "q \<noteq> pgdir \<Longrightarrow> q \<noteq> x \<Longrightarrow> same_page m (mem s) q"
proof -
  note wf = pt_wfD [OF assms(1)]
  have kx: "kpage s x" "x \<noteq> pgdir" "page_aligned x" using wf(1,3) by (auto simp: kinv_def kpage_def)
  note new = pde_new_table [OF kx(1)]
  have zero: "same_page (memset (mem s) x 0 PGSIZE) (mem s) q" if "q \<noteq> x" for q
    using same_page_memset [OF kx(3) that] .
  have dir: "same_page m (memset (mem s) x 0 PGSIZE) q" if "q \<noteq> pgdir" for q
    unfolding m_def by (rule same_page_store32 [OF wf(4) assms(3) that])
  show sp: "q \<noteq> pgdir \<Longrightarrow> q \<noteq> x \<Longrightarrow> same_page m (mem s) q" for q
    using same_page_trans [OF dir zero] by blast
  have pde: "pde_of m pgdir i = (if i = d then V2P x OR PTE_P OR PTE_W OR PTE_U else pde_of (mem s) pgdir i)"
    if "i < 1024" for i
  proof (cases "i = d")
    case False
    then have "pde_of m pgdir i = load32 (memset (mem s) x 0 PGSIZE) (slot pgdir i)"
      using load32_store32_slot [OF wf(4) wf(4) assms(3) that] by (auto simp: pde_of_def m_def)
    also have "\<dots> = pde_of (mem s) pgdir i"
      using same_page_load32 [OF zero wf(4) that] kx(2) by (auto simp: pde_of_def)
    finally show ?thesis using False by simp
  qed (simp add: pde_of_def m_def)
  show pr: "pde_present m pgdir i = (i = d \<or> pde_present (mem s) pgdir i)" if "i < 1024" for i
    using pde [OF that] new(1) by (simp add: pde_present_def)
  show tb: "table_of m pgdir i = (if i = d then x else table_of (mem s) pgdir i)" if "i < 1024" for i
    using pde [OF that] new(2) by (simp add: table_of_def)
  show "pte_val m pgdir va = pte_val (mem s) pgdir va"
  proof (cases "PDX va = d")
    case True
    have "load32 m (slot x (PTX va)) = load32 (memset (mem s) x 0 PGSIZE) (slot x (PTX va))"
      using same_page_load32 [OF dir [OF kx(2)] kx(3) PTX_less] .
    with True pr tb assms(2,3) load32_memset_zero [OF kx(3) PTX_less] show ?thesis
      by (simp add: pte_val_def pte_ptr_def)
  next
    case False
    let ?t = "table_of (mem s) pgdir (PDX va)"
    have "load32 m (slot ?t (PTX va)) = load32 (mem s) (slot ?t (PTX va))" if p: "pde_present (mem s) pgdir (PDX va)"
    proof -
      have "?t \<noteq> pgdir" "?t \<noteq> x" "page_aligned ?t" using wf(6,7,9) [OF PDX_less p] by auto
      with same_page_load32 [OF sp _ PTX_less] show ?thesis by blast
    qed
    with False pr [OF PDX_less] tb [OF PDX_less] show ?thesis by (simp add: pte_val_def pte_ptr_def)
  qed
qed

lemma walkpgdir_alloc:
  assumes "pt_wf s pgdir xs"
  obtains "walkpgdir s pgdir va True = (0, s)" "xs = []" "\<not> pde_present (mem s) pgdir (PDX va)"
  | s' xs' where "walkpgdir s pgdir va True = (pte_ptr (mem s') pgdir va, s')" "pt_wf s' pgdir xs'"
    "pde_present (mem s') pgdir (PDX va)" "\<And>va'. pte_val (mem s') pgdir va' = pte_val (mem s) pgdir va'"
    "set xs' \<subseteq> set xs" "tables (mem s') pgdir \<union> set xs' = tables (mem s) pgdir \<union> set xs"
    "\<And>q. q \<notin> insert pgdir (set xs) \<Longrightarrow> same_page (mem s') (mem s) q"
    "s' = s\<lparr>mem := mem s', freelist := freelist s'\<rparr>"
proof (cases "pde_present (mem s) pgdir (PDX va)")
  case True
  then show thesis using that(2) [OF walkpgdir_present assms] by simp
next
  case abs: False
  note wf = pt_wfD [OF assms]
  show thesis
  proof (cases xs)
    case Nil
    then have "walkpgdir s pgdir va True = (0, s)"
      using kalloc_Nil [of s] wf(1) abs by (simp add: walkpgdir_def Let_def pde_present_def pde_of_def)
    with Nil abs show thesis by (rule that(1) [rotated 1])
  next
    case (Cons x ys)
    then have kx: "kpage s x" "x \<notin> set ys" "x \<noteq> pgdir"
      using wf(1,3) by (auto simp: kinv_def kpage_def)
    obtain s1 where s1: "kalloc s = (x, s1)" "kinv s1 ys" "mem s1 = mem s" "kend s1 = kend s"
        "s1 = s\<lparr>freelist := freelist s1\<rparr>"
      using kalloc_Cons wf(1) Cons by metis
    define m where "m = store32 (memset (mem s) x 0 PGSIZE) (slot pgdir (PDX va)) (V2P x OR PTE_P OR PTE_W OR PTE_U)"
    define s' where "s' = s1\<lparr>mem := m\<rparr>"
    note nt = new_table [OF assms [unfolded Cons] abs PDX_less, folded m_def]
    have x0: "x \<noteq> 0" using kpage_nonzero kx(1) by blast
    have walk: "walkpgdir s pgdir va True = (pte_ptr m pgdir va, s')"
      using abs s1(1,3) x0 nt(2) [OF PDX_less]
      by (simp add: walkpgdir_def Let_def pde_present_def pde_of_def s'_def m_def pte_ptr_def)
    have "\<forall>q\<in>set ys. same_page m (mem s1) q"
      using nt(4) kx(2) wf(3) Cons s1(3) by (metis list.set_intros(2))
    then have k: "kinv s' ys" unfolding s'_def by (rule kinv_mem_update [OF s1(2)])
    have eq: "mem s' = m" "kpage s' = kpage s" using s1(4) by (simp_all add: s'_def kpage_def fun_eq_iff)
    have "pt_wf s' pgdir ys"
    proof (rule pt_wfI)
      show "kinv s' ys" "kpage s' pgdir" "pgdir \<notin> set ys" using k wf(2,3) Cons eq by simp_all
      show "kpage s' (table_of (mem s') pgdir i) \<and> table_of (mem s') pgdir i \<notin> set ys \<and>
          table_of (mem s') pgdir i \<noteq> pgdir" if "i < 1024" "pde_present (mem s') pgdir i" for i
        using that nt(1,2) [OF that(1)] kx wf(5-7) [OF that(1)] Cons by (auto simp: eq split: if_splits)
      show "i = j" if "i < 1024" "j < 1024" "pde_present (mem s') pgdir i" "pde_present (mem s') pgdir j"
          "table_of (mem s') pgdir i = table_of (mem s') pgdir j" for i j
        using that(3-5) nt(1,2) [OF that(1)] nt(1,2) [OF that(2)] wf(6) [OF that(1)] wf(6) [OF that(2)]
          wf(8) [OF that(1,2)] unfolding eq Cons by (cases "i = PDX va"; cases "j = PDX va") simp_all
    qed
    moreover have "tables m pgdir = insert x (tables (mem s) pgdir)"
    proof (intro set_eqI iffI)
      fix q
      assume "q \<in> tables m pgdir"
      then obtain i where i: "i < 1024" "pde_present m pgdir i" "q = table_of m pgdir i"
        by (auto simp: tables_def)
      with nt(1,2) [OF i(1)] show "q \<in> insert x (tables (mem s) pgdir)"
        by (cases "i = PDX va") (auto simp: tables_def)
    next
      fix q
      assume "q \<in> insert x (tables (mem s) pgdir)"
      then consider "q = x" | i where "i < 1024" "pde_present (mem s) pgdir i" "q = table_of (mem s) pgdir i"
        by (auto simp: tables_def)
      then show "q \<in> tables m pgdir"
      proof cases
        case 1
        with nt(1,2) [OF PDX_less, of va] PDX_less [of va] show ?thesis
          unfolding tables_def mem_Collect_eq by (intro exI [of _ "PDX va"]) simp
      next
        case (2 i)
        then have "i \<noteq> PDX va" using abs by blast
        with 2 nt(1,2) [OF 2(1)] show ?thesis
          unfolding tables_def mem_Collect_eq by (intro exI [of _ i]) simp
      qed
    qed
    ultimately show thesis
    proof (intro that(2) [of s' ys])
      show "pde_present (mem s') pgdir (PDX va)" using nt(1) [OF PDX_less, of va] eq(1) by simp
      show "s' = s\<lparr>mem := mem s', freelist := freelist s'\<rparr>" unfolding s'_def by (subst s1(5)) simp
      show "same_page (mem s') (mem s) q" if "q \<notin> insert pgdir (set xs)" for q
        using nt(4) [of q] that eq(1) Cons by simp
    qed (use walk nt(3) eq(1) Cons in auto)
  qed
qed

section \<open>Mapping a range\<close>

text \<open>The number of pages from \<open>a\<close> up to the page of \<open>va\<close>, around the address space.\<close>

definition pgdist :: "addr \<Rightarrow> addr \<Rightarrow> nat" where
  "pgdist a va = unat (PGROUNDDOWN va - a) div 4096"

lemma page_aligned_diff:
  assumes "page_aligned a" "page_aligned b"
  shows "page_aligned (a - b)"
proof -
  obtain p q where "unat a = 4096 * p" "unat b = 4096 * q"
    using assms by (auto simp: page_aligned_unat elim!: dvdE)
  then have "unat (a - b) = 4096 * (p - q) \<or> unat (a - b) = 4096 * (p + 2 ^ 20 - q)"
    using unat_sub_if' [of a b] by auto
  then show ?thesis unfolding page_aligned_unat by (metis mod_mult_self1_is_0)
qed

lemma page_aligned_next: "page_aligned a \<Longrightarrow> page_aligned (a + PGSIZE)"
  using page_aligned_diff [of a "- PGSIZE"] by (simp add: page_aligned_def)

lemma aligned_step:
  assumes "page_aligned d"
  shows "unat (d - PGSIZE) div 4096 = (if d = 0 then 2 ^ 20 - 1 else unat d div 4096 - 1)"
    and "unat d div 4096 = 0 \<longleftrightarrow> d = 0" and "d \<noteq> 0 \<Longrightarrow> PGSIZE \<le> d" and "unat d div 4096 < 2 ^ 20"
proof -
  obtain q where q: "unat d = 4096 * q" using assms by (auto simp: page_aligned_unat)
  show z: "unat d div 4096 = 0 \<longleftrightarrow> d = 0" using q by (auto simp: unat_eq_0 [symmetric])
  show le: "d \<noteq> 0 \<Longrightarrow> PGSIZE \<le> d" using q z by (auto simp: word_le_nat_alt)
  show "unat d div 4096 < 2 ^ 20" using unsigned_less [of d, where ?'a = nat] by simp
  show "unat (d - PGSIZE) div 4096 = (if d = 0 then 2 ^ 20 - 1 else unat d div 4096 - 1)"
  proof (cases "d = 0")
    case False
    then have "unat (d - PGSIZE) = unat d - 4096" using le by (simp add: unat_sub)
    with q False show ?thesis by (cases q) auto
  qed (simp add: unat_word_ariths)
qed

lemma pgdist_step:
  assumes "page_aligned a"
  shows "pgdist (a + PGSIZE) va = (if pgdist a va = 0 then 2 ^ 20 - 1 else pgdist a va - 1)"
    and "pgdist a va = 0 \<longleftrightarrow> PGROUNDDOWN va = a" and "pgdist a va < 2 ^ 20"
  using aligned_step(1,2,4) [OF page_aligned_diff [OF page_aligned_PGROUNDDOWN [of va] assms]]
  by (simp_all add: pgdist_def diff_diff_eq [symmetric])

definition range_pte :: "addr \<Rightarrow> u32 \<Rightarrow> u32 \<Rightarrow> addr \<Rightarrow> u32" where
  "range_pte a pa perm va = (pa + PGSIZE * of_nat (pgdist a va)) OR perm OR PTE_P"

text \<open>State \<open>s'\<close> is \<open>s\<close> with the first \<open>k\<close> pages from \<open>a\<close> mapped: every other entry and every page
  outside the directory, its tables and the free list is as before.\<close>

definition maps_prefix :: "'a phys_scheme \<Rightarrow> addr list \<Rightarrow> addr \<Rightarrow> addr \<Rightarrow> u32 \<Rightarrow> u32 \<Rightarrow> nat \<Rightarrow>
    'a phys_scheme \<Rightarrow> addr list \<Rightarrow> bool" where
  "maps_prefix s xs pgdir a pa perm k s' xs' \<longleftrightarrow> pt_wf s' pgdir xs' \<and>
     (\<forall>va. pte_val (mem s') pgdir va =
        (if pgdist a va < k then range_pte a pa perm va else pte_val (mem s) pgdir va)) \<and>
     set xs' \<subseteq> set xs \<and> tables (mem s') pgdir \<union> set xs' = tables (mem s) pgdir \<union> set xs \<and>
     (\<forall>q. q \<notin> insert pgdir (tables (mem s) pgdir \<union> set xs) \<longrightarrow> same_page (mem s') (mem s) q) \<and>
     s' = s\<lparr>mem := mem s', freelist := freelist s'\<rparr>"

lemma maps_prefixD:
  assumes "maps_prefix s xs pgdir a pa perm k s' xs'"
  shows "pt_wf s' pgdir xs'" "set xs' \<subseteq> set xs"
    "\<And>va. pte_val (mem s') pgdir va =
        (if pgdist a va < k then range_pte a pa perm va else pte_val (mem s) pgdir va)"
    "tables (mem s') pgdir \<union> set xs' = tables (mem s) pgdir \<union> set xs"
    "\<And>q. q \<notin> insert pgdir (tables (mem s) pgdir \<union> set xs) \<Longrightarrow> same_page (mem s') (mem s) q"
    "s' = s\<lparr>mem := mem s', freelist := freelist s'\<rparr>"
  using assms unfolding maps_prefix_def by blast+

lemma maps_prefix_0: "pt_wf s pgdir xs \<Longrightarrow> maps_prefix s xs pgdir a pa perm 0 s xs"
  by (simp add: maps_prefix_def)

lemma maps_prefix_1:
  assumes "pt_wf s1 pgdir xs1" "pde_present (mem s1) pgdir (PDX a)" "page_aligned a"
    "\<And>va. pte_val (mem s1) pgdir va = pte_val (mem s) pgdir va"
    "set xs1 \<subseteq> set xs" "tables (mem s1) pgdir \<union> set xs1 = tables (mem s) pgdir \<union> set xs"
    "\<And>q. q \<notin> insert pgdir (set xs) \<Longrightarrow> same_page (mem s1) (mem s) q"
    "s1 = s\<lparr>mem := mem s1, freelist := freelist s1\<rparr>"
  shows "maps_prefix s xs pgdir a pa perm 1
    (s1\<lparr>mem := store32 (mem s1) (pte_ptr (mem s1) pgdir a) (pa OR perm OR PTE_P)\<rparr>) xs1"
proof -
  let ?e = "pa OR perm OR PTE_P"
  let ?m = "store32 (mem s1) (pte_ptr (mem s1) pgdir a) ?e"
  note sp = set_pte [OF assms(1,2), where w = ?e]
  have a: "PGROUNDDOWN a = a" using assms(3) by (simp add: page_aligned_iff)
  have val: "pte_val ?m pgdir va = (if pgdist a va < 1 then range_pte a pa perm va else pte_val (mem s) pgdir va)" for va
    using sp(2) [of va] assms(4) [of va] pgdist_step(2) [OF assms(3), of va] a
    by (cases "pgdist a va = 0") (simp_all add: range_pte_def)
  have "same_page ?m (mem s) q" if q: "q \<notin> insert pgdir (tables (mem s) pgdir \<union> set xs)" for q
    using same_page_trans [OF sp(3) assms(7)] q assms(6) by blast
  moreover have "s1\<lparr>mem := ?m\<rparr> = s\<lparr>mem := ?m, freelist := freelist s1\<rparr>" by (subst assms(8)) simp
  ultimately show ?thesis
    unfolding maps_prefix_def using sp(1,4) assms(5,6) val by simp
qed

lemma maps_prefix_Suc:
  assumes "maps_prefix s xs pgdir a pa perm 1 s2 xs1" "page_aligned a" "k < 2 ^ 20"
    "maps_prefix s2 xs1 pgdir (a + PGSIZE) (pa + PGSIZE) perm k s' xs'"
  shows "maps_prefix s xs pgdir a pa perm (Suc k) s' xs'"
proof -
  note p = maps_prefixD [OF assms(1)] and n = maps_prefixD [OF assms(4)]
  have val: "pte_val (mem s') pgdir va =
      (if pgdist a va < Suc k then range_pte a pa perm va else pte_val (mem s) pgdir va)" for va
  proof (cases "pgdist a va = 0")
    case True
    then show ?thesis using n(3) [of va] p(3) [of va] pgdist_step(1) [OF assms(2), of va] assms(3) by simp
  next
    case False
    then have "range_pte (a + PGSIZE) (pa + PGSIZE) perm va = range_pte a pa perm va"
      using pgdist_step(1) [OF assms(2), of va] by (cases "pgdist a va") (auto simp: range_pte_def algebra_simps)
    with False n(3) [of va] p(3) [of va] pgdist_step(1) [OF assms(2), of va] show ?thesis by auto
  qed
  have fr: "same_page (mem s') (mem s) q" if q: "q \<notin> insert pgdir (tables (mem s) pgdir \<union> set xs)" for q
    using same_page_trans [OF n(5) p(5) [OF q]] q p(4) by blast
  have "s' = s\<lparr>mem := mem s', freelist := freelist s'\<rparr>" by (subst n(6), subst p(6)) simp
  with n(1,2,4) p(2,4) val fr show ?thesis unfolding maps_prefix_def by blast
qed

text \<open>Mapping a range of unmapped pages maps a prefix of it, all of it unless memory runs out.\<close>

lemma mappages_loop_ok:
  assumes "pt_wf s pgdir xs" "page_aligned a" "page_aligned lst"
    "\<forall>va. pgdist a va \<le> pgdist a lst \<longrightarrow> pte_val (mem s) pgdir va AND PTE_P = 0"
  shows "\<exists>r s' xs' k. mappages_loop s pgdir a lst pa perm = Ok (r, s') \<and>
    maps_prefix s xs pgdir a pa perm k s' xs' \<and>
    (r = 0 \<and> k = Suc (pgdist a lst) \<or> r = -1 \<and> xs' = [] \<and> k \<le> pgdist a lst)"
  using assms
proof (induction s pgdir a lst pa perm arbitrary: xs rule: mappages_loop.induct)
  case (1 s pgdir a lst pa perm)
  note st = pgdist_step [OF "1.prems"(2)]
  have al: "PGROUNDDOWN a = a" "PGROUNDDOWN lst = lst" using "1.prems"(2,3) by (simp_all add: page_aligned_iff)
  from "1.prems"(1) show ?case
  proof (cases rule: walkpgdir_alloc [where va = a])
    case 1
    then have "mappages_loop s pgdir a lst pa perm = Ok (-1, s)" by (simp add: mappages_loop.simps [of s])
    with maps_prefix_0 [OF "1.prems"(1)] 1(2) show ?thesis by blast
  next
    case (2 s1 xs1)
    define s2 where "s2 = s1\<lparr>mem := store32 (mem s1) (pte_ptr (mem s1) pgdir a) (pa OR perm OR PTE_P)\<rparr>"
    have mp: "maps_prefix s xs pgdir a pa perm 1 s2 xs1"
      unfolding s2_def by (rule maps_prefix_1 [OF 2(2,3) "1.prems"(2) 2(4-8)])
    have "pte_val (mem s1) pgdir a AND PTE_P = 0" using "1.prems"(4) 2(4) st(2) [of a] al by simp
    then have unm: "\<not> load32 (mem s1) (pte_ptr (mem s1) pgdir a) AND PTE_P \<noteq> 0"
      using 2(3) by (simp add: pte_val_def)
    have nz: "pte_ptr (mem s1) pgdir a \<noteq> 0" by (rule pte_ptr_nonzero [OF 2(2,3)])
    show ?thesis
    proof (cases "a = lst")
      case True
      then have "mappages_loop s pgdir a lst pa perm = Ok (0, s2)"
        using nz unm 2(1) by (simp add: mappages_loop.simps [of s] s2_def)
      moreover have "pgdist a lst = 0" using st(2) [of lst] True al by simp
      ultimately show ?thesis using mp by (intro exI [of _ 0] exI [of _ s2] exI [of _ xs1] exI [of _ 1]) simp
    next
      case False
      have far: "\<not> lst - a < PGSIZE"
        using aligned_step(3) [OF page_aligned_diff [OF "1.prems"(3,2)]] False by (simp add: not_less)
      then have l: "mappages_loop s pgdir a lst pa perm = mappages_loop s2 pgdir (a + PGSIZE) lst (pa + PGSIZE) perm"
        using nz unm 2(1) False by (simp add: mappages_loop.simps [of s] s2_def)
      have d: "pgdist a lst = Suc (pgdist (a + PGSIZE) lst)" using st(1,2) [of lst] False al by simp
      have un2: "\<forall>va. pgdist (a + PGSIZE) va \<le> pgdist (a + PGSIZE) lst \<longrightarrow>
          pte_val (mem s2) pgdir va AND PTE_P = 0"
      proof (intro allI impI)
        fix va assume le: "pgdist (a + PGSIZE) va \<le> pgdist (a + PGSIZE) lst"
        then have nz: "pgdist a va \<noteq> 0" using st(1) [of va] st(3) [of lst] d by (auto split: if_splits)
        with le st(1) [of va] d have "pgdist a va \<le> pgdist a lst" by simp
        with "1.prems"(4) maps_prefixD(3) [OF mp, of va] nz show "pte_val (mem s2) pgdir va AND PTE_P = 0" by simp
      qed
      obtain r s' xs' k where ih: "mappages_loop s2 pgdir (a + PGSIZE) lst (pa + PGSIZE) perm = Ok (r, s')"
          "maps_prefix s2 xs1 pgdir (a + PGSIZE) (pa + PGSIZE) perm k s' xs'"
          "r = 0 \<and> k = Suc (pgdist (a + PGSIZE) lst) \<or> r = -1 \<and> xs' = [] \<and> k \<le> pgdist (a + PGSIZE) lst"
        using "1.IH" [OF 2(1) [symmetric] nz unm s2_def False far maps_prefixD(1) [OF mp]
            page_aligned_next [OF "1.prems"(2)] "1.prems"(3) un2] by blast
      have "k < 2 ^ 20" using ih(3) d st(3) [of lst] by auto
      from maps_prefix_Suc [OF mp "1.prems"(2) this ih(2)] l ih(1,3) d show ?thesis
        by (intro exI [of _ r] exI [of _ s'] exI [of _ xs'] exI [of _ "Suc k"]) auto
    qed
  qed
qed

section \<open>User address spaces\<close>

text \<open>\<open>frame\<close> is the kernel address of the page frame behind a user page. In a well-formed user address
  space every present page below KERNBASE has a frame of its own, which is neither free nor part
  of the page table.\<close>

definition present :: "memory \<Rightarrow> addr \<Rightarrow> addr \<Rightarrow> bool" where
  "present m pgdir va \<longleftrightarrow> pte_val m pgdir va AND PTE_P \<noteq> 0"

definition user_frame :: "memory \<Rightarrow> addr \<Rightarrow> addr \<Rightarrow> addr" where
  "user_frame m pgdir va = P2V (PTE_ADDR (pte_val m pgdir va))"

definition ubyte :: "memory \<Rightarrow> addr \<Rightarrow> addr \<Rightarrow> byte" where
  "ubyte m pgdir va = m (user_frame m pgdir va + (va - PGROUNDDOWN va))"

definition uvm_wf :: "'a phys_scheme \<Rightarrow> addr \<Rightarrow> addr list \<Rightarrow> bool" where
  "uvm_wf s pgdir xs \<longleftrightarrow> pt_wf s pgdir xs \<and>
     (\<forall>va. va < KERNBASE \<and> present (mem s) pgdir va \<longrightarrow>
        kpage s (user_frame (mem s) pgdir va) \<and>
        user_frame (mem s) pgdir va \<notin> insert pgdir (tables (mem s) pgdir \<union> set xs)) \<and>
     (\<forall>va va'. va < KERNBASE \<and> va' < KERNBASE \<and> present (mem s) pgdir va \<and> present (mem s) pgdir va' \<and>
        user_frame (mem s) pgdir va = user_frame (mem s) pgdir va' \<longrightarrow> PGROUNDDOWN va = PGROUNDDOWN va')"

lemma uvm_wfD:
  assumes "uvm_wf s pgdir xs"
  shows "pt_wf s pgdir xs"
    "\<And>va. va < KERNBASE \<Longrightarrow> present (mem s) pgdir va \<Longrightarrow> kpage s (user_frame (mem s) pgdir va)"
    "\<And>va. va < KERNBASE \<Longrightarrow> present (mem s) pgdir va \<Longrightarrow>
      user_frame (mem s) pgdir va \<notin> insert pgdir (tables (mem s) pgdir \<union> set xs)"
    "\<And>va va'. va < KERNBASE \<Longrightarrow> va' < KERNBASE \<Longrightarrow> present (mem s) pgdir va \<Longrightarrow> present (mem s) pgdir va' \<Longrightarrow>
      user_frame (mem s) pgdir va = user_frame (mem s) pgdir va' \<Longrightarrow> PGROUNDDOWN va = PGROUNDDOWN va'"
  using assms unfolding uvm_wf_def by blast+

lemma pte_val_page: "PGROUNDDOWN va = PGROUNDDOWN va' \<Longrightarrow> pte_val m pgdir va = pte_val m pgdir va'"
  using PDX_PTX_inj [of va va'] by (simp add: pte_val_def pte_ptr_def)

lemma user_frame_page: "PGROUNDDOWN va = PGROUNDDOWN va' \<Longrightarrow> user_frame m pgdir va = user_frame m pgdir va'"
  and present_page: "PGROUNDDOWN va = PGROUNDDOWN va' \<Longrightarrow> present m pgdir va = present m pgdir va'"
  using pte_val_page [of va va' m pgdir] by (simp_all add: user_frame_def present_def)

text \<open>Writing to memory outside the page table and the free pages keeps the address space.\<close>

lemma pte_val_frame:
  assumes "pt_wf s pgdir xs" "\<forall>q \<in> insert pgdir (tables (mem s) pgdir). same_page m (mem s) q"
  shows "pte_val m pgdir va = pte_val (mem s) pgdir va" "tables m pgdir = tables (mem s) pgdir"
proof -
  note wf = pt_wfD [OF assms(1)]
  show "tables m pgdir = tables (mem s) pgdir" using tables_same_page wf(4) assms(2) by blast
  have "pde_present (mem s) pgdir (PDX va) \<Longrightarrow> table_of (mem s) pgdir (PDX va) \<in> tables (mem s) pgdir"
    using PDX_less unfolding tables_def by blast
  then show "pte_val m pgdir va = pte_val (mem s) pgdir va"
    using assms(2) wf(9) [OF PDX_less] by (intro pte_val_same_page [OF _ wf(4)]) auto
qed

lemma uvm_wf_mem_update [invs]:
  assumes "uvm_wf s pgdir xs" "\<forall>q \<in> insert pgdir (tables (mem s) pgdir \<union> set xs). same_page m (mem s) q"
  shows "uvm_wf (s\<lparr>mem := m\<rparr>) pgdir xs"
proof -
  note wf = uvm_wfD [OF assms(1)]
  have eq: "pte_val m pgdir va = pte_val (mem s) pgdir va" "tables m pgdir = tables (mem s) pgdir" for va
    using pte_val_frame [OF wf(1), of m] assms(2) by auto
  have "pt_wf (s\<lparr>mem := m\<rparr>) pgdir xs" using pt_wf_mem_update [OF wf(1)] assms(2) by blast
  with assms(1) eq show ?thesis
    unfolding uvm_wf_def present_def user_frame_def kpage_def by simp
qed

lemma word_window:
  fixes x :: u32
  assumes "n \<le> len"
  shows "x - n < len - n \<longleftrightarrow> n \<le> x \<and> x < len"
  using assms unsigned_less [of len, where ?'a = nat] unsigned_less [of n, where ?'a = nat]
  by (auto simp: word_less_nat_alt word_le_nat_alt unat_sub_if')

lemma block_in_page: "unat k + unat n \<le> 4096 \<Longrightarrow> y < n \<Longrightarrow> k + y < PGSIZE"
  using unat_plus_if' [of k y] by (simp add: word_less_nat_alt)

text \<open>One step of \<^verbatim>\<open>copyout\<close>: a block written inside one user page.\<close>

lemma write_user_block:
  assumes "uvm_wf s pgdir xs" "va < KERNBASE" "present (mem s) pgdir va"
    "unat (va - PGROUNDDOWN va) + unat n \<le> 4096" "unat buf + unat n < 2 ^ 32"
  defines "m \<equiv> memmove (mem s) (user_frame (mem s) pgdir va + (va - PGROUNDDOWN va)) buf n"
  shows "uvm_wf (s\<lparr>mem := m\<rparr>) pgdir xs" "pte_val m pgdir va' = pte_val (mem s) pgdir va'"
    "q \<noteq> user_frame (mem s) pgdir va \<Longrightarrow> same_page m (mem s) q"
    "va' < KERNBASE \<Longrightarrow> present (mem s) pgdir va' \<Longrightarrow>
      ubyte m pgdir va' = (if va' - va < n then mem s (buf + (va' - va)) else ubyte (mem s) pgdir va')"
proof -
  note wf = uvm_wfD [OF assms(1)]
  let ?f = "user_frame (mem s) pgdir va" and ?o = "va - PGROUNDDOWN va"
  have f: "kpage s ?f" "page_aligned ?f" using wf(2) [OF assms(2,3)] by (auto simp: kpage_def)
  have bnd: "unat (?f + ?o) + unat n < 2 ^ 32" "unat (?f + ?o) = unat ?f + unat ?o"
    using kpage_high [OF f(1)] assms(4) by (simp_all add: unat_word_ariths)
  have app: "m x = (if x - (?f + ?o) < n then mem s (buf + (x - (?f + ?o))) else mem s x)" for x
    unfolding m_def by (rule memmove_apply [OF assms(5) bnd(1)])
  have inpage: "PGROUNDDOWN x = ?f" if "x - (?f + ?o) < n" for x
    using in_page_iff [OF f(2), of x] block_in_page [of ?o n "x - (?f + ?o)"] that assms(4) by simp
  show sp: "same_page m (mem s) q" if "q \<noteq> ?f" for q
  proof (unfold same_page_def, intro allI impI)
    fix x assume "PGROUNDDOWN x = q"
    with inpage [of x] that have "\<not> x - (?f + ?o) < n" by blast
    then show "m x = mem s x" using app [of x] by simp
  qed
  have pages: "\<forall>q \<in> insert pgdir (tables (mem s) pgdir \<union> set xs). same_page m (mem s) q"
  proof
    fix q assume "q \<in> insert pgdir (tables (mem s) pgdir \<union> set xs)"
    with wf(3) [OF assms(2,3)] have "q \<noteq> ?f" by blast
    then show "same_page m (mem s) q" by (rule sp)
  qed
  show "uvm_wf (s\<lparr>mem := m\<rparr>) pgdir xs" by (rule uvm_wf_mem_update [OF assms(1) pages])
  show pv: "pte_val m pgdir va' = pte_val (mem s) pgdir va'" for va'
    using pte_val_frame [OF wf(1), of m] pages by blast
  assume v': "va' < KERNBASE" "present (mem s) pgdir va'"
  let ?f' = "user_frame (mem s) pgdir va'" and ?o' = "va' - PGROUNDDOWN va'"
  have ub: "ubyte m pgdir va' = m (?f' + ?o')" using pv by (simp add: ubyte_def user_frame_def)
  have pg: "PGROUNDDOWN (?f' + ?o') = ?f'"
    by (rule PGROUNDDOWN_add [OF _ PGROUNDDOWN_less]) (use wf(2) [OF v'] in \<open>simp add: kpage_def\<close>)
  show "ubyte m pgdir va' = (if va' - va < n then mem s (buf + (va' - va)) else ubyte (mem s) pgdir va')"
  proof (cases "PGROUNDDOWN va' = PGROUNDDOWN va")
    case True
    then have "?f' = ?f" using user_frame_page by metis
    with True ub app [of "?f' + ?o'"] show ?thesis by (simp add: ubyte_def)
  next
    case False
    then have "?f' \<noteq> ?f" using wf(4) [OF v'(1) assms(2) v'(2) assms(3)] by blast
    with sp [of ?f'] pg have "m (?f' + ?o') = mem s (?f' + ?o')" by (simp add: same_page_def)
    moreover have "\<not> va' - va < n"
    proof
      assume lt: "va' - va < n"
      then have "va' - PGROUNDDOWN va < PGSIZE" using block_in_page [of ?o n "va' - va"] assms(4) by simp
      then show False using in_page_iff [of "PGROUNDDOWN va" va'] False by simp
    qed
    ultimately show ?thesis using ub by (simp add: ubyte_def)
  qed
qed

definition user_rw :: "memory \<Rightarrow> addr \<Rightarrow> addr \<Rightarrow> bool" where
  "user_rw m pgdir va \<longleftrightarrow> present m pgdir va \<and> pte_val m pgdir va AND PTE_U \<noteq> 0"

lemma uva2ka_eq:
  assumes "pt_wf s pgdir xs" "user_rw (mem s) pgdir va"
  shows "uva2ka s pgdir va = Ok (user_frame (mem s) pgdir va)"
proof -
  have "pde_present (mem s) pgdir (PDX va)"
    using assms(2) by (auto simp: user_rw_def present_def pte_val_def split: if_splits)
  with assms read_pte_eq [OF assms(1), of va] show ?thesis
    by (simp add: uva2ka_def user_rw_def present_def user_frame_def)
qed

text \<open>The step of \<^verbatim>\<open>copyout\<close>: \<open>n\<close> bytes, up to the end of the page or of the data.\<close>

definition block_len :: "addr \<Rightarrow> u32 \<Rightarrow> u32" where
  "block_len va len =
     (if PGSIZE - (va - PGROUNDDOWN va) > len then len else PGSIZE - (va - PGROUNDDOWN va))"

lemma block_len:
  assumes "0 < len"
  shows "0 < block_len va len" "block_len va len \<le> len" "unat (va - PGROUNDDOWN va) + unat (block_len va len) \<le> 4096"
    "block_len va len \<noteq> len \<Longrightarrow> PGROUNDDOWN va + PGSIZE = va + block_len va len"
proof -
  have o: "unat (va - PGROUNDDOWN va) < 4096" using PGROUNDDOWN_less [of va] by (simp add: word_less_nat_alt)
  show "0 < block_len va len" "block_len va len \<le> len" using assms page_rest(1) [of va] by (auto simp: block_len_def)
  show "unat (va - PGROUNDDOWN va) + unat (block_len va len) \<le> 4096"
    using page_rest(3) [of va] o by (auto simp: block_len_def word_less_nat_alt)
  show "block_len va len \<noteq> len \<Longrightarrow> PGROUNDDOWN va + PGSIZE = va + block_len va len"
    by (simp add: block_len_def split: if_splits)
qed

lemma copyout_step:
  assumes "uvm_wf s pgdir xs" "0 < len" "va < KERNBASE" "user_rw (mem s) pgdir va"
  shows "copyout s pgdir va buf len =
    copyout (s\<lparr>mem := memmove (mem s) (user_frame (mem s) pgdir va + (va - PGROUNDDOWN va)) buf (block_len va len)\<rparr>)
      pgdir (PGROUNDDOWN va + PGSIZE) (buf + block_len va len) (len - block_len va len)"
proof -
  note wf = uvm_wfD [OF assms(1)]
  have "user_rw (mem s) pgdir (PGROUNDDOWN va)"
    using assms(4) pte_val_page [of "PGROUNDDOWN va" va] by (simp add: user_rw_def present_def)
  then have "uva2ka s pgdir (PGROUNDDOWN va) = Ok (user_frame (mem s) pgdir va)"
    using uva2ka_eq [OF wf(1)] user_frame_page [of "PGROUNDDOWN va" va] by simp
  moreover have "user_frame (mem s) pgdir va \<noteq> 0"
    using wf(2) [OF assms(3)] assms(4) kpage_nonzero by (auto simp: user_rw_def)
  ultimately show ?thesis using assms(2) by (simp add: copyout.simps [of s] Let_def block_len_def)
qed

lemma copyout_ok:
  assumes "uvm_wf s pgdir xs" "unat va + unat len \<le> 0x80000000" "unat buf + unat len < 2 ^ 32"
    "\<forall>i<len. user_rw (mem s) pgdir (va + i)"
    "\<forall>i<len. \<forall>v<KERNBASE. present (mem s) pgdir v \<longrightarrow> PGROUNDDOWN (buf + i) \<noteq> user_frame (mem s) pgdir v"
  shows "\<exists>s'. copyout s pgdir va buf len = Ok (0, s') \<and> uvm_wf s' pgdir xs \<and>
    (\<forall>v. pte_val (mem s') pgdir v = pte_val (mem s) pgdir v) \<and>
    (\<forall>v<KERNBASE. present (mem s) pgdir v \<longrightarrow>
       ubyte (mem s') pgdir v = (if v - va < len then mem s (buf + (v - va)) else ubyte (mem s) pgdir v))"
  using assms
proof (induction "unat len" arbitrary: s va buf len rule: less_induct)
  case less
  show ?case
  proof (cases "len > 0")
    case False
    then have "len = 0" by (simp add: word_gt_0)
    then show ?thesis using less.prems(1) by (simp add: copyout.simps [of s])
  next
    case True
    define n where "n = block_len va len"
    note n = block_len [OF True, of va, folded n_def]
    have nl: "unat n \<le> unat len" "0 < unat n" "unat (len - n) = unat len - unat n"
      using n(1,2) by (auto simp: word_le_nat_alt word_less_nat_alt unat_sub)
    have va: "va < KERNBASE" using less.prems(2) True by (simp add: word_less_nat_alt)
    have rw: "user_rw (mem s) pgdir va" using less.prems(4) True by force
    then have pr: "present (mem s) pgdir va" by (simp add: user_rw_def)
    define m where "m = memmove (mem s) (user_frame (mem s) pgdir va + (va - PGROUNDDOWN va)) buf n"
    have bn: "unat buf + unat n < 2 ^ 32" using less.prems(3) nl(1) by simp
    note w = write_user_block [OF less.prems(1) va pr n(3) bn, folded m_def]
    have step: "copyout s pgdir va buf len =
        copyout (s\<lparr>mem := m\<rparr>) pgdir (PGROUNDDOWN va + PGSIZE) (buf + n) (len - n)"
      unfolding m_def n_def by (rule copyout_step [OF less.prems(1) True va rw])
    show ?thesis
    proof (cases "n = len")
      case True
      then have "copyout s pgdir va buf len = Ok (0, s\<lparr>mem := m\<rparr>)" using step by (simp add: copyout.simps)
      then show ?thesis using w(1,2,4) True by auto
    next
      case False
      then have nlt: "unat n < unat len" using nl(1) word_unat_eq_iff [of n len] by simp
      have un: "unat (va + n) = unat va + unat n" "unat (buf + n) = unat buf + unat n"
        using less.prems(2,3) nl(1) by (simp_all add: unat_word_ariths)
      have eq: "present m pgdir v = present (mem s) pgdir v" "user_frame m pgdir v = user_frame (mem s) pgdir v"
        "user_rw m pgdir v = user_rw (mem s) pgdir v" for v
        using w(2) by (simp_all add: present_def user_frame_def user_rw_def)
      have shift: "i < len - n \<Longrightarrow> n + i < len" for i
        using word_window [OF n(2), of "n + i"] by simp
      have "\<exists>s'. copyout (s\<lparr>mem := m\<rparr>) pgdir (va + n) (buf + n) (len - n) = Ok (0, s') \<and> uvm_wf s' pgdir xs \<and>
          (\<forall>v. pte_val (mem s') pgdir v = pte_val m pgdir v) \<and>
          (\<forall>v<KERNBASE. present m pgdir v \<longrightarrow>
             ubyte (mem s') pgdir v = (if v - (va + n) < len - n then m (buf + n + (v - (va + n))) else ubyte m pgdir v))"
        using less.hyps [of "len - n" "s\<lparr>mem := m\<rparr>" "va + n" "buf + n"] w(1) less.prems(2-5) nl nlt un shift eq
        by (simp add: add.assoc cong: if_cong)
      then obtain s' where s': "copyout (s\<lparr>mem := m\<rparr>) pgdir (va + n) (buf + n) (len - n) = Ok (0, s')"
          "uvm_wf s' pgdir xs" "\<And>v. pte_val (mem s') pgdir v = pte_val m pgdir v"
          "\<And>v. v < KERNBASE \<Longrightarrow> present m pgdir v \<Longrightarrow>
             ubyte (mem s') pgdir v = (if v - (va + n) < len - n then m (buf + n + (v - (va + n))) else ubyte m pgdir v)"
        by blast
      have "ubyte (mem s') pgdir v = (if v - va < len then mem s (buf + (v - va)) else ubyte (mem s) pgdir v)"
        if v: "v < KERNBASE" "present (mem s) pgdir v" for v
      proof -
        have win: "v - (va + n) < len - n \<longleftrightarrow> n \<le> v - va \<and> v - va < len"
          using word_window [OF n(2), of "v - va"] by (simp add: diff_diff_eq)
        have "m (buf + (v - va)) = mem s (buf + (v - va))" if "v - va < len"
        proof -
          have "PGROUNDDOWN (buf + (v - va)) \<noteq> user_frame (mem s) pgdir va" using less.prems(5) that va pr by blast
          then have "same_page m (mem s) (PGROUNDDOWN (buf + (v - va)))" by (rule w(3))
          then show ?thesis by (simp add: same_page_def)
        qed
        moreover have "buf + n + (v - (va + n)) = buf + (v - va)" by simp
        ultimately show ?thesis using s'(4) [OF v(1)] v eq(1) w(4) [OF v] win
          by (metis (no_types, lifting) n(2) not_le order.strict_trans2)
      qed
      with s' step n(4) [OF False] w(2) show ?thesis by auto
    qed
  qed
qed

section \<open>A small address space\<close>

text \<open>One user page at address 0, backed by frame 0x80400000, and one free page.\<close>

definition demo_mem :: memory where
  "demo_mem = store32 (store32 (\<lambda>_. 0) (slot 0x80200000 0) 0x300007) (slot 0x80300000 0) 0x400007"

definition demo_phys :: phys where
  "demo_phys = boot_state\<lparr>mem := demo_mem, freelist := 0x80500000\<rparr>"

lemma demo_load:
  assumes "i < 1024" "p \<in> {0x80200000, 0x80300000, 0x80500000}"
  shows "load32 demo_mem (slot p i) =
    (if p = 0x80200000 \<and> i = 0 then 0x300007 else if p = 0x80300000 \<and> i = 0 then 0x400007 else 0)"
proof -
  have al: "page_aligned p" "page_aligned 0x80200000" "page_aligned 0x80300000"
    using assms(2) by (auto simp: page_aligned_def)
  have z: "load32 (\<lambda>_. 0) a = 0" for a by (simp add: load32_def)
  note s = load32_store32_slot [OF al(2) al(1) _ assms(1)] load32_store32_slot [OF al(3) al(1) _ assms(1)]
  consider "p = 0x80200000" "i = 0" | "p = 0x80300000" "i = 0"
    | "p \<noteq> 0x80200000 \<or> i \<noteq> 0" "p \<noteq> 0x80300000 \<or> i \<noteq> 0" by blast
  then show ?thesis
  proof cases
    case 1
    then have "load32 demo_mem (slot p i) = load32 (store32 (\<lambda>_. 0) (slot 0x80200000 0) 0x300007) (slot 0x80200000 0)"
      unfolding demo_mem_def using s(2) [of 0] by simp
    with 1 show ?thesis by (simp only: load32_store32_same) simp
  next
    case 2
    then show ?thesis by (simp only: demo_mem_def load32_store32_same) simp
  next
    case 3
    then have "load32 demo_mem (slot p i) = load32 (\<lambda>_. 0) (slot p i)"
      unfolding demo_mem_def using s(1) [of 0] s(2) [of 0] by auto
    with 3 z show ?thesis by auto
  qed
qed

lemma demo_kinv: "kinv demo_phys [0x80500000]"
  using demo_load [of 0 "0x80500000"]
  by (simp add: kinv_def demo_phys_def boot_state_def kpage_def page_aligned_def V2P_def)

lemma demo_pde:
  "i < 1024 \<Longrightarrow> pde_present demo_mem 0x80200000 i \<longleftrightarrow> i = 0"
  "table_of demo_mem 0x80200000 0 = 0x80300000"
  using demo_load [of i "0x80200000"] demo_load [of 0 "0x80200000"]
  by (simp_all add: pde_present_def table_of_def pde_of_def P2V_def PTE_ADDR_def)

lemma demo_pte: "pte_val demo_mem 0x80200000 va = (if PGROUNDDOWN va = 0 then 0x400007 else 0)"
proof -
  have "PDX 0 = 0" "PTX 0 = 0" "PGROUNDDOWN 0 = 0" by (simp_all add: PDX_def PTX_def PGROUNDDOWN_def)
  then have "PGROUNDDOWN va = 0 \<longleftrightarrow> PDX va = 0 \<and> PTX va = 0" using PDX_PTX_inj [of va 0] by simp
  with demo_pde(1) [OF PDX_less, of va] demo_pde(2) demo_load [OF PTX_less, of "0x80300000" va] show ?thesis
    by (auto simp: pte_val_def pte_ptr_def)
qed

lemma demo_uvm: "uvm_wf demo_phys 0x80200000 [0x80500000]"
proof -
  have m: "mem demo_phys = demo_mem" by (simp add: demo_phys_def)
  have k: "kpage demo_phys p" if "p \<in> {0x80200000, 0x80300000, 0x80400000}" for p
    using that by (auto simp: kpage_def demo_phys_def boot_state_def page_aligned_def V2P_def)
  have wf: "pt_wf demo_phys 0x80200000 [0x80500000]"
    by (rule pt_wfI) (use demo_kinv k demo_pde in \<open>auto simp: m\<close>)
  have "tables demo_mem 0x80200000 \<subseteq> {0x80300000}" using demo_pde by (auto simp: tables_def)
  then have "0x80400000 \<notin> tables demo_mem 0x80200000" by auto
  with wf k show ?thesis
    by (auto simp: uvm_wf_def m present_def user_frame_def demo_pte P2V_def PTE_ADDR_def split: if_splits)
qed

section \<open>Properties\<close>

text \<open>C28: mappages on a range of unmapped pages never panics. It maps the i-th page of the range to
  the i-th page from pa with the given permissions and the present bit; only when the free list is
  exhausted does it stop early with -1, and then a prefix of the range is mapped. No other entry
  changes, and no page outside the page table and the free list is touched.\<close>

theorem mappages_maps_exactly_range:
  assumes "pt_wf s pgdir xs"
    "\<forall>v. pgdist (PGROUNDDOWN va) v \<le> pgdist (PGROUNDDOWN va) (va + sz - 1) \<longrightarrow> \<not> present (mem s) pgdir v"
  shows "\<exists>r s' xs' k. mappages s pgdir va sz pa perm = Ok (r, s') \<and> pt_wf s' pgdir xs' \<and>
    (r = 0 \<and> k = Suc (pgdist (PGROUNDDOWN va) (va + sz - 1)) \<or>
     r = -1 \<and> xs' = [] \<and> k \<le> pgdist (PGROUNDDOWN va) (va + sz - 1)) \<and>
    (\<forall>v. pte_val (mem s') pgdir v =
       (if pgdist (PGROUNDDOWN va) v < k
        then (pa + PGSIZE * of_nat (pgdist (PGROUNDDOWN va) v)) OR perm OR PTE_P
        else pte_val (mem s) pgdir v)) \<and>
    (\<forall>q. q \<notin> insert pgdir (tables (mem s) pgdir \<union> set xs) \<longrightarrow> same_page (mem s') (mem s) q)"
proof -
  have d: "pgdist a (PGROUNDDOWN v) = pgdist a v" for a v by (simp add: pgdist_def)
  obtain r s' xs' k where r: "mappages s pgdir va sz pa perm = Ok (r, s')"
      "maps_prefix s xs pgdir (PGROUNDDOWN va) pa perm k s' xs'"
      "r = 0 \<and> k = Suc (pgdist (PGROUNDDOWN va) (va + sz - 1)) \<or>
       r = -1 \<and> xs' = [] \<and> k \<le> pgdist (PGROUNDDOWN va) (va + sz - 1)"
    using mappages_loop_ok [OF assms(1) page_aligned_PGROUNDDOWN page_aligned_PGROUNDDOWN, of va "va + sz - 1" pa perm] assms(2)
    unfolding mappages_def present_def d by blast
  with maps_prefixD [OF r(2)] show ?thesis
    unfolding range_pte_def by (intro exI [of _ r] exI [of _ s'] exI [of _ xs'] exI [of _ k]) blast
qed

theorem mappages_maps_exactly_range_witness:
  "\<exists>r s' xs' k. mappages demo_phys 0x80200000 0x400000 0x1000 0x700000 6 = Ok (r, s') \<and> pt_wf s' 0x80200000 xs' \<and>
    (r = 0 \<and> k = 1 \<or> r = -1 \<and> xs' = [] \<and> k = 0)"
proof -
  have a: "PGROUNDDOWN 0x400000 = 0x400000" "PGROUNDDOWN 0x400FFF = 0x400000" by (simp_all add: PGROUNDDOWN_def)
  have d: "pgdist 0x400000 0x400FFF = 0" by (simp add: pgdist_def a)
  have "\<not> present demo_mem 0x80200000 v" if "pgdist 0x400000 v = 0" for v
    using that pgdist_step(2) [of "0x400000" v] by (simp add: present_def demo_pte page_aligned_def)
  then have "\<forall>v. pgdist (PGROUNDDOWN 0x400000) v \<le> pgdist (PGROUNDDOWN 0x400000) (0x400000 + 0x1000 - 1) \<longrightarrow>
      \<not> present (mem demo_phys) 0x80200000 v"
    by (simp add: a d demo_phys_def)
  from mappages_maps_exactly_range [OF uvm_wfD(1) [OF demo_uvm] this, of "0x700000" 6]
  show ?thesis by (simp add: a d) blast
qed

text \<open>C29: copyout to a range of user pages that are present and user-accessible returns 0 and puts byte
  i of the buffer at user address va + i, across page boundaries; every other user byte and every
  mapping stay as they were.\<close>

theorem copyout_copies_to_user:
  assumes "uvm_wf s pgdir xs" "unat va + unat len \<le> 0x80000000" "unat buf + unat len < 2 ^ 32"
    "\<forall>i<len. user_rw (mem s) pgdir (va + i)"
    "\<forall>i<len. \<forall>v<KERNBASE. present (mem s) pgdir v \<longrightarrow> PGROUNDDOWN (buf + i) \<noteq> user_frame (mem s) pgdir v"
  shows "\<exists>s'. copyout s pgdir va buf len = Ok (0, s') \<and> uvm_wf s' pgdir xs \<and>
    (\<forall>v. pte_val (mem s') pgdir v = pte_val (mem s) pgdir v) \<and>
    (\<forall>v<KERNBASE. present (mem s) pgdir v \<longrightarrow>
       ubyte (mem s') pgdir v = (if v - va < len then mem s (buf + (v - va)) else ubyte (mem s) pgdir v))"
  by (rule copyout_ok [OF assms])

theorem copyout_copies_to_user_witness:
  "\<exists>s'. copyout demo_phys 0x80200000 0x10 0x80600000 4 = Ok (0, s') \<and> uvm_wf s' 0x80200000 [0x80500000]"
proof -
  have small: "PGROUNDDOWN (k + i) = 0" if "k < 0x100" "i < 4" for k i :: u32
    using that unat_plus_if' [of k i]
    by (simp add: unat_PGROUNDDOWN word_unat_eq_iff [where ?w = 0] word_less_nat_alt)
  have "user_rw (mem demo_phys) 0x80200000 (0x10 + i)" if "i < 4" for i
    using small [of "0x10" i] that by (simp add: user_rw_def present_def demo_phys_def demo_pte)
  moreover have "PGROUNDDOWN (0x80600000 + i) = 0x80600000" if "i < 4" for i
    using that PGROUNDDOWN_add [of "0x80600000" i] by (simp add: page_aligned_def word_less_nat_alt)
  moreover have "user_frame (mem demo_phys) 0x80200000 v = 0x80400000" if "present (mem demo_phys) 0x80200000 v" for v
    using that by (auto simp: present_def user_frame_def demo_phys_def demo_pte P2V_def PTE_ADDR_def split: if_splits)
  ultimately show ?thesis using copyout_copies_to_user [OF demo_uvm, of "0x10" 4 "0x80600000"] by auto
qed

end
