(* ===== verification/PageMeta.thy ===== *)
theory PageMeta
  imports Mmu
begin

text \<open>
  The paging metadata each process carries (\<^verbatim>\<open>struct page\<close>, \<^verbatim>\<open>struct page_queue\<close> and
  \<^verbatim>\<open>struct p_meta\<close> of proc.h) and the functions of vm.c that work on it alone: the page
  queue, the page table of the swapper, the swap slots and the NFUA and LAPA victim
  searches. The 0/1 integers \<^verbatim>\<open>exists\<close>, \<^verbatim>\<open>in_back\<close> and \<^verbatim>\<open>offsets[i]\<close> are booleans here.
\<close>

section \<open>Data\<close>

record page =
  exists :: bool
  vaddr :: addr
  in_back :: bool
  offset :: u32
  age :: u32
  age2 :: u32

record page_queue =
  qpages :: "page list"
  lastIndex :: int

record p_meta =
  pages :: "page list"
  pq :: page_queue
  offsets :: "bool list"

definition zero_page :: page where
  "zero_page = \<lparr>exists = False, vaddr = 0, in_back = False, offset = 0, age = 0, age2 = 0\<rparr>"

text \<open>\<^verbatim>\<open>reset_paging_meta\<close> zeroes the whole structure.\<close>

definition reset_paging_meta :: p_meta where
  "reset_paging_meta =
     \<lparr>pages = replicate MAX_TOTAL_PAGES zero_page,
      pq = \<lparr>qpages = replicate MAX_TOTAL_PAGES zero_page, lastIndex = 0\<rparr>,
      offsets = replicate MAX_TOTAL_PAGES False\<rparr>"

section \<open>The page queue\<close>

definition enqueue :: "page_queue \<Rightarrow> page \<Rightarrow> page_queue outcome" where
  "enqueue q toAdd =
     (if lastIndex q = int MAX_TOTAL_PAGES then Panic ''enqueue''
      else if lastIndex q < 0 \<or> int MAX_TOTAL_PAGES < lastIndex q
      then Fault ''enqueue: write outside pq.pages''
      else Ok (q\<lparr>qpages := (qpages q)[nat (lastIndex q) := toAdd], lastIndex := lastIndex q + 1\<rparr>))"

text \<open>Clearing an entry leaves its \<^verbatim>\<open>offset\<close> field as it was.\<close>

definition clear_entry :: "page \<Rightarrow> page" where
  "clear_entry p = p\<lparr>exists := False, vaddr := 0, age := 0, age2 := 0, in_back := False\<rparr>"

function shift_loop :: "nat \<Rightarrow> page list \<Rightarrow> page list" where
  "shift_loop i ps =
     (if i < MAX_TOTAL_PAGES
      then shift_loop (Suc i)
        (if i = MAX_TOTAL_PAGES - 1 then ps[i := clear_entry (ps ! i)] else ps[i := ps ! (i + 1)])
      else ps)"
  by pat_completeness auto
termination
  by (relation "measure (\<lambda>(i, ps). MAX_TOTAL_PAGES - i)") auto

declare shift_loop.simps [simp del]

definition dequeue :: "page_queue \<Rightarrow> page \<times> page_queue" where
  "dequeue q =
     (let ps = (qpages q)[0 := clear_entry (qpages q ! 0)]
      in (qpages q ! 0, q\<lparr>qpages := shift_loop 0 ps, lastIndex := lastIndex q - 1\<rparr>))"

definition free_from_queue :: "page_queue \<Rightarrow> addr \<Rightarrow> page_queue" where
  "free_from_queue q va =
     (case first_idx (\<lambda>p. exists p \<and> vaddr p = va) (qpages q) of
        Some to_del \<Rightarrow> q\<lparr>qpages := shift_loop to_del (qpages q), lastIndex := lastIndex q - 1\<rparr>
      | None \<Rightarrow> q\<lparr>qpages := shift_loop MAX_TOTAL_PAGES (qpages q)\<rparr>)"

section \<open>The page table of the swapper\<close>

abbreviation (input) PGFILE_FULL_ERR :: u32 where "PGFILE_FULL_ERR \<equiv> 1310720"

definition getFreePageOffset :: "p_meta \<Rightarrow> u32" where
  "getFreePageOffset m =
     (case first_idx Not (offsets m) of
        Some i \<Rightarrow> PGSIZE * of_nat i
      | None \<Rightarrow> PGFILE_FULL_ERR)"

definition set_slot :: "p_meta \<Rightarrow> u32 \<Rightarrow> bool \<Rightarrow> p_meta outcome" where
  "set_slot m off taken =
     (let k = unat (off div PGSIZE)
      in if k < MAX_TOTAL_PAGES then Ok (m\<lparr>offsets := (offsets m)[k := taken]\<rparr>)
         else Fault ''offsets: index out of range'')"

definition page_out_meta :: "p_meta \<Rightarrow> addr \<Rightarrow> u32 \<Rightarrow> (int \<times> p_meta) outcome" where
  "page_out_meta m va off =
     (case first_idx (\<lambda>p. exists p \<and> vaddr p = va) (pages m) of
        Some i \<Rightarrow>
          andThen (set_slot (m\<lparr>pages := (pages m)[i := (pages m ! i)\<lparr>in_back := True, offset := off\<rparr>]\<rparr>) off True)
            (\<lambda>m. Ok (1, m))
      | None \<Rightarrow> Ok (0, m))"

text \<open>The search of \<^verbatim>\<open>page_in_meta\<close> compares addresses only; it does not ask whether the entry exists.\<close>

definition page_in_meta :: "p_meta \<Rightarrow> addr \<Rightarrow> (int \<times> p_meta) outcome" where
  "page_in_meta m va =
     (case first_idx (\<lambda>p. vaddr p = va) (pages m) of
        Some i \<Rightarrow>
          (let p = (pages m ! i)\<lparr>in_back := False\<rparr>
           in andThen (set_slot m (offset p) False)
             (\<lambda>m. let p = p\<lparr>age := 0, age2 := 0xffffffff\<rparr>
                  in andThen (enqueue (pq m) p)
                    (\<lambda>q. Ok (1, m\<lparr>pages := (pages m)[i := p], pq := q\<rparr>))))
      | None \<Rightarrow> Ok (0, m))"

definition numOfPagedOut :: "p_meta \<Rightarrow> nat" where
  "numOfPagedOut m = length (filter (\<lambda>p. exists p \<and> in_back p) (pages m))"

definition numOfPagedIn :: "p_meta \<Rightarrow> nat" where
  "numOfPagedIn m = length (filter (\<lambda>p. exists p \<and> \<not> in_back p) (pages m))"

definition get_allocated_pages :: "p_meta \<Rightarrow> nat" where
  "get_allocated_pages m = length (filter exists (pages m))"

definition new_page :: "addr \<Rightarrow> page" where
  "new_page va =
     \<lparr>exists = True, vaddr = va, in_back = False, offset = 0, age = 0, age2 = 0xffffffff\<rparr>"

fun add_new_scan :: "page list \<Rightarrow> addr \<Rightarrow> nat \<Rightarrow> nat option outcome" where
  "add_new_scan [] va i = Ok None"
| "add_new_scan (p # ps) va i =
     (if exists p \<and> vaddr p = va then Panic ''add_new_page vaddr exists''
      else if exists p then add_new_scan ps va (Suc i)
      else Ok (Some i))"

definition add_new_page :: "p_meta \<Rightarrow> addr \<Rightarrow> (int \<times> p_meta) outcome" where
  "add_new_page m va =
     andThen (add_new_scan (pages m) va 0)
       (\<lambda>r. case r of
          Some i \<Rightarrow>
            andThen (enqueue (pq m) (new_page va))
              (\<lambda>q. Ok (1, m\<lparr>pages := (pages m)[i := new_page va], pq := q\<rparr>))
        | None \<Rightarrow> Ok (0, m))"

text \<open>The bookkeeping part of \<^verbatim>\<open>deallocuvm\<close>: every existing entry for the address is wiped, and the
  address leaves the queue.\<close>

definition wipe_entry :: "page \<Rightarrow> page" where
  "wipe_entry p =
     p\<lparr>age := 0, age2 := 0xffffffff, in_back := False, offset := 0, vaddr := 0, exists := False\<rparr>"

definition forget_page :: "p_meta \<Rightarrow> addr \<Rightarrow> p_meta" where
  "forget_page m va =
     m\<lparr>pages := map (\<lambda>p. if exists p \<and> vaddr p = va then wipe_entry p else p) (pages m),
       pq := free_from_queue (pq m) va\<rparr>"

section \<open>Victim searches of NFUA and LAPA\<close>

fun count_loop :: "nat \<Rightarrow> u32 \<Rightarrow> u32 \<Rightarrow> u32" where
  "count_loop 0 number counter = counter"
| "count_loop (Suc n) number counter =
     count_loop n (number div 2) (if number OR 1 > 0 then counter + 1 else counter)"

definition count_set_bits :: "u32 \<Rightarrow> u32" where
  "count_set_bits number = count_loop 32 number 0"

fun nfua_scan :: "page list \<Rightarrow> page \<Rightarrow> page" where
  "nfua_scan [] min_page = min_page"
| "nfua_scan (p # ps) min_page =
     (if \<not> exists p \<or> in_back p then nfua_scan ps min_page
      else if age p < age min_page then nfua_scan ps p
      else nfua_scan ps min_page)"

definition nfua_select :: "page list \<Rightarrow> page" where
  "nfua_select ps =
     (case first_idx (\<lambda>p. exists p \<and> \<not> in_back p) ps of
        Some i \<Rightarrow> nfua_scan (drop i ps) (ps ! i)
      | None \<Rightarrow> zero_page)"

fun lapa_scan :: "page list \<Rightarrow> page \<Rightarrow> u32 \<Rightarrow> page" where
  "lapa_scan [] min_page min_count = min_page"
| "lapa_scan (p # ps) min_page min_count =
     (if \<not> exists p \<or> in_back p \<or> vaddr p = vaddr min_page then lapa_scan ps min_page min_count
      else
        let curr_count = count_set_bits (age2 p)
        in if sint curr_count < sint min_count then lapa_scan ps p curr_count
           else if curr_count = min_count then
             (if age2 p < age2 min_page then lapa_scan ps p (count_set_bits (age2 p))
              else lapa_scan ps min_page min_count)
           else lapa_scan ps min_page min_count)"

definition lapa_select :: "page list \<Rightarrow> page" where
  "lapa_select ps =
     (case first_idx (\<lambda>p. exists p \<and> \<not> in_back p) ps of
        Some i \<Rightarrow> lapa_scan (drop i ps) (ps ! i) (count_set_bits (age2 (ps ! i)))
      | None \<Rightarrow> zero_page)"

section \<open>Closed forms\<close>

lemma shift_loop_take_drop:
  "length ps = MAX_TOTAL_PAGES \<Longrightarrow> i < MAX_TOTAL_PAGES \<Longrightarrow>
   shift_loop i ps = take i ps @ drop (Suc i) ps @ [clear_entry (ps ! 31)]"
proof (induction i ps rule: shift_loop.induct)
  case (1 i ps)
  show ?case
  proof (cases "i = 31")
    case True
    with "1.prems" have "ps[31 := clear_entry (ps ! 31)] = take 31 ps @ [clear_entry (ps ! 31)]"
      by (simp add: upd_conv_take_nth_drop)
    with True "1.prems" show ?thesis
      by (simp add: shift_loop.simps [of 31] shift_loop.simps [of 32])
  next
    case False
    with "1.prems" have i: "i < 31" by simp
    let ?ps = "ps[i := ps ! (i + 1)]"
    have "shift_loop (Suc i) ?ps = take (Suc i) ?ps @ drop (Suc (Suc i)) ?ps @ [clear_entry (?ps ! 31)]"
      using "1.IH" i "1.prems"(1) by simp
    moreover have "take (Suc i) ?ps = take i ps @ [ps ! Suc i]"
      using i "1.prems"(1) by (simp add: take_Suc_conv_app_nth)
    moreover have "drop (Suc i) ps = ps ! Suc i # drop (Suc (Suc i)) ps"
      using i "1.prems"(1) by (simp add: Cons_nth_drop_Suc)
    ultimately show ?thesis using i by (simp add: shift_loop.simps [of i ps])
  qed
qed

lemma shift_loop_end [simp]: "shift_loop 32 ps = ps"
  by (simp add: shift_loop.simps [of 32])

section \<open>The queue as a FIFO\<close>

text \<open>The live part of the queue array, and what makes the array a queue.\<close>

definition queue_list :: "page_queue \<Rightarrow> page list" where
  "queue_list q = take (nat (lastIndex q)) (qpages q)"

definition queue_wf :: "page_queue \<Rightarrow> bool" where
  "queue_wf q \<longleftrightarrow> length (qpages q) = MAX_TOTAL_PAGES \<and> 0 \<le> lastIndex q \<and>
     lastIndex q \<le> int MAX_TOTAL_PAGES \<and>
     (\<forall>p\<in>set (queue_list q). exists p) \<and>
     (\<forall>p\<in>set (drop (nat (lastIndex q)) (qpages q)). \<not> exists p)"

lemma queue_wf_length: "queue_wf q \<Longrightarrow> length (queue_list q) = nat (lastIndex q)"
  by (auto simp: queue_wf_def queue_list_def)

lemma queue_list_reset [simp]: "queue_list (pq reset_paging_meta) = []"
  by (simp add: reset_paging_meta_def queue_list_def)

lemma queue_wf_reset [simp]: "queue_wf (pq reset_paging_meta)"
  by (simp add: queue_wf_def queue_list_def reset_paging_meta_def zero_page_def)

lemma enqueue_ok:
  assumes "queue_wf q" "length (queue_list q) < MAX_TOTAL_PAGES" "exists p"
  shows "\<exists>q'. enqueue q p = Ok q' \<and> queue_wf q' \<and> queue_list q' = queue_list q @ [p]"
proof -
  define n where "n = nat (lastIndex q)"
  have n: "lastIndex q = int n" "n < 32" "length (qpages q) = 32"
    using assms queue_wf_length [OF assms(1)] by (auto simp: queue_wf_def n_def)
  define q' where "q' = q\<lparr>qpages := (qpages q)[n := p], lastIndex := int n + 1\<rparr>"
  have "enqueue q p = Ok q'" using n by (simp add: enqueue_def q'_def)
  moreover have list: "queue_list q' = queue_list q @ [p]"
    using n by (simp add: queue_list_def q'_def nat_add_distrib take_Suc_conv_app_nth)
  moreover have "drop (Suc n) (qpages q) = tl (drop n (qpages q))" by (simp add: drop_Suc tl_drop)
  then have "\<forall>p\<in>set (drop (Suc n) (qpages q)). \<not> exists p"
    using assms(1) n by (auto simp: queue_wf_def dest: list.set_sel(2) [rotated])
  with assms n list have "queue_wf q'"
    by (auto simp: queue_wf_def q'_def nat_add_distrib)
  ultimately show ?thesis by blast
qed

lemma remove_queue:
  assumes "queue_wf q" "i < length (queue_list q)" "ps = qpages q \<or> i = 0 \<and> ps = (qpages q)[0 := p]"
  shows "queue_wf (q\<lparr>qpages := shift_loop i ps, lastIndex := lastIndex q - 1\<rparr>) \<and>
    queue_list (q\<lparr>qpages := shift_loop i ps, lastIndex := lastIndex q - 1\<rparr>) =
      take i (queue_list q) @ drop (Suc i) (queue_list q)"
proof -
  define n where "n = nat (lastIndex q)"
  have n: "lastIndex q = int n" "i < n" "n \<le> 32" "length (qpages q) = 32"
    using assms(1,2) queue_wf_length [OF assms(1)] by (auto simp: queue_wf_def n_def)
  define qs where "qs = take i (qpages q) @ drop (Suc i) (qpages q)"
  have sh: "shift_loop i ps = qs @ [clear_entry (ps ! 31)]"
    using assms(3) n shift_loop_take_drop [of ps i] by (auto simp: qs_def)
  have len: "length qs = 31" using n by (simp add: qs_def)
  have split: "qpages q = queue_list q @ drop n (qpages q)" by (simp add: queue_list_def n_def)
  have ql: "length (queue_list q) = n" using n by (simp add: queue_list_def n_def)
  have qs: "qs = (take i (queue_list q) @ drop (Suc i) (queue_list q)) @ drop n (qpages q)"
    unfolding qs_def by (subst (1 2) split) (use n ql in simp)
  have tk: "take (n - 1) qs = take i (queue_list q) @ drop (Suc i) (queue_list q)"
    and dr: "drop (n - 1) qs = drop n (qpages q)"
    unfolding qs using n ql by simp_all
  let ?q = "q\<lparr>qpages := shift_loop i ps, lastIndex := lastIndex q - 1\<rparr>"
  have l: "nat (lastIndex ?q) = n - 1" using n by simp
  have list: "queue_list ?q = take i (queue_list q) @ drop (Suc i) (queue_list q)"
    unfolding queue_list_def [of ?q] l using tk len n by (simp add: sh)
  have "\<forall>p\<in>set (queue_list ?q). exists p"
    using assms(1) by (auto simp: list queue_wf_def dest: in_set_takeD in_set_dropD)
  moreover have "\<forall>p\<in>set (drop n (qpages q)). \<not> exists p" using assms(1) by (simp add: queue_wf_def n_def)
  then have "\<forall>p\<in>set (drop (nat (lastIndex ?q)) (qpages ?q)). \<not> exists p"
    unfolding l using len n dr by (simp add: sh clear_entry_def)
  ultimately have "queue_wf ?q" using n len by (auto simp: queue_wf_def sh)
  with list show ?thesis by blast
qed

lemma dequeue_ok:
  assumes "queue_wf q" "queue_list q \<noteq> []"
  shows "fst (dequeue q) = hd (queue_list q) \<and> queue_wf (snd (dequeue q)) \<and>
    queue_list (snd (dequeue q)) = tl (queue_list q)"
proof -
  have len: "0 < length (queue_list q)" using assms(2) by simp
  then have "0 < nat (lastIndex q)" using queue_wf_length [OF assms(1)] by simp
  then have "fst (dequeue q) = hd (queue_list q)"
    using assms by (auto simp: dequeue_def queue_list_def hd_conv_nth Let_def queue_wf_def)
  moreover have "snd (dequeue q) =
      q\<lparr>qpages := shift_loop 0 ((qpages q)[0 := clear_entry (qpages q ! 0)]), lastIndex := lastIndex q - 1\<rparr>"
    by (simp add: dequeue_def Let_def)
  ultimately show ?thesis
    using remove_queue [OF assms(1) len, of _ "clear_entry (qpages q ! 0)"]
    by (simp add: drop_Suc)
qed

text \<open>Removing by address: the entry with that address leaves, all others keep their order.\<close>

lemma first_idx_queue:
  assumes "queue_wf q"
  shows "first_idx (\<lambda>p. exists p \<and> vaddr p = va) (qpages q) =
    first_idx (\<lambda>p. vaddr p = va) (queue_list q)"
proof -
  have split: "qpages q = queue_list q @ drop (nat (lastIndex q)) (qpages q)"
    by (simp add: queue_list_def)
  have app: "first_idx P (xs @ ys) = first_idx Q xs"
    if "\<forall>x\<in>set xs. P x = Q x" "\<forall>y\<in>set ys. \<not> P y" for P Q :: "page \<Rightarrow> bool" and xs ys
    using that by (induction xs) (auto simp: first_idx_None)
  show ?thesis
    by (subst split, rule app) (use assms in \<open>auto simp: queue_wf_def\<close>)
qed

lemma free_from_queue_ok:
  assumes "queue_wf q" "distinct (map vaddr (queue_list q))"
  shows "queue_wf (free_from_queue q va) \<and>
    queue_list (free_from_queue q va) = filter (\<lambda>p. vaddr p \<noteq> va) (queue_list q)"
proof (cases "first_idx (\<lambda>p. vaddr p = va) (queue_list q)")
  case None
  then have "filter (\<lambda>p. vaddr p \<noteq> va) (queue_list q) = queue_list q"
    by (simp add: filter_id_conv first_idx_None)
  with None assms show ?thesis by (simp add: free_from_queue_def first_idx_queue)
next
  case (Some i)
  then have i: "i < length (queue_list q)" "vaddr (queue_list q ! i) = va"
    by (auto dest: first_idx_SomeD)
  let ?l = "queue_list q"
  have other: "vaddr (?l ! j) \<noteq> va" if "j < length ?l" "j \<noteq> i" for j
    using assms(2) i that by (auto simp: distinct_conv_nth)
  have "filter (\<lambda>p. vaddr p \<noteq> va) (take i ?l) = take i ?l"
    "filter (\<lambda>p. vaddr p \<noteq> va) (drop (Suc i) ?l) = drop (Suc i) ?l"
    using i other by (auto simp: filter_id_conv in_set_conv_nth)
  moreover have "filter (\<lambda>p. vaddr p \<noteq> va) (take i ?l @ ?l ! i # drop (Suc i) ?l) =
      filter (\<lambda>p. vaddr p \<noteq> va) (take i ?l) @ filter (\<lambda>p. vaddr p \<noteq> va) (drop (Suc i) ?l)"
    using i by simp
  ultimately have "filter (\<lambda>p. vaddr p \<noteq> va) ?l = take i ?l @ drop (Suc i) ?l"
    using id_take_nth_drop [OF i(1)] by simp
  with Some remove_queue [OF assms(1) i(1)] show ?thesis
    by (simp add: free_from_queue_def first_idx_queue [OF assms(1)])
qed

text \<open>What the replacement policies rely on: a bounded first-in first-out queue.\<close>

locale bounded_fifo =
  fixes enq :: "'q \<Rightarrow> 'a \<Rightarrow> 'q outcome"
    and deq :: "'q \<Rightarrow> 'a \<times> 'q"
    and lst :: "'q \<Rightarrow> 'a list"
    and wf :: "'q \<Rightarrow> bool"
    and good :: "'a \<Rightarrow> bool"
    and cap :: nat
  assumes enq: "wf q \<Longrightarrow> length (lst q) < cap \<Longrightarrow> good a \<Longrightarrow>
      \<exists>q'. enq q a = Ok q' \<and> wf q' \<and> lst q' = lst q @ [a]"
    and deq: "wf q \<Longrightarrow> lst q \<noteq> [] \<Longrightarrow>
      fst (deq q) = hd (lst q) \<and> wf (snd (deq q)) \<and> lst (snd (deq q)) = tl (lst q)"
    and wf_good: "wf q \<Longrightarrow> a \<in> set (lst q) \<Longrightarrow> good a"
    and wf_cap: "wf q \<Longrightarrow> length (lst q) \<le> cap"
begin

text \<open>Giving an element a second chance (dequeue it and enqueue it again) rotates the queue.\<close>

lemma second_chance:
  assumes "wf q" "lst q \<noteq> []"
  shows "\<exists>q'. enq (snd (deq q)) (fst (deq q)) = Ok q' \<and> wf q' \<and> lst q' = rotate1 (lst q)"
proof -
  from deq [OF assms] have d: "fst (deq q) = hd (lst q)" "wf (snd (deq q))"
    "lst (snd (deq q)) = tl (lst q)" by auto
  have "length (tl (lst q)) < cap"
    using wf_cap [OF assms(1)] assms(2) by (cases "lst q") auto
  moreover have "good (hd (lst q))" using wf_good [OF assms(1)] assms(2) by simp
  ultimately show ?thesis using enq [OF d(2)] d assms(2) by (simp add: rotate1_hd_tl)
qed

lemma enq_deq_order:
  assumes "wf q" "length (lst q) + length xs \<le> cap" "\<forall>x\<in>set xs. good x"
  shows "\<exists>q'. fold (\<lambda>x r. andThen r (\<lambda>q. enq q x)) xs (Ok q) = Ok q' \<and> wf q' \<and> lst q' = lst q @ xs"
  using assms
proof (induction xs arbitrary: q)
  case (Cons x xs)
  obtain q1 where q1: "enq q x = Ok q1" "wf q1" "lst q1 = lst q @ [x]"
    using enq [OF Cons.prems(1), of x] Cons.prems(2,3) by auto
  with Cons.IH [OF q1(2)] Cons.prems show ?case by simp
qed simp

end

interpretation pageq: bounded_fifo enqueue dequeue queue_list queue_wf exists MAX_TOTAL_PAGES
proof
  show "queue_wf q \<Longrightarrow> length (queue_list q) < MAX_TOTAL_PAGES \<Longrightarrow> exists p \<Longrightarrow>
      \<exists>q'. enqueue q p = Ok q' \<and> queue_wf q' \<and> queue_list q' = queue_list q @ [p]" for q p
    by (rule enqueue_ok)
  show "queue_wf q \<Longrightarrow> queue_list q \<noteq> [] \<Longrightarrow>
      fst (dequeue q) = hd (queue_list q) \<and> queue_wf (snd (dequeue q)) \<and>
      queue_list (snd (dequeue q)) = tl (queue_list q)" for q
    by (rule dequeue_ok)
  show "queue_wf q \<Longrightarrow> p \<in> set (queue_list q) \<Longrightarrow> exists p" for q p
    by (auto simp: queue_wf_def)
  show "queue_wf q \<Longrightarrow> length (queue_list q) \<le> MAX_TOTAL_PAGES" for q
    by (auto simp: queue_wf_def queue_list_def)
qed

section \<open>Victim searches\<close>

lemma count_loop_all: "count_loop n x c = c + of_nat n"
proof (induction n arbitrary: x c)
  case (Suc n)
  have "x OR 1 \<noteq> 0" by (simp add: or_eq_0_iff)
  then have "x OR 1 > 0" by (simp add: word_neq_0_conv)
  with Suc show ?case by (simp add: algebra_simps)
qed simp

lemma count_set_bits_const: "count_set_bits x = 32"
  by (simp add: count_set_bits_def count_loop_all)

definition in_ram :: "page \<Rightarrow> bool" where
  "in_ram p \<longleftrightarrow> exists p \<and> \<not> in_back p"

lemma nfua_scan_min:
  "in_ram mp \<Longrightarrow>
   in_ram (nfua_scan ps mp) \<and> (nfua_scan ps mp = mp \<or> nfua_scan ps mp \<in> set ps) \<and>
   age (nfua_scan ps mp) \<le> age mp \<and> (\<forall>p\<in>set ps. in_ram p \<longrightarrow> age (nfua_scan ps mp) \<le> age p)"
proof (induction ps arbitrary: mp)
  case (Cons p ps)
  show ?case
  proof (cases "in_ram p \<and> age p < age mp")
    case True
    with Cons.IH [of p] show ?thesis by (auto simp: in_ram_def)
  next
    case False
    with Cons.IH [OF Cons.prems] show ?thesis by (auto simp: in_ram_def not_less)
  qed
qed simp

lemma first_in_ram:
  assumes "\<exists>p\<in>set ps. in_ram p"
  obtains i where "first_idx (\<lambda>p. exists p \<and> \<not> in_back p) ps = Some i" "i < length ps" "in_ram (ps ! i)"
    "\<And>p. p \<in> set ps \<Longrightarrow> in_ram p \<Longrightarrow> p \<in> set (drop i ps)"
proof -
  obtain i where i: "first_idx in_ram ps = Some i"
    using assms by (meson first_idx_None option.exhaust)
  note d = first_idx_SomeD [OF i]
  have "p \<in> set (drop i ps)" if p: "p \<in> set ps" "in_ram p" for p
  proof -
    obtain j where j: "j < length ps" "ps ! j = p" using p(1) by (auto simp: in_set_conv_nth)
    with d p(2) have "i \<le> j" by (meson not_le)
    with j have "drop i ps ! (j - i) = p" "j - i < length (drop i ps)" by auto
    then show ?thesis using nth_mem by metis
  qed
  moreover have "in_ram = (\<lambda>p. exists p \<and> \<not> in_back p)" by (simp add: in_ram_def fun_eq_iff)
  ultimately show thesis using i d by (intro that [of i]) auto
qed

lemma nfua_select_min:
  assumes "\<exists>p\<in>set ps. in_ram p"
  shows "nfua_select ps \<in> set ps \<and> in_ram (nfua_select ps) \<and>
    (\<forall>p\<in>set ps. in_ram p \<longrightarrow> age (nfua_select ps) \<le> age p)"
proof -
  obtain i where i: "first_idx (\<lambda>p. exists p \<and> \<not> in_back p) ps = Some i" "i < length ps"
    "in_ram (ps ! i)" and later: "\<And>p. p \<in> set ps \<Longrightarrow> in_ram p \<Longrightarrow> p \<in> set (drop i ps)"
    using first_in_ram [OF assms] by blast
  have "nfua_select ps = nfua_scan (drop i ps) (ps ! i)" by (simp add: nfua_select_def i)
  with nfua_scan_min [OF i(3), of "drop i ps"] later i(2) show ?thesis
    by (metis in_set_dropD nth_mem)
qed

definition unique_vaddrs :: "page set \<Rightarrow> bool" where
  "unique_vaddrs A \<longleftrightarrow> (\<forall>p\<in>A. \<forall>q\<in>A. in_ram p \<and> in_ram q \<and> vaddr p = vaddr q \<longrightarrow> p = q)"

lemma lapa_scan_min:
  "in_ram mp \<Longrightarrow> unique_vaddrs (insert mp (set ps)) \<Longrightarrow>
   in_ram (lapa_scan ps mp 32) \<and> (lapa_scan ps mp 32 = mp \<or> lapa_scan ps mp 32 \<in> set ps) \<and>
   age2 (lapa_scan ps mp 32) \<le> age2 mp \<and>
   (\<forall>p\<in>set ps. in_ram p \<longrightarrow> age2 (lapa_scan ps mp 32) \<le> age2 p)"
proof (induction ps arbitrary: mp)
  case (Cons p ps)
  have u: "unique_vaddrs (insert mp (set ps))" "unique_vaddrs (insert p (set ps))"
    using Cons.prems(2) by (auto simp: unique_vaddrs_def)
  consider "\<not> in_ram p \<or> p = mp" | "in_ram p" "vaddr p \<noteq> vaddr mp" "age2 p < age2 mp"
    | "in_ram p" "vaddr p \<noteq> vaddr mp" "\<not> age2 p < age2 mp"
    using Cons.prems by (auto simp: unique_vaddrs_def)
  then show ?case
  proof cases
    case 1
    then have "lapa_scan (p # ps) mp 32 = lapa_scan ps mp 32" by (auto simp: in_ram_def)
    with Cons.IH [OF Cons.prems(1) u(1)] 1 show ?thesis by auto
  next
    case 2
    then have "lapa_scan (p # ps) mp 32 = lapa_scan ps p 32"
      by (simp add: in_ram_def Let_def count_set_bits_const)
    with Cons.IH [OF 2(1) u(2)] 2 show ?thesis by auto
  next
    case 3
    then have "lapa_scan (p # ps) mp 32 = lapa_scan ps mp 32"
      by (simp add: in_ram_def Let_def count_set_bits_const)
    with Cons.IH [OF Cons.prems(1) u(1)] 3 show ?thesis by (auto simp: not_less)
  qed
qed simp

lemma lapa_select_min:
  assumes "\<exists>p\<in>set ps. in_ram p" "unique_vaddrs (set ps)"
  shows "lapa_select ps \<in> set ps \<and> in_ram (lapa_select ps) \<and>
    (\<forall>p\<in>set ps. in_ram p \<longrightarrow> age2 (lapa_select ps) \<le> age2 p)"
proof -
  obtain i where i: "first_idx (\<lambda>p. exists p \<and> \<not> in_back p) ps = Some i" "i < length ps"
    "in_ram (ps ! i)" and later: "\<And>p. p \<in> set ps \<Longrightarrow> in_ram p \<Longrightarrow> p \<in> set (drop i ps)"
    using first_in_ram [OF assms(1)] by blast
  have "unique_vaddrs (insert (ps ! i) (set (drop i ps)))"
    using assms(2) i(2) by (auto simp: unique_vaddrs_def dest: in_set_dropD)
  note scan = lapa_scan_min [OF i(3) this]
  have "lapa_select ps = lapa_scan (drop i ps) (ps ! i) 32"
    by (simp add: lapa_select_def i count_set_bits_const)
  with scan later i(2) show ?thesis by (metis in_set_dropD nth_mem)
qed

section \<open>The metadata invariant\<close>

definition backed :: "page \<Rightarrow> bool" where
  "backed p \<longleftrightarrow> exists p \<and> in_back p"

text \<open>Each swapped-out page has a slot of its own in the swap file, and the slots marked taken are
  exactly those.\<close>

definition slots_ok :: "p_meta \<Rightarrow> bool" where
  "slots_ok m \<longleftrightarrow>
     (\<forall>i<32. backed (pages m ! i) \<longrightarrow>
        (\<exists>k<32. offset (pages m ! i) = PGSIZE * of_nat k \<and> offsets m ! k)) \<and>
     (\<forall>i<32. \<forall>j<32. backed (pages m ! i) \<and> backed (pages m ! j) \<and>
        offset (pages m ! i) = offset (pages m ! j) \<longrightarrow> i = j) \<and>
     (\<forall>k<32. offsets m ! k \<longrightarrow> (\<exists>i<32. backed (pages m ! i) \<and> offset (pages m ! i) = PGSIZE * of_nat k))"

definition meta_wf :: "p_meta \<Rightarrow> bool" where
  "meta_wf m \<longleftrightarrow> length (pages m) = MAX_TOTAL_PAGES \<and> length (offsets m) = MAX_TOTAL_PAGES \<and>
     queue_wf (pq m) \<and>
     (\<forall>i<32. \<forall>j<32. exists (pages m ! i) \<and> exists (pages m ! j) \<and>
        vaddr (pages m ! i) = vaddr (pages m ! j) \<longrightarrow> i = j) \<and>
     (\<forall>i<32. \<not> exists (pages m ! i) \<longrightarrow> vaddr (pages m ! i) = 0) \<and> slots_ok m"

definition ram_vaddrs :: "p_meta \<Rightarrow> addr set" where
  "ram_vaddrs m = {vaddr (pages m ! i) | i. i < 32 \<and> in_ram (pages m ! i)}"

text \<open>Under SCFIFO and AQ the queue holds each resident page exactly once.\<close>

definition queue_agrees :: "p_meta \<Rightarrow> bool" where
  "queue_agrees m \<longleftrightarrow> distinct (map vaddr (queue_list (pq m))) \<and>
     vaddr ` set (queue_list (pq m)) = ram_vaddrs m"

lemma meta_wf_reset [simp]: "meta_wf reset_paging_meta"
proof -
  have "queue_wf (pq reset_paging_meta)" by simp
  then show ?thesis
    by (auto simp: meta_wf_def slots_ok_def backed_def reset_paging_meta_def zero_page_def)
qed

lemma queue_agrees_reset [simp]: "queue_agrees reset_paging_meta"
proof -
  have "ram_vaddrs reset_paging_meta = {}"
    by (auto simp: ram_vaddrs_def reset_paging_meta_def in_ram_def zero_page_def)
  then show ?thesis by (simp add: queue_agrees_def)
qed

lemma numOfPagedIn_card:
  "length (pages m) = 32 \<Longrightarrow> numOfPagedIn m = card {i. i < 32 \<and> in_ram (pages m ! i)}"
  by (simp add: numOfPagedIn_def length_filter_conv_card in_ram_def)

lemma numOfPagedOut_card:
  "length (pages m) = 32 \<Longrightarrow> numOfPagedOut m = card {i. i < 32 \<and> backed (pages m ! i)}"
  by (simp add: numOfPagedOut_def length_filter_conv_card backed_def)

lemma numOfPaged_sum:
  "numOfPagedIn m + numOfPagedOut m = get_allocated_pages m"
proof -
  have "length (filter (\<lambda>p. exists p \<and> \<not> in_back p) ps) + length (filter (\<lambda>p. exists p \<and> in_back p) ps)
      = length (filter exists ps)" for ps :: "page list"
    by (induction ps) auto
  then show ?thesis by (simp add: numOfPagedIn_def numOfPagedOut_def get_allocated_pages_def)
qed

lemma allocated_le: "length (pages m) = 32 \<Longrightarrow> get_allocated_pages m \<le> 32"
  unfolding get_allocated_pages_def using length_filter_le [of exists "pages m"] by simp

lemma queue_length_resident:
  assumes "meta_wf m" "queue_agrees m"
  shows "length (queue_list (pq m)) = numOfPagedIn m"
proof -
  let ?I = "{i. i < 32 \<and> in_ram (pages m ! i)}"
  have "ram_vaddrs m = (\<lambda>i. vaddr (pages m ! i)) ` ?I" by (auto simp: ram_vaddrs_def)
  moreover have "inj_on (\<lambda>i. vaddr (pages m ! i)) ?I"
    using assms(1) by (auto simp: inj_on_def meta_wf_def in_ram_def)
  ultimately have "card (ram_vaddrs m) = card ?I" by (simp add: card_image)
  moreover have "length (queue_list (pq m)) = card (vaddr ` set (queue_list (pq m)))"
    using assms(2) distinct_card [of "map vaddr (queue_list (pq m))"] by (simp add: queue_agrees_def)
  ultimately show ?thesis
    using assms numOfPagedIn_card [of m] by (simp add: queue_agrees_def meta_wf_def)
qed

section \<open>Swap slots\<close>

lemma of_nat_slot_inj:
  "k < 32 \<Longrightarrow> l < 32 \<Longrightarrow> PGSIZE * of_nat k = PGSIZE * of_nat l \<Longrightarrow> k = l"
proof -
  assume kl: "k < 32" "l < 32" and eq: "PGSIZE * of_nat k = PGSIZE * of_nat l"
  have "unat (PGSIZE * of_nat j) = 4096 * j" if "j < 32" for j
    using that by (simp add: unat_word_ariths unat_of_nat)
  with kl eq show "k = l" by (metis mult_left_cancel zero_neq_numeral)
qed

lemma slot_index: "k < 32 \<Longrightarrow> unat (PGSIZE * of_nat k div PGSIZE) = k"
  by (simp add: unat_div unat_word_ariths unat_of_nat)

text \<open>The slot \<^verbatim>\<open>getFreePageOffset\<close> picks is free, and its index is at most the number of pages
  already swapped out.\<close>

lemma getFreePageOffset_ok:
  assumes "meta_wf m" "numOfPagedOut m < 32"
  obtains k where "getFreePageOffset m = PGSIZE * of_nat k" "k < 32" "\<not> offsets m ! k"
    "k \<le> numOfPagedOut m"
proof -
  let ?B = "{i. i < 32 \<and> backed (pages m ! i)}"
  let ?slot = "\<lambda>i. unat (offset (pages m ! i) div PGSIZE)"
  have len: "length (offsets m) = 32" "length (pages m) = 32" using assms(1) by (auto simp: meta_wf_def)
  have taken: "n \<le> numOfPagedOut m" if n: "n \<le> 32" "\<forall>j<n. offsets m ! j" for n
  proof -
    have "{..<n} \<subseteq> ?slot ` ?B"
    proof
      fix j assume "j \<in> {..<n}"
      with n have j: "j < 32" "offsets m ! j" by auto
      then obtain i where "i < 32" "backed (pages m ! i)" "offset (pages m ! i) = PGSIZE * of_nat j"
        using assms(1) by (auto simp: meta_wf_def slots_ok_def)
      with slot_index [OF j(1)] show "j \<in> ?slot ` ?B" by (intro image_eqI [of _ _ i]) auto
    qed
    then have "card {..<n} \<le> card (?slot ` ?B)" by (intro card_mono) auto
    also have "\<dots> \<le> card ?B" by (intro card_image_le) auto
    finally show ?thesis using numOfPagedOut_card [OF len(2)] by simp
  qed
  have "first_idx Not (offsets m) \<noteq> None"
  proof
    assume "first_idx Not (offsets m) = None"
    then have "\<forall>j<32. offsets m ! j" using len by (auto simp: first_idx_None)
    with taken [of 32] assms(2) show False by simp
  qed
  then obtain k where k: "first_idx Not (offsets m) = Some k" by blast
  from first_idx_SomeD [OF k] len have "k < 32" "\<not> offsets m ! k" "\<forall>j<k. offsets m ! j" by auto
  with k taken [of k] show thesis by (intro that [of k]) (auto simp: getFreePageOffset_def)
qed

section \<open>Every metadata operation keeps the invariant\<close>

lemma meta_wfD:
  assumes "meta_wf m"
  shows "length (pages m) = 32" "length (offsets m) = 32" "queue_wf (pq m)" "slots_ok m"
    "\<And>i j. i < 32 \<Longrightarrow> j < 32 \<Longrightarrow> exists (pages m ! i) \<Longrightarrow> exists (pages m ! j) \<Longrightarrow>
       vaddr (pages m ! i) = vaddr (pages m ! j) \<Longrightarrow> i = j"
    "\<And>i. i < 32 \<Longrightarrow> \<not> exists (pages m ! i) \<Longrightarrow> vaddr (pages m ! i) = 0"
  using assms unfolding meta_wf_def by blast+

lemma exists_lookup:
  assumes "meta_wf m" "i < 32" "exists (pages m ! i)" "vaddr (pages m ! i) = va"
  shows "first_idx (\<lambda>p. exists p \<and> vaddr p = va) (pages m) = Some i"
proof -
  note wf = meta_wfD [OF assms(1)]
  have "\<not> (exists (pages m ! j) \<and> vaddr (pages m ! j) = va)" if "j < i" for j
    using wf(5) [of j i] assms(2-) that by auto
  with assms(2-) wf(1) show ?thesis unfolding first_idx_Some_iff by simp
qed

lemma other_vaddr:
  assumes "meta_wf m" "i < 32" "exists (pages m ! i)"
  shows "j < 32 \<Longrightarrow> j \<noteq> i \<Longrightarrow> exists (pages m ! j) \<Longrightarrow> vaddr (pages m ! j) \<noteq> vaddr (pages m ! i)"
  using meta_wfD(5) [OF assms(1)] assms(2,3) by blast

lemma add_new_scan_shift:
  "\<forall>p\<in>set ps. exists p \<longrightarrow> vaddr p \<noteq> va \<Longrightarrow>
   add_new_scan ps va k = Ok (map_option (\<lambda>i. k + i) (first_idx (\<lambda>p. \<not> exists p) ps))"
proof (induction ps arbitrary: k)
  case (Cons p ps)
  then show ?case
    by (cases "exists p"; cases "first_idx (\<lambda>p. \<not> exists p) ps") auto
qed simp

lemma add_new_page_ok:
  assumes "meta_wf m" "queue_agrees m" "get_allocated_pages m < 32"
    and fresh: "\<forall>p\<in>set (pages m). exists p \<longrightarrow> vaddr p \<noteq> va"
  obtains i q where "i < 32" "\<not> exists (pages m ! i)"
    "add_new_page m va = Ok (1, m\<lparr>pages := (pages m)[i := new_page va], pq := q\<rparr>)"
    "queue_wf q" "queue_list q = queue_list (pq m) @ [new_page va]"
proof -
  note wf = meta_wfD [OF assms(1)]
  have "\<exists>p\<in>set (pages m). \<not> exists p"
    using assms(3) wf(1) filter_id_conv [of exists "pages m"]
    by (auto simp: get_allocated_pages_def)
  then obtain i where i: "first_idx (\<lambda>p. \<not> exists p) (pages m) = Some i"
    by (meson first_idx_None option.exhaust)
  have "length (queue_list (pq m)) < 32"
    using queue_length_resident [OF assms(1,2)] assms(3) numOfPaged_sum [of m] by simp
  then obtain q where q: "enqueue (pq m) (new_page va) = Ok q" "queue_wf q"
      "queue_list q = queue_list (pq m) @ [new_page va]"
    using enqueue_ok [OF wf(3), of "new_page va"] by (auto simp: new_page_def)
  have "add_new_page m va = Ok (1, m\<lparr>pages := (pages m)[i := new_page va], pq := q\<rparr>)"
    using i q by (simp add: add_new_page_def add_new_scan_shift [OF fresh])
  with q i wf(1) show thesis by (intro that [of i q]) (auto dest: first_idx_SomeD)
qed

text \<open>Replacing one entry. The slot map changes only when the entry moves to or from the swap file.\<close>

lemma slots_okD:
  assumes "slots_ok m"
  shows "\<And>i. i < 32 \<Longrightarrow> backed (pages m ! i) \<Longrightarrow>
      \<exists>k<32. offset (pages m ! i) = PGSIZE * of_nat k \<and> offsets m ! k"
    "\<And>i j. i < 32 \<Longrightarrow> j < 32 \<Longrightarrow> backed (pages m ! i) \<Longrightarrow> backed (pages m ! j) \<Longrightarrow>
      offset (pages m ! i) = offset (pages m ! j) \<Longrightarrow> i = j"
    "\<And>k. k < 32 \<Longrightarrow> offsets m ! k \<Longrightarrow>
      \<exists>i<32. backed (pages m ! i) \<and> offset (pages m ! i) = PGSIZE * of_nat k"
  using assms unfolding slots_ok_def by blast+

lemma slots_okI:
  assumes "\<And>i. i < 32 \<Longrightarrow> backed (pages m ! i) \<Longrightarrow>
      \<exists>k<32. offset (pages m ! i) = PGSIZE * of_nat k \<and> offsets m ! k"
    "\<And>i j. i < 32 \<Longrightarrow> j < 32 \<Longrightarrow> backed (pages m ! i) \<Longrightarrow> backed (pages m ! j) \<Longrightarrow>
      offset (pages m ! i) = offset (pages m ! j) \<Longrightarrow> i = j"
    "\<And>k. k < 32 \<Longrightarrow> offsets m ! k \<Longrightarrow>
      \<exists>i<32. backed (pages m ! i) \<and> offset (pages m ! i) = PGSIZE * of_nat k"
  shows "slots_ok m"
  using assms unfolding slots_ok_def by blast

lemma slots_ok_same:
  assumes "slots_ok m" "length (pages m) = 32" "i < 32" "\<not> backed (pages m ! i)" "\<not> backed p"
    and "pages m' = (pages m)[i := p]" "offsets m' = offsets m"
  shows "slots_ok m'"
proof -
  have o: "backed (pages m' ! j) = backed (pages m ! j) \<and>
      (backed (pages m ! j) \<longrightarrow> pages m' ! j = pages m ! j)" if "j < 32" for j
    using assms that by (cases "j = i") auto
  show ?thesis
  proof (rule slots_okI, goal_cases)
    case (1 j) then show ?case using slots_okD(1) [OF assms(1), of j] o [of j] assms(7) by auto
  next
    case (2 j l) then show ?case
      using slots_okD(2) [OF assms(1), of j l] o [of j] o [of l] by auto
  next
    case (3 k)
    then obtain j where "j < 32" "backed (pages m ! j)" "offset (pages m ! j) = PGSIZE * of_nat k"
      using slots_okD(3) [OF assms(1), of k] assms(7) by auto
    with o [of j] show ?case by auto
  qed
qed

lemma slots_ok_take:
  assumes "slots_ok m" "length (pages m) = 32" "length (offsets m) = 32" "i < 32" "k < 32"
    and "\<not> backed (pages m ! i)" "backed p" "offset p = PGSIZE * of_nat k" "\<not> offsets m ! k"
    and "pages m' = (pages m)[i := p]" "offsets m' = (offsets m)[k := True]"
  shows "slots_ok m'"
proof -
  have i: "pages m' ! j = (if j = i then p else pages m ! j)"
    and k: "offsets m' ! j = (j = k \<or> offsets m ! j)" if "j < 32" for j
    using assms(2-5,10,11) that by (auto simp: nth_list_update)
  have new: "offset (pages m ! j) \<noteq> offset p" if j: "j < 32" "backed (pages m ! j)" for j
    using slots_okD(1) [OF assms(1) j] of_nat_slot_inj [OF _ assms(5)] assms(8,9) by auto
  show ?thesis
  proof (rule slots_okI, goal_cases)
    case (1 j)
    then show ?case
      using slots_okD(1) [OF assms(1), of j] i [of j] k assms(5,8) by (cases "j = i") auto
  next
    case (2 j l)
    then show ?case
      using slots_okD(2) [OF assms(1), of j l] i [of j] i [of l] new [of j] new [of l]
      by (auto split: if_splits)
  next
    case (3 l)
    show ?case
    proof (cases "l = k")
      case True
      with i [of i] assms(4,7,8) show ?thesis by auto
    next
      case False
      then obtain j where j: "j < 32" "backed (pages m ! j)" "offset (pages m ! j) = PGSIZE * of_nat l"
        using slots_okD(3) [OF assms(1), of l] 3 k [of l] by auto
      with i [of j] assms(6) show ?thesis by (intro exI [of _ j]) auto
    qed
  qed
qed

lemma slots_ok_release:
  assumes "slots_ok m" "length (pages m) = 32" "length (offsets m) = 32" "i < 32" "k < 32"
    and "backed (pages m ! i)" "\<not> backed p" "offset (pages m ! i) = PGSIZE * of_nat k"
    and "pages m' = (pages m)[i := p]" "offsets m' = (offsets m)[k := False]"
  shows "slots_ok m'"
proof -
  have i: "pages m' ! j = (if j = i then p else pages m ! j)"
    and k: "offsets m' ! j = (j \<noteq> k \<and> offsets m ! j)" if "j < 32" for j
    using assms(2-5,9,10) that by (auto simp: nth_list_update)
  have old: "j \<noteq> i \<and> pages m' ! j = pages m ! j" if "j < 32" "backed (pages m' ! j)" for j
    using that i [of j] assms(7) by (auto split: if_splits)
  show ?thesis
  proof (rule slots_okI, goal_cases)
    case (1 j)
    note j = old [OF this]
    then obtain l where l: "l < 32" "offset (pages m ! j) = PGSIZE * of_nat l" "offsets m ! l"
      using 1 slots_okD(1) [OF assms(1), of j] by auto
    moreover have "l \<noteq> k" using l slots_okD(2) [OF assms(1), of j i] 1 j assms(4,6,8) by auto
    ultimately show ?case using j k [of l] by auto
  next
    case (2 j l) then show ?case
      using slots_okD(2) [OF assms(1), of j l] old [of j] old [of l] by auto
  next
    case (3 l)
    then obtain j where j: "j < 32" "backed (pages m ! j)" "offset (pages m ! j) = PGSIZE * of_nat l"
      and lk: "l \<noteq> k" using slots_okD(3) [OF assms(1), of l] k [of l] by auto
    then have "j \<noteq> i" using of_nat_slot_inj [OF 3(1) assms(5)] assms(8) by auto
    with j i [of j] show ?case by auto
  qed
qed

lemma meta_wf_entry:
  assumes "meta_wf m" "i < 32" "pages m' = (pages m)[i := p]" "length (offsets m') = 32"
    "queue_wf (pq m')" "slots_ok m'" "\<not> exists p \<Longrightarrow> vaddr p = 0"
    "\<And>j. exists p \<Longrightarrow> j < 32 \<Longrightarrow> j \<noteq> i \<Longrightarrow> exists (pages m ! j) \<Longrightarrow> vaddr (pages m ! j) \<noteq> vaddr p"
  shows "meta_wf m'"
proof -
  note wf = meta_wfD [OF assms(1)]
  have i: "pages m' ! i = p" and o: "j < 32 \<Longrightarrow> j \<noteq> i \<Longrightarrow> pages m' ! j = pages m ! j" for j
    using assms(2,3) wf(1) by auto
  have "j = l" if "j < 32" "l < 32" "exists (pages m' ! j)" "exists (pages m' ! l)"
      "vaddr (pages m' ! j) = vaddr (pages m' ! l)" for j l
    using that i o wf(5) assms(8) by (cases "j = i"; cases "l = i") metis+
  moreover have "vaddr (pages m' ! j) = 0" if "j < 32" "\<not> exists (pages m' ! j)" for j
    using that i o wf(6) assms(7) by (cases "j = i") metis+
  ultimately show ?thesis using assms(3-6) wf(1) unfolding meta_wf_def by simp
qed

lemma ram_vaddrs_entry:
  assumes "meta_wf m" "i < 32" "pages m' = (pages m)[i := p]"
  shows "ram_vaddrs m' = (ram_vaddrs m - (if in_ram (pages m ! i) then {vaddr (pages m ! i)} else {})) \<union>
    (if in_ram p then {vaddr p} else {})"
proof -
  note wf = meta_wfD [OF assms(1)]
  have i: "pages m' ! i = p" and o: "j < 32 \<Longrightarrow> j \<noteq> i \<Longrightarrow> pages m' ! j = pages m ! j" for j
    using assms(2,3) wf(1) by auto
  have "va \<in> ram_vaddrs m' \<longleftrightarrow> (\<exists>j<32. j \<noteq> i \<and> in_ram (pages m ! j) \<and> vaddr (pages m ! j) = va) \<or>
      in_ram p \<and> vaddr p = va" for va
    unfolding ram_vaddrs_def mem_Collect_eq using i o assms(2) by metis
  moreover have "(\<exists>j<32. j \<noteq> i \<and> in_ram (pages m ! j) \<and> vaddr (pages m ! j) = va) \<longleftrightarrow>
      va \<in> ram_vaddrs m \<and> \<not> (in_ram (pages m ! i) \<and> va = vaddr (pages m ! i))" for va
    unfolding ram_vaddrs_def mem_Collect_eq using wf(5) assms(2) by (metis in_ram_def)
  ultimately show ?thesis by auto
qed

text \<open>A new resident page.\<close>

lemma add_new_page_inv:
  assumes "meta_wf m" "queue_agrees m" "get_allocated_pages m < 32"
    and fresh: "\<forall>p\<in>set (pages m). exists p \<longrightarrow> vaddr p \<noteq> va"
  shows "\<exists>m'. add_new_page m va = Ok (1, m') \<and> meta_wf m' \<and> queue_agrees m' \<and>
    ram_vaddrs m' = insert va (ram_vaddrs m) \<and> offsets m' = offsets m \<and>
    queue_list (pq m') = queue_list (pq m) @ [new_page va]"
proof -
  obtain i q where i: "i < 32" "\<not> exists (pages m ! i)" and
    add: "add_new_page m va = Ok (1, m\<lparr>pages := (pages m)[i := new_page va], pq := q\<rparr>)" and
    q: "queue_wf q" "queue_list q = queue_list (pq m) @ [new_page va]"
    by (rule add_new_page_ok [OF assms])
  let ?m = "m\<lparr>pages := (pages m)[i := new_page va], pq := q\<rparr>"
  note wf = meta_wfD [OF assms(1)]
  have fresh': "vaddr (pages m ! j) \<noteq> va" if "j < 32" "exists (pages m ! j)" for j
    using fresh that wf(1) by simp
  have "slots_ok ?m"
    by (rule slots_ok_same [OF wf(4,1) i(1), of "new_page va"]) (use i in \<open>auto simp: backed_def new_page_def\<close>)
  then have wf': "meta_wf ?m"
    by (intro meta_wf_entry [OF assms(1) i(1), of _ "new_page va"])
      (use q wf fresh' in \<open>auto simp: new_page_def\<close>)
  have ram: "ram_vaddrs ?m = insert va (ram_vaddrs m)"
    using ram_vaddrs_entry [OF assms(1) i(1), of ?m "new_page va"] i(2)
    by (simp add: in_ram_def new_page_def)
  have "va \<notin> ram_vaddrs m" using fresh' by (auto simp: ram_vaddrs_def in_ram_def)
  with assms(2) ram q have "queue_agrees ?m" by (auto simp: queue_agrees_def new_page_def)
  with add wf' ram q show ?thesis by auto
qed

text \<open>A resident page, taken off the queue beforehand, goes to a free slot of the swap file.\<close>

lemma page_out_meta_inv:
  assumes "meta_wf m" "va \<in> ram_vaddrs m" "k < 32" "\<not> offsets m ! k"
    and "distinct (map vaddr (queue_list (pq m)))"
    and "vaddr ` set (queue_list (pq m)) = ram_vaddrs m - {va}"
  shows "\<exists>m' i. page_out_meta m va (PGSIZE * of_nat k) = Ok (1, m') \<and> meta_wf m' \<and> queue_agrees m' \<and>
    ram_vaddrs m' = ram_vaddrs m - {va} \<and> offsets m' = (offsets m)[k := True] \<and> pq m' = pq m \<and>
    i < 32 \<and> in_ram (pages m ! i) \<and> vaddr (pages m ! i) = va \<and>
    pages m' = (pages m)[i := (pages m ! i)\<lparr>in_back := True, offset := PGSIZE * of_nat k\<rparr>]"
proof -
  note wf = meta_wfD [OF assms(1)]
  obtain i where i: "i < 32" "in_ram (pages m ! i)" "vaddr (pages m ! i) = va"
    using assms(2) by (auto simp: ram_vaddrs_def)
  let ?p = "(pages m ! i)\<lparr>in_back := True, offset := PGSIZE * of_nat k\<rparr>"
  let ?m = "m\<lparr>pages := (pages m)[i := ?p], offsets := (offsets m)[k := True]\<rparr>"
  have e: "exists (pages m ! i)" "\<not> in_back (pages m ! i)" using i(2) by (auto simp: in_ram_def)
  have out: "page_out_meta m va (PGSIZE * of_nat k) = Ok (1, ?m)"
    using assms(3) exists_lookup [OF assms(1) i(1) e(1) i(3)]
    by (simp add: page_out_meta_def set_slot_def Let_def slot_index)
  have "slots_ok ?m"
    by (rule slots_ok_take [OF wf(4,1,2) i(1) assms(3), of ?p])
      (use e assms(4) in \<open>auto simp: backed_def\<close>)
  then have wf': "meta_wf ?m"
    by (intro meta_wf_entry [OF assms(1) i(1), of _ ?p])
      (use e wf(1-3) other_vaddr [OF assms(1) i(1) e(1)] in auto)
  have ram: "ram_vaddrs ?m = ram_vaddrs m - {va}"
    using ram_vaddrs_entry [OF assms(1) i(1), of ?m ?p] i by (simp add: in_ram_def)
  have "queue_agrees ?m" using assms(5,6) ram by (simp add: queue_agrees_def)
  with out wf' ram i show ?thesis by (intro exI [of _ ?m] exI [of _ i]) auto
qed

text \<open>A swapped-out page comes back: its slot is released and it joins the end of the queue. The
  search compares addresses only, so an entry for page 0 is found when it is the first one.\<close>

lemma page_in_meta_inv:
  assumes "meta_wf m" "queue_agrees m" "i < 32" "backed (pages m ! i)" "vaddr (pages m ! i) = va"
    "va \<noteq> 0 \<or> i = 0"
  shows "\<exists>m'. page_in_meta m va = Ok (1, m') \<and> meta_wf m' \<and> queue_agrees m' \<and>
    ram_vaddrs m' = insert va (ram_vaddrs m) \<and>
    offsets m' = (offsets m)[unat (offset (pages m ! i) div PGSIZE) := False] \<and>
    pages m' = (pages m)[i := (pages m ! i)\<lparr>in_back := False, age := 0, age2 := 0xffffffff\<rparr>]"
proof -
  note wf = meta_wfD [OF assms(1)]
  let ?p = "(pages m ! i)\<lparr>in_back := False, age := 0, age2 := 0xffffffff\<rparr>"
  have e: "exists (pages m ! i)" "in_back (pages m ! i)" using assms(4) by (auto simp: backed_def)
  have "vaddr (pages m ! j) \<noteq> va" if "j < i" for j
    using that wf(5) [of j i] wf(6) [of j] e(1) assms(3,5,6) by (cases "exists (pages m ! j)") auto
  then have idx: "first_idx (\<lambda>p. vaddr p = va) (pages m) = Some i"
    using assms(3,5) wf(1) by (simp add: first_idx_Some_iff)
  obtain k where k: "k < 32" "offset (pages m ! i) = PGSIZE * of_nat k" "offsets m ! k"
    using slots_okD(1) [OF wf(4) assms(3,4)] by blast
  have "{i. i < 32 \<and> backed (pages m ! i)} \<noteq> {}" using assms(3,4) by auto
  then have "0 < numOfPagedOut m" using numOfPagedOut_card [OF wf(1)] by (simp add: card_gt_0_iff)
  then have "length (queue_list (pq m)) < 32"
    using queue_length_resident [OF assms(1,2)] numOfPaged_sum [of m] allocated_le [OF wf(1)] by simp
  then obtain q where q: "enqueue (pq m) ?p = Ok q" "queue_wf q" "queue_list q = queue_list (pq m) @ [?p]"
    using enqueue_ok [OF wf(3), of ?p] e by auto
  let ?m = "m\<lparr>pages := (pages m)[i := ?p], pq := q, offsets := (offsets m)[k := False]\<rparr>"
  have pin: "page_in_meta m va = Ok (1, ?m)"
    using q k by (simp add: page_in_meta_def idx Let_def set_slot_def slot_index)
  have "slots_ok ?m"
    by (rule slots_ok_release [OF wf(4,1,2) assms(3) k(1) assms(4), of ?p])
      (use k in \<open>auto simp: backed_def\<close>)
  then have wf': "meta_wf ?m"
    by (intro meta_wf_entry [OF assms(1,3), of _ ?p]) 
      (use e q wf(1-3) other_vaddr [OF assms(1,3) e(1)] in auto)
  have ram: "ram_vaddrs ?m = insert va (ram_vaddrs m)"
    using ram_vaddrs_entry [OF assms(1,3), of ?m ?p] e assms(5) by (simp add: in_ram_def)
  have "va \<notin> ram_vaddrs m"
    using wf(5) [OF assms(3)] e assms(5) by (auto simp: ram_vaddrs_def in_ram_def)
  with assms(2,5) ram q have "queue_agrees ?m" by (auto simp: queue_agrees_def)
  with pin wf' ram k show ?thesis by (auto simp: slot_index)
qed

text \<open>Wiping a resident page.\<close>

lemma forget_page_inv:
  assumes "meta_wf m" "queue_agrees m" "va \<in> ram_vaddrs m"
  shows "meta_wf (forget_page m va) \<and> queue_agrees (forget_page m va) \<and>
    ram_vaddrs (forget_page m va) = ram_vaddrs m - {va} \<and> offsets (forget_page m va) = offsets m"
proof -
  note wf = meta_wfD [OF assms(1)]
  obtain i where i: "i < 32" "in_ram (pages m ! i)" "vaddr (pages m ! i) = va"
    using assms(3) by (auto simp: ram_vaddrs_def)
  have e: "exists (pages m ! i)" "\<not> in_back (pages m ! i)" using i(2) by (auto simp: in_ram_def)
  let ?m = "forget_page m va" and ?p = "wipe_entry (pages m ! i)"
  have ps: "pages ?m = (pages m)[i := ?p]"
  proof (rule nth_equalityI)
    show "pages ?m ! j = (pages m)[i := ?p] ! j" if "j < length (pages ?m)" for j
      using that i(1,3) e(1) wf(1) wf(5) [of j i]
      by (cases "j = i") (auto simp: forget_page_def nth_list_update)
  qed (simp add: forget_page_def)
  have q: "queue_wf (pq ?m)" "queue_list (pq ?m) = filter (\<lambda>p. vaddr p \<noteq> va) (queue_list (pq m))"
    using free_from_queue_ok [OF wf(3), of va] assms(2) by (auto simp: forget_page_def queue_agrees_def)
  have off: "offsets ?m = offsets m" by (simp add: forget_page_def)
  have "slots_ok ?m"
    by (rule slots_ok_same [OF wf(4,1) i(1) _ _ ps off]) (use e in \<open>auto simp: backed_def wipe_entry_def\<close>)
  then have wf': "meta_wf ?m"
    by (intro meta_wf_entry [OF assms(1) i(1) ps]) (use q off wf in \<open>auto simp: wipe_entry_def\<close>)
  have ram: "ram_vaddrs ?m = ram_vaddrs m - {va}"
    using ram_vaddrs_entry [OF assms(1) i(1) ps] i by (simp add: in_ram_def wipe_entry_def)
  have "distinct (map vaddr (queue_list (pq ?m)))"
    using assms(2) by (simp add: q queue_agrees_def distinct_map_filter)
  moreover have "vaddr ` set (queue_list (pq ?m)) = vaddr ` set (queue_list (pq m)) - {va}"
    by (auto simp: q)
  ultimately have "queue_agrees ?m" using assms(2) ram by (simp add: queue_agrees_def)
  with wf' ram off show ?thesis by blast
qed

section \<open>Properties\<close>

text \<open>C31: The array behind the page queue implements a first-in first-out list of at most
  MAX_TOTAL_PAGES pages: enqueue appends, dequeue takes the head, and free_from_queue removes the
  page with the given address and keeps the order of the others.\<close>

theorem page_queue_refines_list:
  assumes "queue_wf q"
  shows "(length (queue_list q) < MAX_TOTAL_PAGES \<and> exists p \<longrightarrow>
      (\<exists>q'. enqueue q p = Ok q' \<and> queue_wf q' \<and> queue_list q' = queue_list q @ [p])) \<and>
    (queue_list q \<noteq> [] \<longrightarrow>
      fst (dequeue q) = hd (queue_list q) \<and> queue_wf (snd (dequeue q)) \<and>
      queue_list (snd (dequeue q)) = tl (queue_list q)) \<and>
    (distinct (map vaddr (queue_list q)) \<longrightarrow>
      queue_wf (free_from_queue q va) \<and>
      queue_list (free_from_queue q va) = filter (\<lambda>p. vaddr p \<noteq> va) (queue_list q))"
  using pageq.enq [OF assms] pageq.deq [OF assms] free_from_queue_ok [OF assms] by simp

definition two_queue :: page_queue where
  "two_queue = \<lparr>qpages = [new_page 0, new_page 0x1000] @ replicate 30 zero_page, lastIndex = 2\<rparr>"

lemma two_queue_wf: "queue_wf two_queue" "queue_list two_queue = [new_page 0, new_page 0x1000]"
  by (simp_all add: queue_wf_def queue_list_def two_queue_def new_page_def zero_page_def)

theorem page_queue_refines_list_witness:
  "queue_wf two_queue \<and> queue_list (snd (dequeue two_queue)) = [new_page 0x1000] \<and>
   queue_list (free_from_queue two_queue 0x1000) = [new_page 0] \<and>
   (\<exists>q'. enqueue two_queue (new_page 0x2000) = Ok q' \<and>
      queue_list q' = [new_page 0, new_page 0x1000, new_page 0x2000])"
  using page_queue_refines_list [OF two_queue_wf(1), of "new_page 0x2000" "0x1000"]
  by (auto simp: two_queue_wf new_page_def)

text \<open>C32: The slot getFreePageOffset returns is free, its index is at most the number of pages
  already swapped out, and, with at most 16 pages out, the whole slot lies below the largest file
  size (140 blocks of 512 bytes).\<close>

theorem swap_slot_free_and_in_file:
  assumes "meta_wf m" "numOfPagedOut m \<le> MAX_PSYC_PAGES"
  shows "\<exists>k<MAX_TOTAL_PAGES. getFreePageOffset m = PGSIZE * of_nat k \<and> \<not> offsets m ! k \<and>
    k \<le> numOfPagedOut m \<and> unat (getFreePageOffset m) + 4096 \<le> 140 * 512"
proof -
  have "numOfPagedOut m < 32" using assms(2) by simp
  then obtain k where k: "getFreePageOffset m = PGSIZE * of_nat k" "k < 32" "\<not> offsets m ! k"
      "k \<le> numOfPagedOut m" using getFreePageOffset_ok [OF assms(1)] by blast
  then have "unat (getFreePageOffset m) = 4096 * k" by (simp add: unat_word_ariths unat_of_nat)
  with k assms(2) show ?thesis by (intro exI [of _ k]) auto
qed

definition one_out :: p_meta where
  "one_out = reset_paging_meta\<lparr>pages := (pages reset_paging_meta)[0 := (new_page 0)\<lparr>in_back := True\<rparr>],
     offsets := (offsets reset_paging_meta)[0 := True]\<rparr>"

lemma one_out_wf: "meta_wf one_out" "numOfPagedOut one_out = 1"
proof -
  let ?m = "reset_paging_meta" and ?p = "(new_page 0)\<lparr>in_back := True\<rparr>"
  have b: "\<not> backed (pages ?m ! 0)" by (simp add: backed_def reset_paging_meta_def zero_page_def)
  have "slots_ok one_out"
    by (rule slots_ok_take [of ?m 0 0 ?p, OF meta_wfD(4,1,2) [OF meta_wf_reset]])
      (use b in \<open>auto simp: one_out_def new_page_def backed_def reset_paging_meta_def\<close>)
  then show "meta_wf one_out"
    by (intro meta_wf_entry [of ?m 0 one_out ?p, OF meta_wf_reset])
      (auto simp: one_out_def new_page_def reset_paging_meta_def zero_page_def queue_wf_def queue_list_def)
  have "{i. i < 32 \<and> backed (pages one_out ! i)} = {0}"
    by (auto simp: one_out_def reset_paging_meta_def new_page_def zero_page_def backed_def nth_list_update
        split: if_splits)
  then show "numOfPagedOut one_out = 1"
    using numOfPagedOut_card [of one_out] by (simp add: one_out_def reset_paging_meta_def)
qed

theorem swap_slot_free_and_in_file_witness:
  "meta_wf one_out \<and> numOfPagedOut one_out = 1 \<and>
   (\<exists>k\<le>1. getFreePageOffset one_out = PGSIZE * of_nat k \<and> \<not> offsets one_out ! k)"
  using swap_slot_free_and_in_file [OF one_out_wf(1)] one_out_wf by auto

text \<open>C33: NFUA evicts a resident page, and no resident page has a smaller age.\<close>

theorem nfua_selects_least_age:
  assumes "\<exists>p\<in>set ps. in_ram p"
  shows "nfua_select ps \<in> set ps \<and> in_ram (nfua_select ps) \<and>
    (\<forall>p\<in>set ps. in_ram p \<longrightarrow> age (nfua_select ps) \<le> age p)"
  by (rule nfua_select_min [OF assms])

theorem nfua_selects_least_age_witness:
  "nfua_select [zero_page, (new_page 0)\<lparr>age := 5\<rparr>, (new_page 0x1000)\<lparr>age := 2\<rparr>, (new_page 0x2000)\<lparr>in_back := True\<rparr>]
     = (new_page 0x1000)\<lparr>age := 2\<rparr>"
  using nfua_selects_least_age
    [of "[zero_page, (new_page 0)\<lparr>age := 5\<rparr>, (new_page 0x1000)\<lparr>age := 2\<rparr>, (new_page 0x2000)\<lparr>in_back := True\<rparr>]"]
  by (auto simp: in_ram_def new_page_def zero_page_def)

text \<open>C34: LAPA never looks at the number of set bits: count_set_bits is 32 for every argument, so
  the victim is the resident page with the numerically least age2.\<close>

theorem lapa_ignores_set_bits:
  assumes "\<exists>p\<in>set ps. in_ram p" "unique_vaddrs (set ps)"
  shows "count_set_bits x = 32 \<and> in_ram (lapa_select ps) \<and> lapa_select ps \<in> set ps \<and>
    (\<forall>p\<in>set ps. in_ram p \<longrightarrow> age2 (lapa_select ps) \<le> age2 p)"
  using lapa_select_min [OF assms] by (simp add: count_set_bits_const)

definition lapa_pages :: "page list" where
  "lapa_pages = [(new_page 0)\<lparr>age2 := 0x80000000\<rparr>, (new_page 0x1000)\<lparr>age2 := 0x0000ffff\<rparr>]"

theorem lapa_ignores_set_bits_witness:
  "lapa_select lapa_pages = (new_page 0x1000)\<lparr>age2 := 0x0000ffff\<rparr> \<and> count_set_bits 0x80000000 = 32"
proof -
  have h: "\<exists>p\<in>set lapa_pages. in_ram p" "unique_vaddrs (set lapa_pages)"
    by (simp_all add: lapa_pages_def in_ram_def new_page_def unique_vaddrs_def)
  from lapa_ignores_set_bits [OF h, of "0x80000000"] show ?thesis
    by (auto simp: lapa_pages_def in_ram_def new_page_def)
qed

end
