(* ===== verification/Kernel.thy ===== *)
theory Kernel
  imports Fs Pipe PageTable PageMeta
begin

text \<open>
  The state of the whole kernel: the file system of the theory of fs.c extended by physical memory, the
  open-file table, the pipes, the process table and the processor's registers that the code reads or
  writes. Pointers into a table are indices. A pipe lives in a page of \<^verbatim>\<open>kalloc\<close> and is addressed by it.
  The kernel runs on one processor here; a critical section is atomic, and a process that would have to
  wait for another one is reported as a value, never skipped over.
\<close>

section \<open>Processes\<close>

datatype procstate = UNUSED | EMBRYO | SLEEPING | RUNNABLE | RUNNING | ZOMBIE

text \<open>What a process sleeps on: the kernel uses the address of the object it waits for.\<close>

datatype chan = Chan_proc nat | Chan_ticks | Chan_nread addr | Chan_nwrite addr

record trapframe =
  tf_edi :: u32
  tf_esi :: u32
  tf_ebp :: u32
  tf_ebx :: u32
  tf_edx :: u32
  tf_ecx :: u32
  tf_eax :: u32
  tf_gs :: u16
  tf_fs :: u16
  tf_es :: u16
  tf_ds :: u16
  tf_trapno :: u32
  tf_err :: u32
  tf_eip :: u32
  tf_cs :: u16
  tf_eflags :: u32
  tf_esp :: u32
  tf_ss :: u16

record kcontext =
  c_edi :: u32
  c_esi :: u32
  c_ebx :: u32
  c_ebp :: u32
  c_eip :: u32

abbreviation (input) NPROC :: nat where "NPROC \<equiv> 64"
abbreviation (input) NOFILE :: nat where "NOFILE \<equiv> 16"
abbreviation (input) NFILE :: nat where "NFILE \<equiv> 100"
abbreviation (input) KSTACKSIZE :: u32 where "KSTACKSIZE \<equiv> 4096"

record proc =
  p_sz :: u32
  p_pgdir :: addr
  p_kstack :: addr
  p_state :: procstate
  p_pid :: int
  p_parent :: "nat option"
  p_tf :: trapframe
  p_context :: kcontext
  p_chan :: "chan option"
  p_killed :: bool
  p_ofile :: "nat option list"
  p_cwd :: "nat option"
  p_name :: "byte list"
  paging_meta :: p_meta
  swapFile :: "nat option"
  page_faults :: u32
  num_pageouts :: u32

section \<open>Files\<close>

datatype ftype = FD_NONE | FD_PIPE | FD_INODE

record ofile =
  f_type :: ftype
  f_ref :: int
  f_readable :: bool
  f_writable :: bool
  f_pipe :: addr
  f_ip :: "nat option"
  f_off :: u32

section \<open>The kernel\<close>

text \<open>The page replacement policy is chosen when the kernel is compiled (the macro \<^verbatim>\<open>SELECTION\<close> of the Makefile).\<close>

datatype policy = NONE | NFUA | LAPA | SCFIFO | AQ

record kernel = fsst +
  kphys :: phys
  SELECTION :: policy
  VERBOSE_PRINT :: bool
  files :: "ofile list"
  pipes :: "addr \<Rightarrow> pipe option"
  procs :: "proc list"
  cur :: "nat option"
  initproc :: "nat option"
  nextpid :: int
  ticks :: u32
  kpgdir :: addr
  cr3 :: u32
  ts_ss0 :: u16
  ts_esp0 :: u32
  ts_iomb :: u16
  forkret_first :: bool
  forkret_addr :: addr
  trapret_addr :: addr

text \<open>The last two are the addresses the linker gives \<^verbatim>\<open>forkret\<close> and \<^verbatim>\<open>trapret\<close>; the flag before them is the static \<^verbatim>\<open>first\<close> of
  \<^verbatim>\<open>forkret\<close>; the fields before it are those of the task state segment that the code sets.\<close>

definition upd_proc :: "kernel \<Rightarrow> nat \<Rightarrow> (proc \<Rightarrow> proc) \<Rightarrow> kernel" where
  "upd_proc k i f = k\<lparr>procs := (procs k)[i := f (procs k ! i)]\<rparr>"

definition upd_file :: "kernel \<Rightarrow> nat \<Rightarrow> (ofile \<Rightarrow> ofile) \<Rightarrow> kernel" where
  "upd_file k i f = k\<lparr>files := (files k)[i := f (files k ! i)]\<rparr>"

text \<open>A call of the allocator or of the page tables works on the physical memory of the kernel.\<close>

definition phys_call :: "kernel \<Rightarrow> (phys \<Rightarrow> ('b \<times> phys) outcome) \<Rightarrow> ('b \<times> kernel) outcome" where
  "phys_call k f = andThen (f (kphys k)) (\<lambda>(r, p). Ok (r, k\<lparr>kphys := p\<rparr>))"

definition phys_do :: "kernel \<Rightarrow> (phys \<Rightarrow> phys outcome) \<Rightarrow> kernel outcome" where
  "phys_do k f = andThen (f (kphys k)) (\<lambda>p. Ok (k\<lparr>kphys := p\<rparr>))"

definition kkalloc :: "kernel \<Rightarrow> addr \<times> kernel" where
  "kkalloc k = (case kalloc (kphys k) of (a, p) \<Rightarrow> (a, k\<lparr>kphys := p\<rparr>))"

text \<open>\<^verbatim>\<open>myproc()\<close>; using its fields when it is null is a fault.\<close>

definition my :: "kernel \<Rightarrow> (nat \<Rightarrow> 'b outcome) \<Rightarrow> 'b outcome" where
  "my k f = (case cur k of None \<Rightarrow> Fault ''myproc: null'' | Some i \<Rightarrow> f i)"

text \<open>The file system reads two fields of the running process.\<close>

definition fs_enter :: "kernel \<Rightarrow> kernel" where
  "fs_enter k =
     (case cur k of
        None \<Rightarrow> k
      | Some i \<Rightarrow> k\<lparr>my_killed := p_killed (procs k ! i), my_cwd := (case p_cwd (procs k ! i) of Some c \<Rightarrow> c | None \<Rightarrow> 0)\<rparr>)"

definition kprintf :: "kernel \<Rightarrow> string \<Rightarrow> vararg list \<Rightarrow> kernel outcome" where
  "kprintf k fmt args = andThen (cprintf (cons k) (Some (str fmt)) args) (\<lambda>c. Ok (k\<lparr>cons := c\<rparr>))"

definition is_user_proc :: "proc \<Rightarrow> bool" where
  "is_user_proc p \<longleftrightarrow> p_pid p > 2"

section \<open>Sleeping and waking\<close>

definition wake_if :: "chan \<Rightarrow> proc \<Rightarrow> proc" where
  "wake_if c p = (if p_state p = SLEEPING \<and> p_chan p = Some c then p\<lparr>p_state := RUNNABLE\<rparr> else p)"

definition wakeup1 :: "kernel \<Rightarrow> chan \<Rightarrow> kernel" where
  "wakeup1 k c = k\<lparr>procs := map (wake_if c) (procs k)\<rparr>"

definition wakeup :: "kernel \<Rightarrow> chan \<Rightarrow> kernel" where
  "wakeup k c = wakeup1 k c"

section \<open>User memory\<close>

text \<open>
  An access of the kernel to a user address goes through the page directory in \<^verbatim>\<open>%cr3\<close>. It fails here when
  the page is not present; the page-fault handler is in the theory of traps.
\<close>

definition uaccess :: "kernel \<Rightarrow> addr \<Rightarrow> bool" where
  "uaccess k va \<longleftrightarrow> present (mem (kphys k)) (P2V (cr3 k)) va"

definition uread :: "kernel \<Rightarrow> addr \<Rightarrow> nat \<Rightarrow> byte list outcome" where
  "uread k va n =
     (if \<forall>i\<in>set [0..<n]. uaccess k (va + of_nat i)
      then Ok (map (\<lambda>i. ubyte (mem (kphys k)) (P2V (cr3 k)) (va + of_nat i)) [0..<n])
      else Fault ''page fault'')"

definition ustore :: "kernel \<Rightarrow> addr \<Rightarrow> byte \<Rightarrow> kernel" where
  "ustore k va b =
     (let m = mem (kphys k)
      in k\<lparr>kphys := (kphys k)\<lparr>mem := m(user_frame m (P2V (cr3 k)) va + (va - PGROUNDDOWN va) := b)\<rparr>\<rparr>)"

fun uwrite :: "kernel \<Rightarrow> addr \<Rightarrow> byte list \<Rightarrow> kernel outcome" where
  "uwrite k va [] = Ok k"
| "uwrite k va (b # bs) = (if uaccess k va then uwrite (ustore k va b) (va + 1) bs else Fault ''page fault'')"

end
