(* ===== verification/File.thy ===== *)
theory File
  imports Kernel
begin

text \<open>
  The open files of file.c and the pipes of pipe.c as the kernel uses them. Reads return the bytes that
  the code stores at the caller's address; writes take them as an argument.
\<close>

section \<open>Allocation of file structures\<close>

definition filealloc :: "kernel \<Rightarrow> nat option \<times> kernel" where
  "filealloc k =
     (case first_idx (\<lambda>f. f_ref f = 0) (files k) of
        Some i \<Rightarrow> (Some i, upd_file k i (\<lambda>f. f\<lparr>f_ref := 1\<rparr>))
      | None \<Rightarrow> (None, k))"

definition filedup :: "kernel \<Rightarrow> nat \<Rightarrow> (nat \<times> kernel) outcome" where
  "filedup k i =
     (if f_ref (files k ! i) < 1 then Panic ''filedup''
      else Ok (i, upd_file k i (\<lambda>f. f\<lparr>f_ref := f_ref f + 1\<rparr>)))"

section \<open>Pipes\<close>

text \<open>A pipe that has been freed must not be used again.\<close>

definition pipe_at :: "kernel \<Rightarrow> addr \<Rightarrow> (pipe \<Rightarrow> 'b outcome) \<Rightarrow> 'b outcome" where
  "pipe_at k a f = (case pipes k a of None \<Rightarrow> Fault ''pipe: wild pointer'' | Some p \<Rightarrow> f p)"

definition pipeclose :: "kernel \<Rightarrow> addr \<Rightarrow> bool \<Rightarrow> kernel outcome" where
  "pipeclose k a writable =
     pipe_at k a (\<lambda>p.
       let p = (if writable then p\<lparr>writeopen := False\<rparr> else p\<lparr>readopen := False\<rparr>);
           k = wakeup (k\<lparr>pipes := (pipes k)(a := Some p)\<rparr>) (if writable then Chan_nread a else Chan_nwrite a)
       in if \<not> readopen p \<and> \<not> writeopen p
          then phys_do (k\<lparr>pipes := (pipes k)(a := None)\<rparr>) (\<lambda>m. kfree m a)
          else Ok k)"

definition pipewrite :: "kernel \<Rightarrow> addr \<Rightarrow> byte list \<Rightarrow> (int \<times> kernel) outcome" where
  "pipewrite k a bs =
     pipe_at k a (\<lambda>p. my k (\<lambda>i.
       case pipewrite_run (p_killed (procs k ! i)) p bs of
         (p', Return ok) \<Rightarrow>
           (let k = k\<lparr>pipes := (pipes k)(a := Some p')\<rparr>
            in if ok then Ok (int (length bs), wakeup k (Chan_nread a)) else Ok (- 1, k))
       | (p', Sleep rest) \<Rightarrow> Fault ''pipewrite: would sleep''))"

definition piperead :: "kernel \<Rightarrow> addr \<Rightarrow> int \<Rightarrow> ((int \<times> byte list) \<times> kernel) outcome" where
  "piperead k a n =
     pipe_at k a (\<lambda>p. my k (\<lambda>i.
       case piperead_run (p_killed (procs k ! i)) p (nat n) of
         (p', Return None) \<Rightarrow> Ok ((- 1, []), k\<lparr>pipes := (pipes k)(a := Some p')\<rparr>)
       | (p', Return (Some bs)) \<Rightarrow> Ok ((int (length bs), bs), wakeup (k\<lparr>pipes := (pipes k)(a := Some p')\<rparr>) (Chan_nwrite a))
       | (p', Sleep m) \<Rightarrow> Fault ''piperead: would sleep''))"

section \<open>Closing, reading and writing files\<close>

definition fileclose :: "kernel \<Rightarrow> nat \<Rightarrow> kernel outcome" where
  "fileclose k i =
     (let f = files k ! i; r = f_ref f - 1
      in if f_ref f < 1 then Panic ''fileclose''
         else if r > 0 then Ok (upd_file k i (\<lambda>f. f\<lparr>f_ref := r\<rparr>))
         else
           let k = upd_file k i (\<lambda>f. f\<lparr>f_ref := 0, f_type := FD_NONE\<rparr>)
           in case f_type f of
                FD_PIPE \<Rightarrow> pipeclose k (f_pipe f) (f_writable f)
              | FD_INODE \<Rightarrow>
                  (case f_ip f of
                     None \<Rightarrow> Fault ''iput: null inode''
                   | Some ip \<Rightarrow> andThen (begin_op k) (\<lambda>k. andThen (iput k ip) end_op))
              | FD_NONE \<Rightarrow> Ok k)"

definition pipealloc :: "kernel \<Rightarrow> ((nat \<times> nat) option \<times> kernel) outcome" where
  "pipealloc k =
     (case filealloc k of
        (None, k) \<Rightarrow> Ok (None, k)
      | (Some f0, k) \<Rightarrow>
          (case filealloc k of
             (None, k) \<Rightarrow> andThen (fileclose k f0) (\<lambda>k. Ok (None, k))
           | (Some f1, k) \<Rightarrow>
               (case kkalloc k of (a, k) \<Rightarrow>
                  if a = 0 then andThen (fileclose k f0) (\<lambda>k. andThen (fileclose k f1) (\<lambda>k. Ok (None, k)))
                  else
                    let d = map (\<lambda>j. mem (kphys k) (a + 52 + of_nat j)) [0..<PIPESIZE];
                        k = k\<lparr>pipes := (pipes k)(a := Some (init_pipe d))\<rparr>;
                        k = upd_file k f0 (\<lambda>f. f\<lparr>f_type := FD_PIPE, f_readable := True, f_writable := False, f_pipe := a\<rparr>);
                        k = upd_file k f1 (\<lambda>f. f\<lparr>f_type := FD_PIPE, f_readable := False, f_writable := True, f_pipe := a\<rparr>)
                    in Ok (Some (f0, f1), k))))"

definition filestat :: "kernel \<Rightarrow> nat \<Rightarrow> (stat option \<times> kernel) outcome" where
  "filestat k i =
     (let f = files k ! i
      in if f_type f = FD_INODE
         then andThen (ilock k (f_ip f))
                (\<lambda>k. let st = stati k (the (f_ip f)) in andThen (iunlock k (f_ip f)) (\<lambda>k. Ok (Some st, k)))
         else Ok (None, k))"

definition fileread :: "kernel \<Rightarrow> nat \<Rightarrow> int \<Rightarrow> ((int \<times> byte list) \<times> kernel) outcome" where
  "fileread k i n =
     (let f = files k ! i
      in if \<not> f_readable f then Ok ((- 1, []), k)
         else case f_type f of
           FD_PIPE \<Rightarrow> piperead k (f_pipe f) n
         | FD_INODE \<Rightarrow>
             andThen (ilock k (f_ip f))
               (\<lambda>k. andThen (readi (fs_enter k) (the (f_ip f)) (f_off f) (of_int n))
                  (\<lambda>((r, bs), k).
                     let k = (if r > 0 then upd_file k i (\<lambda>f. f\<lparr>f_off := f_off f + of_int r\<rparr>) else k)
                     in andThen (iunlock k (f_ip f)) (\<lambda>k. Ok ((r, bs), k))))
         | FD_NONE \<Rightarrow> Panic ''fileread'')"

text \<open>A piece of at most \<^verbatim>\<open>max\<close> bytes is one transaction.\<close>

abbreviation (input) WMAX :: nat where "WMAX \<equiv> 1536"

definition filewrite_piece :: "kernel \<Rightarrow> nat \<Rightarrow> byte list \<Rightarrow> (int \<times> kernel) outcome" where
  "filewrite_piece k i bs =
     (let f = files k ! i
      in andThen (begin_op k)
           (\<lambda>k. andThen (ilock k (f_ip f))
              (\<lambda>k. andThen (writei (fs_enter k) (the (f_ip f)) bs (f_off f))
                 (\<lambda>(r, k).
                    let k = (if r > 0 then upd_file k i (\<lambda>f. f\<lparr>f_off := f_off f + of_int r\<rparr>) else k)
                    in andThen (iunlock k (f_ip f)) (\<lambda>k. andThen (end_op k) (\<lambda>k. Ok (r, k)))))))"

function filewrite_loop :: "kernel \<Rightarrow> nat \<Rightarrow> byte list \<Rightarrow> (bool \<times> kernel) outcome" where
  "filewrite_loop k i bs =
     (if bs = [] then Ok (True, k)
      else
        let m = min (length bs) WMAX
        in andThen (filewrite_piece k i (take m bs))
             (\<lambda>(r, k). if r < 0 then Ok (False, k)
                       else if r \<noteq> int m then Panic ''short filewrite''
                       else filewrite_loop k i (drop m bs)))"
  by pat_completeness auto
termination by (relation "measure (\<lambda>(k, i, bs). length bs)") auto

declare filewrite_loop.simps [simp del]

definition filewrite :: "kernel \<Rightarrow> nat \<Rightarrow> byte list \<Rightarrow> (int \<times> kernel) outcome" where
  "filewrite k i bs =
     (let f = files k ! i
      in if \<not> f_writable f then Ok (- 1, k)
         else case f_type f of
           FD_PIPE \<Rightarrow> pipewrite k (f_pipe f) bs
         | FD_INODE \<Rightarrow> andThen (filewrite_loop k i bs) (\<lambda>(done, k). Ok (if done then int (length bs) else - 1, k))
         | FD_NONE \<Rightarrow> Panic ''filewrite'')"

end
