(* ===== verification/FsAlloc.thy ===== *)
theory FsAlloc
  imports Fs
begin

text \<open>
  Correctness of the block allocator: the layout of the disk, what \<^verbatim>\<open>balloc\<close> and \<^verbatim>\<open>bfree\<close> do to the
  free bitmap and to the contents of blocks, and how many log blocks they need.
\<close>

section \<open>The bitmap\<close>

lemma bmap_bit_bit: "bmap_bit d k = bit (d ! (k div 8)) (k mod 8)"
  by (simp add: bmap_bit_def bit_iff_and_push_bit_not_eq_0)

lemma byte_index:
  assumes "k < 4096" "length d = 512"
  shows "k div 8 < length d" "k mod 8 < 8"
  using assms by auto

lemma bmap_bit_change:
  assumes "k < 4096" "j < 4096" "length d = 512"
  shows "bmap_bit (bmap_set k d) j = (j = k \<or> bmap_bit d j)"
    and "bmap_bit (bmap_clear k d) j = (j \<noteq> k \<and> bmap_bit d j)"
proof -
  have eq: "j = k \<longleftrightarrow> j div 8 = k div 8 \<and> j mod 8 = k mod 8" by (metis div_mult_mod_eq)
  note i = byte_index [OF assms(1,3)] byte_index [OF assms(2,3)]
  show "bmap_bit (bmap_set k d) j = (j = k \<or> bmap_bit d j)"
    using i eq by (cases "j div 8 = k div 8") (auto simp: bmap_bit_bit bmap_set_def bit_simps)
  show "bmap_bit (bmap_clear k d) j = (j \<noteq> k \<and> bmap_bit d j)"
    using i eq by (cases "j div 8 = k div 8") (auto simp: bmap_bit_bit bmap_clear_def bit_simps)
qed

lemma length_bmap [simp]: "length (bmap_set k d) = length d" "length (bmap_clear k d) = length d"
  by (simp_all add: bmap_set_def bmap_clear_def)

section \<open>Layout\<close>

text \<open>The areas mkfs lays out, one after the other: super block, log, inodes, bitmap (one block for at
  most 1000 blocks), data. The super block in memory is the one on the disk.\<close>

definition fs_layout :: "'a fsst_scheme \<Rightarrow> bool" where
  "fs_layout s \<longleftrightarrow> sb s = parse_sb (bcontent s 1) \<and> log_start s = sb_logstart (sb s) \<and> 1 < unat (log_start s) \<and>
     unat (log_start s) + 30 \<le> unat (sb_inodestart (sb s)) \<and>
     unat (sb_inodestart (sb s)) + unat (sb_ninodes (sb s)) div 8 < unat (sb_bmapstart (sb s)) \<and>
     unat (sb_bmapstart (sb s)) < unat (sb_size (sb s)) \<and> unat (sb_size (sb s)) \<le> 1000"

definition bm :: "'a fsst_scheme \<Rightarrow> u32" where
  "bm s = sb_bmapstart (sb s)"

definition used :: "'a fsst_scheme \<Rightarrow> u32 \<Rightarrow> bool" where
  "used s b \<longleftrightarrow> bmap_bit (bcontent s (bm s)) (unat b)"

text \<open>The blocks up to the bitmap are never free.\<close>

definition meta_used :: "'a fsst_scheme \<Rightarrow> bool" where
  "meta_used s \<longleftrightarrow> (\<forall>b\<le>bm s. used s b)"

text \<open>A data block.\<close>

definition data_block :: "'a fsst_scheme \<Rightarrow> u32 \<Rightarrow> bool" where
  "data_block s b \<longleftrightarrow> bm s < b \<and> b < sb_size (sb s)"

lemma log_region_range:
  assumes "b \<in> log_region s" "unat (log_start s) + 30 \<le> 1000"
  shows "unat (log_start s) \<le> unat b" "unat b < unat (log_start s) + 30"
  using assms by (auto simp: log_region_def log_blk_def unat_word_ariths unat_of_nat)

lemma layout_facts:
  assumes "fs_layout s"
  shows "bm s < FSSIZE" "bm s \<notin> log_region s" "data_block s b \<Longrightarrow> b < FSSIZE" "data_block s b \<Longrightarrow> b \<notin> log_region s"
    "data_block s b \<Longrightarrow> b \<noteq> bm s" "data_block s b \<Longrightarrow> b \<noteq> 1" "bm s \<noteq> 1" "sb_size (sb s) \<le> 1000" "1 \<notin> log_region s" "data_block s b \<Longrightarrow> b \<noteq> 0"
    "bm s < sb_size (sb s)"
proof -
  have l: "1 < unat (log_start s)" "unat (log_start s) + 30 \<le> unat (bm s)" "unat (bm s) < unat (sb_size (sb s))" "unat (sb_size (sb s)) \<le> 1000"
    using assms by (auto simp: fs_layout_def bm_def)
  have r: "b \<notin> log_region s" if "unat (log_start s) + 30 \<le> unat b \<or> unat b \<le> 1" for b
    using log_region_range [of b s] that l by linarith
  show "bm s < FSSIZE" "sb_size (sb s) \<le> 1000" "bm s < sb_size (sb s)" using l by (auto simp: word_less_nat_alt word_le_nat_alt)
  show "bm s \<notin> log_region s" "1 \<notin> log_region s" using r l by auto
  show "bm s \<noteq> 1" using l by auto
  show "data_block s b \<Longrightarrow> b < FSSIZE" using l by (auto simp: data_block_def word_less_nat_alt)
  show "data_block s b \<Longrightarrow> b \<notin> log_region s" using r [of b] l by (auto simp: data_block_def word_less_nat_alt)
  show "data_block s b \<Longrightarrow> b \<noteq> bm s" "data_block s b \<Longrightarrow> b \<noteq> 1" "data_block s b \<Longrightarrow> b \<noteq> 0"
    using l by (auto simp: data_block_def word_less_nat_alt)
qed

lemma fs_frame:
  assumes "log_frame s (s' :: 'a fsst_scheme)"
  shows "sb s' = sb s" "inodes s' = inodes s" "cons s' = cons s" "devsw_read s' = devsw_read s" "devsw_write s' = devsw_write s"
    "my_killed s' = my_killed s" "my_cwd s' = my_cwd s" "fsst.more s' = fsst.more s" "bm s' = bm s" "outstanding s' = outstanding s"
    "log_start s' = log_start s" "log_region s' = log_region s" "committing s' = committing s"
  using assms log_frame_region(1) [OF assms] by (cases s, cases s', simp add: log_frame_def bm_def)+

section \<open>Room in the log\<close>

text \<open>\<open>k\<close> more blocks can be logged, with room to log one of them again and a buffer to spare for reading.\<close>

definition room :: "'a logst_scheme \<Rightarrow> nat \<Rightarrow> bool" where
  "room s k \<longleftrightarrow> card (dirtyset s) + card (held s) + k < 29"

lemma finite_bufsets [simp]: "finite (dirtyset s)" "finite (held s)"
  by (simp_all add: dirtyset_def held_def)

lemma room_avail:
  assumes "room s k" "n < 1000" "n \<notin> held s"
  shows "avail s n"
  using assms card_Un_le [of "held s" "dirtyset s"] by (simp add: avail_def room_def)

lemma room_mono: "room s k \<Longrightarrow> j \<le> k \<Longrightarrow> room s j"
  by (simp add: room_def)

lemma room_insert:
  assumes "dirtyset s' = insert n (dirtyset s)" "held s' = held s"
  shows "room s (Suc k) \<Longrightarrow> room s' k" "n \<in> dirtyset s \<Longrightarrow> room s k \<Longrightarrow> room s' k"
  using assms card_insert_if [of "dirtyset s" n] by (auto simp: room_def insert_absorb)

lemma modify_room:
  assumes "in_txn s" "room s k" "n < 1000" "n \<notin> held s" "n \<notin> log_region s" "1 \<le> outstanding s" "length (f (bcontent s n)) = 512"
  shows "\<exists>s'. modify_block s 1 n f = Ok s' \<and> in_txn s' \<and> bcontent s' = (bcontent s)(n := f (bcontent s n)) \<and> held s' = held s \<and>
    dirtyset s' = insert n (dirtyset s) \<and> log_frame s s'"
proof -
  have "lh_n s < 29" using in_txn_card [OF assms(1)] assms(2) by (auto simp: room_def)
  with modify_block_ok [where f = f, OF assms(1) room_avail [OF assms(2-4)] assms(5,6) _ assms(7)] show ?thesis by blast
qed

lemma txn_length [simp]: "in_txn s \<Longrightarrow> length (bcontent s n) = 512"
  using bcontent_length [of s n] by (simp add: in_txn_def)

section \<open>Allocation\<close>

lemma bitmap_loop_one:
  assumes "fs_layout s"
  shows "balloc s dev = balloc_loop s dev [0]"
proof -
  have "0 < unat (sb_size (sb s))" "unat (sb_size (sb s)) \<le> 1000" using assms by (auto simp: fs_layout_def)
  then have "(unat (sb_size (sb s)) + 4096 - 1) div 4096 = 1" by simp
  then show ?thesis by (simp add: balloc_def)
qed

text \<open>\<open>bread\<close>, a change of the data, \<open>log_write\<close> and \<open>brelse\<close> of the same buffer.\<close>

lemma change_logged:
  assumes "in_txn s" "owns s b n" "room s 0" "n \<notin> log_region s" "1 \<le> outstanding s" "length d = 512"
  shows "\<exists>s2 s3. log_write (set_data s b d) b = Ok s2 \<and> brelse s2 b = Ok s3 \<and> in_txn s3 \<and> bcontent s3 = (bcontent s)(n := d) \<and>
    held s3 = held s - {n} \<and> dirtyset s3 = insert n (dirtyset s) \<and> log_frame s s3"
proof -
  note sd = set_data_in_txn [OF assms(1,2,6)]
  have "n \<notin> log_region (set_data s b d)" "1 \<le> outstanding (set_data s b d)" "lh_n (set_data s b d) < 29"
    using assms(3-5) log_frame_region(1) [OF sd(6)] sd(7,8) in_txn_card [OF assms(1)] by (auto simp: room_def)
  from log_write_ok [OF sd(1,2) this] obtain s2 where s2: "log_write (set_data s b d) b = Ok s2" "in_txn s2" "owns s2 b n"
      "bcontent s2 = bcontent (set_data s b d)" "held s2 = held (set_data s b d)"
      "dirtyset s2 = insert n (dirtyset (set_data s b d))" "log_frame (set_data s b d) s2" by blast
  obtain s3 where s3: "brelse s2 b = Ok s3" "in_txn s3" "bcontent s3 = bcontent s2" "held s3 = held s2 - {n}"
      "dirtyset s3 = dirtyset s2" "log_frame s2 s3"
    using brelse_in_txn [OF s2(2,3)] s2(6) by auto
  have "log_frame s s3" using log_frame_trans [OF log_frame_trans [OF sd(6) s2(7)] s3(6)] .
  then show ?thesis using s2 s3 sd by auto
qed

lemma release_clean:
  assumes "in_txn s" "avail s n" "bread s 1 n = Ok (b, s1)"
  shows "\<exists>s2. brelse s1 b = Ok s2 \<and> in_txn s2 \<and> bcontent s2 = bcontent s \<and> held s2 = held s \<and> dirtyset s2 = dirtyset s \<and> log_frame s s2"
  using read_block_ok [OF assms(1,2)] assms(3) by (auto simp: read_block_def)

text \<open>The state in which the allocator is called: a transaction with the bitmap block not held and no
  free block held.\<close>

definition alloc_ok :: "'a fsst_scheme \<Rightarrow> bool" where
  "alloc_ok s \<longleftrightarrow> in_txn s \<and> fs_layout s \<and> meta_used s \<and> 1 \<le> outstanding s \<and> bm s \<notin> held s \<and> 1 \<notin> held s \<and>
     (\<forall>b\<in>held s. used s b)"

lemma BBLOCK_bm: "fs_layout s \<Longrightarrow> b < 1000 \<Longrightarrow> BBLOCK b (sb s) = bm s"
proof -
  assume "b < 1000"
  then have "b div 4096 = 0" by (simp add: word_unat_eq_iff unat_div word_less_nat_alt)
  then show ?thesis by (simp add: BBLOCK_def bm_def)
qed

lemma balloc_full:
  assumes "alloc_ok s" "room s 0" "\<And>b. b < sb_size (sb s) \<Longrightarrow> used s b"
  shows "balloc s 1 = Panic ''balloc: out of blocks''"
proof -
  have e: "in_txn s" "fs_layout s" "bm s \<notin> held s" using assms(1) by (auto simp: alloc_ok_def)
  note av = room_avail [OF assms(2) layout_facts(1) [OF e(2)] e(3)]
  obtain b s1 where r: "bread s 1 (bm s) = Ok (b, s1)" "b_data (bufs s1 ! b) = bcontent s (bm s)" "log_frame s s1"
    using bread_in_txn [OF e(1) av] by blast
  obtain s2 where s2: "brelse s1 b = Ok s2" using release_clean [OF e(1) av r(1)] by blast
  have "bmap_bit (bcontent s (bm s)) k" if "k < unat (sb_size (sb s))" for k
  proof -
    have "unat (of_nat k :: u32) = k" using that layout_facts(8) [OF e(2)] by (simp add: unat_of_nat word_le_nat_alt)
    then show ?thesis using assms(3) [of "of_nat k"] that by (simp add: used_def word_less_nat_alt)
  qed
  then have "find (\<lambda>bi. 0 + bi < unat (sb_size (sb s1)) \<and> \<not> bmap_bit (bcontent s (bm s)) bi) [0..<4096] = None"
    using fs_frame(1) [OF r(3)] by (auto simp: find_None_iff)
  then show ?thesis
    using r s2 BBLOCK_bm [OF e(2), of 0] by (simp add: bitmap_loop_one [OF e(2)] Let_def)
qed

lemma balloc_ok:
  assumes "alloc_ok s" "room s 2" "b < sb_size (sb s)" "\<not> used s b"
  shows "\<exists>a s'. balloc s 1 = Ok (a, s') \<and> \<not> used s a \<and> data_block s a \<and> in_txn s' \<and>
    bcontent s' = (bcontent s)(bm s := bmap_set (unat a) (bcontent s (bm s)), a := replicate 512 0) \<and> held s' = held s \<and>
    dirtyset s' = insert a (insert (bm s) (dirtyset s)) \<and> log_frame s s' \<and> a \<notin> held s \<and> keeps s s'"
proof -
  have e: "in_txn s" "fs_layout s" "bm s \<notin> held s" "meta_used s" "1 \<le> outstanding s" "\<forall>b\<in>held s. used s b"
    using assms(1) by (auto simp: alloc_ok_def)
  note L = layout_facts [OF e(2)]
  note av = room_avail [OF assms(2) L(1) e(3)]
  obtain bp s1 where r: "bread s 1 (bm s) = Ok (bp, s1)" "in_txn s1" "owns s1 bp (bm s)" "b_data (bufs s1 ! bp) = bcontent s (bm s)"
      "bcontent s1 = bcontent s" "held s1 = insert (bm s) (held s)" "dirtyset s1 = dirtyset s" "log_frame s s1"
    using bread_in_txn [OF e(1) av] by blast
  let ?d = "bcontent s (bm s)"
  have sz: "unat (sb_size (sb s)) \<le> 1000" using L(8) by (simp add: word_le_nat_alt)
  let ?P = "\<lambda>bi. 0 + bi < unat (sb_size (sb s1)) \<and> \<not> bmap_bit ?d bi"
  have "unat b < 4096" "?P (unat b)" using assms(3,4) sz fs_frame(1) [OF r(8)] by (auto simp: used_def word_less_nat_alt)
  then have "find ?P [0..<4096] \<noteq> None" by (auto simp: find_None_iff)
  then obtain k where k: "find ?P [0..<4096] = Some k" by blast
  have kP: "k < unat (sb_size (sb s))" "\<not> bmap_bit ?d k" using find_SomeD [OF k] fs_frame(1) [OF r(8)] by auto
  define a where "a = (of_nat k :: u32)"
  have ua: "unat a = k" using kP(1) sz by (simp add: a_def unat_of_nat)
  have nu: "\<not> used s a" using kP(2) ua by (simp add: used_def)
  then have "bm s < a" using e(4) by (meson meta_used_def not_le_imp_less)
  then have da: "data_block s a" using kP(1) ua by (simp add: data_block_def word_less_nat_alt)
  have nh: "a \<notin> held s" using nu e(6) by blast
  have len: "length (bmap_set k ?d) = 512" using e(1) by simp
  have rm1: "room s1 0" using assms(2) r(6,7) card_insert_le_m1 by (simp add: room_def card_insert_if)
  have "bm s \<notin> log_region s1" "1 \<le> outstanding s1" using L(2) fs_frame(10,12) [OF r(8)] e(5) by auto
  from change_logged [OF r(2,3) rm1 this len] obtain s2 s3 where s3: "log_write (set_data s1 bp (bmap_set k ?d)) bp = Ok s2"
      "brelse s2 bp = Ok s3" "in_txn s3" "bcontent s3 = (bcontent s1)(bm s := bmap_set k ?d)" "held s3 = held s1 - {bm s}"
      "dirtyset s3 = insert (bm s) (dirtyset s1)" "log_frame s1 s3" by blast
  have f3: "log_frame s s3" using log_frame_trans [OF r(8) s3(7)] .
  have h3: "held s3 = held s" using s3(5) r(6) e(3) by auto
  have d3: "dirtyset s3 = insert (bm s) (dirtyset s)" using s3(6) r(7) by simp
  have rm3: "room s3 1" using room_insert(1) [OF d3 h3, of 1] assms(2) by (simp add: numeral_2_eq_2)
  have "a \<notin> held s3" "a \<notin> log_region s3" "1 \<le> outstanding s3"
    using nh h3 L(4) [OF da] fs_frame(10,12) [OF f3] e(5) by auto
  from modify_room [OF s3(3) rm3 L(3) [OF da] this, of "\<lambda>_. replicate 512 0"] obtain s4 where s4:
      "bzero s3 1 a = Ok s4" "in_txn s4" "bcontent s4 = (bcontent s3)(a := replicate 512 0)" "held s4 = held s3"
      "dirtyset s4 = insert a (dirtyset s3)" "log_frame s3 s4" by (auto simp: bzero_def)
  have "keeps s s3" by (rule keeps_other [OF bread_keeps [OF e(1) r(1)] logged_other [OF s3(1,2)]])
  then have "keeps s s4" using keeps_trans block_ops_keep(2) [OF s3(3)] s4(1) by (metis bzero_def)
  moreover have "balloc s 1 = Ok (a, s4)"
    using r(1,4) s3(1,2) s4(1) k BBLOCK_bm [OF e(2), of 0] by (simp add: bitmap_loop_one [OF e(2)] Let_def a_def)
  moreover have "log_frame s s4" using log_frame_trans [OF f3 s4(6)] .
  moreover have "bcontent s4 = (bcontent s)(bm s := bmap_set (unat a) ?d, a := replicate 512 0)" using s4(3) s3(4) r(5) ua by simp
  ultimately show ?thesis using nu da s4(2,4,5) h3 d3 nh by auto
qed

section \<open>Freeing\<close>

lemma readsb_in_txn:
  assumes "in_txn s" "avail s 1"
  shows "\<exists>s'. readsb s 1 = Ok (parse_sb (bcontent s 1), s') \<and> in_txn s' \<and> bcontent s' = bcontent s \<and> held s' = held s \<and>
    dirtyset s' = dirtyset s \<and> log_frame s s' \<and> keeps s s'"
proof -
  obtain s' where s': "read_block s 1 1 = Ok (bcontent s 1, s')" "in_txn s'" "bcontent s' = bcontent s" "held s' = held s"
      "dirtyset s' = dirtyset s" "log_frame s s'" using read_block_ok [OF assms] by blast
  moreover have "readsb s 1 = Ok (parse_sb (bcontent s 1), s')" using s'(1) by (auto simp: read_block_def readsb_def Let_def)
  ultimately show ?thesis using block_ops_keep(1) [OF assms(1) s'(1)] by blast
qed

lemma bm_unique:
  fixes b c :: u32
  assumes "fs_layout s" "b < 1000" "c < 1000"
  shows "unat b < 4096" "unat b mod 4096 = unat b" "unat b = unat c \<longleftrightarrow> b = c"
  using assms by (auto simp: word_less_nat_alt word_unat_eq_iff)

lemma bfree_bread:
  assumes "alloc_ok s" "room s 1" "data_block s b"
  obtains bp s1 where "readsb s 1 = Ok (sb s, s1)" "in_txn s1" "bcontent s1 = bcontent s" "held s1 = held s" "dirtyset s1 = dirtyset s"
    "log_frame s s1" "s1\<lparr>sb := sb s\<rparr> = s1" "BBLOCK b (sb s) = bm s" "avail s1 (bm s)" "unat b mod 4096 = unat b" "keeps s s1"
proof -
  have e: "in_txn s" "fs_layout s" "1 \<notin> held s" "bm s \<notin> held s" using assms(1) by (auto simp: alloc_ok_def)
  note L = layout_facts [OF e(2)]
  have "avail s 1" using room_avail [OF assms(2) _ e(3)] by simp
  from readsb_in_txn [OF e(1) this] obtain s1 where s1: "readsb s 1 = Ok (sb s, s1)" "in_txn s1" "bcontent s1 = bcontent s"
      "held s1 = held s" "dirtyset s1 = dirtyset s" "log_frame s s1" "keeps s s1" using e(2) by (auto simp: fs_layout_def)
  have "sb s1 = sb s" using fs_frame(1) [OF s1(6)] .
  then have "s1\<lparr>sb := sb s\<rparr> = s1" by (cases s1) simp
  moreover have "avail s1 (bm s)" using room_avail [OF assms(2) L(1) e(4)] s1(4,5) by (simp add: avail_def)
  ultimately show thesis
    using that s1 BBLOCK_bm [OF e(2) L(3) [OF assms(3)]] bm_unique(2) [OF e(2) L(3) [OF assms(3)] L(3) [OF assms(3)]] by blast
qed

lemma bfree_ok:
  assumes "alloc_ok s" "room s 1" "data_block s b" "used s b"
  shows "\<exists>s'. bfree s 1 b = Ok s' \<and> in_txn s' \<and> bcontent s' = (bcontent s)(bm s := bmap_clear (unat b) (bcontent s (bm s))) \<and>
    held s' = held s \<and> dirtyset s' = insert (bm s) (dirtyset s) \<and> log_frame s s' \<and> keeps s s'"
proof -
  have e: "fs_layout s" "bm s \<notin> held s" "1 \<le> outstanding s" using assms(1) by (auto simp: alloc_ok_def)
  obtain bp0 s1 where s1: "readsb s 1 = Ok (sb s, s1)" "in_txn s1" "bcontent s1 = bcontent s" "held s1 = held s" "dirtyset s1 = dirtyset s"
    "log_frame s s1" "s1\<lparr>sb := sb s\<rparr> = s1" "BBLOCK b (sb s) = bm s" "avail s1 (bm s)" "unat b mod 4096 = unat b" "keeps s s1"
    by (rule bfree_bread [OF assms(1-3)])
  obtain bp s2 where r: "bread s1 1 (bm s) = Ok (bp, s2)" "in_txn s2" "owns s2 bp (bm s)" "b_data (bufs s2 ! bp) = bcontent s (bm s)"
      "bcontent s2 = bcontent s" "held s2 = insert (bm s) (held s)" "dirtyset s2 = dirtyset s" "log_frame s1 s2"
    using bread_in_txn [OF s1(2,9)] s1(3-5) by auto
  have f2: "log_frame s s2" using log_frame_trans [OF s1(6) r(8)] .
  have "room s2 0" using assms(2) r(6,7) by (simp add: room_def card_insert_if)
  moreover have "bm s \<notin> log_region s2" "1 \<le> outstanding s2" using layout_facts(2) [OF e(1)] fs_frame(10,12) [OF f2] e(3) by auto
  moreover have "length (bmap_clear (unat b) (bcontent s (bm s))) = 512" using txn_length [OF r(2)] r(5) by simp
  ultimately obtain s3 s4 where s4: "log_write (set_data s2 bp (bmap_clear (unat b) (bcontent s (bm s)))) bp = Ok s3"
      "brelse s3 bp = Ok s4" "in_txn s4" "bcontent s4 = (bcontent s2)(bm s := bmap_clear (unat b) (bcontent s (bm s)))"
      "held s4 = held s2 - {bm s}" "dirtyset s4 = insert (bm s) (dirtyset s2)" "log_frame s2 s4"
    using change_logged [OF r(2,3)] by blast
  have "bfree s 1 b = Ok s4"
    using s1(1,8,10) r(1,4) s4(1,2) assms(4) by (simp add: bfree_def Let_def used_def s1(7))
  moreover have "keeps s1 s4" by (rule keeps_other [OF bread_keeps [OF s1(2) r(1)] logged_other [OF s4(1,2)]])
  then have "keeps s s4" using keeps_trans s1(11) by blast
  ultimately show ?thesis using s4 r e(2) log_frame_trans [OF f2 s4(7)] by auto
qed

lemma bfree_free:
  assumes "alloc_ok s" "room s 1" "data_block s b" "\<not> used s b"
  shows "bfree s 1 b = Panic ''freeing free block''"
proof -
  obtain bp0 s1 where s1: "readsb s 1 = Ok (sb s, s1)" "in_txn s1" "bcontent s1 = bcontent s" "held s1 = held s" "dirtyset s1 = dirtyset s"
    "log_frame s s1" "s1\<lparr>sb := sb s\<rparr> = s1" "BBLOCK b (sb s) = bm s" "avail s1 (bm s)" "unat b mod 4096 = unat b" "keeps s s1"
    by (rule bfree_bread [OF assms(1-3)])
  obtain bp s2 where r: "bread s1 1 (bm s) = Ok (bp, s2)" "b_data (bufs s2 ! bp) = bcontent s (bm s)"
    using bread_in_txn [OF s1(2,9)] s1(3) by auto
  show ?thesis using s1(1,8,10) r assms(4) by (simp add: bfree_def Let_def used_def s1(7))
qed

text \<open>The allocator's state is kept when some blocks other than the super block change and the bitmap
  still covers what it has to.\<close>

lemma alloc_ok_step:
  assumes "alloc_ok s" "log_frame s s'" "in_txn s'" "held s' = held s" "bcontent s' 1 = bcontent s 1" "\<And>b. b \<le> bm s \<or> b \<in> held s \<Longrightarrow> used s' b"
  shows "alloc_ok s'"
  using assms fs_frame [OF assms(2)] by (auto simp: alloc_ok_def fs_layout_def meta_used_def)

lemma used_change:
  assumes "fs_layout s" "in_txn s" "bm s' = bm s" "b < 1000" "c < 1000"
  shows "bcontent s' (bm s) = bmap_set (unat c) (bcontent s (bm s)) \<Longrightarrow> used s' b = (b = c \<or> used s b)"
    "bcontent s' (bm s) = bmap_clear (unat c) (bcontent s (bm s)) \<Longrightarrow> used s' b = (b \<noteq> c \<and> used s b)"
proof -
  note ch = bmap_bit_change [OF bm_unique(1) [OF assms(1,5,4)] bm_unique(1) [OF assms(1,4,5)] txn_length [OF assms(2)], of "bm s"]
  show "bcontent s' (bm s) = bmap_set (unat c) (bcontent s (bm s)) \<Longrightarrow> used s' b = (b = c \<or> used s b)"
    "bcontent s' (bm s) = bmap_clear (unat c) (bcontent s (bm s)) \<Longrightarrow> used s' b = (b \<noteq> c \<and> used s b)"
    unfolding used_def assms(3) by (simp_all add: ch bm_unique(3) [OF assms(1,4,5)])
qed

lemma balloc_step:
  assumes "alloc_ok s" "room s 2" "b < sb_size (sb s)" "\<not> used s b"
  shows "\<exists>a s'. balloc s 1 = Ok (a, s') \<and> alloc_ok s' \<and> \<not> used s a \<and> data_block s a \<and> a \<notin> held s \<and>
    (\<forall>c<1000. used s' c = (c = a \<or> used s c)) \<and> bcontent s' a = replicate 512 0 \<and>
    (\<forall>c. c \<noteq> a \<longrightarrow> c \<noteq> bm s \<longrightarrow> bcontent s' c = bcontent s c) \<and> held s' = held s \<and>
    dirtyset s' = insert a (insert (bm s) (dirtyset s)) \<and> log_frame s s' \<and> keeps s s'"
proof -
  obtain a s' where a: "balloc s 1 = Ok (a, s')" "\<not> used s a" "data_block s a" "in_txn s'"
    "bcontent s' = (bcontent s)(bm s := bmap_set (unat a) (bcontent s (bm s)), a := replicate 512 0)" "held s' = held s"
    "dirtyset s' = insert a (insert (bm s) (dirtyset s))" "log_frame s s'" "a \<notin> held s" "keeps s s'"
    using balloc_ok [OF assms] by blast
  have e: "fs_layout s" "in_txn s" "meta_used s" "\<forall>b\<in>held s. used s b" using assms(1) by (auto simp: alloc_ok_def)
  note L = layout_facts [OF e(1)]
  have c: "bcontent s' (bm s) = bmap_set (unat a) (bcontent s (bm s))" using a(5) L(5) [OF a(3)] by auto
  have u: "used s' x = (x = a \<or> used s x)" if "x < 1000" for x
    by (rule used_change(1) [OF e(1,2) fs_frame(9) [OF a(8)] that L(3) [OF a(3)] c])
  have "held s \<subseteq> {b. b < 1000}"
    using e(2) wf_bufD(1,6) [OF bio_wfD(6)] wf_bufD(2) [OF bio_wfD(6)] by (fastforce simp: in_txn_def held_def)
  then have "used s' x" if "x \<le> bm s \<or> x \<in> held s" for x
    using that u [of x] e(3,4) L(1) by (auto simp: meta_used_def intro: le_less_trans)
  moreover have "bcontent s' 1 = bcontent s 1" using a(5) L(6) [OF a(3)] L(7) by auto
  ultimately have "alloc_ok s'" using alloc_ok_step [OF assms(1) a(8,4,6)] by blast
  then show ?thesis using a u by auto
qed

lemma bfree_step:
  assumes "alloc_ok s" "room s 1" "data_block s a" "used s a" "a \<notin> held s"
  shows "\<exists>s'. bfree s 1 a = Ok s' \<and> alloc_ok s' \<and> (\<forall>c<1000. used s' c = (c \<noteq> a \<and> used s c)) \<and>
    (\<forall>c. c \<noteq> bm s \<longrightarrow> bcontent s' c = bcontent s c) \<and> held s' = held s \<and> dirtyset s' = insert (bm s) (dirtyset s) \<and> log_frame s s' \<and> keeps s s'"
proof -
  obtain s' where a: "bfree s 1 a = Ok s'" "in_txn s'" "bcontent s' = (bcontent s)(bm s := bmap_clear (unat a) (bcontent s (bm s)))"
    "held s' = held s" "dirtyset s' = insert (bm s) (dirtyset s)" "log_frame s s'" "keeps s s'"
    using bfree_ok [OF assms(1-4)] by blast
  have e: "fs_layout s" "in_txn s" "meta_used s" "\<forall>b\<in>held s. used s b" using assms(1) by (auto simp: alloc_ok_def)
  note L = layout_facts [OF e(1)]
  have c: "bcontent s' (bm s) = bmap_clear (unat a) (bcontent s (bm s))" using a(3) by simp
  have u: "used s' x = (x \<noteq> a \<and> used s x)" if "x < 1000" for x
    by (rule used_change(2) [OF e(1,2) fs_frame(9) [OF a(6)] that L(3) [OF assms(3)] c])
  have "held s \<subseteq> {b. b < 1000}"
    using e(2) wf_bufD(1,6) [OF bio_wfD(6)] wf_bufD(2) [OF bio_wfD(6)] by (fastforce simp: in_txn_def held_def)
  moreover have "\<not> a \<le> bm s" using assms(3) by (meson data_block_def leD)
  ultimately have "used s' x" if "x \<le> bm s \<or> x \<in> held s" for x
    using that u [of x] e(3,4) L(1) assms(5) by (auto simp: meta_used_def intro: le_less_trans)
  moreover have "bcontent s' 1 = bcontent s 1" using a(3) L(7) by auto
  ultimately have "alloc_ok s'" using alloc_ok_step [OF assms(1) a(6,2,4)] by blast
  then show ?thesis using a u by auto
qed

section \<open>Properties\<close>

text \<open>C18: The block allocator is correct. \<^verbatim>\<open>balloc\<close> panics exactly when the bitmap is full; otherwise it
  returns a data block that was free, zeroed and now marked, with every other bit and every other
  block as before. \<^verbatim>\<open>bfree\<close> of that block restores the bitmap, and freeing it again is caught by the
  panic.\<close>

theorem balloc_bfree_correct:
  assumes "alloc_ok s" "room s 3"
  shows "((\<forall>b. b < sb_size (sb s) \<longrightarrow> used s b) \<longrightarrow> balloc s 1 = Panic ''balloc: out of blocks'') \<and>
    ((\<exists>b. b < sb_size (sb s) \<and> \<not> used s b) \<longrightarrow>
       (\<exists>a s' s''. balloc s 1 = Ok (a, s') \<and> \<not> used s a \<and> data_block s a \<and> bcontent s' a = replicate BSIZE 0 \<and>
          (\<forall>c<1000. used s' c = (c = a \<or> used s c)) \<and> (\<forall>c. c \<noteq> a \<longrightarrow> c \<noteq> bm s \<longrightarrow> bcontent s' c = bcontent s c) \<and>
          bfree s' 1 a = Ok s'' \<and> (\<forall>c<1000. used s'' c = used s c) \<and> bfree s'' 1 a = Panic ''freeing free block''))"
proof (intro conjI impI)
  show "balloc s 1 = Panic ''balloc: out of blocks''" if "\<forall>b. b < sb_size (sb s) \<longrightarrow> used s b"
    using balloc_full [OF assms(1) room_mono [OF assms(2)]] that by simp
next
  assume "\<exists>b. b < sb_size (sb s) \<and> \<not> used s b"
  then obtain b where b: "b < sb_size (sb s)" "\<not> used s b" by blast
  obtain a s' where a: "balloc s 1 = Ok (a, s')" "alloc_ok s'" "\<not> used s a" "data_block s a" "a \<notin> held s"
    "\<forall>c<1000. used s' c = (c = a \<or> used s c)" "bcontent s' a = replicate 512 0"
    "\<forall>c. c \<noteq> a \<longrightarrow> c \<noteq> bm s \<longrightarrow> bcontent s' c = bcontent s c" "held s' = held s"
    "dirtyset s' = insert a (insert (bm s) (dirtyset s))" "log_frame s s'"
    using balloc_step [OF assms(1) room_mono [OF assms(2)] b] by auto
  have lay: "fs_layout s" using assms(1) by (simp add: alloc_ok_def)
  have a1000: "a < 1000" using layout_facts(3) [OF lay a(4)] .
  have "card (insert a (insert (bm s) (dirtyset s))) \<le> Suc (Suc (card (dirtyset s)))" by (simp add: card_insert_if)
  then have rm: "room s' 1" using assms(2) a(9,10) by (simp add: room_def)
  have bm': "bm s' = bm s" "data_block s' a" using fs_frame(1,9) [OF a(11)] a(4) by (simp_all add: data_block_def)
  obtain s'' where s'': "bfree s' 1 a = Ok s''" "alloc_ok s''" "\<forall>c<1000. used s'' c = (c \<noteq> a \<and> used s' c)" "held s'' = held s'"
     "dirtyset s'' = insert (bm s') (dirtyset s')" "log_frame s' s''"
    using bfree_step [OF a(2) rm bm'(2)] a(5,6,9) a1000 by auto
  have "room s'' 1" using room_insert(2) [OF s''(5,4) _ rm] a(10) bm'(1) by simp
  moreover have "data_block s'' a" using fs_frame(1,9) [OF s''(6)] bm'(2) by (simp add: data_block_def)
  ultimately have "bfree s'' 1 a = Panic ''freeing free block''" using bfree_free [OF s''(2)] s''(3) a1000 by blast
  moreover have "\<forall>c<1000. used s'' c = used s c" using s''(3) a(3,6) by auto
  ultimately show "\<exists>a s' s''. balloc s 1 = Ok (a, s') \<and> \<not> used s a \<and> data_block s a \<and> bcontent s' a = replicate BSIZE 0 \<and>
          (\<forall>c<1000. used s' c = (c = a \<or> used s c)) \<and> (\<forall>c. c \<noteq> a \<longrightarrow> c \<noteq> bm s \<longrightarrow> bcontent s' c = bcontent s c) \<and>
          bfree s' 1 a = Ok s'' \<and> (\<forall>c<1000. used s'' c = used s c) \<and> bfree s'' 1 a = Panic ''freeing free block''"
    using a s''(1) by blast
qed

text \<open>A small file system as mkfs makes it: 1000 blocks, the log at 2, inodes at 32, the bitmap at 58; the
  root directory is inode 1 with its entries in block 59. One operation has begun.\<close>

definition demo_sb :: block where
  "demo_sb = put32 24 58 (put32 20 32 (put32 16 2 (put32 12 30 (put32 8 200 (put32 4 941 (put32 0 1000 (replicate 512 0)))))))"

definition demo_root :: dinode where
  "demo_root = \<lparr>d_type = T_DIR, d_major = 0, d_minor = 0, d_nlink = 1, d_size = 32, d_addrs = 59 # replicate 12 0\<rparr>"

definition demo_dir :: "byte list" where
  "demo_dir = put_dirent \<lparr>de_inum = 1, de_name = strncpy (str ''.'') DIRSIZ\<rparr> @ put_dirent \<lparr>de_inum = 1, de_name = strncpy (str ''..'') DIRSIZ\<rparr>"

definition demo_image :: "u32 \<Rightarrow> block" where
  "demo_image n = (if n = 1 then demo_sb else if n = 32 then put_dinode 64 demo_root (replicate 512 0)
     else if n = 58 then replicate 7 0xff @ 0x0f # replicate 504 0
     else if n = 59 then demo_dir @ replicate 480 0 else replicate 512 0)"

definition no_inode :: inode where
  "no_inode = \<lparr>i_dev = 0, i_inum = 0, i_ref = 0, i_locked = False, i_valid = False, i_type = 0, i_major = 0, i_minor = 0,
     i_nlink = 0, i_size = 0, i_addrs = replicate 13 0\<rparr>"

definition demo_boot :: "fsst" where
  "demo_boot = \<lparr>image = (\<lambda>d n. demo_image n), dwrites = [], havedisk1 = True, bufs = [], lru = [], log_start = 2, log_size = 30,
     outstanding = 1, committing = False, log_dev = 1, lh_n = 0, lh_block = replicate 30 0, sb = parse_sb demo_sb,
     inodes = replicate 50 no_inode, cons = demo_console, devsw_read = replicate 10 None, devsw_write = replicate 10 None,
     my_killed = False, my_cwd = 0\<rparr>"

definition demo_fs :: "fsst" where
  "demo_fs = binit demo_boot"

lemma length_demo [simp]: "length (demo_image n) = 512"
  by (simp add: demo_image_def demo_sb_def get_put_dinode(1) demo_root_def demo_dir_def put_dirent_def)

lemma demo_sb_fields: "parse_sb demo_sb = \<lparr>sb_size = 1000, sb_nblocks = 941, sb_ninodes = 200, sb_nlog = 30, sb_logstart = 2,
   sb_inodestart = 32, sb_bmapstart = 58\<rparr>"
  by (simp add: parse_sb_def demo_sb_def get_put_field_other)

lemma demo_fs_txn: "in_txn demo_fs" "held demo_fs = {}" "dirtyset demo_fs = {}" "bcontent demo_fs = demo_image"
proof -
  have dk: "disk demo_boot 1 n = demo_image n" for n by (simp add: demo_boot_def disk_def disk_get_def)
  have "get32 0 (demo_image 2) = 0" by (simp add: demo_image_def get32_def get_bytes_def word32_def)
  then show "in_txn demo_fs" "held demo_fs = {}" "dirtyset demo_fs = {}" "bcontent demo_fs = demo_image"
    using binit_in_txn [of demo_boot] dk by (auto simp: demo_fs_def demo_boot_def)
qed

lemma demo_fs_fields:
  "sb demo_fs = parse_sb demo_sb" "outstanding demo_fs = 1" "inodes demo_fs = replicate 50 no_inode" "log_start demo_fs = 2" "bm demo_fs = 58"
  "cons demo_fs = demo_console" "my_cwd demo_fs = 0" "\<not> committing demo_fs" "\<not> my_killed demo_fs"
  by (simp_all add: demo_fs_def demo_boot_def binit_def bm_def demo_sb_fields)

lemma demo_bits:
  assumes "k < 8"
  shows "bit (255 :: byte) k" "bit (15 :: byte) k \<longleftrightarrow> k < 4"
proof -
  have "k \<in> {0, 1, 2, 3, 4, 5, 6, 7}" using assms by auto
  then show "bit (255 :: byte) k" "bit (15 :: byte) k \<longleftrightarrow> k < 4" by (auto simp: bit_simps)
qed

lemma demo_used:
  assumes "b < 1000"
  shows "used demo_fs b \<longleftrightarrow> b < 60"
proof -
  let ?l = "replicate 7 (0xff :: byte) @ 0x0f # replicate 504 0"
  have u: "unat b < 1000" using assms by (simp add: word_less_nat_alt)
  have "used demo_fs b \<longleftrightarrow> bit (?l ! (unat b div 8)) (unat b mod 8)"
    by (simp add: used_def demo_fs_fields demo_fs_txn bmap_bit_bit demo_image_def)
  moreover consider "unat b div 8 < 7" | "unat b div 8 = 7" | "7 < unat b div 8" "unat b div 8 - 8 < 504" using u by linarith
  then have "bit (?l ! (unat b div 8)) (unat b mod 8) \<longleftrightarrow> unat b < 60"
  proof cases
    case 1
    then show ?thesis using demo_bits(1) [of "unat b mod 8"] by (simp add: nth_append)
  next
    case 2
    then show ?thesis using demo_bits(2) [of "unat b mod 8"] mult_div_mod_eq [of 8 "unat b"] by (simp add: nth_append) linarith
  next
    case 3
    then have "?l ! (unat b div 8) = 0" by (simp add: nth_append nth_Cons')
    then show ?thesis using 3 by simp
  qed
  ultimately show ?thesis by (simp add: word_less_nat_alt)
qed

lemma demo_alloc_ok: "alloc_ok demo_fs" "room demo_fs 12"
proof -
  have "used demo_fs b" if "b \<le> 58" for b
    using demo_used [of b] that by (simp add: word_le_nat_alt word_less_nat_alt)
  then have "meta_used demo_fs" by (simp add: meta_used_def demo_fs_fields)
  moreover have "fs_layout demo_fs"
    by (simp add: fs_layout_def demo_fs_fields demo_fs_txn demo_sb_fields demo_image_def)
  ultimately show "alloc_ok demo_fs" by (simp add: alloc_ok_def demo_fs_fields demo_fs_txn)
  show "room demo_fs 12" by (simp add: room_def demo_fs_txn)
qed

theorem balloc_bfree_correct_witness:
  "\<exists>a s' s''. balloc demo_fs 1 = Ok (a, s') \<and> \<not> used demo_fs a \<and> 59 < a \<and> bcontent s' a = replicate 512 0 \<and> used s' a \<and>
     bfree s' 1 a = Ok s'' \<and> \<not> used s'' a \<and> bfree s'' 1 a = Panic ''freeing free block''"
proof -
  have "room demo_fs 3" using room_mono [OF demo_alloc_ok(2)] by simp
  moreover have "60 < sb_size (sb demo_fs)" "\<not> used demo_fs 60" using demo_used [of 60] by (simp_all add: demo_fs_fields demo_sb_fields)
  ultimately obtain a s' s'' where a: "balloc demo_fs 1 = Ok (a, s')" "\<not> used demo_fs a" "data_block demo_fs a" "bcontent s' a = replicate 512 0"
     "\<forall>c<1000. used s' c = (c = a \<or> used demo_fs c)" "bfree s' 1 a = Ok s''" "\<forall>c<1000. used s'' c = used demo_fs c"
     "bfree s'' 1 a = Panic ''freeing free block''"
    using balloc_bfree_correct [OF demo_alloc_ok(1)] by blast
  have "a < 1000" using a(3) by (simp add: data_block_def demo_fs_fields demo_sb_fields)
  moreover from this have "59 < a" using a(2) demo_used [of a] by (simp add: word_less_nat_alt)
  ultimately show ?thesis using a by metis
qed

end
