(* ===== verification/FsFile.thy ===== *)
theory FsFile
  imports FsAlloc
begin

text \<open>
  File contents: the block map of an inode as an injective function into allocated data blocks, \<^verbatim>\<open>bmap\<close>
  as its extension by a fresh block, and \<^verbatim>\<open>readi\<close> and \<^verbatim>\<open>writei\<close> as reading and overwriting a byte
  string. The accounting shows that a write of \<open>n\<close> blocks logs at most \<open>n + 3\<close> blocks.
\<close>

section \<open>The block map\<close>

definition faddr :: "(u32 \<Rightarrow> block) \<Rightarrow> u32 list \<Rightarrow> nat \<Rightarrow> u32" where
  "faddr C as bn =
     (if bn < NDIRECT then as ! bn
      else if as ! NDIRECT = 0 then 0 else get32 (4 * (bn - NDIRECT)) (C (as ! NDIRECT)))"

text \<open>The blocks of the map are pairwise different and have the property \<open>U\<close>.\<close>

definition map_ok :: "(u32 \<Rightarrow> block) \<Rightarrow> (u32 \<Rightarrow> bool) \<Rightarrow> u32 list \<Rightarrow> bool" where
  "map_ok C U as \<longleftrightarrow> length as = 13 \<and>
     (\<forall>m<MAXFILE. faddr C as m \<noteq> 0 \<longrightarrow> U (faddr C as m) \<and> faddr C as m \<noteq> as ! NDIRECT) \<and>
     (as ! NDIRECT \<noteq> 0 \<longrightarrow> U (as ! NDIRECT)) \<and>
     (\<forall>m<MAXFILE. \<forall>k<MAXFILE. faddr C as m \<noteq> 0 \<and> faddr C as m = faddr C as k \<longrightarrow> m = k)"

lemma map_okD:
  assumes "map_ok C U as"
  shows "length as = 13" "\<And>m. m < 140 \<Longrightarrow> faddr C as m \<noteq> 0 \<Longrightarrow> U (faddr C as m)"
    "\<And>m. m < 140 \<Longrightarrow> faddr C as m \<noteq> 0 \<Longrightarrow> faddr C as m \<noteq> as ! 12" "as ! 12 \<noteq> 0 \<Longrightarrow> U (as ! 12)"
    "\<And>m k. m < 140 \<Longrightarrow> k < 140 \<Longrightarrow> faddr C as m \<noteq> 0 \<Longrightarrow> faddr C as m = faddr C as k \<Longrightarrow> m = k"
  using assms unfolding map_ok_def by blast+

lemma get32_zeros: "off + 4 \<le> n \<Longrightarrow> get32 off (replicate n 0) = 0"
proof -
  assume "off + 4 \<le> n"
  then have "get_bytes off 4 (replicate n (0 :: byte)) = replicate 4 0" by (simp add: get_bytes_def)
  then show ?thesis by (simp add: get32_def word32_def)
qed

lemma faddr_cong: "as ! 12 \<noteq> 0 \<longrightarrow> C' (as ! 12) = C (as ! 12) \<Longrightarrow> faddr C' as m = faddr C as m"
  by (auto simp: faddr_def)

lemma map_ok_cong:
  assumes "map_ok C U as" "as ! 12 \<noteq> 0 \<longrightarrow> C' (as ! 12) = C (as ! 12)" "\<And>b. b \<noteq> 0 \<Longrightarrow> U b \<Longrightarrow> U' b"
  shows "map_ok C' U' as"
  using map_okD [OF assms(1)] assms(3) unfolding map_ok_def faddr_cong [where C = C and C' = C' and as = as, OF assms(2)] by blast

text \<open>A fresh zeroed block in an empty slot.\<close>

lemma map_ok_slot:
  assumes "map_ok C U as" "k \<le> 12" "as ! k = 0" "\<not> U a" "a \<noteq> 0" "C' a = replicate 512 0" "\<And>b. U b \<Longrightarrow> C' b = C b"
    "\<And>b. b = a \<or> U b \<Longrightarrow> U' b"
  shows "m < 140 \<Longrightarrow> faddr C' (as[k := a]) m = (if m = k \<and> k < 12 then a else faddr C as m)" "map_ok C' U' (as[k := a])"
proof -
  note D = map_okD [OF assms(1)]
  have fa: "faddr C' (as[k := a]) m = (if m = k \<and> k < 12 then a else faddr C as m)" if "m < 140" for m
  proof (cases "k = 12")
    case True
    have "get32 (4 * (m - 12)) (replicate 512 0) = 0" using that by (intro get32_zeros) auto
    then show ?thesis using True assms(3,5,6) D(1) by (simp add: faddr_def)
  next
    case False
    then have "k < 12" using assms(2) by simp
    then show ?thesis using assms(7) D(1,4) by (auto simp: faddr_def nth_list_update)
  qed
  then show "m < 140 \<Longrightarrow> faddr C' (as[k := a]) m = (if m = k \<and> k < 12 then a else faddr C as m)" .
  have ind: "as[k := a] ! 12 = (if k = 12 then a else as ! 12)" using D(1) assms(2) by (simp add: nth_list_update)
  show "map_ok C' U' (as[k := a])"
    unfolding map_ok_def
  proof (intro conjI allI impI)
    fix m assume m: "m < 140" "faddr C' (as[k := a]) m \<noteq> 0"
    show "U' (faddr C' (as[k := a]) m)" using m fa [OF m(1)] D(2) assms(8) by auto
    show "faddr C' (as[k := a]) m \<noteq> as[k := a] ! 12"
    proof (cases "m = k \<and> k < 12")
      case True
      then show ?thesis using fa [OF m(1)] ind D(4) assms(4,5) by auto
    next
      case False
      then have "faddr C' (as[k := a]) m = faddr C as m" by (simp only: fa [OF m(1)] if_False)
      then show ?thesis using m D(2) [OF m(1)] D(3) [OF m(1)] assms(4) ind by (cases "k = 12") auto
    qed
  next
    fix m j assume mj: "m < 140" "j < 140" "faddr C' (as[k := a]) m \<noteq> 0 \<and> faddr C' (as[k := a]) m = faddr C' (as[k := a]) j"
    then show "m = j" using fa [OF mj(1)] fa [OF mj(2)] D(2,5) assms(4) by (metis (full_types))
  next
    show "length (as[k := a]) = 13" using D(1) by simp
    show "as[k := a] ! 12 \<noteq> 0 \<Longrightarrow> U' (as[k := a] ! 12)" using ind D(4) assms(8) by auto
  qed
qed

text \<open>A fresh block in an empty entry of the indirect block.\<close>

lemma map_ok_indirect:
  assumes "map_ok C U as" "as ! 12 \<noteq> 0" "j < 128" "faddr C as (12 + j) = 0" "\<not> U a" "a \<noteq> 0" "length (C (as ! 12)) = 512"
    "C' (as ! 12) = put32 (4 * j) a (C (as ! 12))" "\<And>b. b = a \<or> U b \<Longrightarrow> U' b"
  shows "m < 140 \<Longrightarrow> faddr C' as m = (if m = 12 + j then a else faddr C as m)" "map_ok C' U' as"
proof -
  note D = map_okD [OF assms(1)]
  have fa: "faddr C' as m = (if m = 12 + j then a else faddr C as m)" if "m < 140" for m
  proof (cases "m < 12 \<or> m = 12 + j")
    case True
    then show ?thesis using assms(2,3,7,8) by (auto simp: faddr_def)
  next
    case False
    then have "get32 (4 * (m - 12)) (put32 (4 * j) a (C (as ! 12))) = get32 (4 * (m - 12)) (C (as ! 12))"
      using assms(3,7) that by (intro get_put_field_other(1)) auto
    then show ?thesis using False assms(2,8) by (auto simp: faddr_def)
  qed
  then show "m < 140 \<Longrightarrow> faddr C' as m = (if m = 12 + j then a else faddr C as m)" .
  have na: "a \<noteq> as ! 12" using D(4) assms(2,5) by blast
  show "map_ok C' U' as"
    unfolding map_ok_def
  proof (intro conjI allI impI)
    fix m assume m: "m < 140" "faddr C' as m \<noteq> 0"
    show "U' (faddr C' as m)" using m fa [OF m(1)] D(2) assms(9) by auto
    show "faddr C' as m \<noteq> as ! 12" using m fa [OF m(1)] D(3) na by (metis (full_types))
  next
    fix m k assume mk: "m < 140" "k < 140" "faddr C' as m \<noteq> 0 \<and> faddr C' as m = faddr C' as k"
    then show "m = k" using fa [OF mk(1)] fa [OF mk(2)] D(2,5) assms(5) by (metis (full_types))
  qed (use D(1,4) assms(9) in auto)
qed

section \<open>Inodes in the state\<close>

text \<open>The block and log layers do not see the inode cache.\<close>

lemma bio_inodes [simp]:
  fixes s :: "'a fsst_scheme"
  shows "bio_wf (s\<lparr>inodes := x\<rparr>) = bio_wf s" "bcontent (s\<lparr>inodes := x\<rparr>) = bcontent s" "held (s\<lparr>inodes := x\<rparr>) = held s"
    "dirtyset (s\<lparr>inodes := x\<rparr>) = dirtyset s" "disk (s\<lparr>inodes := x\<rparr>) = disk s" "owns (s\<lparr>inodes := x\<rparr>) = owns s"
  by (rule bio_view_cong; simp)+

lemma fs_inodes [simp]:
  fixes s :: "'a fsst_scheme"
  shows "log_region (s\<lparr>inodes := x\<rparr>) = log_region s" "log_ok (s\<lparr>inodes := x\<rparr>) = log_ok s" "in_txn (s\<lparr>inodes := x\<rparr>) = in_txn s"
    "bm (s\<lparr>inodes := x\<rparr>) = bm s" "used (s\<lparr>inodes := x\<rparr>) = used s" "fs_layout (s\<lparr>inodes := x\<rparr>) = fs_layout s"
    "meta_used (s\<lparr>inodes := x\<rparr>) = meta_used s" "data_block (s\<lparr>inodes := x\<rparr>) = data_block s" "alloc_ok (s\<lparr>inodes := x\<rparr>) = alloc_ok s"
    "room (s\<lparr>inodes := x\<rparr>) = room s"
proof -
  show r: "log_region (s\<lparr>inodes := x\<rparr>) = log_region s" by (simp add: log_region_def log_blk_def)
  show o: "log_ok (s\<lparr>inodes := x\<rparr>) = log_ok s" by (simp add: log_ok_def r)
  show t: "in_txn (s\<lparr>inodes := x\<rparr>) = in_txn s" by (simp add: in_txn_def o)
  show b: "bm (s\<lparr>inodes := x\<rparr>) = bm s" by (simp add: bm_def)
  show u: "used (s\<lparr>inodes := x\<rparr>) = used s" by (simp add: used_def b fun_eq_iff)
  show l: "fs_layout (s\<lparr>inodes := x\<rparr>) = fs_layout s" by (simp add: fs_layout_def)
  show m: "meta_used (s\<lparr>inodes := x\<rparr>) = meta_used s" by (simp add: meta_used_def u b)
  show d: "data_block (s\<lparr>inodes := x\<rparr>) = data_block s" by (simp add: data_block_def b fun_eq_iff)
  show "alloc_ok (s\<lparr>inodes := x\<rparr>) = alloc_ok s" by (simp add: alloc_ok_def t l m b u)
  show "room (s\<lparr>inodes := x\<rparr>) = room s" by (simp add: room_def fun_eq_iff)
qed

text \<open>Only the inode cache and the blocks change.\<close>

definition fs_rest :: "'a fsst_scheme \<Rightarrow> 'a fsst_scheme \<Rightarrow> bool" where
  "fs_rest s s' \<longleftrightarrow> log_frame s (s'\<lparr>inodes := inodes s\<rparr>)"

lemma fs_restD:
  assumes "fs_rest s s'"
  shows "sb s' = sb s" "cons s' = cons s" "devsw_read s' = devsw_read s" "devsw_write s' = devsw_write s"
    "my_killed s' = my_killed s" "my_cwd s' = my_cwd s" "fsst.more s' = fsst.more s" "bm s' = bm s" "outstanding s' = outstanding s"
    "log_start s' = log_start s" "log_region s' = log_region s" "data_block s' = data_block s" "committing s' = committing s"
  using fs_frame [OF assms [unfolded fs_rest_def]] by (simp_all add: data_block_def fun_eq_iff)

lemma fs_rest_refl [simp]: "fs_rest s s"
  by (simp add: fs_rest_def)

lemma fs_rest_frame: "log_frame s s' \<Longrightarrow> fs_rest s s'" for s :: "'a fsst_scheme"
  by (cases s, cases s') (simp add: fs_rest_def log_frame_def)

lemma fs_rest_inodes [simp]: "fs_rest s (s\<lparr>inodes := x\<rparr>)" "fs_rest s (s'\<lparr>inodes := x\<rparr>) = fs_rest s s'"
  by (simp_all add: fs_rest_def)

lemma fs_rest_trans: "fs_rest s s' \<Longrightarrow> fs_rest s' s'' \<Longrightarrow> fs_rest s s''"
  by (cases s, cases s', cases s'') (simp add: fs_rest_def log_frame_def)

lemma fs_rest_upd [simp]: "fs_rest s (upd_inode s' i f) = fs_rest s s'"
  by (simp add: upd_inode_def)

text \<open>A block an inode may own: an allocated data block that nobody holds.\<close>

definition owned :: "'a fsst_scheme \<Rightarrow> u32 \<Rightarrow> bool" where
  "owned s b \<longleftrightarrow> data_block s b \<and> used s b \<and> b \<notin> held s"

definition fmap :: "'a fsst_scheme \<Rightarrow> nat \<Rightarrow> nat \<Rightarrow> u32" where
  "fmap s i = faddr (bcontent s) (i_addrs (inodes s ! i))"

definition find_blk :: "'a fsst_scheme \<Rightarrow> nat \<Rightarrow> u32" where
  "find_blk s i = i_addrs (inodes s ! i) ! NDIRECT"

definition inode_ok :: "'a fsst_scheme \<Rightarrow> nat \<Rightarrow> bool" where
  "inode_ok s i \<longleftrightarrow> i < length (inodes s) \<and> i_dev (inodes s ! i) = 1 \<and> unat (i_size (inodes s ! i)) \<le> MAXFILE * BSIZE \<and>
     map_ok (bcontent s) (owned s) (i_addrs (inodes s ! i)) \<and>
     (\<forall>m. m * BSIZE < unat (i_size (inodes s ! i)) \<longrightarrow> fmap s i m \<noteq> 0)"

text \<open>Free blocks.\<close>

definition nfree :: "'a fsst_scheme \<Rightarrow> nat" where
  "nfree s = card {b. b < sb_size (sb s) \<and> \<not> used s b}"

lemma nfree_pos:
  assumes "0 < nfree s"
  obtains b where "b < sb_size (sb s)" "\<not> used s b"
  using assms by (auto simp: nfree_def card_gt_0_iff)

lemma nfree_take:
  assumes "fs_layout s" "sb s' = sb s" "a < sb_size (sb s)" "\<not> used s a" "\<forall>c<1000. used s' c = (c = a \<or> used s c)"
  shows "Suc (nfree s') = nfree s"
proof -
  have "{b. b < sb_size (sb s) \<and> \<not> used s' b} = {b. b < sb_size (sb s) \<and> \<not> used s b} - {a}"
    using assms(5) layout_facts(8) [OF assms(1)] by (auto dest: less_le_trans)
  moreover have "a \<in> {b. b < sb_size (sb s) \<and> \<not> used s b}" using assms(3,4) by simp
  ultimately show ?thesis using assms(2) card.remove [of "{b. b < sb_size (sb s) \<and> \<not> used s b}" a] by (simp add: nfree_def)
qed

text \<open>Log blocks that allocations for inode \<open>i\<close> may still need besides the data blocks: the bitmap and
  the indirect block; and the free block for the latter.\<close>

definition meta_cost :: "'a fsst_scheme \<Rightarrow> nat \<Rightarrow> nat" where
  "meta_cost s i = (if bm s \<in> dirtyset s then 0 else 1) + (if find_blk s i \<noteq> 0 \<and> find_blk s i \<in> dirtyset s then 0 else 1)"

definition free_cost :: "'a fsst_scheme \<Rightarrow> nat \<Rightarrow> nat" where
  "free_cost s i = (if find_blk s i = 0 then 1 else 0)"

section \<open>bmap\<close>

lemma inode_okD:
  assumes "inode_ok s i"
  shows "i < length (inodes s)" "i_dev (inodes s ! i) = 1" "unat (i_size (inodes s ! i)) \<le> 71680"
    "map_ok (bcontent s) (owned s) (i_addrs (inodes s ! i))" "\<And>m. m * 512 < unat (i_size (inodes s ! i)) \<Longrightarrow> fmap s i m \<noteq> 0"
    "length (i_addrs (inodes s ! i)) = 13"
    "\<And>m. m < 140 \<Longrightarrow> fmap s i m \<noteq> 0 \<Longrightarrow> owned s (fmap s i m)" "find_blk s i \<noteq> 0 \<Longrightarrow> owned s (find_blk s i)"
    "\<And>m. m < 140 \<Longrightarrow> fmap s i m \<noteq> 0 \<Longrightarrow> fmap s i m \<noteq> find_blk s i"
    "\<And>m k. m < 140 \<Longrightarrow> k < 140 \<Longrightarrow> fmap s i m \<noteq> 0 \<Longrightarrow> fmap s i m = fmap s i k \<Longrightarrow> m = k"
proof -
  show a: "i < length (inodes s)" "i_dev (inodes s ! i) = 1" "unat (i_size (inodes s ! i)) \<le> 71680"
    "map_ok (bcontent s) (owned s) (i_addrs (inodes s ! i))" "\<And>m. m * 512 < unat (i_size (inodes s ! i)) \<Longrightarrow> fmap s i m \<noteq> 0"
    using assms by (auto simp: inode_ok_def)
  show "length (i_addrs (inodes s ! i)) = 13" "\<And>m. m < 140 \<Longrightarrow> fmap s i m \<noteq> 0 \<Longrightarrow> owned s (fmap s i m)"
    "find_blk s i \<noteq> 0 \<Longrightarrow> owned s (find_blk s i)" "\<And>m. m < 140 \<Longrightarrow> fmap s i m \<noteq> 0 \<Longrightarrow> fmap s i m \<noteq> find_blk s i"
    "\<And>m k. m < 140 \<Longrightarrow> k < 140 \<Longrightarrow> fmap s i m \<noteq> 0 \<Longrightarrow> fmap s i m = fmap s i k \<Longrightarrow> m = k"
    using map_okD [OF a(4)] unfolding fmap_def find_blk_def by blast+
qed

text \<open>Reading needs no transaction of its own.\<close>

definition fs_ok :: "'a fsst_scheme \<Rightarrow> bool" where
  "fs_ok s \<longleftrightarrow> in_txn s \<and> fs_layout s \<and> meta_used s \<and> bm s \<notin> held s \<and> 1 \<notin> held s \<and> (\<forall>b\<in>held s. used s b)"

lemma alloc_ok_iff: "alloc_ok s \<longleftrightarrow> fs_ok s \<and> 1 \<le> outstanding s"
  by (auto simp: alloc_ok_def fs_ok_def)

lemma alloc_fs_ok: "alloc_ok s \<Longrightarrow> fs_ok s"
  by (simp add: alloc_ok_iff)

lemma owned_avail_fs:
  assumes "fs_ok s" "room s k" "owned s b"
  shows "avail s b" "b < 1000" "b \<notin> held s" "b \<notin> log_region s" "b \<noteq> bm s" "b \<noteq> 0" "b \<noteq> 1"
proof -
  have l: "fs_layout s" "data_block s b" "b \<notin> held s" using assms(1,3) by (auto simp: fs_ok_def owned_def)
  note L = layout_facts [OF l(1)]
  show "avail s b" using room_avail [OF assms(2) L(3) [OF l(2)] l(3)] .
  show "b < 1000" "b \<notin> held s" "b \<notin> log_region s" "b \<noteq> bm s" "b \<noteq> 0" "b \<noteq> 1"
    using L(3,4,5,6,10) [OF l(2)] l(3) by auto
qed

lemmas owned_avail = owned_avail_fs [OF alloc_fs_ok]

text \<open>Allocating a block for a slot of the inode.\<close>

lemma slot_alloc:
  assumes "alloc_ok s" "inode_ok s i" "room s 2" "0 < nfree s" "k \<le> 12" "i_addrs (inodes s ! i) ! k = 0"
  shows "\<exists>a s'. addr_or_alloc s i k = Ok (a, s') \<and> alloc_ok s' \<and> inode_ok s' i \<and> fs_rest s s' \<and>
    inodes s' = (inodes s)[i := (inodes s ! i)\<lparr>i_addrs := (i_addrs (inodes s ! i))[k := a]\<rparr>] \<and>
    (\<forall>m<140. fmap s' i m = (if m = k \<and> k < 12 then a else fmap s i m)) \<and> owned s' a \<and> \<not> used s a \<and> bcontent s' a = replicate 512 0 \<and>
    (\<forall>c. c \<noteq> a \<longrightarrow> c \<noteq> bm s \<longrightarrow> bcontent s' c = bcontent s c) \<and> (\<forall>c<1000. used s' c = (c = a \<or> used s c)) \<and> held s' = held s \<and>
    dirtyset s' = insert a (insert (bm s) (dirtyset s)) \<and> Suc (nfree s') = nfree s"
proof -
  note I = inode_okD [OF assms(2)]
  obtain b where b: "b < sb_size (sb s)" "\<not> used s b" by (rule nfree_pos [OF assms(4)])
  obtain a s1 where a: "balloc s 1 = Ok (a, s1)" "alloc_ok s1" "\<not> used s a" "data_block s a" "a \<notin> held s"
    "\<forall>c<1000. used s1 c = (c = a \<or> used s c)" "bcontent s1 a = replicate 512 0"
    "\<forall>c. c \<noteq> a \<longrightarrow> c \<noteq> bm s \<longrightarrow> bcontent s1 c = bcontent s c" "held s1 = held s"
    "dirtyset s1 = insert a (insert (bm s) (dirtyset s))" "log_frame s s1"
    using balloc_step [OF assms(1,3) b] by auto
  have lay: "fs_layout s" using assms(1) by (simp add: alloc_ok_def)
  note L = layout_facts [OF lay] and F = fs_frame [OF a(11)]
  let ?as = "i_addrs (inodes s ! i)"
  define s' where "s' = set_addr s1 i k a"
  have ino: "inodes s' = (inodes s)[i := (inodes s ! i)\<lparr>i_addrs := ?as[k := a]\<rparr>]" using F(2) by (simp add: s'_def set_addr_def upd_inode_def)
  have v: "bcontent s' = bcontent s1" "used s' = used s1" "held s' = held s1" "data_block s' = data_block s" "dirtyset s' = dirtyset s1" "alloc_ok s' = alloc_ok s1"
    "sb s' = sb s" using F(1,9) by (simp_all add: s'_def set_addr_def upd_inode_def data_block_def fun_eq_iff)
  have call: "addr_or_alloc s i k = Ok (a, s')" using a(1) assms(6) I(2) F(2) by (simp add: addr_or_alloc_def s'_def)
  have keep: "owned s' c" if "c = a \<or> owned s c" for c
    using that a(4,5,6,9) v L(3) by (auto simp: owned_def)
  have same: "bcontent s' c = bcontent s c" if "owned s c" for c
  proof -
    have "c \<noteq> a" "c \<noteq> bm s" using that a(3) L(5) by (auto simp: owned_def)
    then show ?thesis using a(8) v(1) by simp
  qed
  have na: "\<not> owned s a" "a \<noteq> 0" using a(3) L(10) [OF a(4)] by (auto simp: owned_def)
  have z: "bcontent s' a = replicate 512 0" using v(1) a(7) by simp
  note M = map_ok_slot [OF I(4) assms(5,6) na z same keep]
  have as': "i_addrs (inodes s' ! i) = ?as[k := a]" "i_dev (inodes s' ! i) = 1" "i_size (inodes s' ! i) = i_size (inodes s ! i)" "i < length (inodes s')"
    using ino I(1,2) by simp_all
  have fm: "fmap s' i m = (if m = k \<and> k < 12 then a else fmap s i m)" if "m < 140" for m
    using M(1) [OF _ _ that] as' by (auto simp: fmap_def)
  have "fmap s' i m \<noteq> 0" if "m * 512 < unat (i_size (inodes s ! i))" for m
  proof -
    have "m < 140" using that I(3) by simp
    then show ?thesis using fm I(5) [OF that] na(2) by auto
  qed
  moreover have "map_ok (bcontent s') (owned s') (?as[k := a])" by (rule M(2))
  ultimately have "inode_ok s' i" using as' I(3) by (simp add: inode_ok_def)
  moreover have "Suc (nfree s') = nfree s"
    using nfree_take [OF lay v(7), of a] a(3,4,6) v(2) by (simp add: data_block_def)
  moreover have "fs_rest s s'" using fs_rest_frame [OF a(11)] by (simp add: s'_def set_addr_def)
  moreover have "owned s' a" using keep by blast
  ultimately show ?thesis using call ino fm a v z by auto
qed

text \<open>A change of nothing but cached copies.\<close>

definition same_view :: "'a fsst_scheme \<Rightarrow> 'a fsst_scheme \<Rightarrow> bool" where
  "same_view s s' \<longleftrightarrow> in_txn s' \<and> bcontent s' = bcontent s \<and> held s' = held s \<and> dirtyset s' = dirtyset s \<and> log_frame s s'"

lemma same_view_facts:
  assumes "same_view s s'"
  shows "used s' = used s" "owned s' = owned s" "data_block s' = data_block s" "room s' = room s" "fmap s' = fmap s" "find_blk s' = find_blk s"
    "inode_ok s' = inode_ok s" "fs_ok s \<Longrightarrow> fs_ok s'" "nfree s' = nfree s" "meta_cost s' = meta_cost s" "free_cost s' = free_cost s" "inodes s' = inodes s"
proof -
  have v: "in_txn s'" "bcontent s' = bcontent s" "held s' = held s" "dirtyset s' = dirtyset s" "log_frame s s'" using assms by (auto simp: same_view_def)
  note F = fs_frame [OF v(5)]
  show u: "used s' = used s" using v(2) F(9) by (simp add: used_def fun_eq_iff)
  show d: "data_block s' = data_block s" using F(1,9) by (simp add: data_block_def fun_eq_iff)
  show o: "owned s' = owned s" using u d v(3) by (simp add: owned_def fun_eq_iff)
  show "room s' = room s" using v(3,4) by (simp add: room_def fun_eq_iff)
  show f: "fmap s' = fmap s" "find_blk s' = find_blk s" by (intro ext, simp add: fmap_def find_blk_def v(2) F(2))+
  show "inode_ok s' = inode_ok s" by (intro ext) (simp add: inode_ok_def v(2) F(2) o f)
  have "fs_layout s' = fs_layout s" by (simp add: fs_layout_def v(2) F(1,11))
  then show "fs_ok s \<Longrightarrow> fs_ok s'" using v F(9) u by (simp add: fs_ok_def meta_used_def)
  show "nfree s' = nfree s" using u F(1) by (simp add: nfree_def)
  show "meta_cost s' = meta_cost s" "free_cost s' = free_cost s" using v(4) F(9) f by (simp_all add: meta_cost_def free_cost_def fun_eq_iff)
  show "inodes s' = inodes s" by (rule F(2))
qed

lemma same_view_refl: "in_txn s \<Longrightarrow> same_view s s"
  by (simp add: same_view_def)

lemma same_view_trans: "same_view s s' \<Longrightarrow> same_view s' s'' \<Longrightarrow> same_view s s''"
  using log_frame_trans by (auto simp: same_view_def)

lemma read_view:
  assumes "fs_ok s" "room s k" "owned s b"
  shows "\<exists>s'. read_block s 1 b = Ok (bcontent s b, s') \<and> same_view s s'"
  using read_block_ok [of s b] owned_avail_fs(1) [OF assms] assms(1) by (auto simp: same_view_def fs_ok_def)

lemma indirect_existing:
  assumes "fs_ok s" "inode_ok s i" "room s 0" "find_blk s i \<noteq> 0" "k < 128" "fmap s i (12 + k) \<noteq> 0"
  shows "\<exists>s'. bmap_indirect s i (find_blk s i) k = Ok (fmap s i (12 + k), s') \<and> same_view s s'"
proof -
  note I = inode_okD [OF assms(2)]
  obtain s' where s': "read_block s 1 (find_blk s i) = Ok (bcontent s (find_blk s i), s')" "same_view s s'"
    using read_view [OF assms(1,3) I(8) [OF assms(4)]] by blast
  from s'(1) obtain bp s1 where r: "bread s 1 (find_blk s i) = Ok (bp, s1)" "b_data (bufs s1 ! bp) = bcontent s (find_blk s i)" "brelse s1 bp = Ok s'"
    by (auto simp: read_block_def Let_def)
  have "get32 (4 * k) (bcontent s (find_blk s i)) = fmap s i (12 + k)" using assms(4) by (simp add: fmap_def faddr_def find_blk_def)
  with r assms(6) I(2) show ?thesis using s'(2) by (simp add: bmap_indirect_def Let_def)
qed

lemma indirect_alloc:
  assumes "alloc_ok s" "inode_ok s i" "room s 3" "0 < nfree s" "find_blk s i \<noteq> 0" "k < 128" "fmap s i (12 + k) = 0"
  shows "\<exists>a s'. bmap_indirect s i (find_blk s i) k = Ok (a, s') \<and> alloc_ok s' \<and> inode_ok s' i \<and> fs_rest s s' \<and> inodes s' = inodes s \<and>
    (\<forall>m<140. fmap s' i m = (if m = 12 + k then a else fmap s i m)) \<and> owned s' a \<and> \<not> used s a \<and> bcontent s' a = replicate 512 0 \<and>
    (\<forall>c. c \<noteq> a \<longrightarrow> c \<noteq> bm s \<longrightarrow> c \<noteq> find_blk s i \<longrightarrow> bcontent s' c = bcontent s c) \<and> (\<forall>c<1000. used s' c = (c = a \<or> used s c)) \<and> held s' = held s \<and>
    dirtyset s' = insert (find_blk s i) (insert a (insert (bm s) (dirtyset s))) \<and> Suc (nfree s') = nfree s"
proof -
  note I = inode_okD [OF assms(2)]
  let ?q = "find_blk s i"
  have e: "in_txn s" "fs_layout s" "meta_used s" "1 \<le> outstanding s" "bm s \<notin> held s" "1 \<notin> held s" "\<forall>b\<in>held s. used s b"
    using assms(1) by (auto simp: alloc_ok_def)
  note O = owned_avail [OF assms(1,3) I(8) [OF assms(5)]]
  obtain bp s1 where r: "bread s 1 ?q = Ok (bp, s1)" "in_txn s1" "owns s1 bp ?q" "b_data (bufs s1 ! bp) = bcontent s ?q"
      "bcontent s1 = bcontent s" "held s1 = insert ?q (held s)" "dirtyset s1 = dirtyset s" "log_frame s s1"
    using bread_in_txn [OF e(1) O(1)] by blast
  note F1 = fs_frame [OF r(8)]
  have u1: "used s1 = used s" "nfree s1 = nfree s" using r(5) F1(1,9) by (simp_all add: used_def nfree_def fun_eq_iff)
  have lay1: "fs_layout s1" using e(2) unfolding fs_layout_def r(5) F1(1,11) .
  have uq: "used s ?q" using I(8) [OF assms(5)] by (simp add: owned_def)
  have a1: "alloc_ok s1" unfolding alloc_ok_def meta_used_def
    using r(2,6) lay1 e(3-7) u1(1) F1(9,10) O(5,7) uq by (auto simp: meta_used_def)
  have room1: "room s1 2" using assms(3) r(6,7) by (simp add: room_def card_insert_if)
  obtain b where b: "b < sb_size (sb s1)" "\<not> used s1 b" by (rule nfree_pos [of s1]) (use u1(2) assms(4) in auto)
  obtain a s2 where a: "balloc s1 1 = Ok (a, s2)" "alloc_ok s2" "\<not> used s1 a" "data_block s1 a" "a \<notin> held s1"
    "\<forall>c<1000. used s2 c = (c = a \<or> used s1 c)" "bcontent s2 a = replicate 512 0"
    "\<forall>c. c \<noteq> a \<longrightarrow> c \<noteq> bm s1 \<longrightarrow> bcontent s2 c = bcontent s1 c" "held s2 = held s1"
    "dirtyset s2 = insert a (insert (bm s1) (dirtyset s1))" "log_frame s1 s2" "keeps s1 s2"
    using balloc_step [OF a1 room1 b] by auto
  have db: "data_block s = data_block s1" using F1(1,9) by (simp add: data_block_def fun_eq_iff)
  have o2: "owns s2 bp ?q" "b_data (bufs s2 ! bp) = bcontent s ?q" using a(12) r(3,4) by (auto simp: keeps_def)
  have qa: "?q \<noteq> a" using a(3) u1(1) uq by auto
  have t2: "in_txn s2" using a(2) by (simp add: alloc_ok_def)
  define d where "d = put32 (4 * k) a (bcontent s ?q)"
  have len: "length d = 512" using assms(6) e(1) by (simp add: d_def)
  note F2 = fs_frame [OF a(11)]
  have "card (dirtyset s2) \<le> Suc (Suc (card (dirtyset s)))" using a(10) r(7) by (simp add: card_insert_if)
  moreover have "card (held s2) = Suc (card (held s))" using a(9) r(6) O(3) by simp
  ultimately have rm2: "room s2 0" using assms(3) by (simp add: room_def)
  have "?q \<notin> log_region s2" "1 \<le> outstanding s2" using O(4) F1(10,12) F2(10,12) e(4) by auto
  from change_logged [OF t2 o2(1) rm2 this len] obtain s3 s4 where s4: "log_write (set_data s2 bp d) bp = Ok s3"
      "brelse s3 bp = Ok s4" "in_txn s4" "bcontent s4 = (bcontent s2)(?q := d)" "held s4 = held s2 - {?q}"
      "dirtyset s4 = insert ?q (dirtyset s2)" "log_frame s2 s4" by blast
  have fr: "log_frame s s4" using log_frame_trans [OF log_frame_trans [OF r(8) a(11)] s4(7)] .
  note F4 = fs_frame [OF fr]
  have "fmap s i (12 + k) = get32 (4 * k) (bcontent s ?q)" using assms(5) by (simp add: fmap_def faddr_def find_blk_def)
  then have call: "bmap_indirect s i ?q k = Ok (a, s4)"
    using r(1,4) assms(7) I(2) a(1) o2(2) s4(1,2) F1(2) by (simp add: bmap_indirect_def Let_def d_def)
  have h4: "held s4 = held s" using s4(5) a(9) r(6) O(3) by auto
  have bmq: "bm s \<noteq> ?q" "bm s1 = bm s" using O(5) F1(9) by auto
  have "bcontent s4 (bm s4) = bcontent s2 (bm s2)" using s4(4) F4(9) F2(9) bmq by simp
  then have u4: "\<forall>c<1000. used s4 c = (c = a \<or> used s c)" using a(6) u1(1) by (simp add: used_def)
  have ne1: "a \<noteq> 1" "bm s \<noteq> 1" using layout_facts(6) [OF lay1 a(4)] layout_facts(7) [OF e(2)] by auto
  have c1: "bcontent s4 1 = bcontent s 1" using s4(4) a(8) r(5) ne1 bmq O(7) by auto
  have hlt: "c < 1000" if "c \<in> held s" for c
    using that e(1) wf_bufD(1,6) [OF bio_wfD(6)] wf_bufD(2) [OF bio_wfD(6)] by (fastforce simp: in_txn_def held_def)
  have a4: "alloc_ok s4"
  proof (rule alloc_ok_step [OF assms(1) fr s4(3) h4 c1])
    show "used s4 c" if "c \<le> bm s \<or> c \<in> held s" for c
      using that u4 e(3,7) hlt layout_facts(1) [OF e(2)] by (auto simp: meta_used_def intro: le_less_trans)
  qed
  have db4: "data_block s4 = data_block s" using F4(1,9) by (simp add: data_block_def fun_eq_iff)
  have keep: "owned s4 c" if "c = a \<or> owned s c" for c
    using that u4 h4 a(4,5) r(6) db db4 layout_facts(3) [OF e(2)] by (auto simp: owned_def)
  have na: "\<not> owned s a" "a \<noteq> 0" using a(3) u1(1) layout_facts(10) [OF lay1 a(4)] by (auto simp: owned_def)
  have ino: "inodes s4 = inodes s" using F4(2) .
  have cq: "bcontent s4 (i_addrs (inodes s ! i) ! 12) = put32 (4 * k) a (bcontent s (i_addrs (inodes s ! i) ! 12))"
    using s4(4) by (simp add: d_def find_blk_def)
  have "faddr (bcontent s) (i_addrs (inodes s ! i)) (12 + k) = 0" "i_addrs (inodes s ! i) ! 12 \<noteq> 0"
    using assms(5,7) by (simp_all add: fmap_def find_blk_def)
  note M = map_ok_indirect [where C = "bcontent s" and C' = "bcontent s4" and U = "owned s" and U' = "owned s4", OF I(4) this(2) assms(6) this(1) na txn_length [OF e(1)] cq keep]
  have fm: "fmap s4 i m = (if m = 12 + k then a else fmap s i m)" if "m < 140" for m
    using M(1) [OF _ that] ino by (simp add: fmap_def)
  have nz: "fmap s4 i m \<noteq> 0" if "m * 512 < unat (i_size (inodes s ! i))" for m
  proof -
    have "m < 140" using that I(3) by simp
    then show ?thesis using fm I(5) [OF that] na(2) by auto
  qed
  have "inode_ok s4 i" unfolding inode_ok_def using I(1-3) M(2) nz ino by simp
  moreover have "Suc (nfree s4) = nfree s"
    using nfree_take [OF e(2) F4(1), of a] a(3,4) u1(1) u4 F1(1) by (simp add: data_block_def)
  moreover have "bcontent s4 a = replicate 512 0" using s4(4) a(7) qa by auto
  moreover have "bcontent s4 c = bcontent s c" if "c \<noteq> a" "c \<noteq> bm s" "c \<noteq> ?q" for c
    using that s4(4) a(8) r(5) bmq by simp
  moreover have "dirtyset s4 = insert ?q (insert a (insert (bm s) (dirtyset s)))" using s4(6) a(10) r(7) bmq by simp
  ultimately show ?thesis using call a4 ino fm u4 h4 keep fs_rest_frame [OF fr] a(3) u1(1) by auto
qed

text \<open>What \<^verbatim>\<open>bmap\<close> promises: block \<open>bn\<close> of the file is mapped to \<open>a\<close>, freshly allocated and zeroed if it was
  not mapped; the rest of the map, the contents of all blocks in use but the bitmap and the indirect
  block, and the other inodes are as before; and what it costs.\<close>

definition extended :: "'a fsst_scheme \<Rightarrow> nat \<Rightarrow> nat \<Rightarrow> u32 \<Rightarrow> 'a fsst_scheme \<Rightarrow> bool" where
  "extended s i bn a s' \<longleftrightarrow> alloc_ok s' \<and> inode_ok s' i \<and> fs_rest s s' \<and> held s' = held s \<and>
     (\<exists>as. inodes s' = (inodes s)[i := (inodes s ! i)\<lparr>i_addrs := as\<rparr>]) \<and>
     fmap s' i bn = a \<and> a \<noteq> 0 \<and> (\<forall>m<140. m \<noteq> bn \<longrightarrow> fmap s' i m = fmap s i m) \<and>
     (fmap s i bn \<noteq> 0 \<longrightarrow> a = fmap s i bn) \<and> (fmap s i bn = 0 \<longrightarrow> \<not> used s a \<and> bcontent s' a = replicate 512 0) \<and>
     (\<forall>c<1000. used s c \<longrightarrow> c \<noteq> bm s \<longrightarrow> c = 0 \<or> c \<noteq> find_blk s i \<longrightarrow> bcontent s' c = bcontent s c) \<and>
     (\<forall>c<1000. used s c \<longrightarrow> used s' c) \<and> (find_blk s i \<noteq> 0 \<longrightarrow> find_blk s' i = find_blk s i) \<and>
     (find_blk s i = 0 \<longrightarrow> find_blk s' i \<noteq> 0 \<longrightarrow> \<not> used s (find_blk s' i)) \<and>
     card (dirtyset s') + meta_cost s' i + (if a \<in> dirtyset s' then 0 else 1) \<le> card (dirtyset s) + meta_cost s i + 1 \<and>
     nfree s + free_cost s' i \<le> nfree s' + free_cost s i + 1"

lemma bmap_same:
  assumes "alloc_ok s" "inode_ok s i" "bn < 140" "fmap s i bn \<noteq> 0" "same_view s s'"
  shows "extended s i bn (fmap s i bn) s'"
proof -
  note V = same_view_facts [OF assms(5)]
  have "held s' = held s" "bcontent s' = bcontent s" "dirtyset s' = dirtyset s" "log_frame s s'" using assms(5) by (auto simp: same_view_def)
  moreover have "inodes s' = (inodes s)[i := (inodes s ! i)\<lparr>i_addrs := i_addrs (inodes s ! i)\<rparr>]" using V(12) by simp
  moreover have "alloc_ok s'"
    using assms(1,5) V(8) by (simp add: alloc_ok_iff same_view_def log_frame_def)
  ultimately show ?thesis
    unfolding extended_def using assms(2,4) V fs_rest_frame [of s s'] by (auto intro!: exI [of _ "i_addrs (inodes s ! i)"])
qed

lemma bmap_direct:
  assumes "alloc_ok s" "inode_ok s i" "room s (meta_cost s i + 3)" "free_cost s i + 1 \<le> nfree s" "bn < 12"
  shows "\<exists>a s'. addr_or_alloc s i bn = Ok (a, s') \<and> extended s i bn a s'"
proof (cases "i_addrs (inodes s ! i) ! bn = 0")
  case False
  then have "addr_or_alloc s i bn = Ok (fmap s i bn, s)" "fmap s i bn \<noteq> 0" using assms(5) by (simp_all add: addr_or_alloc_def fmap_def faddr_def)
  moreover have "same_view s s" using assms(1) by (simp add: same_view_refl alloc_ok_def)
  ultimately show ?thesis using bmap_same [OF assms(1,2)] assms(5) by auto
next
  case True
  have rm: "room s 2" "0 < nfree s" "bn \<le> 12" using room_mono [OF assms(3)] assms(4,5) by auto
  obtain a s' where a: "addr_or_alloc s i bn = Ok (a, s')" "alloc_ok s'" "inode_ok s' i" "fs_rest s s'"
    "inodes s' = (inodes s)[i := (inodes s ! i)\<lparr>i_addrs := (i_addrs (inodes s ! i))[bn := a]\<rparr>]"
    "\<forall>m<140. fmap s' i m = (if m = bn \<and> bn < 12 then a else fmap s i m)" "owned s' a" "\<not> used s a" "bcontent s' a = replicate 512 0"
    "\<forall>c. c \<noteq> a \<longrightarrow> c \<noteq> bm s \<longrightarrow> bcontent s' c = bcontent s c" "\<forall>c<1000. used s' c = (c = a \<or> used s c)" "held s' = held s"
    "dirtyset s' = insert a (insert (bm s) (dirtyset s))" "Suc (nfree s') = nfree s"
    using slot_alloc [OF assms(1,2) rm True] by blast
  have f0: "fmap s i bn = 0" using True assms(5) by (simp add: fmap_def faddr_def)
  have fq: "find_blk s' i = find_blk s i" using a(5) inode_okD(1,6) [OF assms(2)] assms(5) by (simp add: find_blk_def)
  have a0: "a \<noteq> 0" using owned_avail(6) [OF a(2)] a(7) a(12,13) by (metis room_def owned_def layout_facts(10) alloc_ok_def a(2))
  have "card (dirtyset s') + meta_cost s' i \<le> card (dirtyset s) + meta_cost s i + 1"
    using a(13) fq fs_restD(8) [OF a(4)] by (auto simp: meta_cost_def card_insert_if)
  moreover have "bcontent s' c = bcontent s c" if "c < 1000" "used s c" "c \<noteq> bm s" for c using a(8,10) that by metis
  ultimately have "extended s i bn a s'"
    unfolding extended_def using a f0 fq a0 assms(5) by (auto simp: free_cost_def)
  with a(1) show ?thesis by blast
qed

lemma indirect_extended:
  assumes "alloc_ok s" "inode_ok s i" "room s 3" "1 \<le> nfree s" "find_blk s i \<noteq> 0" "k < 128"
  shows "\<exists>a s'. bmap_indirect s i (find_blk s i) k = Ok (a, s') \<and> extended s i (12 + k) a s'"
proof (cases "fmap s i (12 + k) = 0")
  case False
  from indirect_existing [OF alloc_fs_ok [OF assms(1)] assms(2) room_mono [OF assms(3)] assms(5,6) False]
  obtain s' where "bmap_indirect s i (find_blk s i) k = Ok (fmap s i (12 + k), s')" "same_view s s'" by auto
  then show ?thesis using bmap_same [OF assms(1,2) _ False] assms(6) by auto
next
  case True
  obtain a s' where a: "bmap_indirect s i (find_blk s i) k = Ok (a, s')" "alloc_ok s'" "inode_ok s' i" "fs_rest s s'" "inodes s' = inodes s"
    "\<forall>m<140. fmap s' i m = (if m = 12 + k then a else fmap s i m)" "owned s' a" "\<not> used s a" "bcontent s' a = replicate 512 0"
    "\<forall>c. c \<noteq> a \<longrightarrow> c \<noteq> bm s \<longrightarrow> c \<noteq> find_blk s i \<longrightarrow> bcontent s' c = bcontent s c" "\<forall>c<1000. used s' c = (c = a \<or> used s c)" "held s' = held s"
    "dirtyset s' = insert (find_blk s i) (insert a (insert (bm s) (dirtyset s)))" "Suc (nfree s') = nfree s"
    using indirect_alloc [OF assms(1-3) _ assms(5,6) True] assms(4) by auto
  have fq: "find_blk s' i = find_blk s i" using a(5) by (simp add: find_blk_def)
  have a0: "a \<noteq> 0" using a(2,7) layout_facts(10) by (auto simp: owned_def alloc_ok_def)
  have "card (dirtyset s') + meta_cost s' i \<le> card (dirtyset s) + meta_cost s i + 1"
    using a(13) fq fs_restD(8) [OF a(4)] assms(5) by (auto simp: meta_cost_def card_insert_if)
  moreover have "\<exists>as. inodes s = (inodes s)[i := (inodes s ! i)\<lparr>i_addrs := as\<rparr>]"
    by (rule exI [of _ "i_addrs (inodes s ! i)"]) simp
  moreover have "bcontent s' c = bcontent s c" if "c < 1000" "used s c" "c \<noteq> bm s" "c \<noteq> find_blk s i" for c using a(8,10) that by metis
  ultimately have "extended s i (12 + k) a s'"
    unfolding extended_def using a True fq a0 assms(5,6) by (auto simp: free_cost_def)
  with a(1) show ?thesis by blast
qed

lemma extendedD:
  assumes "extended s i bn a s'"
  shows "alloc_ok s'" "inode_ok s' i" "fs_rest s s'" "held s' = held s" "fmap s' i bn = a" "a \<noteq> 0"
    "\<And>m. m < 140 \<Longrightarrow> m \<noteq> bn \<Longrightarrow> fmap s' i m = fmap s i m" "fmap s i bn \<noteq> 0 \<Longrightarrow> a = fmap s i bn"
    "fmap s i bn = 0 \<Longrightarrow> \<not> used s a" "fmap s i bn = 0 \<Longrightarrow> bcontent s' a = replicate 512 0"
    "\<And>c. c < 1000 \<Longrightarrow> used s c \<Longrightarrow> c \<noteq> bm s \<Longrightarrow> c = 0 \<or> c \<noteq> find_blk s i \<Longrightarrow> bcontent s' c = bcontent s c"
    "\<And>c. c < 1000 \<Longrightarrow> used s c \<Longrightarrow> used s' c" "find_blk s i \<noteq> 0 \<Longrightarrow> find_blk s' i = find_blk s i"
    "find_blk s i = 0 \<Longrightarrow> find_blk s' i \<noteq> 0 \<Longrightarrow> \<not> used s (find_blk s' i)"
    "card (dirtyset s') + meta_cost s' i + (if a \<in> dirtyset s' then 0 else 1) \<le> card (dirtyset s) + meta_cost s i + 1"
    "nfree s + free_cost s' i \<le> nfree s' + free_cost s i + 1"
  using assms unfolding extended_def by blast+

lemma extended_inodes:
  assumes "extended s i bn a s'"
  obtains as where "inodes s' = (inodes s)[i := (inodes s ! i)\<lparr>i_addrs := as\<rparr>]"
  using assms unfolding extended_def by blast

lemma bmap_no_indirect:
  assumes "alloc_ok s" "inode_ok s i" "room s (meta_cost s i + 3)" "free_cost s i + 1 \<le> nfree s" "find_blk s i = 0" "k < 128"
  shows "\<exists>a s1 b s'. addr_or_alloc s i 12 = Ok (a, s1) \<and> bmap_indirect s1 i a k = Ok (b, s') \<and> extended s i (12 + k) b s'"
proof -
  have rm: "room s 2" "0 < nfree s" "(12 :: nat) \<le> 12" using room_mono [OF assms(3)] assms(4) by auto
  have z: "i_addrs (inodes s ! i) ! 12 = 0" using assms(5) by (simp add: find_blk_def)
  obtain a s1 where a: "addr_or_alloc s i 12 = Ok (a, s1)" "alloc_ok s1" "inode_ok s1 i" "fs_rest s s1"
    "inodes s1 = (inodes s)[i := (inodes s ! i)\<lparr>i_addrs := (i_addrs (inodes s ! i))[12 := a]\<rparr>]"
    "\<forall>m<140. fmap s1 i m = (if m = 12 \<and> (12 :: nat) < 12 then a else fmap s i m)" "owned s1 a" "\<not> used s a" "bcontent s1 a = replicate 512 0"
    "\<forall>c. c \<noteq> a \<longrightarrow> c \<noteq> bm s \<longrightarrow> bcontent s1 c = bcontent s c" "\<forall>c<1000. used s1 c = (c = a \<or> used s c)" "held s1 = held s"
    "dirtyset s1 = insert a (insert (bm s) (dirtyset s))" "Suc (nfree s1) = nfree s"
    using slot_alloc [OF assms(1,2) rm z] by blast
  note I = inode_okD [OF assms(2)]
  have q1: "find_blk s1 i = a" using a(5) I(1,6) by (simp add: find_blk_def)
  have a0: "a \<noteq> 0" using a(2,7) layout_facts(10) by (auto simp: owned_def alloc_ok_def)
  have bm1: "bm s1 = bm s" using fs_restD(8) [OF a(4)] .
  have m1: "meta_cost s1 i = 0" "card (dirtyset s1) \<le> card (dirtyset s) + meta_cost s i" "free_cost s1 i = 0"
    using a(13) q1 a0 bm1 assms(5) by (auto simp: meta_cost_def free_cost_def card_insert_if)
  have rm1: "room s1 3" "1 \<le> nfree s1" using assms(3,4,5) m1 a(12,14) by (auto simp: room_def free_cost_def)
  obtain b s' where b: "bmap_indirect s1 i a k = Ok (b, s')" "extended s1 i (12 + k) b s'"
    using indirect_extended [OF a(2,3) rm1 _ assms(6)] q1 a0 by auto
  note E = extendedD [OF b(2)]
  have f0: "fmap s i (12 + k) = 0" using assms(5) by (simp add: fmap_def faddr_def find_blk_def)
  have fm1: "fmap s1 i m = fmap s i m" if "m < 140" for m using a(6) that by simp
  obtain as where as: "inodes s' = (inodes s1)[i := (inodes s1 ! i)\<lparr>i_addrs := as\<rparr>]" by (rule extended_inodes [OF b(2)])
  have ino: "inodes s' = (inodes s)[i := (inodes s ! i)\<lparr>i_addrs := as\<rparr>]" using as a(5) I(1) by simp
  have f1: "fmap s1 i (12 + k) = 0" using fm1 f0 assms(6) by simp
  have "owned s' b" using inode_okD(7) [OF E(2), of "12 + k"] E(5,6) assms(6) by simp
  then have b1000: "b < 1000" using layout_facts(3) [of s' b] E(1) by (simp add: owned_def alloc_ok_def)
  have ub: "\<not> used s b" "bcontent s' b = replicate 512 0" "find_blk s' i = a"
    using E(9,10) [OF f1] E(13) q1 a0 a(11) b1000 by auto
  have cost: "card (dirtyset s') + meta_cost s' i + (if b \<in> dirtyset s' then 0 else 1) \<le> card (dirtyset s) + meta_cost s i + 1"
    using E(15) m1 by simp
  have free: "nfree s + free_cost s' i \<le> nfree s' + free_cost s i + 1"
    using E(16) m1(3) a(14) assms(5) by (simp add: free_cost_def)
  have "bcontent s' c = bcontent s c" if "c < 1000" "used s c" "c \<noteq> bm s" for c
  proof -
    have "c \<noteq> a" "used s1 c" using that a(8,11) by auto
    then show ?thesis using E(11) [OF that(1)] a(10) that q1 bm1 by simp
  qed
  moreover have "used s' c" if "c < 1000" "used s c" for c using E(12) a(11) that by auto
  moreover have "fs_rest s s'" using fs_rest_trans a(4) E(3) by blast
  moreover have "fmap s' i m = fmap s i m" if "m < 140" "m \<noteq> 12 + k" for m using E(7) fm1 that by simp
  ultimately have "extended s i (12 + k) b s'"
    unfolding extended_def using E(1,2,4,5,6) a(8,12) ub ino f0 cost free assms(5) by auto
  with a(1) b(1) show ?thesis by blast
qed

lemma bn_words:
  assumes "bn < 140" "\<not> bn < 12"
  obtains k where "bn = 12 + k" "k < 128" "\<not> (of_nat bn :: u32) < 12" "(of_nat bn :: u32) - 12 = of_nat k"
    "(of_nat k :: u32) < 128" "unat (of_nat k :: u32) = k"
proof -
  obtain k where k: "bn = 12 + k" "k < 128" using assms le_Suc_ex [of 12 bn] by auto
  have "unat (of_nat bn :: u32) = bn" using assms(1) by (simp add: unat_of_nat)
  then have "\<not> (of_nat bn :: u32) < 12" using assms(2) by (simp add: word_less_nat_alt)
  moreover have "(of_nat k :: u32) < 128" "unat (of_nat k :: u32) = k" using k(2) by (simp_all add: word_less_nat_alt unat_of_nat)
  moreover have "(of_nat bn :: u32) - 12 = of_nat k" using k(1) by simp
  ultimately show thesis using that k by blast
qed

text \<open>\<^verbatim>\<open>bmap\<close>, for any block of the largest file.\<close>

lemma bmap_ok:
  assumes "alloc_ok s" "inode_ok s i" "room s (meta_cost s i + 3)" "free_cost s i + 1 \<le> nfree s" "bn < 140"
  shows "\<exists>a s'. bmap s i (of_nat bn) = Ok (a, s') \<and> extended s i bn a s'"
proof (cases "bn < 12")
  case True
  then have "(of_nat bn :: u32) < 12" "unat (of_nat bn :: u32) = bn" by (simp_all add: word_less_nat_alt unat_of_nat)
  then show ?thesis using bmap_direct [OF assms(1-4) True] by (simp add: bmap_def)
next
  case False
  obtain k where k: "bn = 12 + k" "k < 128" and n: "\<not> (of_nat bn :: u32) < 12" "(of_nat bn :: u32) - 12 = of_nat k"
    and n2: "(of_nat k :: u32) < 128" "unat (of_nat k :: u32) = k" by (rule bn_words [OF assms(5) False])
  have b: "bmap s i (of_nat bn) = andThen (addr_or_alloc s i 12) (\<lambda>(a, s). bmap_indirect s i a k)"
    using n n2 by (simp add: bmap_def Let_def)
  show ?thesis
  proof (cases "find_blk s i = 0")
    case True
    from bmap_no_indirect [OF assms(1-4) True k(2)] obtain a s1 c s' where "addr_or_alloc s i 12 = Ok (a, s1)"
      "bmap_indirect s1 i a k = Ok (c, s')" and e: "extended s i (12 + k) c s'" by blast
    then have "bmap s i (of_nat bn) = Ok (c, s')" unfolding b by simp
    with e show ?thesis unfolding k(1) [symmetric] by blast
  next
    case False
    then have "addr_or_alloc s i 12 = Ok (find_blk s i, s)" by (simp add: addr_or_alloc_def find_blk_def)
    moreover have "room s 3" "1 \<le> nfree s" using room_mono [OF assms(3)] assms(4) by auto
    ultimately obtain a s' where "bmap s i (of_nat bn) = Ok (a, s')" "extended s i (12 + k) a s'"
      unfolding b using indirect_extended [OF assms(1,2) _ _ False k(2)] by auto
    then show ?thesis unfolding k(1) [symmetric] by blast
  qed
qed

text \<open>A block that is already mapped is only looked up.\<close>

lemma bmap_lookup:
  assumes "fs_ok s" "inode_ok s i" "room s 0" "bn < 140" "fmap s i bn \<noteq> 0"
  shows "\<exists>s'. bmap s i (of_nat bn) = Ok (fmap s i bn, s') \<and> same_view s s'"
proof (cases "bn < 12")
  case True
  then have "(of_nat bn :: u32) < 12" "unat (of_nat bn :: u32) = bn" by (simp_all add: word_less_nat_alt unat_of_nat)
  then have "bmap s i (of_nat bn) = Ok (fmap s i bn, s)" using True assms(5) by (simp add: bmap_def addr_or_alloc_def fmap_def faddr_def)
  then show ?thesis using same_view_refl assms(1) by (auto simp: fs_ok_def)
next
  case False
  obtain k where k: "bn = 12 + k" "k < 128" and n: "\<not> (of_nat bn :: u32) < 12" "(of_nat bn :: u32) - 12 = of_nat k"
    and n2: "(of_nat k :: u32) < 128" "unat (of_nat k :: u32) = k" by (rule bn_words [OF assms(4) False])
  have q: "find_blk s i \<noteq> 0" using assms(5) k(1) by (auto simp: fmap_def faddr_def find_blk_def)
  then have "addr_or_alloc s i 12 = Ok (find_blk s i, s)" by (simp add: addr_or_alloc_def find_blk_def)
  then have "bmap s i (of_nat bn) = bmap_indirect s i (find_blk s i) k" using n n2 by (simp add: bmap_def Let_def)
  then show ?thesis using indirect_existing [OF assms(1-3) q k(2)] assms(5) k(1) by simp
qed

section \<open>Contents\<close>

definition fbyte :: "'a fsst_scheme \<Rightarrow> nat \<Rightarrow> nat \<Rightarrow> byte" where
  "fbyte s i p = bcontent s (fmap s i (p div BSIZE)) ! (p mod BSIZE)"

definition file_bytes :: "'a fsst_scheme \<Rightarrow> nat \<Rightarrow> byte list" where
  "file_bytes s i = map (fbyte s i) [0..<unat (i_size (inodes s ! i))]"

definition fblocks :: "'a fsst_scheme \<Rightarrow> nat \<Rightarrow> u32 set" where
  "fblocks s i = insert (find_blk s i) (fmap s i ` {..<MAXFILE}) - {0}"

lemma same_view_fbyte: "same_view s s' \<Longrightarrow> fbyte s' = fbyte s"
  using same_view_facts(5) [of s s'] by (intro ext) (simp add: fbyte_def same_view_def)

lemma same_block:
  fixes off p m :: nat
  assumes "off mod 512 + m \<le> 512" "off \<le> p" "p < off + m"
  shows "p div 512 = off div 512" "p mod 512 = off mod 512 + (p - off)"
proof -
  have e: "512 * (off div 512) + off mod 512 = off" by (rule mult_div_mod_eq)
  have "512 * (off div 512) \<le> p" using e assms(2) by linarith
  moreover have "p < 512 * Suc (off div 512)" unfolding mult_Suc_right using e assms by linarith
  ultimately show d: "p div 512 = off div 512" by (rule div_nat_eqI)
  have "512 * (p div 512) + p mod 512 = p" by (rule mult_div_mod_eq)
  then show "p mod 512 = off mod 512 + (p - off)" using e assms(2) unfolding d by linarith
qed

lemma block_piece:
  assumes "length d = 512" "off mod 512 + m \<le> 512"
  shows "get_bytes (off mod 512) m d = map (\<lambda>p. d ! (p mod 512)) [off..<off + m]"
proof (rule nth_equalityI)
  fix k assume k: "k < length (get_bytes (off mod 512) m d)"
  then have "k < m" using assms by simp
  then have "(off + k) mod 512 = off mod 512 + k" using same_block(2) [OF assms(2), of "off + k"] by simp
  then show "get_bytes (off mod 512) m d ! k = map (\<lambda>p. d ! (p mod 512)) [off..<off + m] ! k"
    using \<open>k < m\<close> assms by (simp add: nth_get_bytes)
qed (use assms in simp)

lemma readi_loop_ok:
  "fs_ok s \<Longrightarrow> inode_ok s i \<Longrightarrow> room s 0 \<Longrightarrow> off + n \<le> unat (i_size (inodes s ! i)) \<Longrightarrow>
   \<exists>s'. readi_loop s i off n = Ok (map (fbyte s i) [off..<off + n], s') \<and> same_view s s'"
proof (induction n arbitrary: s off rule: less_induct)
  case (less n)
  note I = inode_okD [OF less.prems(2)]
  show ?case
  proof (cases "n = 0")
    case True
    then show ?thesis using same_view_refl less.prems(1) by (subst readi_loop.simps) (auto simp: fs_ok_def)
  next
    case False
    define m where "m = min n (512 - off mod 512)"
    let ?bn = "off div 512"
    have bn: "?bn < 140" "fmap s i ?bn \<noteq> 0" using False less.prems(4) I(3) I(5) [of ?bn] by auto
    obtain s1 where s1: "bmap s i (of_nat ?bn) = Ok (fmap s i ?bn, s1)" "same_view s s1"
      using bmap_lookup [OF less.prems(1-3) bn] by blast
    note V1 = same_view_facts [OF s1(2)]
    obtain s2 where s2: "read_block s1 1 (fmap s i ?bn) = Ok (bcontent s1 (fmap s i ?bn), s2)" "same_view s1 s2"
      using read_view [OF V1(8) [OF less.prems(1)], of 0 "fmap s i ?bn"] less.prems(3) V1(2,4) I(7) [OF bn] by auto
    have v2: "same_view s s2" by (rule same_view_trans [OF s1(2) s2(2)])
    note V2 = same_view_facts [OF v2]
    have m: "m \<le> n" "0 < m" "off mod 512 + m \<le> 512" using False by (auto simp: m_def)
    have s2': "n - m < n" "fs_ok s2" "inode_ok s2 i" "room s2 0" "off + m + (n - m) \<le> unat (i_size (inodes s2 ! i))"
      using m(1,2) V2(4,7,12) V2(8) [OF less.prems(1)] less.prems(2-4) by simp_all
    obtain s3 where s3: "readi_loop s2 i (off + m) (n - m) = Ok (map (fbyte s2 i) [off + m..<off + m + (n - m)], s3)" "same_view s2 s3"
      using less.IH [OF s2'] by blast
    have c: "bcontent s1 = bcontent s" "i_dev (inodes s1 ! i) = 1" using s1(2) V1(12) I(2) by (auto simp: same_view_def)
    have len: "length (bcontent s (fmap s i ?bn)) = 512" using less.prems(1) by (simp add: fs_ok_def)
    have g: "get_bytes (off mod 512) m (bcontent s (fmap s i ?bn)) = map (fbyte s i) [off..<off + m]"
      unfolding block_piece [OF len m(3)]
    proof (rule map_cong [OF refl])
      fix p assume "p \<in> set [off..<off + m]"
      then have "p div 512 = ?bn" using same_block(1) [OF m(3), of p] by simp
      then show "bcontent s (fmap s i ?bn) ! (p mod 512) = fbyte s i p" by (simp add: fbyte_def)
    qed
    have u: "[off..<off + n] = [off..<off + m] @ [off + m..<off + n]" using upt_add_eq_append [of off "off + m" "n - m"] m(1) by simp
    have "readi_loop s i off n = Ok (map (fbyte s i) [off..<off + n], s3)"
      using False s1(1) s2(1) s3(1) c same_view_fbyte [OF v2] m(1) g
      by (subst readi_loop.simps) (simp add: Let_def m_def [symmetric] u)
    then show ?thesis using same_view_trans [OF v2 s3(2)] by blast
  qed
qed

section \<open>Writing\<close>

text \<open>Growth of a file: mapped blocks stay where they are, new ones were free, and blocks in use that are
  not of this file keep their contents.\<close>

definition grown :: "'a fsst_scheme \<Rightarrow> nat \<Rightarrow> 'a fsst_scheme \<Rightarrow> bool" where
  "grown s i s' \<longleftrightarrow> alloc_ok s' \<and> inode_ok s' i \<and> fs_rest s s' \<and> held s' = held s \<and>
     (\<exists>as. inodes s' = (inodes s)[i := (inodes s ! i)\<lparr>i_addrs := as\<rparr>]) \<and>
     (\<forall>m<140. fmap s i m \<noteq> 0 \<longrightarrow> fmap s' i m = fmap s i m) \<and>
     (\<forall>b\<in>fblocks s' i. b \<in> fblocks s i \<or> \<not> used s b) \<and>
     (\<forall>c<1000. used s c \<longrightarrow> used s' c) \<and>
     (\<forall>c<1000. used s c \<longrightarrow> c \<noteq> bm s \<longrightarrow> c \<notin> fblocks s i \<longrightarrow> bcontent s' c = bcontent s c)"

lemma grownD:
  assumes "grown s i s'"
  shows "alloc_ok s'" "inode_ok s' i" "fs_rest s s'" "held s' = held s" "\<exists>as. inodes s' = (inodes s)[i := (inodes s ! i)\<lparr>i_addrs := as\<rparr>]"
    "\<And>m. m < 140 \<Longrightarrow> fmap s i m \<noteq> 0 \<Longrightarrow> fmap s' i m = fmap s i m"
    "\<And>b. b \<in> fblocks s' i \<Longrightarrow> b \<in> fblocks s i \<or> \<not> used s b" "\<And>c. c < 1000 \<Longrightarrow> used s c \<Longrightarrow> used s' c"
    "\<And>c. c < 1000 \<Longrightarrow> used s c \<Longrightarrow> c \<noteq> bm s \<Longrightarrow> c \<notin> fblocks s i \<Longrightarrow> bcontent s' c = bcontent s c"
  using assms unfolding grown_def by blast+

lemma grown_refl:
  assumes "alloc_ok s" "inode_ok s i"
  shows "grown s i s"
proof -
  have "\<exists>as. inodes s = (inodes s)[i := (inodes s ! i)\<lparr>i_addrs := as\<rparr>]"
    by (rule exI [of _ "i_addrs (inodes s ! i)"]) simp
  with assms show ?thesis by (simp add: grown_def)
qed

lemma grown_trans:
  assumes "grown s i s1" "grown s1 i s2" "i < length (inodes s)" "alloc_ok s"
  shows "grown s i s2"
proof -
  note G = grownD [OF assms(1)] and H = grownD [OF assms(2)]
  obtain as where as: "inodes s1 = (inodes s)[i := (inodes s ! i)\<lparr>i_addrs := as\<rparr>]" using G(5) by blast
  obtain as2 where as2: "inodes s2 = (inodes s1)[i := (inodes s1 ! i)\<lparr>i_addrs := as2\<rparr>]" using H(5) by blast
  have ino: "inodes s2 = (inodes s)[i := (inodes s ! i)\<lparr>i_addrs := as2\<rparr>]" using as as2 assms(3) by simp
  have bm: "bm s1 = bm s" using fs_restD(8) [OF G(3)] .
  have own: "b < 1000" if "b \<in> fblocks s2 i" for b
  proof -
    have "owned s2 b" using that inode_okD(7,8) [OF H(2)] by (auto simp: fblocks_def)
    then show ?thesis using layout_facts(3) [of s2 b] H(1) by (simp add: owned_def alloc_ok_def)
  qed
  have blk: "b \<in> fblocks s i \<or> \<not> used s b" if b: "b \<in> fblocks s2 i" for b
    using H(7) [OF b] G(7) G(8) [of b] own [OF b] by blast
  have "bcontent s2 c = bcontent s c" if c: "c < 1000" "used s c" "c \<noteq> bm s" "c \<notin> fblocks s i" for c
  proof -
    have "c \<notin> fblocks s1 i" using G(7) [of c] c by blast
    then show ?thesis using H(9) [OF c(1) G(8) [OF c(1,2)]] G(9) [OF c] c(3) bm by simp
  qed
  then show ?thesis
    unfolding grown_def using H(1,2,4) G(4,6,8) H(6,8) fs_rest_trans [OF G(3) H(3)] ino blk by auto
qed

lemma extended_grown:
  assumes "extended s i bn a s'" "bn < 140" "alloc_ok s"
  shows "grown s i s'"
proof -
  note E = extendedD [OF assms(1)]
  obtain as where as: "inodes s' = (inodes s)[i := (inodes s ! i)\<lparr>i_addrs := as\<rparr>]" by (rule extended_inodes [OF assms(1)])
  have "b \<in> fblocks s i \<or> \<not> used s b" if "b \<in> fblocks s' i" for b
  proof -
    from that consider "b = find_blk s' i" "b \<noteq> 0" | m where "b = fmap s' i m" "m < 140" "b \<noteq> 0" by (auto simp: fblocks_def)
    then show ?thesis
    proof cases
      case 1
      then show ?thesis using E(13,14) by (cases "find_blk s i = 0") (auto simp: fblocks_def)
    next
      case (2 m)
      then show ?thesis using E(5,7,8,9) by (cases "m = bn"; cases "fmap s i bn = 0") (auto simp: fblocks_def)
    qed
  qed
  moreover have "bcontent s' c = bcontent s c" if "c < 1000" "used s c" "c \<noteq> bm s" "c \<notin> fblocks s i" for c
  proof -
    have "c = 0 \<or> c \<noteq> find_blk s i" using that(4) by (auto simp: fblocks_def)
    then show ?thesis using E(11) that by blast
  qed
  moreover have "fmap s' i m = fmap s i m" if "m < 140" "fmap s i m \<noteq> 0" for m using E(5,7,8) that by (cases "m = bn") auto
  ultimately show ?thesis unfolding grown_def using E(1-4,12) as by auto
qed

lemma write_data:
  assumes "alloc_ok s" "inode_ok s i" "room s 0" "bn < 140" "fmap s i bn \<noteq> 0" "x + length d \<le> 512"
  shows "\<exists>s'. modify_block s 1 (fmap s i bn) (put_bytes x d) = Ok s' \<and> grown s i s' \<and> log_frame s s' \<and> fmap s' i = fmap s i \<and>
    find_blk s' i = find_blk s i \<and> bcontent s' = (bcontent s)(fmap s i bn := put_bytes x d (bcontent s (fmap s i bn))) \<and>
    dirtyset s' = insert (fmap s i bn) (dirtyset s) \<and> nfree s' = nfree s"
proof -
  note I = inode_okD [OF assms(2)]
  let ?a = "fmap s i bn"
  have e: "in_txn s" "fs_layout s" "1 \<le> outstanding s" using assms(1) by (auto simp: alloc_ok_def)
  note O = owned_avail [OF assms(1,3) I(7) [OF assms(4,5)]]
  have "length (put_bytes x d (bcontent s ?a)) = 512" using e(1) assms(6) by simp
  from modify_room [where f = "put_bytes x d", OF e(1) assms(3) O(2,3,4) e(3) this]
  obtain s' where s': "modify_block s 1 ?a (put_bytes x d) = Ok s'" "in_txn s'" "bcontent s' = (bcontent s)(?a := put_bytes x d (bcontent s ?a))"
     "held s' = held s" "dirtyset s' = insert ?a (dirtyset s)" "log_frame s s'" by blast
  note F = fs_frame [OF s'(6)]
  have q: "find_blk s' i = find_blk s i" using F(2) by (simp add: find_blk_def)
  have cq: "find_blk s i \<noteq> 0 \<longrightarrow> bcontent s' (find_blk s i) = bcontent s (find_blk s i)" using s'(3) I(9) [OF assms(4,5)] by auto
  have fm: "fmap s' i = fmap s i"
    unfolding fmap_def F(2) by (intro ext faddr_cong) (use cq in \<open>simp add: find_blk_def\<close>)
  have u: "used s' = used s" using s'(3) F(9) O(5) by (intro ext) (simp add: used_def)
  have db: "data_block s' = data_block s" using F(1,9) by (simp add: data_block_def fun_eq_iff)
  have ow: "owned s' = owned s" using u db s'(4) by (intro ext) (simp add: owned_def)
  have a': "alloc_ok s'"
  proof (rule alloc_ok_step [OF assms(1) s'(6,2,4)])
    show "bcontent s' 1 = bcontent s 1" using s'(3) O(7) by simp
    show "used s' b" if "b \<le> bm s \<or> b \<in> held s" for b
      using that assms(1) unfolding u alloc_ok_def meta_used_def by blast
  qed
  have "map_ok (bcontent s') (owned s') (i_addrs (inodes s' ! i))"
    unfolding F(2) ow by (rule map_ok_cong [OF I(4)]) (use cq in \<open>auto simp: find_blk_def\<close>)
  then have i': "inode_ok s' i" unfolding inode_ok_def fm F(2) using I(1,2,3,5) by simp
  have fb: "fblocks s' i = fblocks s i" by (simp add: fblocks_def q fm)
  have "?a \<in> fblocks s i" using assms(4,5) by (auto simp: fblocks_def)
  moreover have "\<exists>as. inodes s' = (inodes s)[i := (inodes s ! i)\<lparr>i_addrs := as\<rparr>]"
    unfolding F(2) by (rule exI [of _ "i_addrs (inodes s ! i)"]) simp
  ultimately have "grown s i s'"
    unfolding grown_def using a' i' fs_rest_frame [OF s'(6)] s'(3,4) fm fb u by auto
  moreover have "nfree s' = nfree s" using u F(1) by (simp add: nfree_def)
  ultimately show ?thesis using s' fm q by blast
qed

lemma fbyte_other:
  assumes "inode_ok s i" "bn < 140" "fmap s i bn \<noteq> 0" "fmap s' i = fmap s i" "p < 71680" "fmap s i (p div 512) \<noteq> 0"
    "bcontent s' = (bcontent s)(fmap s i bn := put_bytes x d (bcontent s (fmap s i bn)))" "x + length d \<le> 512" "in_txn s"
  shows "fbyte s' i p = (if p div 512 = bn \<and> x \<le> p mod 512 \<and> p mod 512 < x + length d then d ! (p mod 512 - x) else fbyte s i p)"
proof (cases "p div 512 = bn")
  case True
  then show ?thesis using assms(4,7,8,9) by (simp add: fbyte_def nth_put_bytes)
next
  case False
  have "p div 512 < 140" using assms(5) by auto
  then have "fmap s i (p div 512) \<noteq> fmap s i bn" using inode_okD(10) [OF assms(1)] assms(2,6) False by blast
  then show ?thesis using assms(4,7) False by (simp add: fbyte_def)
qed

text \<open>One round of the loop of \<^verbatim>\<open>writei\<close>.\<close>

lemma write_step:
  assumes "alloc_ok s" "inode_ok s i" "room s (meta_cost s i + 3)" "free_cost s i + 1 \<le> nfree s" "bn < 140" "x + length d \<le> 512"
  shows "\<exists>a s1 s2. bmap s i (of_nat bn) = Ok (a, s1) \<and> modify_block s1 (i_dev (inodes s1 ! i)) a (put_bytes x d) = Ok s2 \<and>
    grown s i s2 \<and> fmap s2 i bn \<noteq> 0 \<and> (\<forall>m<140. m \<noteq> bn \<longrightarrow> fmap s2 i m = fmap s i m) \<and>
    (\<forall>p<71680. fmap s2 i (p div 512) \<noteq> 0 \<longrightarrow> fbyte s2 i p =
       (if p div 512 = bn \<and> x \<le> p mod 512 \<and> p mod 512 < x + length d then d ! (p mod 512 - x)
        else if fmap s i (p div 512) = 0 then 0 else fbyte s i p)) \<and>
    card (dirtyset s2) + meta_cost s2 i \<le> card (dirtyset s) + meta_cost s i + 1 \<and>
    nfree s + free_cost s2 i \<le> nfree s2 + free_cost s i + 1"
proof -
  obtain a s1 where a: "bmap s i (of_nat bn) = Ok (a, s1)" "extended s i bn a s1" using bmap_ok [OF assms(1-5)] by blast
  note E = extendedD [OF a(2)] and G = extended_grown [OF a(2) assms(5,1)]
  note I = inode_okD [OF assms(2)] and I1 = inode_okD [OF E(2)]
  have r1: "room s1 0" using E(4,15) assms(3) by (simp add: room_def)
  have fa: "fmap s1 i bn = a" "fmap s1 i bn \<noteq> 0" using E(5,6) by auto
  obtain s2 where s2: "modify_block s1 1 a (put_bytes x d) = Ok s2" "grown s1 i s2" "log_frame s1 s2" "fmap s2 i = fmap s1 i"
    "find_blk s2 i = find_blk s1 i" "bcontent s2 = (bcontent s1)(a := put_bytes x d (bcontent s1 a))"
    "dirtyset s2 = insert a (dirtyset s1)" "nfree s2 = nfree s1"
    using write_data [OF E(1,2) r1 assms(5) fa(2) assms(6)] fa(1) by auto
  have bm2: "bm s2 = bm s1" using fs_frame(9) [OF s2(3)] .
  have cost: "card (dirtyset s2) + meta_cost s2 i \<le> card (dirtyset s) + meta_cost s i + 1"
    using E(15) s2(5,7) bm2 by (auto simp: meta_cost_def card_insert_if split: if_splits)
  have free: "nfree s + free_cost s2 i \<le> nfree s2 + free_cost s i + 1" using E(16) s2(5,8) by (simp add: free_cost_def)
  have t1: "in_txn s1" "in_txn s" "fs_layout s" using E(1) assms(1) by (auto simp: alloc_ok_def)
  have old: "fbyte s1 i p = (if fmap s i (p div 512) = 0 then 0 else fbyte s i p)" if p: "p < 71680" "fmap s1 i (p div 512) \<noteq> 0" for p
  proof (cases "fmap s i (p div 512) = 0")
    case True
    have "p div 512 < 140" using p(1) by auto
    then have eq: "p div 512 = bn" using E(7) p(2) True by metis
    then have "fbyte s1 i p = replicate 512 0 ! (p mod 512)" using E(5,10) True by (simp add: fbyte_def)
    then show ?thesis using True by simp
  next
    case False
    have pb: "p div 512 < 140" using p(1) by auto
    have same: "fmap s1 i (p div 512) = fmap s i (p div 512)" using grownD(6) [OF G pb False] .
    have "owned s (fmap s i (p div 512))" using I(7) [OF pb False] .
    then have "bcontent s1 (fmap s i (p div 512)) = bcontent s (fmap s i (p div 512))"
      using E(11) I(9) [OF pb False] layout_facts(3,5) [OF t1(3)] by (auto simp: owned_def)
    then show ?thesis using False same by (simp add: fbyte_def)
  qed
  have "fbyte s2 i p = (if p div 512 = bn \<and> x \<le> p mod 512 \<and> p mod 512 < x + length d then d ! (p mod 512 - x)
        else if fmap s i (p div 512) = 0 then 0 else fbyte s i p)" if p: "p < 71680" "fmap s2 i (p div 512) \<noteq> 0" for p
  proof -
    have p2: "fmap s1 i (p div 512) \<noteq> 0" using p(2) s2(4) by simp
    show ?thesis
      using fbyte_other [OF E(2) assms(5) fa(2) s2(4) p(1) p2 _ assms(6) t1(1)] s2(6) fa(1) old [OF p(1) p2] by simp
  qed
  moreover have "i_dev (inodes s1 ! i) = 1" by (rule I1(2))
  moreover have "grown s i s2" by (rule grown_trans [OF G s2(2) I(1) assms(1)])
  ultimately show ?thesis using a(1) s2(1,4) E(7) fa cost free by auto
qed

text \<open>The number of blocks that \<open>n\<close> bytes from \<open>off\<close> on touch.\<close>

definition nblk :: "nat \<Rightarrow> nat \<Rightarrow> nat" where
  "nblk off n = (if n = 0 then 0 else (off + n - 1) div 512 - off div 512 + 1)"

lemma nblk_step:
  fixes off n :: nat
  assumes "0 < n"
  defines "m \<equiv> min n (512 - off mod 512)"
  shows "nblk off n = Suc (nblk (off + m) (n - m))"
proof (cases "n \<le> 512 - off mod 512")
  case True
  then have "off mod 512 + n \<le> 512" using assms(1) by linarith
  from same_block(1) [OF this, of "off + n - 1"] assms(1) have "(off + n - 1) div 512 = off div 512" by simp
  then show ?thesis using True assms by (simp add: nblk_def m_def)
next
  case False
  then have m: "m = 512 - off mod 512" "m < n" by (auto simp: m_def)
  have "off mod 512 + m = 512" using m(1) by simp
  then have "off + m = 512 * (off div 512) + 512" using mult_div_mod_eq [of 512 off] by (metis add.assoc)
  then have d: "(off + m) div 512 = off div 512 + 1" by simp
  have "off div 512 + 1 \<le> (off + n - 1) div 512" using d div_le_mono [of "off + m" "off + n - 1" 512] m(2) by simp
  moreover have "off + m + (n - m) - 1 = off + n - 1" using m(2) by simp
  ultimately show ?thesis using d m(2) assms(1) by (simp add: nblk_def Suc_diff_Suc)
qed

lemma writei_loop_ok:
  "alloc_ok s \<Longrightarrow> inode_ok s i \<Longrightarrow> off + length src \<le> 71680 \<Longrightarrow>
   room s (meta_cost s i + nblk off (length src) + 3) \<Longrightarrow> free_cost s i + nblk off (length src) \<le> nfree s \<Longrightarrow>
   \<exists>s'. writei_loop s i src off = Ok s' \<and> grown s i s' \<and>
     (\<forall>m. off div 512 \<le> m \<longrightarrow> m * 512 < off + length src \<longrightarrow> src \<noteq> [] \<longrightarrow> fmap s' i m \<noteq> 0) \<and>
     (\<forall>p<71680. fmap s' i (p div 512) \<noteq> 0 \<longrightarrow> fbyte s' i p =
        (if off \<le> p \<and> p < off + length src then src ! (p - off) else if fmap s i (p div 512) = 0 then 0 else fbyte s i p)) \<and>
     card (dirtyset s') + meta_cost s' i \<le> card (dirtyset s) + meta_cost s i + nblk off (length src) \<and>
     nfree s + free_cost s' i \<le> nfree s' + free_cost s i + nblk off (length src)"
proof (induction "length src" arbitrary: s src off rule: less_induct)
  case less
  show ?case
  proof (cases "src = []")
    case True
    show ?thesis
      using True grown_refl [OF less.prems(1,2)] by (subst writei_loop.simps) (auto simp: nblk_def)
  next
    case False
    define m where "m = min (length src) (512 - off mod 512)"
    let ?bn = "off div 512" and ?n = "length src"
    have n0: "0 < ?n" using False by simp
    have m: "0 < m" "m \<le> ?n" "off mod 512 + m \<le> 512" using n0 by (auto simp: m_def)
    have "off < 71680" using less.prems(3) n0 by linarith
    then have bn: "?bn < 140" by auto
    have nb: "nblk off ?n = Suc (nblk (off + m) (?n - m))" using nblk_step [OF n0] by (simp add: m_def)
    have lt: "length (take m src) = m" "off mod 512 + length (take m src) \<le> 512" using m by auto
    have pre: "room s (meta_cost s i + 3)" "free_cost s i + 1 \<le> nfree s" using room_mono [OF less.prems(4)] less.prems(5) nb by auto
    obtain a s1 s2 where w: "bmap s i (of_nat ?bn) = Ok (a, s1)" "modify_block s1 (i_dev (inodes s1 ! i)) a (put_bytes (off mod 512) (take m src)) = Ok s2"
      "grown s i s2" "fmap s2 i ?bn \<noteq> 0" "\<forall>k<140. k \<noteq> ?bn \<longrightarrow> fmap s2 i k = fmap s i k"
      "\<forall>p<71680. fmap s2 i (p div 512) \<noteq> 0 \<longrightarrow> fbyte s2 i p =
         (if p div 512 = ?bn \<and> off mod 512 \<le> p mod 512 \<and> p mod 512 < off mod 512 + m then take m src ! (p mod 512 - off mod 512)
          else if fmap s i (p div 512) = 0 then 0 else fbyte s i p)"
      "card (dirtyset s2) + meta_cost s2 i \<le> card (dirtyset s) + meta_cost s i + 1"
      "nfree s + free_cost s2 i \<le> nfree s2 + free_cost s i + 1"
      using write_step [OF less.prems(1,2) pre bn lt(2)] unfolding lt(1) by blast
    note G = grownD [OF w(3)]
    have l2: "length (drop m src) = ?n - m" "length (drop m src) < ?n" using m n0 by auto
    have "room s2 (meta_cost s2 i + nblk (off + m) (length (drop m src)) + 3)"
      using less.prems(4) w(7) nb G(4) l2(1) by (simp add: room_def)
    moreover have "free_cost s2 i + nblk (off + m) (length (drop m src)) \<le> nfree s2" using less.prems(5) w(8) nb l2(1) by simp
    moreover have "off + m + length (drop m src) \<le> 71680" using less.prems(3) l2(1) m(2) by simp
    ultimately obtain s' where s': "writei_loop s2 i (drop m src) (off + m) = Ok s'" "grown s2 i s'"
      "\<forall>k. (off + m) div 512 \<le> k \<longrightarrow> k * 512 < off + m + length (drop m src) \<longrightarrow> drop m src \<noteq> [] \<longrightarrow> fmap s' i k \<noteq> 0"
      "\<forall>p<71680. fmap s' i (p div 512) \<noteq> 0 \<longrightarrow> fbyte s' i p =
        (if off + m \<le> p \<and> p < off + m + length (drop m src) then drop m src ! (p - (off + m)) else if fmap s2 i (p div 512) = 0 then 0 else fbyte s2 i p)"
      "card (dirtyset s') + meta_cost s' i \<le> card (dirtyset s2) + meta_cost s2 i + nblk (off + m) (length (drop m src))"
      "nfree s2 + free_cost s' i \<le> nfree s' + free_cost s2 i + nblk (off + m) (length (drop m src))"
      using less.hyps [OF l2(2) G(1,2)] by blast
    have call: "writei_loop s i src off = Ok s'"
      using False w(1,2) s'(1) by (subst writei_loop.simps) (simp add: Let_def m_def [symmetric])
    note H = grownD [OF s'(2)]
    have e: "512 * ?bn + off mod 512 = off" by (rule mult_div_mod_eq)
    have "fmap s' i k \<noteq> 0" if k: "?bn \<le> k" "k * 512 < off + ?n" for k
    proof (cases "k = ?bn")
      case True
      then show ?thesis using H(6) [OF bn w(4)] w(4) by simp
    next
      case False
      then have "?bn + 1 \<le> k" using k(1) by simp
      then have "off + m \<le> k * 512" using e m(3) by linarith
      then have "(off + m) div 512 \<le> k" "m < ?n" using k(2) by linarith+
      then show ?thesis using s'(3) k(2) m(2) l2(1) by simp
    qed
    moreover have "fbyte s' i p = (if off \<le> p \<and> p < off + ?n then src ! (p - off) else if fmap s i (p div 512) = 0 then 0 else fbyte s i p)"
      if p: "p < 71680" "fmap s' i (p div 512) \<noteq> 0" for p
    proof (cases "off + m \<le> p \<and> p < off + ?n")
      case True
      then have "drop m src ! (p - (off + m)) = src ! (p - off)" using m(2) by (subst nth_drop) (simp_all add: add.commute)
      then show ?thesis using s'(4) p True l2(1) m(2) by auto
    next
      case out: False
      have s2p: "fbyte s' i p = (if fmap s2 i (p div 512) = 0 then 0 else fbyte s2 i p)"
        using s'(4) [rule_format, OF p] out l2(1) m(2) by auto
      have pb: "p div 512 < 140" using p(1) by auto
      show ?thesis
      proof (cases "off \<le> p \<and> p < off + m")
        case True
        note sb = same_block [OF m(3) True [THEN conjunct1] True [THEN conjunct2]]
        have "fbyte s2 i p = take m src ! (p - off)" using w(6) [rule_format, OF p(1)] sb w(4) True by auto
        also have "\<dots> = src ! (p - off)" using True by (intro nth_take) linarith
        finally show ?thesis using s2p sb(1) w(4) True m(2) by simp
      next
        case False
        have "\<not> (p div 512 = ?bn \<and> off mod 512 \<le> p mod 512 \<and> p mod 512 < off mod 512 + m)"
          using False e mult_div_mod_eq [of 512 p] by linarith
        then have old: "fbyte s2 i p = (if fmap s i (p div 512) = 0 then 0 else fbyte s i p)" if "fmap s2 i (p div 512) \<noteq> 0"
          using w(6) [rule_format, OF p(1) that] by (simp only: if_False)
        have unmapped: "fmap s i (p div 512) = 0" if "fmap s2 i (p div 512) = 0" using G(6) [OF pb] that by auto
        have "\<not> (off \<le> p \<and> p < off + ?n)" using out False by linarith
        then show ?thesis using s2p old unmapped by (cases "fmap s2 i (p div 512) = 0") (simp_all only: if_True if_False not_False_eq_True simp_thms)
      qed
    qed
    moreover have "card (dirtyset s') + meta_cost s' i \<le> card (dirtyset s) + meta_cost s i + nblk off ?n"
      "nfree s + free_cost s' i \<le> nfree s' + free_cost s i + nblk off ?n"
      using s'(5,6) w(7,8) nb l2(1) by simp_all
    moreover have "grown s i s'" by (rule grown_trans [OF w(3) s'(2) inode_okD(1) [OF less.prems(2)] less.prems(1)])
    ultimately show ?thesis using call by blast
  qed
qed

section \<open>iupdate\<close>

text \<open>The block of the inode area that holds the on-disk copy of an inode.\<close>

definition inode_blk :: "'a fsst_scheme \<Rightarrow> nat \<Rightarrow> u32" where
  "inode_blk s i = IBLOCK (i_inum (inodes s ! i)) (sb s)"

definition disk_inode :: "'a fsst_scheme \<Rightarrow> nat \<Rightarrow> dinode" where
  "disk_inode s i = get_dinode (64 * (unat (i_inum (inodes s ! i)) mod 8)) (bcontent s (inode_blk s i))"

definition inode_area :: "'a fsst_scheme \<Rightarrow> u32 \<Rightarrow> bool" where
  "inode_area s b \<longleftrightarrow> unat (log_start s) + 30 \<le> unat b \<and> b < bm s"

lemma IBLOCK_area:
  assumes "fs_layout s" "n < sb_ninodes (sb s)"
  shows "inode_area s (IBLOCK n (sb s))"
proof -
  have n: "unat n div 8 \<le> unat (sb_ninodes (sb s)) div 8" using assms(2) by (intro div_le_mono) (simp add: word_less_nat_alt)
  have l: "unat (log_start s) + 30 \<le> unat (sb_inodestart (sb s))"
    "unat (sb_inodestart (sb s)) + unat (sb_ninodes (sb s)) div 8 < unat (bm s)" "unat (bm s) < 1000"
    using assms(1) by (auto simp: fs_layout_def bm_def)
  have "unat (n div of_nat IPB) = unat n div 8" by (simp add: unat_div)
  then have "unat (IBLOCK n (sb s)) = unat n div 8 + unat (sb_inodestart (sb s))"
    unfolding IBLOCK_def using n l by (subst unat_add_lem [THEN iffD1]) simp_all
  then show ?thesis using n l by (simp add: inode_area_def word_less_nat_alt)
qed

lemma modify_meta:
  assumes "alloc_ok s" "room s 0" "inode_area s b" "b \<notin> held s" "length (f (bcontent s b)) = 512"
  shows "\<exists>s'. modify_block s 1 b f = Ok s' \<and> alloc_ok s' \<and> log_frame s s' \<and> held s' = held s \<and>
    bcontent s' = (bcontent s)(b := f (bcontent s b)) \<and> dirtyset s' = insert b (dirtyset s) \<and> used s' = used s"
proof -
  have e: "in_txn s" "fs_layout s" "1 \<le> outstanding s" using assms(1) by (auto simp: alloc_ok_def)
  have r: "unat (log_start s) + 30 \<le> unat b" "b < bm s" "1 < unat (log_start s)"
    using assms(3) e(2) by (auto simp: inode_area_def fs_layout_def)
  note L = layout_facts [OF e(2)]
  have b: "b < 1000" "b \<noteq> bm s" "b \<noteq> 1" using r L(1) by auto
  have "b \<notin> log_region s" using log_region_range [of b s] r L(1) by (auto simp: word_less_nat_alt)
  from modify_room [where f = f, OF e(1) assms(2) b(1) assms(4) this e(3) assms(5)]
  obtain s' where s': "modify_block s 1 b f = Ok s'" "in_txn s'" "bcontent s' = (bcontent s)(b := f (bcontent s b))"
     "held s' = held s" "dirtyset s' = insert b (dirtyset s)" "log_frame s s'" by blast
  have u: "used s' = used s" using s'(3) fs_frame(9) [OF s'(6)] b(2) by (intro ext) (simp add: used_def)
  have "alloc_ok s'"
  proof (rule alloc_ok_step [OF assms(1) s'(6,2,4)])
    show "bcontent s' 1 = bcontent s 1" using s'(3) b(3) by simp
    show "used s' b" if "b \<le> bm s \<or> b \<in> held s" for b
      using that assms(1) unfolding u alloc_ok_def meta_used_def by blast
  qed
  then show ?thesis using s' u by blast
qed

text \<open>Changing a block of the inode area changes no file.\<close>

lemma meta_inode:
  assumes "alloc_ok s" "inode_ok s j" "inode_area s b" "log_frame s s'" "held s' = held s" "used s' = used s"
    "\<And>c. c \<noteq> b \<Longrightarrow> bcontent s' c = bcontent s c"
  shows "fmap s' j = fmap s j" "find_blk s' j = find_blk s j" "inode_ok s' j" "fblocks s' j = fblocks s j"
    "p < 71680 \<Longrightarrow> fmap s j (p div 512) \<noteq> 0 \<Longrightarrow> fbyte s' j p = fbyte s j p"
proof -
  note I = inode_okD [OF assms(2)] and F = fs_frame [OF assms(4)]
  have db: "data_block s' = data_block s" using F(1,9) by (simp add: data_block_def fun_eq_iff)
  have ow: "owned s' = owned s" using assms(5,6) db by (intro ext) (simp add: owned_def)
  have nb: "c \<noteq> b" if "owned s c" for c using that assms(3) by (auto simp: owned_def data_block_def inode_area_def)
  have cq: "find_blk s j \<noteq> 0 \<longrightarrow> bcontent s' (find_blk s j) = bcontent s (find_blk s j)" using assms(7) nb I(8) by blast
  show q: "find_blk s' j = find_blk s j" using F(2) by (simp add: find_blk_def)
  show fm: "fmap s' j = fmap s j"
    unfolding fmap_def F(2) by (intro ext faddr_cong) (use cq in \<open>simp add: find_blk_def\<close>)
  have "map_ok (bcontent s') (owned s') (i_addrs (inodes s' ! j))"
    unfolding F(2) ow by (rule map_ok_cong [OF I(4)]) (use cq in \<open>auto simp: find_blk_def\<close>)
  then show "inode_ok s' j" unfolding inode_ok_def fm F(2) using I(1,2,3,5) by simp
  show "fblocks s' j = fblocks s j" by (simp add: fblocks_def q fm)
  assume "p < 71680" "fmap s j (p div 512) \<noteq> 0"
  then have "owned s (fmap s j (p div 512))" using I(7) by auto
  then show "fbyte s' j p = fbyte s j p" using assms(7) nb by (simp add: fbyte_def fm)
qed

lemma iupdate_ok:
  assumes "alloc_ok s" "inode_ok s i" "room s 0" "i_inum (inodes s ! i) < sb_ninodes (sb s)" "inode_blk s i \<notin> held s"
  shows "\<exists>s'. iupdate s i = Ok s' \<and> alloc_ok s' \<and> log_frame s s' \<and> held s' = held s \<and> used s' = used s \<and>
    (\<forall>c. c \<noteq> inode_blk s i \<longrightarrow> bcontent s' c = bcontent s c) \<and> dirtyset s' = insert (inode_blk s i) (dirtyset s) \<and>
    disk_inode s' i = to_dinode (inodes s ! i)"
proof -
  note I = inode_okD [OF assms(2)]
  have e: "in_txn s" "fs_layout s" using assms(1) by (auto simp: alloc_ok_def)
  let ?x = "64 * (unat (i_inum (inodes s ! i)) mod 8)" and ?di = "to_dinode (inodes s ! i)"
  have x: "?x + 64 \<le> 512" using mod_less_divisor [of 8 "unat (i_inum (inodes s ! i))"] by linarith
  have g: "length (d_addrs ?di) = 13" "?x + 64 \<le> length (bcontent s (inode_blk s i))"
    using I(6) e(1) x by (simp_all add: to_dinode_def)
  have "length (put_dinode ?x ?di (bcontent s (inode_blk s i))) = 512" using get_put_dinode(1) [OF g] e(1) by simp
  from modify_meta [where f = "put_dinode ?x ?di", OF assms(1,3) IBLOCK_area [OF e(2) assms(4)] assms(5) [unfolded inode_blk_def] this [unfolded inode_blk_def]]
  obtain s' where s': "modify_block s 1 (inode_blk s i) (put_dinode ?x ?di) = Ok s'" "alloc_ok s'" "log_frame s s'" "held s' = held s"
     "bcontent s' = (bcontent s)(inode_blk s i := put_dinode ?x ?di (bcontent s (inode_blk s i)))"
     "dirtyset s' = insert (inode_blk s i) (dirtyset s)" "used s' = used s" unfolding inode_blk_def by blast
  note F = fs_frame [OF s'(3)]
  have "disk_inode s' i = ?di" using get_put_dinode(2) [OF g] s'(5) F(1,2) by (simp add: disk_inode_def inode_blk_def)
  moreover have "iupdate s i = Ok s'" using s'(1) I(2) by (simp add: iupdate_def Let_def inode_blk_def)
  ultimately show ?thesis using s' by simp
qed

section \<open>readi and writei on the contents of a file\<close>

lemma readi_ok:
  assumes "fs_ok s" "inode_ok s i" "room s 0" "i_type (inodes s ! i) \<noteq> T_DEV" "off \<le> i_size (inodes s ! i)"
    "unat off + unat n < 2 ^ 32"
  defines "bs \<equiv> take (unat n) (drop (unat off) (file_bytes s i))"
  shows "\<exists>s'. readi s i off n = Ok ((int (length bs), bs), s') \<and> same_view s s'"
proof -
  let ?sz = "i_size (inodes s ! i)"
  define m where "m = (if off + n > ?sz then ?sz - off else n)"
  have sz: "unat ?sz \<le> 71680" by (rule inode_okD(3) [OF assms(2)])
  have o: "unat off \<le> unat ?sz" using assms(5) by (simp add: word_le_nat_alt)
  have u: "unat (off + n) = unat off + unat n" using assms(6) by (subst unat_add_lem [THEN iffD1]) simp_all
  have m: "unat m = min (unat n) (unat ?sz - unat off)"
    using u o assms(5) by (auto simp: m_def word_less_nat_alt unat_sub min_def)
  have "unat off + unat m \<le> unat ?sz" using m o by simp
  from readi_loop_ok [OF assms(1-3) this] obtain s' where
    s': "readi_loop s i (unat off) (unat m) = Ok (map (fbyte s i) [unat off..<unat off + unat m], s')" "same_view s s'" by blast
  have bs: "bs = map (fbyte s i) [unat off..<unat off + unat m]"
  proof (rule nth_equalityI)
    show "length bs = length (map (fbyte s i) [unat off..<unat off + unat m])"
      using m o by (simp add: bs_def file_bytes_def min_def)
    show "bs ! k = map (fbyte s i) [unat off..<unat off + unat m] ! k" if "k < length bs" for k
      using that m o by (auto simp: bs_def file_bytes_def)
  qed
  have "sint m = int (length bs)" using m sz unfolding bs by (subst sint_small) simp_all
  moreover have "\<not> (off > ?sz \<or> off + n < off)" using assms(5) u by (simp add: word_less_nat_alt word_le_nat_alt)
  ultimately show ?thesis using assms(4) s' by (simp add: readi_def Let_def m_def [symmetric] bs)
qed

text \<open>The contents of a file after a write at \<open>off\<close>.\<close>

definition overwrite :: "nat \<Rightarrow> 'a list \<Rightarrow> 'a list \<Rightarrow> 'a list" where
  "overwrite off src xs = take off xs @ src @ drop (off + length src) xs"

lemma overwrite_nth:
  assumes "off \<le> length xs"
  shows "length (overwrite off src xs) = max (length xs) (off + length src)"
    "p < length (overwrite off src xs) \<Longrightarrow> overwrite off src xs ! p = (if off \<le> p \<and> p < off + length src then src ! (p - off) else xs ! p)"
  using assms by (auto simp: overwrite_def nth_append)

lemma overwrite_read [simp]: "off \<le> length xs \<Longrightarrow> take (length src) (drop off (overwrite off src xs)) = src"
  by (simp add: overwrite_def)

lemma file_bytes_written:
  assumes "unat (i_size (inodes s' ! i)) = max (unat (i_size (inodes s ! i))) (off + length src)" "off \<le> unat (i_size (inodes s ! i))"
    "\<And>p. p < unat (i_size (inodes s' ! i)) \<Longrightarrow> fbyte s' i p = (if off \<le> p \<and> p < off + length src then src ! (p - off) else fbyte s i p)"
  shows "file_bytes s' i = overwrite off src (file_bytes s i)"
proof (rule nth_equalityI)
  have l: "off \<le> length (file_bytes s i)" using assms(2) by (simp add: file_bytes_def)
  show "length (file_bytes s' i) = length (overwrite off src (file_bytes s i))"
    unfolding overwrite_nth(1) [OF l] using assms(1) by (simp add: file_bytes_def)
  fix p assume p: "p < length (file_bytes s' i)"
  then have "p < length (overwrite off src (file_bytes s i))" unfolding overwrite_nth(1) [OF l] using assms(1) by (simp add: file_bytes_def)
  from overwrite_nth(2) [OF l this] show "file_bytes s' i ! p = overwrite off src (file_bytes s i) ! p"
    using p assms by (auto simp: file_bytes_def)
qed

text \<open>Setting the size of an inode.\<close>

lemma sized_ok:
  assumes "inode_ok s i"
  defines "s' n \<equiv> upd_inode s i (\<lambda>ip. ip\<lparr>i_size := n\<rparr>)"
  shows "fmap (s' n) i = fmap s i" "fblocks (s' n) i = fblocks s i" "fbyte (s' n) i = fbyte s i"
    "unat n \<le> 71680 \<Longrightarrow> (\<And>m. m * 512 < unat n \<Longrightarrow> fmap s i m \<noteq> 0) \<Longrightarrow> inode_ok (s' n) i"
proof -
  note I = inode_okD [OF assms(1)]
  show fm: "fmap (s' n) i = fmap s i" and "fblocks (s' n) i = fblocks s i" and "fbyte (s' n) i = fbyte s i"
    using I(1) by (simp_all add: s'_def fmap_def fblocks_def find_blk_def fbyte_def upd_inode_def fun_eq_iff)
  have "owned (s' n) = owned s" by (simp add: s'_def owned_def upd_inode_def fun_eq_iff)
  then show "inode_ok (s' n) i" if "unat n \<le> 71680" "\<And>m. m * 512 < unat n \<Longrightarrow> fmap s i m \<noteq> 0"
    using I(1,2,4) that unfolding inode_ok_def fm by (simp add: s'_def upd_inode_def)
qed

text \<open>What a write keeps: everything but the blocks of the file, free blocks, the bitmap and the block of the inode.\<close>

definition only_file :: "'a fsst_scheme \<Rightarrow> nat \<Rightarrow> 'a fsst_scheme \<Rightarrow> bool" where
  "only_file s i s' \<longleftrightarrow> fs_rest s s' \<and> held s' = held s \<and> length (inodes s') = length (inodes s) \<and> (\<forall>j. j \<noteq> i \<longrightarrow> inodes s' ! j = inodes s ! j) \<and>
     (\<forall>c<1000. used s c \<longrightarrow> used s' c) \<and>
     (\<forall>c<1000. used s c \<longrightarrow> c \<noteq> bm s \<longrightarrow> c \<noteq> inode_blk s i \<longrightarrow> c \<notin> fblocks s i \<longrightarrow> bcontent s' c = bcontent s c)"

lemma writei_ok:
  assumes "alloc_ok s" "inode_ok s i" "i_type (inodes s ! i) \<noteq> T_DEV" "off \<le> i_size (inodes s ! i)"
    "unat off + length src \<le> 71680" "room s (meta_cost s i + nblk (unat off) (length src) + 3)"
    "free_cost s i + nblk (unat off) (length src) \<le> nfree s"
    "i_inum (inodes s ! i) < sb_ninodes (sb s)" "inode_blk s i \<notin> held s"
  shows "\<exists>s'. writei s i src off = Ok (int (length src), s') \<and> alloc_ok s' \<and> inode_ok s' i \<and> only_file s i s' \<and> room s' 0 \<and>
    file_bytes s' i = overwrite (unat off) src (file_bytes s i) \<and> (\<exists>as n. inodes s' ! i = (inodes s ! i)\<lparr>i_addrs := as, i_size := n\<rparr>) \<and>
    (unat (i_size (inodes s ! i)) < unat off + length src \<longrightarrow> disk_inode s' i = to_dinode (inodes s' ! i)) \<and>
    nfree s + free_cost s' i \<le> nfree s' + free_cost s i + nblk (unat off) (length src)"
proof -
  let ?n = "length src" and ?sz = "i_size (inodes s ! i)" and ?w = "of_nat (length src) :: u32"
  note I = inode_okD [OF assms(2)]
  obtain s1 where s1: "writei_loop s i src (unat off) = Ok s1" "grown s i s1"
    "\<forall>m. unat off div 512 \<le> m \<longrightarrow> m * 512 < unat off + ?n \<longrightarrow> src \<noteq> [] \<longrightarrow> fmap s1 i m \<noteq> 0"
    "\<forall>p<71680. fmap s1 i (p div 512) \<noteq> 0 \<longrightarrow> fbyte s1 i p =
        (if unat off \<le> p \<and> p < unat off + ?n then src ! (p - unat off) else if fmap s i (p div 512) = 0 then 0 else fbyte s i p)"
    "card (dirtyset s1) + meta_cost s1 i \<le> card (dirtyset s) + meta_cost s i + nblk (unat off) ?n"
    "nfree s + free_cost s1 i \<le> nfree s1 + free_cost s i + nblk (unat off) ?n"
    using writei_loop_ok [OF assms(1,2,5-7)] by blast
  note G = grownD [OF s1(2)]
  note J = inode_okD [OF G(2)]
  obtain as where as: "inodes s1 = (inodes s)[i := (inodes s ! i)\<lparr>i_addrs := as\<rparr>]" using G(5) by blast
  have f1: "i_size (inodes s1 ! i) = ?sz" "i_inum (inodes s1 ! i) = i_inum (inodes s ! i)" "i_dev (inodes s1 ! i) = 1"
    "i_type (inodes s1 ! i) = i_type (inodes s ! i)" using as I(1,2) by simp_all
  have r1: "room s1 2" using assms(6) s1(5) G(4) by (simp add: room_def)
  have o: "unat off \<le> unat ?sz" using assms(4) by (simp add: word_le_nat_alt)
  have wn: "unat ?w = ?n" "sint ?w = int ?n" using assms(5) by (simp_all add: unat_of_nat sint_small)
  have u: "unat (off + ?w) = unat off + ?n" using assms(5) wn(1) by (subst unat_add_lem [THEN iffD1]) simp_all
  have g: "\<not> (off > ?sz \<or> off + ?w < off)" "\<not> off + ?w > of_nat (MAXFILE * BSIZE)"
    using o u assms(5) by (simp_all add: word_less_nat_alt)
  have body: "fbyte s1 i p = (if unat off \<le> p \<and> p < unat off + ?n then src ! (p - unat off) else fbyte s i p)"
    if "p < max (unat ?sz) (unat off + ?n)" for p
  proof -
    have p: "p < 71680" "p div 512 * 512 \<le> p" using that I(3) assms(5) by auto
    show ?thesis
    proof (cases "unat off \<le> p \<and> p < unat off + ?n")
      case True
      then have "fmap s1 i (p div 512) \<noteq> 0" using s1(3) p(2) div_le_mono [of "unat off" p 512] by fastforce
      then show ?thesis using s1(4) p(1) True by auto
    next
      case False
      then have "p < unat ?sz" using that o by auto
      then have "fmap s i (p div 512) \<noteq> 0" using I(5) p(2) by (meson le_less_trans)
      moreover from this have "fmap s1 i (p div 512) \<noteq> 0" using G(6) p(1) by auto
      ultimately show ?thesis using s1(4) p(1) False by auto
    qed
  qed
  show ?thesis
  proof (cases "unat ?sz < unat off + ?n")
    case False
    then have "writei s i src off = Ok (int ?n, s1)"
      using assms(3) g s1(1) wn(2) u f1(1) by (simp add: writei_def Let_def word_less_nat_alt)
    moreover have "file_bytes s1 i = overwrite (unat off) src (file_bytes s i)"
      using body False f1(1) by (intro file_bytes_written) (simp_all add: o max_def)
    moreover have "only_file s i s1" using G(3,4,8,9) as by (simp add: only_file_def)
    moreover have "\<exists>as n. inodes s1 ! i = (inodes s ! i)\<lparr>i_addrs := as, i_size := n\<rparr>"
      using as I(1) by (intro exI [of _ as] exI [of _ ?sz]) simp
    ultimately show ?thesis using G(1,2) False room_mono [OF r1] s1(6) by auto
  next
    case True
    let ?s2 = "upd_inode s1 i (\<lambda>ip. ip\<lparr>i_size := off + ?w\<rparr>)"
    have ne: "src \<noteq> []" using True o by auto
    have l1: "i < length (inodes s1)" by (rule J(1))
    note N = sized_ok [OF G(2), of "off + ?w"]
    have top: "unat (i_size (inodes ?s2 ! i)) = unat off + ?n" using l1 u by (simp add: upd_inode_def)
    have i2: "inode_ok ?s2 i"
    proof (rule N(4))
      fix m assume m: "m * 512 < unat (off + ?w)"
      show "fmap s1 i m \<noteq> 0"
      proof (cases "unat off div 512 \<le> m")
        case True
        then show ?thesis using s1(3) m u \<open>unat ?sz < unat off + ?n\<close> o by auto
      next
        case False
        then have "m * 512 < unat ?sz" using o by (auto simp: not_le less_eq_div_iff_mult_less_eq simp flip: less_eq_Suc_le)
        then show ?thesis using J(5) f1(1) by simp
      qed
    qed (use u assms(5) in simp)
    have K: "inode_blk ?s2 i = inode_blk s i" "inode_blk ?s2 i \<notin> held ?s2" "i_inum (inodes ?s2 ! i) < sb_ninodes (sb ?s2)"
      using assms(8,9) f1(2) G(4) fs_restD(1) [OF G(3)] l1 by (simp_all add: inode_blk_def upd_inode_def)
    have a2: "alloc_ok ?s2" "room ?s2 0" "bcontent ?s2 = bcontent s1" "used ?s2 = used s1" "held ?s2 = held s"
      using G(1,4) room_mono [OF r1] by (simp_all add: upd_inode_def)
    obtain s' where s': "iupdate ?s2 i = Ok s'" "alloc_ok s'" "log_frame ?s2 s'" "held s' = held ?s2" "used s' = used ?s2"
      "\<forall>c. c \<noteq> inode_blk s i \<longrightarrow> bcontent s' c = bcontent ?s2 c" "dirtyset s' = insert (inode_blk s i) (dirtyset s1)"
      "disk_inode s' i = to_dinode (inodes ?s2 ! i)"
      using iupdate_ok [OF a2(1) i2 a2(2) K(3,2)] K(1) by (auto simp: upd_inode_def)
    note F = fs_frame [OF s'(3)]
    have ia: "inode_area ?s2 (inode_blk s i)"
      using IBLOCK_area [of ?s2 "i_inum (inodes ?s2 ! i)"] a2(1) K(1,3) by (simp add: alloc_ok_def inode_blk_def)
    have s'c: "bcontent s' c = bcontent ?s2 c" if "c \<noteq> inode_blk s i" for c using s'(6) that by blast
    note M = meta_inode [OF a2(1) i2 ia s'(3,4,5) s'c]
    have "writei s i src off = Ok (int ?n, s')"
      using assms(3) g s1(1) wn(1,2) u f1(1) True ne s'(1) by (simp add: writei_def Let_def word_less_nat_alt)
    moreover have "file_bytes s' i = overwrite (unat off) src (file_bytes s i)"
    proof (rule file_bytes_written)
      show sz': "unat (i_size (inodes s' ! i)) = max (unat ?sz) (unat off + ?n)" using F(2) top True by simp
      fix p assume p: "p < unat (i_size (inodes s' ! i))"
      then have "p < 71680" "fmap ?s2 i (p div 512) \<noteq> 0"
        using F(2) top assms(5) inode_okD(5) [OF i2, of "p div 512"] by (auto intro: le_less_trans [of _ p])
      then have "fbyte s' i p = fbyte s1 i p" using M(5) N(3) by simp
      then show "fbyte s' i p = (if unat off \<le> p \<and> p < unat off + ?n then src ! (p - unat off) else fbyte s i p)"
        using body p sz' by simp
    qed (rule o)
    moreover have "fs_rest s s'"
      using fs_rest_trans [OF G(3) fs_rest_trans [of _ ?s2]] fs_rest_frame [OF s'(3)] by (simp add: upd_inode_def)
    then have "only_file s i s'"
      using G(8,9) as s'c s'(4,5) a2(3-5) F(2) by (simp add: only_file_def upd_inode_def)
    moreover have "card (dirtyset s') \<le> Suc (card (dirtyset s1))" unfolding s'(7) by (rule card_insert_le_m1) simp_all
    then have "room s' 0" using r1 s'(4) a2(5) G(4) by (simp add: room_def)
    moreover have "\<exists>as n. inodes s' ! i = (inodes s ! i)\<lparr>i_addrs := as, i_size := n\<rparr>"
      unfolding F(2) using as I(1) by (intro exI [of _ as] exI [of _ "off + ?w"]) (simp add: upd_inode_def)
    moreover have "nfree s' = nfree s1" "free_cost s' i = free_cost s1 i"
      using s'(5) a2(4) F(1,2) l1 by (simp_all add: nfree_def free_cost_def find_blk_def upd_inode_def)
    ultimately show ?thesis using s'(2,8) M(3) F(2) l1 s1(6) by (simp add: upd_inode_def)
  qed
qed

text \<open>A file depends on its inode and its own blocks only.\<close>

lemma inode_cong:
  assumes "inode_ok s j" "length (inodes s') = length (inodes s)" "i_dev (inodes s' ! j) = i_dev (inodes s ! j)"
    "i_size (inodes s' ! j) = i_size (inodes s ! j)" "i_addrs (inodes s' ! j) = i_addrs (inodes s ! j)"
    "\<And>c. owned s c \<Longrightarrow> owned s' c" "\<And>c. c \<in> fblocks s j \<Longrightarrow> bcontent s' c = bcontent s c"
  shows "inode_ok s' j" "file_bytes s' j = file_bytes s j" "fmap s' j = fmap s j" "find_blk s' j = find_blk s j" "fblocks s' j = fblocks s j"
proof -
  note I = inode_okD [OF assms(1)]
  show q: "find_blk s' j = find_blk s j" using assms(5) by (simp add: find_blk_def)
  have cq: "find_blk s j \<noteq> 0 \<longrightarrow> bcontent s' (find_blk s j) = bcontent s (find_blk s j)" using assms(7) by (simp add: fblocks_def)
  show fm: "fmap s' j = fmap s j"
    unfolding fmap_def assms(5) by (intro ext faddr_cong) (use cq in \<open>simp add: find_blk_def\<close>)
  show "fblocks s' j = fblocks s j" by (simp add: fblocks_def q fm)
  have "map_ok (bcontent s') (owned s') (i_addrs (inodes s' ! j))"
    unfolding assms(5) by (rule map_ok_cong [OF I(4)]) (use cq assms(6) in \<open>auto simp: find_blk_def\<close>)
  then show "inode_ok s' j" unfolding inode_ok_def fm using I(1,2,3,5) assms(2-4) by simp
  show "file_bytes s' j = file_bytes s j"
    unfolding file_bytes_def assms(4)
  proof (rule map_cong [OF refl])
    fix p assume "p \<in> set [0..<unat (i_size (inodes s ! j))]"
    then have p: "p < unat (i_size (inodes s ! j))" by simp
    then have "fmap s j (p div 512) \<noteq> 0" "p div 512 < 140" using I(3) I(5) [of "p div 512"] by (auto intro: le_less_trans [of _ p])
    then show "fbyte s' j p = fbyte s j p" using assms(7) by (simp add: fbyte_def fm fblocks_def)
  qed
qed

text \<open>Files with other blocks are unchanged.\<close>

lemma other_file:
  assumes "alloc_ok s" "inode_ok s i" "only_file s i s'" "inode_ok s j" "j \<noteq> i" "fblocks s j \<inter> fblocks s i = {}"
    "i_inum (inodes s ! i) < sb_ninodes (sb s)"
  shows "inode_ok s' j \<and> file_bytes s' j = file_bytes s j"
proof -
  note I = inode_okD [OF assms(4)]
  have o: "fs_rest s s'" "held s' = held s" "inodes s' ! j = inodes s ! j" "length (inodes s') = length (inodes s)" "\<And>c. c < 1000 \<Longrightarrow> used s c \<Longrightarrow> used s' c"
    "\<And>c. c < 1000 \<Longrightarrow> used s c \<Longrightarrow> c \<noteq> bm s \<Longrightarrow> c \<noteq> inode_blk s i \<Longrightarrow> c \<notin> fblocks s i \<Longrightarrow> bcontent s' c = bcontent s c"
    using assms(3,5) by (auto simp: only_file_def)
  have l: "fs_layout s" using assms(1) by (simp add: alloc_ok_def)
  have ia: "inode_area s (inode_blk s i)" using IBLOCK_area [OF l assms(7)] by (simp add: inode_blk_def)
  have ow: "c < 1000" "used s c" "c \<noteq> bm s" "c \<noteq> inode_blk s i" "owned s' c" if "owned s c" for c
  proof -
    have d: "data_block s c" "used s c" "c \<notin> held s" using that by (auto simp: owned_def)
    note L = layout_facts [OF l]
    show c: "c < 1000" "used s c" "c \<noteq> bm s" "c \<noteq> inode_blk s i"
      using L(3,5) [OF d(1)] d ia by (auto simp: data_block_def inode_area_def)
    show "owned s' c" using d o(2) o(5) [OF c(1,2)] fs_restD(12) [OF o(1)] by (simp add: owned_def)
  qed
  have same: "bcontent s' c = bcontent s c" if "c \<in> fblocks s j" for c
  proof -
    have "owned s c" using that I(7,8) by (auto simp: fblocks_def)
    then show ?thesis using o(6) ow that assms(6) by blast
  qed
  show ?thesis using inode_cong(1,2) [OF assms(4) o(4) _ _ _ ow(5) same] o(3) by simp
qed

text \<open>C17: a write of \<open>n\<close> bytes at an offset inside a file, within the maximal file size and with room in the log and free
  blocks for it, returns \<open>n\<close>; the file then holds the old contents with the bytes written over them at the offset,
  longer if needed; reading the range back returns the bytes written; when the file grows its on-disk inode is
  brought up to date; and a file with other blocks has the contents it had.\<close>

theorem writei_readi_roundtrip:
  assumes "alloc_ok s" "inode_ok s i" "i_type (inodes s ! i) \<noteq> T_DEV" "off \<le> i_size (inodes s ! i)"
    "unat off + length src \<le> MAXFILE * BSIZE" "room s (meta_cost s i + nblk (unat off) (length src) + 3)"
    "free_cost s i + nblk (unat off) (length src) \<le> nfree s"
    "i_inum (inodes s ! i) < sb_ninodes (sb s)" "inode_blk s i \<notin> held s"
  shows "\<exists>s'. writei s i src off = Ok (int (length src), s') \<and> alloc_ok s' \<and> inode_ok s' i \<and>
    file_bytes s' i = overwrite (unat off) src (file_bytes s i) \<and>
    (\<exists>s''. readi s' i off (of_nat (length src)) = Ok ((int (length src), src), s'') \<and> file_bytes s'' i = file_bytes s' i) \<and>
    (unat (i_size (inodes s ! i)) < unat off + length src \<longrightarrow> disk_inode s' i = to_dinode (inodes s' ! i)) \<and>
    (\<forall>j. j \<noteq> i \<longrightarrow> inode_ok s j \<longrightarrow> fblocks s j \<inter> fblocks s i = {} \<longrightarrow> inode_ok s' j \<and> file_bytes s' j = file_bytes s j)"
proof -
  have m: "unat off + length src \<le> 71680" using assms(5) by simp
  from writei_ok [OF assms(1-4) m assms(6-9)] obtain s' where s': "writei s i src off = Ok (int (length src), s')" "alloc_ok s'" "inode_ok s' i"
    "only_file s i s'" "room s' 0" "file_bytes s' i = overwrite (unat off) src (file_bytes s i)" "\<exists>as n. inodes s' ! i = (inodes s ! i)\<lparr>i_addrs := as, i_size := n\<rparr>"
    "unat (i_size (inodes s ! i)) < unat off + length src \<longrightarrow> disk_inode s' i = to_dinode (inodes s' ! i)" by blast
  have o: "unat off \<le> length (file_bytes s i)" using assms(4) by (simp add: file_bytes_def word_le_nat_alt)
  have len: "length (file_bytes s' i) = unat (i_size (inodes s' ! i))" by (simp add: file_bytes_def)
  have w: "unat (of_nat (length src) :: u32) = length src" using m by (simp add: unat_of_nat)
  have "off \<le> i_size (inodes s' ! i)" using len overwrite_nth(1) [OF o] s'(6) o by (simp add: word_le_nat_alt)
  moreover have "i_type (inodes s' ! i) = i_type (inodes s ! i)" using s'(7) by auto
  ultimately obtain s'' where s'': "readi s' i off (of_nat (length src)) = Ok ((int (length src), src), s'')" "same_view s' s''"
    using readi_ok [OF alloc_fs_ok [OF s'(2)] s'(3,5), of off "of_nat (length src)"] assms(3) s'(6) o w m by auto
  have "file_bytes s'' i = file_bytes s' i"
    using same_view_fbyte [OF s''(2)] same_view_facts(12) [OF s''(2)] by (simp add: file_bytes_def)
  then show ?thesis using s' s''(1) other_file [OF assms(1,2) s'(4) _ _ _ assms(8)] by blast
qed

definition demo_inode :: inode where
  "demo_inode = \<lparr>i_dev = 1, i_inum = 2, i_ref = 1, i_locked = True, i_valid = True, i_type = T_FILE, i_major = 0, i_minor = 0,
     i_nlink = 1, i_size = 0, i_addrs = replicate 13 0\<rparr>"

definition demo_open :: fsst where
  "demo_open = upd_inode demo_fs 0 (\<lambda>_. demo_inode)"

lemma demo_open_ok: "alloc_ok demo_open" "inode_ok demo_open 0" "room demo_open 12" "2 \<le> nfree demo_open"
  "inodes demo_open ! 0 = demo_inode" "sb demo_open = sb demo_fs" "held demo_open = {}"
proof -
  have f0: "faddr C (replicate 13 0) m = 0" if "m < 140" for C m using that by (simp add: faddr_def)
  show "alloc_ok demo_open" "room demo_open 12" "sb demo_open = sb demo_fs" "held demo_open = {}"
    using demo_alloc_ok demo_fs_txn(2) by (simp_all add: demo_open_def upd_inode_def)
  show i: "inodes demo_open ! 0 = demo_inode" by (simp add: demo_open_def upd_inode_def demo_fs_fields)
  have "length (inodes demo_open) = 50" by (simp add: demo_open_def upd_inode_def demo_fs_fields)
  then show "inode_ok demo_open 0" unfolding inode_ok_def i map_ok_def by (simp add: demo_inode_def f0)
  have "{60, 61} \<subseteq> {b. b < sb_size (sb demo_open) \<and> \<not> used demo_open b}"
    using demo_used [of 60] demo_used [of 61] by (simp add: demo_open_def upd_inode_def demo_fs_fields demo_sb_fields)
  from card_mono [OF _ this] show "2 \<le> nfree demo_open" by (simp add: nfree_def)
qed

theorem writei_readi_roundtrip_witness:
  "\<exists>s' s''. writei demo_open 0 [104, 105] 0 = Ok (2, s') \<and> file_bytes s' 0 = [104, 105] \<and> d_size (disk_inode s' 0) = 2 \<and>
     readi s' 0 0 2 = Ok ((2, [104, 105]), s'')"
proof -
  have "room demo_open (meta_cost demo_open 0 + nblk (unat 0) (length [104, 105 :: byte]) + 3)"
    using room_mono [OF demo_open_ok(3)] by (simp add: meta_cost_def nblk_def)
  moreover have "free_cost demo_open 0 + nblk (unat 0) (length [104, 105 :: byte]) \<le> nfree demo_open"
    using demo_open_ok(4) by (simp add: free_cost_def nblk_def)
  moreover have "i_type (inodes demo_open ! 0) \<noteq> T_DEV" "0 \<le> i_size (inodes demo_open ! 0)" "inode_blk demo_open 0 \<notin> held demo_open"
    "i_inum (inodes demo_open ! 0) < sb_ninodes (sb demo_open)" "unat (0 :: u32) + length [104, 105 :: byte] \<le> MAXFILE * BSIZE"
    "i_size (inodes demo_open ! 0) = 0"
    using demo_open_ok(5-7) by (simp_all add: demo_inode_def demo_fs_fields demo_sb_fields)
  ultimately obtain s' s'' where s': "writei demo_open 0 [104, 105] 0 = Ok (2, s')"
    "file_bytes s' 0 = overwrite 0 [104, 105] (file_bytes demo_open 0)" "readi s' 0 0 2 = Ok ((2, [104, 105]), s'')"
    "disk_inode s' 0 = to_dinode (inodes s' ! 0)"
    using writei_readi_roundtrip [OF demo_open_ok(1,2), of 0 "[104, 105]"] by auto
  moreover have "file_bytes demo_open 0 = []" using demo_open_ok(5) by (simp add: file_bytes_def demo_inode_def)
  moreover from this s'(2) have "length (file_bytes s' 0) = 2" by (simp add: overwrite_def)
  then have "i_size (inodes s' ! 0) = 2" by (simp add: file_bytes_def word_unat_eq_iff)
  ultimately show ?thesis by (simp add: overwrite_def to_dinode_def)
qed

end
