(* ===== verification/FileData.thy ===== *)
theory FileData
  imports File FsFile
begin

text \<open>
  Reads and writes of an open file against the contents of its inode, with every piece of a write in a
  transaction of its own: the link between the file system's transactions and the callers above it.
\<close>

section \<open>Between transactions\<close>

text \<open>Two states with the same disk, cache, log, superblock and inodes.\<close>

definition fs_view :: "'a fsst_scheme \<Rightarrow> 'b fsst_scheme \<Rightarrow> bool" where
  "fs_view s s' \<longleftrightarrow> bufs s' = bufs s \<and> lru s' = lru s \<and> image s' = image s \<and> dwrites s' = dwrites s \<and> havedisk1 s' = havedisk1 s \<and>
     log_start s' = log_start s \<and> log_size s' = log_size s \<and> log_dev s' = log_dev s \<and> lh_n s' = lh_n s \<and> lh_block s' = lh_block s \<and>
     sb s' = sb s \<and> inodes s' = inodes s"

lemma fs_view_cong:
  fixes s :: "'a fsst_scheme" and s' :: "'b fsst_scheme"
  assumes "fs_view s s'"
  shows "bcontent s' = bcontent s" "held s' = held s" "dirtyset s' = dirtyset s" "log_region s' = log_region s" "in_txn s' = in_txn s"
    "room s' = room s" "bm s' = bm s" "used s' = used s" "fs_layout s' = fs_layout s" "meta_used s' = meta_used s"
    "owned s' = owned s" "nfree s' = nfree s" "fmap s' = fmap s" "inode_ok s' = inode_ok s" "file_bytes s' = file_bytes s"
    "find_blk s' = find_blk s" "free_cost s' = free_cost s" "meta_cost s' = meta_cost s" "inode_blk s' = inode_blk s" "fblocks s' = fblocks s"
    "sb s' = sb s" "inodes s' = inodes s"
proof -
  have e: "bufs s' = bufs s" "lru s' = lru s" "image s' = image s" "dwrites s' = dwrites s" "havedisk1 s' = havedisk1 s"
    "log_start s' = log_start s" "log_size s' = log_size s" "log_dev s' = log_dev s" "lh_n s' = lh_n s" "lh_block s' = lh_block s"
    using assms by (auto simp: fs_view_def)
  show f: "sb s' = sb s" "inodes s' = inodes s" using assms by (auto simp: fs_view_def)
  note B = bio_view_cong [OF e(1-5)]
  show "bcontent s' = bcontent s" "held s' = held s" "dirtyset s' = dirtyset s" by (fact B)+
  show r: "log_region s' = log_region s" by (simp add: log_region_def log_blk_def e)
  show "in_txn s' = in_txn s" by (simp add: in_txn_def log_ok_def r B e)
  show "room s' = room s" by (simp add: room_def fun_eq_iff B)
  show b: "bm s' = bm s" by (simp add: bm_def f)
  show u: "used s' = used s" by (simp add: used_def b fun_eq_iff B)
  show "fs_layout s' = fs_layout s" "meta_used s' = meta_used s" by (simp_all add: fs_layout_def meta_used_def b u f e B)
  show o: "owned s' = owned s" by (simp add: owned_def data_block_def b u f fun_eq_iff B)
  show "nfree s' = nfree s" by (simp add: nfree_def u f)
  show m: "fmap s' = fmap s" by (simp add: fmap_def fun_eq_iff f B)
  show "inode_ok s' = inode_ok s" by (simp add: inode_ok_def o m fun_eq_iff f B)
  show "file_bytes s' = file_bytes s" by (simp add: file_bytes_def fbyte_def m fun_eq_iff f B)
  show d: "find_blk s' = find_blk s" by (simp add: find_blk_def fun_eq_iff f)
  show "free_cost s' = free_cost s" "meta_cost s' = meta_cost s" "inode_blk s' = inode_blk s" "fblocks s' = fblocks s"
    by (simp_all add: free_cost_def meta_cost_def inode_blk_def fblocks_def d b m f fun_eq_iff B)
qed

lemma fs_view_alloc: "fs_view s s' \<Longrightarrow> outstanding s' = outstanding s \<Longrightarrow> alloc_ok s' = alloc_ok s"
  by (simp add: alloc_ok_def fs_view_cong)

lemma fs_view_out [simp]: "fs_view s (s\<lparr>outstanding := x\<rparr>)"
  by (simp add: fs_view_def)

lemmas fs_out [simp] = fs_view_cong [OF fs_view_out]

definition fs_idle :: "'a fsst_scheme \<Rightarrow> bool" where
  "fs_idle s \<longleftrightarrow> alloc_ok (s\<lparr>outstanding := 1\<rparr>) \<and> outstanding s = 0 \<and> \<not> committing s \<and> held s = {} \<and> dirtyset s = {}"

lemma begin_op_idle:
  assumes "fs_idle s"
  shows "begin_op s = Ok (s\<lparr>outstanding := 1\<rparr>)"
proof -
  have "in_txn s" using assms by (simp add: fs_idle_def alloc_ok_def)
  then have "lh_n s = 0" using in_txn_card [of s] assms by (auto simp: fs_idle_def)
  then show ?thesis using assms by (simp add: begin_op_def fs_idle_def)
qed

text \<open>What \<^verbatim>\<open>end_op\<close> keeps: everything above the log and every block outside it.\<close>

lemma end_op_idle:
  fixes s :: "'a fsst_scheme"
  assumes "alloc_ok s" "held s = {}" "outstanding s = 1" "\<not> committing s"
  shows "\<exists>s'. end_op s = Ok s' \<and> fs_idle s' \<and> logst.more s' = logst.more s \<and> used s' = used s \<and>
    (\<forall>c. c \<notin> log_region s \<longrightarrow> bcontent s' c = bcontent s c)"
proof -
  have e: "in_txn s" "fs_layout s" "meta_used s" using assms(1) by (auto simp: alloc_ok_def)
  have T: "trans_ok s" by (rule trans_in_txn [OF e(1) assms(2)])
  obtain s' where s': "end_op s = Ok s'" "bio_wf s'" "held s' = {}" "dirtyset s' = {}" "lh_n s' = 0" "outstanding s' = 0" "\<not> committing s'"
    "\<forall>k. k \<notin> log_region s \<longrightarrow> bcontent s' k = bcontent s k" "logst.more s' = logst.more s" "log_start s' = log_start s"
    "log_size s' = log_size s" "log_dev s' = log_dev s" "lh_block s' = lh_block s" "dwrites s' = commit_writes s @ dwrites s" "image s' = image s"
    using end_op_ok [OF T assms(3,4)] by blast
  have "get32 0 (disk s' 1 (log_start s')) = 0"
  proof (cases "0 < lh_n s")
    case True
    have "disk s' 1 (log_start s') = put32 0 0 (snd (head_write s))"
      using s'(10,14) True by (simp add: disk_def disk_get_def commit_writes_def clear_write_def put_head_def)
    moreover have "4 \<le> length (snd (head_write s))" using put_head_ok(1) e(1) by (simp add: head_write_def in_txn_def log_ok_def)
    ultimately show ?thesis by simp
  next
    case False
    then show ?thesis using e(1) s'(10,14,15) by (simp add: disk_def disk_get_def commit_writes_def in_txn_def)
  qed
  moreover have r: "log_region s' = log_region s" using s'(10) by (simp add: log_region_def log_blk_def)
  moreover have "log_ok s'" using e(1) s'(5,10,12,13) by (simp add: in_txn_def log_ok_def)
  ultimately have t: "in_txn s'" using s'(2,4,5,11) e(1) by (simp add: in_txn_def)
  have f: "sb s' = sb s" using s'(9) by (cases s, cases s') simp
  then have b: "bm s' = bm s" by (simp add: bm_def)
  note L = layout_facts [OF e(2)]
  have u: "used s' = used s" using s'(8) L(2) b by (intro ext) (simp add: used_def)
  have c1: "bcontent s' 1 = bcontent s 1" using s'(8) L(9) by blast
  have "fs_layout s'" using e(2) unfolding fs_layout_def f s'(10) c1 .
  moreover have "meta_used s'" using e(3) b u by (simp add: meta_used_def)
  ultimately have "fs_idle s'" using t s'(3,4,6,7) by (simp add: fs_idle_def alloc_ok_def)
  then show ?thesis using s'(1,8,9) u by blast
qed

section \<open>An open file\<close>

text \<open>The fields of the kernel above the file system.\<close>

definition same_kernel :: "kernel \<Rightarrow> kernel \<Rightarrow> bool" where
  "same_kernel k k' \<longleftrightarrow> kphys k' = kphys k \<and> SELECTION k' = SELECTION k \<and> VERBOSE_PRINT k' = VERBOSE_PRINT k \<and> pipes k' = pipes k \<and>
     procs k' = procs k \<and> cur k' = cur k \<and> initproc k' = initproc k \<and> nextpid k' = nextpid k \<and> ticks k' = ticks k \<and>
     kpgdir k' = kpgdir k \<and> cr3 k' = cr3 k"

lemma same_kernel_refl [simp]: "same_kernel k k"
  by (simp add: same_kernel_def)

lemma same_kernel_trans: "same_kernel k k' \<Longrightarrow> same_kernel k' k'' \<Longrightarrow> same_kernel k k''"
  by (simp add: same_kernel_def)

lemma more_kernel: "fsst.more k' = fsst.more k \<Longrightarrow> same_kernel k k' \<and> files k' = files k" for k :: kernel
  by (cases k, cases k') (simp add: same_kernel_def)

lemma logst_more_fs:
  fixes s :: "'a fsst_scheme"
  assumes "logst.more s' = logst.more s"
  shows "sb s' = sb s" "inodes s' = inodes s" "fsst.more s' = fsst.more s"
  using assms by (cases s, cases s', simp)+

text \<open>A cached inode of a file or directory that is not locked.\<close>

definition inode_free :: "'a fsst_scheme \<Rightarrow> nat \<Rightarrow> bool" where
  "inode_free s i \<longleftrightarrow> inode_ok s i \<and> i_type (inodes s ! i) \<noteq> T_DEV \<and> 1 \<le> i_ref (inodes s ! i) \<and> \<not> i_locked (inodes s ! i) \<and>
     i_valid (inodes s ! i) \<and> i_inum (inodes s ! i) < sb_ninodes (sb s)"

lemma lock_view:
  assumes "inode_ok s i"
  defines "s' b \<equiv> upd_inode s i (\<lambda>ip. ip\<lparr>i_locked := b\<rparr>)"
  shows "inode_ok (s' b) i" "file_bytes (s' b) i = file_bytes s i" "nfree (s' b) = nfree s" "alloc_ok (s' b) = alloc_ok s"
    "bcontent (s' b) = bcontent s" "held (s' b) = held s" "dirtyset (s' b) = dirtyset s" "find_blk (s' b) i = find_blk s i"
proof -
  have i: "i < length (inodes s)" by (rule inode_okD(1) [OF assms(1)])
  have s: "s' b = s\<lparr>inodes := (inodes s)[i := (inodes s ! i)\<lparr>i_locked := b\<rparr>]\<rparr>" by (simp add: s'_def upd_inode_def)
  have o: "owned (s' b) = owned s" unfolding s by (simp add: owned_def fun_eq_iff)
  show "inode_ok (s' b) i" "file_bytes (s' b) i = file_bytes s i" "find_blk (s' b) i = find_blk s i"
    using inode_cong [OF assms(1), of "s' b"] i o unfolding s by simp_all
  show "nfree (s' b) = nfree s" "alloc_ok (s' b) = alloc_ok s" "bcontent (s' b) = bcontent s" "held (s' b) = held s" "dirtyset (s' b) = dirtyset s"
    unfolding s by (simp_all add: nfree_def)
qed

text \<open>A committed transaction leaves a file as it is.\<close>

lemma end_op_file:
  fixes s :: "'a fsst_scheme"
  assumes "alloc_ok s" "held s = {}" "inode_ok s i" "logst.more s' = logst.more s" "held s' = {}" "used s' = used s"
    "\<forall>c. c \<notin> log_region s \<longrightarrow> bcontent s' c = bcontent s c"
  shows "inode_ok s' i" "file_bytes s' i = file_bytes s i" "nfree s' = nfree s" "find_blk s' i = find_blk s i"
proof -
  note F = logst_more_fs [OF assms(4)]
  have l: "fs_layout s" using assms(1) by (simp add: alloc_ok_def)
  have b: "bm s' = bm s" using F(1) by (simp add: bm_def)
  have o: "owned s' = owned s" using F(1) b assms(2,5,6) by (intro ext) (simp add: owned_def data_block_def)
  have "bcontent s' c = bcontent s c" if "c \<in> fblocks s i" for c
  proof -
    have "owned s c" using that inode_okD(7,8) [OF assms(3)] by (auto simp: fblocks_def)
    then show ?thesis using assms(7) layout_facts(4) [OF l] by (simp add: owned_def)
  qed
  then show "inode_ok s' i" "file_bytes s' i = file_bytes s i" "find_blk s' i = find_blk s i"
    using inode_cong [OF assms(3), of s'] F(2) o by simp_all
  show "nfree s' = nfree s" using F(1) assms(6) by (simp add: nfree_def)
qed

lemma nblk_le: "n \<le> 1536 \<Longrightarrow> nblk off n \<le> 4"
  by (auto simp: nblk_def div_le_dividend)

text \<open>One piece of \<^verbatim>\<open>filewrite\<close>. A piece uses at most six free blocks: four of data, one indirect block, and one for slack.\<close>

lemma filewrite_piece_ok:
  assumes "fs_idle k" "i < length (files k)" "f_ip (files k ! i) = Some ip" "inode_free k ip" "bs \<noteq> []" "length bs \<le> WMAX"
    "f_off (files k ! i) \<le> i_size (inodes k ! ip)" "unat (f_off (files k ! i)) + length bs \<le> 71680"
    "free_cost k ip + nblk (unat (f_off (files k ! i))) (length bs) \<le> nfree k"
  shows "\<exists>k'. filewrite_piece k i bs = Ok (int (length bs), k') \<and> fs_idle k' \<and> inode_free k' ip \<and> same_kernel k k' \<and>
    file_bytes k' ip = overwrite (unat (f_off (files k ! i))) bs (file_bytes k ip) \<and>
    files k' = (files k)[i := (files k ! i)\<lparr>f_off := f_off (files k ! i) + of_nat (length bs)\<rparr>] \<and>
    nfree k + free_cost k' ip \<le> nfree k' + free_cost k ip + nblk (unat (f_off (files k ! i))) (length bs)"
proof -
  let ?f = "files k ! i" and ?n = "length bs"
  let ?off = "f_off ?f"
  have I: "inode_ok k ip" "i_type (inodes k ! ip) \<noteq> T_DEV" "1 \<le> i_ref (inodes k ! ip)" "\<not> i_locked (inodes k ! ip)"
    "i_valid (inodes k ! ip)" "i_inum (inodes k ! ip) < sb_ninodes (sb k)" using assms(4) by (auto simp: inode_free_def)
  have len: "ip < length (inodes k)" by (rule inode_okD(1) [OF I(1)])
  have id: "alloc_ok (k\<lparr>outstanding := 1\<rparr>)" "outstanding k = 0" "\<not> committing k" "held k = {}" "dirtyset k = {}"
    using assms(1) by (auto simp: fs_idle_def)
  define k1 where "k1 = k\<lparr>outstanding := 1\<rparr>"
  define k2 where "k2 = upd_inode k1 ip (\<lambda>j. j\<lparr>i_locked := True\<rparr>)"
  have k1: "inode_ok k1 ip" "alloc_ok k1" "inodes k1 = inodes k" using I(1) id(1) by (simp_all add: k1_def)
  note V = lock_view [OF k1(1), of True, folded k2_def]
  have v: "fs_view k2 (fs_enter k2)" "outstanding (fs_enter k2) = 1" "\<not> committing (fs_enter k2)" "fsst.more (fs_enter k2) = fsst.more k"
    using id(3) by (auto simp: fs_view_def fs_enter_def k2_def k1_def upd_inode_def split: option.split)
  have o2: "outstanding k2 = 1" "sb k2 = sb k" "inodes k2 = (inodes k)[ip := (inodes k ! ip)\<lparr>i_locked := True\<rparr>]" by (simp_all add: k2_def k1_def upd_inode_def)
  define k3 where "k3 = fs_enter k2"
  note W = fs_view_cong [OF v(1), folded k3_def]
  have a3: "alloc_ok k3" using fs_view_alloc [OF v(1)] v(2) o2(1) V(4) k1(2) by (simp add: k3_def)
  have i3: "inode_ok k3 ip" "inodes k3 ! ip = (inodes k ! ip)\<lparr>i_locked := True\<rparr>" "sb k3 = sb k" "held k3 = {}" "dirtyset k3 = {}"
    "file_bytes k3 ip = file_bytes k ip" "nfree k3 = nfree k" "free_cost k3 ip = free_cost k ip"
    using W V o2 len id(4,5) by (simp_all add: k1_def free_cost_def)
  have r3: "room k3 (meta_cost k3 ip + nblk (unat ?off) ?n + 3)"
    using nblk_le [OF assms(6), of "unat ?off"] i3(4,5) by (simp add: room_def meta_cost_def)
  have t3: "i_type (inodes k3 ! ip) \<noteq> T_DEV" "i_inum (inodes k3 ! ip) < sb_ninodes (sb k3)" "inode_blk k3 ip \<notin> held k3"
    "?off \<le> i_size (inodes k3 ! ip)" "free_cost k3 ip + nblk (unat ?off) ?n \<le> nfree k3"
    using I(2,6) i3 assms(7,9) by simp_all
  obtain k4 where k4: "writei k3 ip bs ?off = Ok (int ?n, k4)" "alloc_ok k4" "inode_ok k4 ip" "only_file k3 ip k4"
    "file_bytes k4 ip = overwrite (unat ?off) bs (file_bytes k3 ip)" "\<exists>as n. inodes k4 ! ip = (inodes k3 ! ip)\<lparr>i_addrs := as, i_size := n\<rparr>"
    "nfree k3 + free_cost k4 ip \<le> nfree k4 + free_cost k3 ip + nblk (unat ?off) ?n"
    using writei_ok [OF a3 i3(1) t3(1,4) assms(8) r3 t3(5,2,3)] by blast
  have o4: "fs_rest k3 k4" "held k4 = {}" "length (inodes k4) = length (inodes k3)" using k4(4) i3(4) by (auto simp: only_file_def)
  note R = fs_restD [OF o4(1)]
  have m4: "same_kernel k k4" "files k4 = files k" using more_kernel [of k4 k] R(7) v(4) by (simp_all add: k3_def)
  define k5 where "k5 = upd_file k4 i (\<lambda>f. f\<lparr>f_off := f_off f + of_nat ?n\<rparr>)"
  define k6 where "k6 = upd_inode k5 ip (\<lambda>j. j\<lparr>i_locked := False\<rparr>)"
  have v5: "fs_view k4 k5" "outstanding k5 = 1" "\<not> committing k5" "same_kernel k k5" "files k5 = (files k)[i := ?f\<lparr>f_off := ?off + of_nat ?n\<rparr>]"
    using R(9,13) v(2,3) m4 by (simp_all add: k5_def upd_file_def fs_view_def k3_def same_kernel_def)
  note X = fs_view_cong [OF v5(1)]
  have a5: "alloc_ok k5" "inode_ok k5 ip" using fs_view_alloc [OF v5(1)] v5(2) R(9) v(2) k4(2,3) X by (simp_all add: k3_def)
  note Y = lock_view [OF a5(2), of False, folded k6_def]
  have o6: "outstanding k6 = 1" "\<not> committing k6" "fsst.more k6 = fsst.more k5" "held k6 = {}" "sb k6 = sb k"
    using v5(2,3) Y(6) X(2) o4(2) X(21) R(1) i3(3) by (simp_all add: k6_def upd_inode_def)
  have a6: "alloc_ok k6" using Y(4) a5(1) by simp
  obtain k7 where k7: "end_op k6 = Ok k7" "fs_idle k7" "logst.more k7 = logst.more k6" "used k7 = used k6"
      "\<forall>c. c \<notin> log_region k6 \<longrightarrow> bcontent k7 c = bcontent k6 c"
    using end_op_idle [OF a6 o6(4,1,2)] by blast
  note Z = end_op_file [OF a6 o6(4) Y(1) k7(3) _ k7(4,5)]
  have h7: "held k7 = {}" using k7(2) by (simp add: fs_idle_def)
  note M = logst_more_fs [OF k7(3)]
  obtain as n where an: "inodes k4 ! ip = (inodes k ! ip)\<lparr>i_locked := True, i_addrs := as, i_size := n\<rparr>" using k4(6) i3(2) by auto
  have i6: "inodes k6 ! ip = (inodes k ! ip)\<lparr>i_locked := False, i_addrs := as, i_size := n\<rparr>"
    using an X(22) inode_okD(1) [OF a5(2)] by (simp add: k6_def upd_inode_def)
  have "filewrite_piece k i bs = Ok (int ?n, k7)"
  proof -
    have "ilock k1 (Some ip) = Ok k2" using I(3,4,5) len by (simp add: ilock_def acquiresleep_inode_def k2_def k1_def upd_inode_def Let_def)
    moreover have "iunlock k5 (Some ip) = Ok k6"
      using an X(22) I(3) by (simp add: iunlock_def releasesleep_inode_def k6_def)
    ultimately show ?thesis
      using begin_op_idle [OF assms(1)] assms(3,5) k4(1) k7(1) m4(2)
      by (simp add: filewrite_piece_def Let_def k1_def [symmetric] k3_def [symmetric] k5_def [symmetric])
  qed
  moreover have "inode_free k7 ip" using Z(1) h7 M(1,2) i6 I o6(5) by (simp add: inode_free_def)
  moreover have "same_kernel k k7 \<and> files k7 = files k5"
    using more_kernel [of k7 k5] M(3) o6(3) same_kernel_trans [OF v5(4)] by auto
  moreover have "file_bytes k7 ip = overwrite (unat ?off) bs (file_bytes k ip)" using Z(2) h7 Y(2) X(15) k4(5) i3(6) by simp
  moreover have "nfree k + free_cost k7 ip \<le> nfree k7 + free_cost k ip + nblk (unat ?off) ?n"
    using k4(7) Z(3,4) h7 Y(3,8) X(12,16) i3(7,8) by (simp add: free_cost_def)
  ultimately show ?thesis using k7(2) v5(5) by auto
qed

lemma overwrite_split:
  assumes "off \<le> length xs" "m \<le> length bs"
  shows "overwrite (off + m) (drop m bs) (overwrite off (take m bs) xs) = overwrite off bs xs"
  using assms by (simp add: overwrite_def min_def ac_simps)

text \<open>The pieces of a write.\<close>

definition pieces :: "nat \<Rightarrow> nat" where
  "pieces n = (n + 1535) div 1536"

lemma pieces_step: "0 < n \<Longrightarrow> pieces n = Suc (pieces (n - min n 1536))"
  by (cases "n \<le> 1536") (auto simp: pieces_def min_def le_div_geq)

lemma filewrite_loop_ok:
  "fs_idle k \<Longrightarrow> i < length (files k) \<Longrightarrow> f_ip (files k ! i) = Some ip \<Longrightarrow> inode_free k ip \<Longrightarrow>
   f_off (files k ! i) \<le> i_size (inodes k ! ip) \<Longrightarrow> unat (f_off (files k ! i)) + length bs \<le> 71680 \<Longrightarrow>
   free_cost k ip + 4 * pieces (length bs) \<le> nfree k \<Longrightarrow>
   \<exists>k'. filewrite_loop k i bs = Ok (True, k') \<and> fs_idle k' \<and> inode_free k' ip \<and> same_kernel k k' \<and>
     file_bytes k' ip = overwrite (unat (f_off (files k ! i))) bs (file_bytes k ip) \<and>
     files k' = (files k)[i := (files k ! i)\<lparr>f_off := f_off (files k ! i) + of_nat (length bs)\<rparr>] \<and>
     nfree k + free_cost k' ip \<le> nfree k' + free_cost k ip + 4 * pieces (length bs)"
proof (induction k i bs rule: filewrite_loop.induct)
  case (1 k i bs)
  let ?off = "f_off (files k ! i)" and ?m = "min (length bs) 1536"
  show ?case
  proof (cases "bs = []")
    case True
    have "unat ?off \<le> length (file_bytes k ip)" using "1.prems"(5) by (simp add: file_bytes_def word_le_nat_alt)
    then show ?thesis using True "1.prems" by (subst filewrite_loop.simps) (simp add: overwrite_def)
  next
    case False
    let ?t = "take ?m bs" and ?d = "drop ?m bs"
    have m: "length ?t = ?m" "?t \<noteq> []" "?m \<le> 1536" "0 < length bs" using False by auto
    have pc: "pieces (length bs) = Suc (pieces (length ?d))" using pieces_step [OF m(4)] by simp
    have nb: "nblk (unat ?off) (length ?t) \<le> 4" using nblk_le [of "length ?t"] m(1,3) by simp
    obtain k1 where k1: "filewrite_piece k i ?t = Ok (int (length ?t), k1)" "fs_idle k1" "inode_free k1 ip" "same_kernel k k1"
      "file_bytes k1 ip = overwrite (unat ?off) ?t (file_bytes k ip)"
      "files k1 = (files k)[i := (files k ! i)\<lparr>f_off := ?off + of_nat (length ?t)\<rparr>]"
      "nfree k + free_cost k1 ip \<le> nfree k1 + free_cost k ip + nblk (unat ?off) (length ?t)"
      using filewrite_piece_ok [OF "1.prems"(1-4) m(2) _ "1.prems"(5)] "1.prems"(6,7) m(1,3) pc nb by force
    have o: "unat ?off \<le> length (file_bytes k ip)" using "1.prems"(5) by (simp add: file_bytes_def word_le_nat_alt)
    have wm: "unat (of_nat ?m :: u32) = ?m" using m(3) by (simp add: unat_of_nat)
    have off1: "f_off (files k1 ! i) = ?off + of_nat ?m" "unat (?off + of_nat ?m) = unat ?off + ?m"
      using k1(6) m(1) "1.prems"(2,6) wm by (simp, subst unat_add_lem [THEN iffD1], auto)
    have sz1: "unat (i_size (inodes k1 ! ip)) = length (file_bytes k1 ip)" by (simp add: file_bytes_def)
    have "unat ?off + ?m \<le> unat (i_size (inodes k1 ! ip))"
      unfolding sz1 k1(5) overwrite_nth(1) [OF o] m(1) by simp
    then have p5: "f_off (files k1 ! i) \<le> i_size (inodes k1 ! ip)" using off1 by (simp add: word_le_nat_alt)
    have p6: "unat (f_off (files k1 ! i)) + length ?d \<le> 71680" using off1 "1.prems"(6) by simp
    have p7: "free_cost k1 ip + 4 * pieces (length ?d) \<le> nfree k1" using k1(7) "1.prems"(7) pc nb by simp
    have p23: "i < length (files k1)" "f_ip (files k1 ! i) = Some ip" using k1(6) "1.prems"(2,3) by simp_all
    obtain k2 where k2: "filewrite_loop k1 i ?d = Ok (True, k2)" "fs_idle k2" "inode_free k2 ip" "same_kernel k1 k2"
      "file_bytes k2 ip = overwrite (unat (f_off (files k1 ! i))) ?d (file_bytes k1 ip)"
      "files k2 = (files k1)[i := (files k1 ! i)\<lparr>f_off := f_off (files k1 ! i) + of_nat (length ?d)\<rparr>]"
      "nfree k1 + free_cost k2 ip \<le> nfree k2 + free_cost k1 ip + 4 * pieces (length ?d)"
      using "1.IH" [OF False refl _ refl _ _ k1(2) p23 k1(3) p5 p6 p7] k1(1) m(1) by auto
    have "filewrite_loop k i bs = Ok (True, k2)"
      using False k1(1) k2(1) m(1) by (subst filewrite_loop.simps) (simp add: Let_def)
    moreover have "file_bytes k2 ip = overwrite (unat ?off) bs (file_bytes k ip)"
      using k2(5) off1 k1(5) overwrite_split [OF o, of ?m bs] by simp
    moreover have "files k2 = (files k)[i := (files k ! i)\<lparr>f_off := ?off + of_nat (length bs)\<rparr>]"
      using k2(6) k1(6) off1(1) "1.prems"(2) m(1) by (simp flip: of_nat_add)
    moreover have "nfree k + free_cost k2 ip \<le> nfree k2 + free_cost k ip + 4 * pieces (length bs)" using k1(7) k2(7) pc nb by simp
    ultimately show ?thesis using k2(2,3) same_kernel_trans [OF k1(4) k2(4)] by blast
  qed
qed

lemma fileread_ok:
  assumes "fs_idle k" "i < length (files k)" "f_type (files k ! i) = FD_INODE" "f_readable (files k ! i)" "f_ip (files k ! i) = Some ip"
    "inode_free k ip" "f_off (files k ! i) \<le> i_size (inodes k ! ip)" "0 \<le> n" "unat (f_off (files k ! i)) + nat n < 2 ^ 31"
  defines "bs \<equiv> take (nat n) (drop (unat (f_off (files k ! i))) (file_bytes k ip))"
  shows "\<exists>k'. fileread k i n = Ok ((int (length bs), bs), k') \<and> fs_idle k' \<and> inode_free k' ip \<and> same_kernel k k' \<and>
    file_bytes k' ip = file_bytes k ip \<and> nfree k' = nfree k \<and> free_cost k' ip = free_cost k ip \<and>
    files k' = (files k)[i := (files k ! i)\<lparr>f_off := f_off (files k ! i) + of_nat (length bs)\<rparr>]"
proof -
  let ?f = "files k ! i"
  have I: "inode_ok k ip" "i_type (inodes k ! ip) \<noteq> T_DEV" "1 \<le> i_ref (inodes k ! ip)" "\<not> i_locked (inodes k ! ip)"
    "i_valid (inodes k ! ip)" "i_inum (inodes k ! ip) < sb_ninodes (sb k)" using assms(6) by (auto simp: inode_free_def)
  have len: "ip < length (inodes k)" by (rule inode_okD(1) [OF I(1)])
  have id: "alloc_ok (k\<lparr>outstanding := 1\<rparr>)" "outstanding k = 0" "\<not> committing k" "held k = {}" "dirtyset k = {}"
    using assms(1) by (auto simp: fs_idle_def)
  have ok: "fs_ok k" using id(1) by (simp add: fs_ok_def alloc_ok_def)
  define k2 where "k2 = upd_inode k ip (\<lambda>j. j\<lparr>i_locked := True\<rparr>)"
  define k3 where "k3 = fs_enter k2"
  note V = lock_view [OF I(1), of True, folded k2_def]
  have v: "fs_view k2 k3" "outstanding k3 = 0" "\<not> committing k3" "fsst.more k3 = fsst.more k"
    using id(2,3) by (auto simp: k3_def fs_view_def fs_enter_def k2_def upd_inode_def split: option.split)
  note W = fs_view_cong [OF v(1)]
  have i2: "inodes k2 = (inodes k)[ip := (inodes k ! ip)\<lparr>i_locked := True\<rparr>]" "sb k2 = sb k" by (simp_all add: k2_def upd_inode_def)
  have ok3: "fs_ok k3" "inode_ok k3 ip" "room k3 0" "i_type (inodes k3 ! ip) \<noteq> T_DEV" "?f = files k3 ! i" "inodes k3 ! ip = (inodes k ! ip)\<lparr>i_locked := True\<rparr>"
    using ok W V(1,6,7) id(4,5) I(2) i2 len more_kernel [of k3 k] v(4) by (simp_all add: fs_ok_def room_def k2_def upd_inode_def)
  obtain m where m: "n = int m" using assms(8) by (rule nonneg_int_cases)
  have w: "unat (of_int n :: u32) = nat n" unfolding m using assms(9) m by (simp add: unat_of_nat)
  have fb3: "file_bytes k3 ip = file_bytes k ip" "nfree k3 = nfree k" "free_cost k3 ip = free_cost k ip" "dirtyset k3 = {}" "held k3 = {}"
    using W V(2,3,6,7,8) id(4,5) by (simp_all add: free_cost_def)
  have off3: "f_off ?f \<le> i_size (inodes k3 ! ip)" "unat (f_off ?f) + unat (of_int n :: u32) < 2 ^ 32" using assms(7,9) ok3(6) w by simp_all
  obtain k4 where k4: "readi k3 ip (f_off ?f) (of_int n) = Ok ((int (length bs), bs), k4)" "same_view k3 k4"
    using readi_ok [OF ok3(1-4) off3] unfolding w fb3(1) bs_def by blast
  note X = same_view_facts [OF k4(2)]
  have s4: "held k4 = {}" "dirtyset k4 = {}" "log_frame k3 k4" using k4(2) fb3(4,5) by (auto simp: same_view_def)
  note F = fs_frame [OF s4(3)]
  have m4: "same_kernel k k4" "files k4 = files k" using more_kernel [of k4 k] F(8) v(4) by simp_all
  define k5 where "k5 = (if int (length bs) > 0 then upd_file k4 i (\<lambda>f. f\<lparr>f_off := f_off f + of_int (int (length bs))\<rparr>) else k4)"
  define k6 where "k6 = upd_inode k5 ip (\<lambda>j. j\<lparr>i_locked := False\<rparr>)"
  have v5: "fs_view k4 k5" "outstanding k5 = 0" "\<not> committing k5" "same_kernel k k5"
    "files k5 = (files k)[i := ?f\<lparr>f_off := f_off ?f + of_nat (length bs)\<rparr>]"
    using F(10,13) v(2,3) m4 by (auto simp: k5_def upd_file_def fs_view_def same_kernel_def)
  note Y = fs_view_cong [OF v5(1)]
  have i5: "inode_ok k5 ip" "inodes k5 = inodes k3" using Y X(7,12) ok3(2) by simp_all
  note Z = lock_view [OF i5(1), of False, folded k6_def]
  have i6: "inodes k6 ! ip = (inodes k ! ip)\<lparr>i_locked := False\<rparr>" "outstanding k6 = 0" "\<not> committing k6" "fsst.more k6 = fsst.more k5" "sb k6 = sb k"
    using i5 ok3(6) inode_okD(1) [OF i5(1)] v5(2,3) Y(21) F(1) W(21) i2(2) by (simp_all add: k6_def upd_inode_def)
  have "fs_ok k4" by (rule X(8) [OF ok3(1)])
  then have "fs_ok k5" by (simp add: fs_ok_def Y)
  then have "fs_ok k6" by (simp add: fs_ok_def k6_def upd_inode_def)
  then have "fs_idle k6" using i6 Z(6,7) Y(2,3) s4(1,2) by (simp add: fs_idle_def alloc_ok_iff fs_ok_def)
  moreover have "inode_free k6 ip" using Z(1) i6 I by (simp add: inode_free_def)
  moreover have "same_kernel k k6 \<and> files k6 = files k5" using more_kernel [of k6 k5] i6(4) same_kernel_trans [OF v5(4)] by auto
  moreover have "file_bytes k4 = file_bytes k3" using same_view_fbyte [OF k4(2)] X(12) by (simp add: file_bytes_def fun_eq_iff)
  then have "file_bytes k6 ip = file_bytes k ip" using Z(2) Y(15) fb3(1) by simp
  moreover have "nfree k6 = nfree k" "free_cost k6 ip = free_cost k ip" using Z(3,8) Y(12,16) X(6,9) fb3(2,3) by (simp_all add: free_cost_def)
  moreover have "fileread k i n = Ok ((int (length bs), bs), k6)"
  proof -
    have "ilock k (Some ip) = Ok k2" using I(3,4,5) len by (simp add: ilock_def acquiresleep_inode_def k2_def upd_inode_def Let_def)
    moreover have "iunlock k5 (Some ip) = Ok k6" using i5(2) ok3(6) I(3) by (simp add: iunlock_def releasesleep_inode_def k6_def)
    ultimately show ?thesis
      using assms(3-5) k4(1) by (simp add: fileread_def Let_def k3_def [symmetric] k5_def)
  qed
  ultimately show ?thesis using v5(5) by auto
qed

end
