(* ===== verification/SwapFile.thy ===== *)
theory SwapFile
  imports FileData
begin

text \<open>
  The swap files of fs.c: creating, removing, reading and writing the file \<^verbatim>\<open>/.swap<pid>\<close> of a process, with the
  directory operations \<^verbatim>\<open>isdirempty\<close> and \<^verbatim>\<open>create\<close> of sysfile.c they share with the system calls. Seen from the pager a
  swap file is a store of page slots; the laws of such a store are a locale, interpreted on the file operations.
\<close>

section \<open>Creating and unlinking files\<close>

text \<open>The entries after the first two.\<close>

fun isdirempty_loop :: "'a fsst_scheme \<Rightarrow> nat \<Rightarrow> nat list \<Rightarrow> (bool \<times> 'a fsst_scheme) outcome" where
  "isdirempty_loop s dp [] = Ok (True, s)"
| "isdirempty_loop s dp (off # offs) =
     andThen (readi s dp (of_nat off) 16)
       (\<lambda>((r, bs), s). if r \<noteq> 16 then Panic ''isdirempty: readi''
          else if de_inum (get_dirent bs) \<noteq> 0 then Ok (False, s) else isdirempty_loop s dp offs)"

definition isdirempty :: "'a fsst_scheme \<Rightarrow> nat \<Rightarrow> (bool \<times> 'a fsst_scheme) outcome" where
  "isdirempty s dp = isdirempty_loop s dp (drop 2 (dirent_offs (i_size (inodes s ! dp))))"

text \<open>The common end of \<^verbatim>\<open>create\<close>: the entry in the parent.\<close>

definition create_entry :: "'a fsst_scheme \<Rightarrow> nat \<Rightarrow> nat \<Rightarrow> byte list \<Rightarrow> (nat option \<times> 'a fsst_scheme) outcome" where
  "create_entry s dp ip name =
     andThen (dirlink s dp name (i_inum (inodes s ! ip)))
       (\<lambda>(r, s). if r < 0 then Panic ''create: dirlink'' else andThen (iunlockput s dp) (\<lambda>s. Ok (Some ip, s)))"

definition create_dots :: "'a fsst_scheme \<Rightarrow> nat \<Rightarrow> nat \<Rightarrow> 'a fsst_scheme outcome" where
  "create_dots s dp ip =
     andThen (iupdate (upd_inode s dp (\<lambda>d. d\<lparr>i_nlink := i_nlink d + 1\<rparr>)) dp)
       (\<lambda>s. andThen (dirlink s ip (str ''.'') (i_inum (inodes s ! ip)))
          (\<lambda>(r, s). if r < 0 then Panic ''create dots''
             else andThen (dirlink s ip (str ''..'') (i_inum (inodes s ! dp)))
                    (\<lambda>(r, s). if r < 0 then Panic ''create dots'' else Ok s)))"

definition create :: "'a fsst_scheme \<Rightarrow> byte list \<Rightarrow> u16 \<Rightarrow> u16 \<Rightarrow> u16 \<Rightarrow> (nat option \<times> 'a fsst_scheme) outcome" where
  "create s path type major minor =
     andThen (nameiparent s path)
       (\<lambda>(r, s). case r of
          None \<Rightarrow> Ok (None, s)
        | Some (dp, name) \<Rightarrow>
            andThen (ilock s (Some dp))
              (\<lambda>s. andThen (dirlookup s dp name)
                 (\<lambda>(r, s). case r of
                    Some (ip, off) \<Rightarrow>
                      andThen (iunlockput s dp)
                        (\<lambda>s. andThen (ilock s (Some ip))
                           (\<lambda>s. if type = T_FILE \<and> i_type (inodes s ! ip) = T_FILE then Ok (Some ip, s)
                                else andThen (iunlockput s ip) (\<lambda>s. Ok (None, s))))
                  | None \<Rightarrow>
                      andThen (ialloc s (i_dev (inodes s ! dp)) type)
                        (\<lambda>(ip, s). andThen (ilock s (Some ip))
                           (\<lambda>s. andThen (iupdate (upd_inode s ip (\<lambda>j. j\<lparr>i_major := major, i_minor := minor, i_nlink := 1\<rparr>)) ip)
                              (\<lambda>s. andThen (if type = T_DIR then create_dots s dp ip else Ok s)
                                 (\<lambda>s. create_entry s dp ip name)))))))"

text \<open>Removing a directory entry, as \<^verbatim>\<open>sys_unlink\<close> and \<^verbatim>\<open>removeSwapFile\<close> do it inside a transaction; the result is the value
  they return.\<close>

definition unlink_found :: "'a fsst_scheme \<Rightarrow> nat \<Rightarrow> nat \<Rightarrow> u32 \<Rightarrow> (int \<times> 'a fsst_scheme) outcome" where
  "unlink_found s dp ip off =
     andThen (writei s dp (replicate 16 0) off)
       (\<lambda>(r, s). if r \<noteq> 16 then Panic ''unlink: writei''
          else
            andThen (if i_type (inodes s ! ip) = T_DIR
                     then iupdate (upd_inode s dp (\<lambda>d. d\<lparr>i_nlink := i_nlink d - 1\<rparr>)) dp else Ok s)
              (\<lambda>s. andThen (iunlockput s dp)
                 (\<lambda>s. andThen (iupdate (upd_inode s ip (\<lambda>j. j\<lparr>i_nlink := i_nlink j - 1\<rparr>)) ip)
                    (\<lambda>s. andThen (iunlockput s ip)
                       (\<lambda>s. andThen (end_op s) (\<lambda>s. Ok (0, s)))))))"

definition unlink_bad :: "'a fsst_scheme \<Rightarrow> nat \<Rightarrow> (int \<times> 'a fsst_scheme) outcome" where
  "unlink_bad s dp = andThen (iunlockput s dp) (\<lambda>s. andThen (end_op s) (\<lambda>s. Ok (- 1, s)))"

definition unlink_path :: "'a fsst_scheme \<Rightarrow> byte list \<Rightarrow> (int \<times> 'a fsst_scheme) outcome" where
  "unlink_path s path =
     andThen (begin_op s)
       (\<lambda>s. andThen (nameiparent s path)
          (\<lambda>(r, s). case r of
             None \<Rightarrow> andThen (end_op s) (\<lambda>s. Ok (- 1, s))
           | Some (dp, name) \<Rightarrow>
               andThen (ilock s (Some dp))
                 (\<lambda>s. if namecmp name (str ''.'') = 0 \<or> namecmp name (str ''..'') = 0 then unlink_bad s dp
                      else
                        andThen (dirlookup s dp name)
                          (\<lambda>(r, s). case r of
                             None \<Rightarrow> unlink_bad s dp
                           | Some (ip, off) \<Rightarrow>
                               andThen (ilock s (Some ip))
                                 (\<lambda>s. if sint (i_nlink (inodes s ! ip)) < 1 then Panic ''unlink: nlink < 1''
                                      else
                                        andThen (if i_type (inodes s ! ip) = T_DIR then isdirempty s ip else Ok (True, s))
                                          (\<lambda>(e, s). if \<not> e then andThen (iunlockput s ip) (\<lambda>s. unlink_bad s dp)
                                                    else unlink_found s dp ip off))))))"

section \<open>Swap files\<close>

text \<open>The path is built in a buffer of 14 bytes, 8 of them left for the number and its terminating zero.\<close>

definition swap_path :: "int \<Rightarrow> byte list outcome" where
  "swap_path pid = andThen (itoa pid (replicate 8 0)) (\<lambda>b. Ok (cstr (str ''/.swap'' @ b)))"

definition removeSwapFile :: "kernel \<Rightarrow> nat \<Rightarrow> (int \<times> kernel) outcome" where
  "removeSwapFile k p =
     andThen (swap_path (p_pid (procs k ! p)))
       (\<lambda>path. case swapFile (procs k ! p) of
          None \<Rightarrow> Ok (- 1, k)
        | Some f \<Rightarrow> andThen (fileclose k f) (\<lambda>k. unlink_path (fs_enter k) path))"

definition createSwapFile :: "kernel \<Rightarrow> nat \<Rightarrow> (int \<times> kernel) outcome" where
  "createSwapFile k p =
     andThen (swap_path (p_pid (procs k ! p)))
       (\<lambda>path. andThen (begin_op k)
          (\<lambda>k. andThen (create (fs_enter k) path T_FILE 0 0)
             (\<lambda>(ip, k). andThen (iunlock k ip)
                (\<lambda>k. case filealloc k of
                   (None, k) \<Rightarrow> Panic ''no slot for files on /store''
                 | (Some f, k) \<Rightarrow>
                     let k = upd_proc k p (\<lambda>q. q\<lparr>swapFile := Some f\<rparr>);
                         k = upd_file k f (\<lambda>g. g\<lparr>f_ip := ip, f_type := FD_INODE, f_off := 0, f_readable := True, f_writable := True\<rparr>)
                     in andThen (end_op k) (\<lambda>k. Ok (0, k))))))"

definition writeToSwapFile :: "kernel \<Rightarrow> nat \<Rightarrow> byte list \<Rightarrow> u32 \<Rightarrow> (int \<times> kernel) outcome" where
  "writeToSwapFile k p bs placeOnFile =
     (case swapFile (procs k ! p) of
        None \<Rightarrow> Fault ''swapFile: null''
      | Some f \<Rightarrow> filewrite (upd_file k f (\<lambda>g. g\<lparr>f_off := placeOnFile\<rparr>)) f bs)"

definition readFromSwapFile :: "kernel \<Rightarrow> nat \<Rightarrow> u32 \<Rightarrow> u32 \<Rightarrow> ((int \<times> byte list) \<times> kernel) outcome" where
  "readFromSwapFile k p placeOnFile sz =
     (case swapFile (procs k ! p) of
        None \<Rightarrow> Fault ''swapFile: null''
      | Some f \<Rightarrow> fileread (upd_file k f (\<lambda>g. g\<lparr>f_off := placeOnFile\<rparr>)) f (sint sz))"

section \<open>A store of page slots\<close>

text \<open>
  What the pager needs of its swap file: a write of a page at an offset inside the file or at its end overwrites the
  contents there, a read returns them. The number counts the page writes that free blocks are left for.
\<close>

locale slot_store =
  fixes ok :: "nat \<Rightarrow> 's \<Rightarrow> bool" and bytes :: "'s \<Rightarrow> byte list"
    and wr :: "'s \<Rightarrow> byte list \<Rightarrow> u32 \<Rightarrow> (int \<times> 's) outcome" and rd :: "'s \<Rightarrow> u32 \<Rightarrow> u32 \<Rightarrow> ((int \<times> byte list) \<times> 's) outcome"
    and rest :: "'s \<Rightarrow> 's \<Rightarrow> bool"
  assumes wr: "ok (Suc n) s \<Longrightarrow> length pg = 4096 \<Longrightarrow> unat off \<le> length (bytes s) \<Longrightarrow> unat off + 4096 \<le> MAXFILE * BSIZE \<Longrightarrow>
      \<exists>s'. wr s pg off = Ok (4096, s') \<and> ok n s' \<and> rest s s' \<and> bytes s' = overwrite (unat off) pg (bytes s)"
    and rd: "ok n s \<Longrightarrow> unat off \<le> length (bytes s) \<Longrightarrow> length (bytes s) \<le> MAXFILE * BSIZE \<Longrightarrow>
      \<exists>s' bs. rd s off 4096 = Ok ((int (length bs), bs), s') \<and> bs = take 4096 (drop (unat off) (bytes s)) \<and> ok n s' \<and> rest s s' \<and> bytes s' = bytes s"
begin

definition slot_at :: "'s \<Rightarrow> nat \<Rightarrow> byte list" where
  "slot_at s j = take 4096 (drop (4096 * j) (bytes s))"

lemma slot_pos: "j < 17 \<Longrightarrow> unat (4096 * of_nat j :: u32) = 4096 * j"
  by (simp add: unat_word_ariths unat_of_nat)

lemma put_slot:
  assumes "ok (Suc n) s" "length pg = 4096" "4096 * j \<le> length (bytes s)" "j < 17"
  shows "\<exists>s'. wr s pg (4096 * of_nat j) = Ok (4096, s') \<and> ok n s' \<and> rest s s' \<and> slot_at s' j = pg \<and>
    length (bytes s') = max (length (bytes s)) (4096 * j + 4096) \<and>
    (\<forall>i. i \<noteq> j \<longrightarrow> 4096 * i + 4096 \<le> length (bytes s) \<longrightarrow> slot_at s' i = slot_at s i)"
proof -
  note o = slot_pos [OF assms(4)]
  obtain s' where s': "wr s pg (4096 * of_nat j) = Ok (4096, s')" "ok n s'" "rest s s'" "bytes s' = overwrite (4096 * j) pg (bytes s)"
    using wr [OF assms(1,2), of "4096 * of_nat j"] o assms(3,4) by auto
  note N = overwrite_nth [OF assms(3), where src = pg]
  have "slot_at s' j = pg" using overwrite_read [OF assms(3), where src = pg] assms(2) by (simp add: slot_at_def s'(4))
  moreover have "slot_at s' i = slot_at s i" if i: "i \<noteq> j" "4096 * i + 4096 \<le> length (bytes s)" for i
  proof (rule nth_equalityI)
    show "length (slot_at s' i) = length (slot_at s i)" unfolding slot_at_def s'(4) using N(1) i(2) by simp
    fix m assume "m < length (slot_at s' i)"
    then have m: "m < 4096" by (simp add: slot_at_def)
    from i(1) consider "i < j" | "j < i" by linarith
    then have "4096 * i + m < 4096 * j \<or> 4096 * j + 4096 \<le> 4096 * i + m"
      using m by cases (rule disjI1, linarith, rule disjI2, linarith)
    then have "overwrite (4096 * j) pg (bytes s) ! (4096 * i + m) = bytes s ! (4096 * i + m)"
      using N(1) N(2) [where p = "4096 * i + m"] i(2) m assms(2) by auto
    then show "slot_at s' i ! m = slot_at s i ! m" using m i(2) N(1) by (simp add: slot_at_def s'(4))
  qed
  ultimately show ?thesis using s' N(1) assms(2) by auto
qed

lemma get_slot:
  assumes "ok n s" "4096 * j + 4096 \<le> length (bytes s)" "j < 17" "length (bytes s) \<le> 71680"
  shows "\<exists>s'. rd s (4096 * of_nat j) 4096 = Ok ((4096, slot_at s j), s') \<and> ok n s' \<and> rest s s' \<and> bytes s' = bytes s"
  using rd [OF assms(1), of "4096 * of_nat j"] slot_pos [OF assms(3)] assms(2,4) by (auto simp: slot_at_def)

end

text \<open>The swap file of process \<open>p\<close> between transactions.\<close>

definition swap_inode :: "kernel \<Rightarrow> nat \<Rightarrow> nat option" where
  "swap_inode k p = (case swapFile (procs k ! p) of None \<Rightarrow> None | Some f \<Rightarrow> f_ip (files k ! f))"

definition swap_ok :: "nat \<Rightarrow> nat \<Rightarrow> kernel \<Rightarrow> bool" where
  "swap_ok p n k \<longleftrightarrow> fs_idle k \<and>
     (case swapFile (procs k ! p) of
        None \<Rightarrow> False
      | Some f \<Rightarrow> f < length (files k) \<and> f_type (files k ! f) = FD_INODE \<and> f_readable (files k ! f) \<and> f_writable (files k ! f)) \<and>
     (case swap_inode k p of None \<Rightarrow> False | Some ip \<Rightarrow> inode_free k ip \<and> free_cost k ip + 12 * n \<le> nfree k)"

definition swap_bytes :: "nat \<Rightarrow> kernel \<Rightarrow> byte list" where
  "swap_bytes p k = (case swap_inode k p of None \<Rightarrow> [] | Some ip \<Rightarrow> file_bytes k ip)"

lemma swap_okE:
  assumes "swap_ok p n k"
  obtains f ip where "swapFile (procs k ! p) = Some f" "f < length (files k)" "f_type (files k ! f) = FD_INODE" "f_readable (files k ! f)"
    "f_writable (files k ! f)" "f_ip (files k ! f) = Some ip" "inode_free k ip" "free_cost k ip + 12 * n \<le> nfree k" "fs_idle k" "swap_bytes p k = file_bytes k ip"
  using assms by (auto simp: swap_ok_def swap_inode_def swap_bytes_def split: option.splits)

lemma file_pos:
  fixes f x k
  defines "k' \<equiv> upd_file k f (\<lambda>g. g\<lparr>f_off := x\<rparr>)"
  shows "fs_idle k' = fs_idle k" "inode_free k' = inode_free k" "file_bytes k' = file_bytes k" "nfree k' = nfree k" "free_cost k' = free_cost k"
    "same_kernel k k'" "files k' = (files k)[f := (files k ! f)\<lparr>f_off := x\<rparr>]" "inodes k' = inodes k"
proof -
  have v: "fs_view k k'" "outstanding k' = outstanding k" "committing k' = committing k" by (simp_all add: k'_def upd_file_def fs_view_def)
  note V = fs_view_cong [OF v(1)]
  show "file_bytes k' = file_bytes k" "nfree k' = nfree k" "free_cost k' = free_cost k" "inodes k' = inodes k" by (fact V)+
  show "fs_idle k' = fs_idle k" using v(2,3) by (simp add: fs_idle_def alloc_ok_def V)
  show "inode_free k' = inode_free k" by (simp add: inode_free_def V fun_eq_iff)
qed (simp_all add: k'_def upd_file_def same_kernel_def)

text \<open>A file operation that moves the position of file \<open>f\<close> only.\<close>

lemma swap_ok_after:
  assumes "swapFile (procs k ! p) = Some f" "f < length (files k)" "f_type (files k ! f) = FD_INODE" "f_readable (files k ! f)"
    "f_writable (files k ! f)" "f_ip (files k ! f) = Some ip" "fs_idle k'" "inode_free k' ip" "same_kernel k k'"
    "files k' = (files k)[f := (files k ! f)\<lparr>f_off := x\<rparr>]" "free_cost k' ip + 12 * n \<le> nfree k'"
  shows "swap_ok p n k'" "swap_bytes p k' = file_bytes k' ip"
  using assms by (simp_all add: swap_ok_def swap_inode_def swap_bytes_def same_kernel_def)

lemma write_swap_law:
  assumes "swap_ok p (Suc n) k" "length pg = 4096" "unat off \<le> length (swap_bytes p k)" "unat off + 4096 \<le> MAXFILE * BSIZE"
  shows "\<exists>k'. writeToSwapFile k p pg off = Ok (4096, k') \<and> swap_ok p n k' \<and> same_kernel k k' \<and>
    swap_bytes p k' = overwrite (unat off) pg (swap_bytes p k)"
proof -
  obtain f ip where f: "swapFile (procs k ! p) = Some f" "f < length (files k)" "f_type (files k ! f) = FD_INODE" "f_readable (files k ! f)"
    "f_writable (files k ! f)" "f_ip (files k ! f) = Some ip" "inode_free k ip" "free_cost k ip + 12 * Suc n \<le> nfree k" "fs_idle k" "swap_bytes p k = file_bytes k ip"
    using assms(1) by (rule swap_okE)
  let ?k = "upd_file k f (\<lambda>g. g\<lparr>f_off := off\<rparr>)"
  note P = file_pos [of k f off]
  have o: "f_off (files ?k ! f) = off" "off \<le> i_size (inodes ?k ! ip)"
    using f(2,10) assms(3) P(7,8) by (simp_all add: file_bytes_def word_le_nat_alt)
  have pc: "pieces (length pg) = 3" using assms(2) by (simp add: pieces_def)
  have "free_cost ?k ip + 4 * pieces (length pg) \<le> nfree ?k" using f(8) P(4,5) pc by simp
  then obtain k' where k': "filewrite_loop ?k f pg = Ok (True, k')" "fs_idle k'" "inode_free k' ip" "same_kernel ?k k'"
     "file_bytes k' ip = overwrite (unat off) pg (file_bytes k ip)" "files k' = (files k)[f := (files k ! f)\<lparr>f_off := off + of_nat (length pg)\<rparr>]"
     "nfree k + free_cost k' ip \<le> nfree k' + free_cost k ip + 12"
    using filewrite_loop_ok [of ?k f ip pg] f P(1-5) P(7) o assms(2,4) pc by auto
  have "writeToSwapFile k p pg off = Ok (4096, k')" using f(1,2,3,5) k'(1) P(7) assms(2) by (simp add: writeToSwapFile_def filewrite_def)
  moreover have s: "same_kernel k k'" by (rule same_kernel_trans [OF P(6) k'(4)])
  moreover have "free_cost k' ip + 12 * n \<le> nfree k'" using k'(7) f(8) by simp
  note A = swap_ok_after [OF f(1-6) k'(2,3) s k'(6) this]
  ultimately show ?thesis using A k'(5) f(10) by simp
qed

lemma read_swap_law:
  assumes "swap_ok p n k" "unat off \<le> length (swap_bytes p k)" "length (swap_bytes p k) \<le> MAXFILE * BSIZE"
  shows "\<exists>k' bs. readFromSwapFile k p off 4096 = Ok ((int (length bs), bs), k') \<and> bs = take 4096 (drop (unat off) (swap_bytes p k)) \<and>
    swap_ok p n k' \<and> same_kernel k k' \<and> swap_bytes p k' = swap_bytes p k"
proof -
  obtain f ip where f: "swapFile (procs k ! p) = Some f" "f < length (files k)" "f_type (files k ! f) = FD_INODE" "f_readable (files k ! f)"
    "f_writable (files k ! f)" "f_ip (files k ! f) = Some ip" "inode_free k ip" "free_cost k ip + 12 * n \<le> nfree k" "fs_idle k" "swap_bytes p k = file_bytes k ip"
    using assms(1) by (rule swap_okE)
  let ?k = "upd_file k f (\<lambda>g. g\<lparr>f_off := off\<rparr>)" and ?bs = "take 4096 (drop (unat off) (swap_bytes p k))"
  note P = file_pos [of k f off]
  have o: "f_off (files ?k ! f) = off" "off \<le> i_size (inodes ?k ! ip)" "unat off + nat 4096 < 2 ^ 31"
    using f(2,10) assms(2,3) P(7,8) by (simp_all add: file_bytes_def word_le_nat_alt)
  obtain k' where k': "fileread ?k f 4096 = Ok ((int (length ?bs), ?bs), k')" "fs_idle k'" "inode_free k' ip" "same_kernel ?k k'"
     "file_bytes k' ip = file_bytes k ip" "nfree k' = nfree k" "free_cost k' ip = free_cost k ip"
     "files k' = (files k)[f := (files k ! f)\<lparr>f_off := off + of_nat (length ?bs)\<rparr>]"
    using fileread_ok [of ?k f ip 4096] f P(1-5) P(7) o by auto
  have s: "same_kernel k k'" by (rule same_kernel_trans [OF P(6) k'(4)])
  have "free_cost k' ip + 12 * n \<le> nfree k'" using k'(6,7) f(8) by simp
  note A = swap_ok_after [OF f(1-6) k'(2,3) s k'(8) this]
  have "sint (4096 :: u32) = 4096" by simp
  then have "readFromSwapFile k p off 4096 = Ok ((int (length ?bs), ?bs), k')" using f(1) k'(1) by (simp add: readFromSwapFile_def)
  then show ?thesis using A s k'(5) f(10) by auto
qed

interpretation swap_store: slot_store "swap_ok p" "swap_bytes p" "\<lambda>k pg off. writeToSwapFile k p pg off" "\<lambda>k off n. readFromSwapFile k p off n" same_kernel for p
proof unfold_locales
  fix n :: nat and k and pg :: "byte list" and off :: u32
  assume "swap_ok p (Suc n) k" "length pg = 4096" "unat off \<le> length (swap_bytes p k)" "unat off + 4096 \<le> MAXFILE * BSIZE"
  then show "\<exists>s'. writeToSwapFile k p pg off = Ok (4096, s') \<and> swap_ok p n s' \<and> same_kernel k s' \<and> swap_bytes p s' = overwrite (unat off) pg (swap_bytes p k)"
    by (rule write_swap_law)
next
  fix n :: nat and k and off :: u32
  assume "swap_ok p n k" "unat off \<le> length (swap_bytes p k)" "length (swap_bytes p k) \<le> MAXFILE * BSIZE"
  then show "\<exists>s' bs. readFromSwapFile k p off 4096 = Ok ((int (length bs), bs), s') \<and> bs = take 4096 (drop (unat off) (swap_bytes p k)) \<and>
      swap_ok p n s' \<and> same_kernel k s' \<and> swap_bytes p s' = swap_bytes p k"
    by (rule read_swap_law)
qed

text \<open>C13: the swap file of a process is a store of page slots: writing a page to a slot inside the file or at its end
  succeeds and returns the page size; reading the slot back returns the page, the other slots are unchanged, and memory,
  processes and pipes are untouched.\<close>

theorem swap_slots_roundtrip:
  assumes "swap_ok p (Suc n) k" "length pg = 4096" "4096 * j \<le> length (swap_bytes p k)" "j < 17" "length (swap_bytes p k) \<le> MAXFILE * BSIZE"
  shows "\<exists>k' k''. writeToSwapFile k p pg (4096 * of_nat j) = Ok (4096, k') \<and> same_kernel k k' \<and>
    readFromSwapFile k' p (4096 * of_nat j) 4096 = Ok ((4096, pg), k'') \<and> same_kernel k k'' \<and> swap_ok p n k'' \<and>
    (\<forall>i<17. i \<noteq> j \<longrightarrow> 4096 * i + 4096 \<le> length (swap_bytes p k) \<longrightarrow>
       (\<exists>k3. readFromSwapFile k' p (4096 * of_nat i) 4096 = Ok ((4096, take 4096 (drop (4096 * i) (swap_bytes p k))), k3)))"
proof -
  obtain k' where k': "writeToSwapFile k p pg (4096 * of_nat j) = Ok (4096, k')" "swap_ok p n k'" "same_kernel k k'" "swap_store.slot_at p k' j = pg"
    "length (swap_bytes p k') = max (length (swap_bytes p k)) (4096 * j + 4096)"
    "\<forall>i. i \<noteq> j \<longrightarrow> 4096 * i + 4096 \<le> length (swap_bytes p k) \<longrightarrow> swap_store.slot_at p k' i = swap_store.slot_at p k i"
    using swap_store.put_slot [OF assms(1-4)] by blast
  have l: "length (swap_bytes p k') \<le> 71680" using k'(5) assms(4,5) by auto
  have g: "\<exists>k''. readFromSwapFile k' p (4096 * of_nat i) 4096 = Ok ((4096, swap_store.slot_at p k' i), k'') \<and> swap_ok p n k'' \<and> same_kernel k' k''"
    if "4096 * i + 4096 \<le> length (swap_bytes p k')" "i < 17" for i
    using swap_store.get_slot [OF k'(2) that l] by blast
  obtain k'' where k'': "readFromSwapFile k' p (4096 * of_nat j) 4096 = Ok ((4096, pg), k'')" "swap_ok p n k''" "same_kernel k' k''"
    using g [of j] k'(4,5) assms(4) by auto
  have "\<exists>k3. readFromSwapFile k' p (4096 * of_nat i) 4096 = Ok ((4096, take 4096 (drop (4096 * i) (swap_bytes p k))), k3)"
    if "i < 17" "i \<noteq> j" "4096 * i + 4096 \<le> length (swap_bytes p k)" for i
    using g [of i] that k'(5,6) by (fastforce simp: swap_store.slot_at_def)
  then show ?thesis using k'(1,3) k'' same_kernel_trans by blast
qed

section \<open>A kernel with one process and its swap file\<close>

definition demo_tf :: trapframe where
  "demo_tf = \<lparr>tf_edi = 0, tf_esi = 0, tf_ebp = 0, tf_ebx = 0, tf_edx = 0, tf_ecx = 0, tf_eax = 0, tf_gs = 0, tf_fs = 0, tf_es = 0, tf_ds = 0,
     tf_trapno = 0, tf_err = 0, tf_eip = 0, tf_cs = 0, tf_eflags = 0, tf_esp = 0, tf_ss = 0\<rparr>"

definition unused_proc :: proc where
  "unused_proc = \<lparr>p_sz = 0, p_pgdir = 0, p_kstack = 0, p_state = UNUSED, p_pid = 0, p_parent = None, p_tf = demo_tf,
     p_context = \<lparr>c_edi = 0, c_esi = 0, c_ebx = 0, c_ebp = 0, c_eip = 0\<rparr>, p_chan = None, p_killed = False, p_ofile = replicate 16 None,
     p_cwd = None, p_name = [], paging_meta = reset_paging_meta, swapFile = None, page_faults = 0, num_pageouts = 0\<rparr>"

definition demo_proc :: proc where
  "demo_proc = unused_proc\<lparr>p_sz := 4096, p_pgdir := 0x80200000, p_kstack := 0x80100000, p_state := RUNNING, p_pid := 3, swapFile := Some 0\<rparr>"

definition no_file :: ofile where
  "no_file = \<lparr>f_type = FD_NONE, f_ref = 0, f_readable = False, f_writable = False, f_pipe = 0, f_ip = None, f_off = 0\<rparr>"

definition demo_kernel :: kernel where
  "demo_kernel = fsst.extend (demo_fs\<lparr>outstanding := 0, inodes := (demo_inode\<lparr>i_locked := False\<rparr>) # replicate 49 no_inode\<rparr>)
     (kernel.fields demo_phys SCFIFO False (no_file\<lparr>f_type := FD_INODE, f_ref := 1, f_readable := True, f_writable := True, f_ip := Some 0\<rparr> # replicate 99 no_file)
        (\<lambda>_. None) (demo_proc # replicate 63 unused_proc) (Some 0) (Some 0) 4 0 0x80200000 0x200000 0 0 0 False 0 0)"

lemma demo_kernel_fields:
  "procs demo_kernel = demo_proc # replicate 63 unused_proc" "kphys demo_kernel = demo_phys" "cur demo_kernel = Some 0" "SELECTION demo_kernel = SCFIFO"
  "files demo_kernel = no_file\<lparr>f_type := FD_INODE, f_ref := 1, f_readable := True, f_writable := True, f_ip := Some 0\<rparr> # replicate 99 no_file"
  "inodes demo_kernel = (demo_inode\<lparr>i_locked := False\<rparr>) # replicate 49 no_inode" "cr3 demo_kernel = 0x200000" "outstanding demo_kernel = 0"
  by (simp_all add: demo_kernel_def fsst.extend_def kernel.fields_def)

lemma demo_nfree: "40 \<le> nfree demo_fs"
proof -
  have i: "inj_on (of_nat :: nat \<Rightarrow> u32) {60..<100}" by (rule inj_onI, drule arg_cong [of _ _ unat]) (simp add: unat_of_nat)
  have "(of_nat :: nat \<Rightarrow> u32) ` {60..<100} \<subseteq> {b. b < sb_size (sb demo_fs) \<and> \<not> used demo_fs b}"
    using demo_used by (auto simp: demo_fs_fields demo_sb_fields word_less_nat_alt unat_of_nat)
  from card_mono [OF _ this] show ?thesis by (simp add: nfree_def card_image [OF i])
qed

lemma demo_swap_ok: "swap_ok 0 1 demo_kernel" "swap_bytes 0 demo_kernel = []"
proof -
  let ?o = "demo_fs\<lparr>inodes := inodes demo_kernel\<rparr>"
  have v: "fs_view ?o demo_kernel" "\<not> committing demo_kernel"
    using demo_fs_fields(8) by (simp_all add: fs_view_def demo_kernel_def fsst.extend_def kernel.fields_def)
  note V = fs_view_cong [OF v(1)]
  have d: "alloc_ok demo_fs" "held demo_fs = {}" "dirtyset demo_fs = {}" using demo_alloc_ok demo_fs_txn by simp_all
  have a: "fs_idle demo_kernel" using d v(2) by (simp add: fs_idle_def alloc_ok_def V(1-11) demo_kernel_fields(8))
  have f0: "faddr C (replicate 13 0) m = 0" if "m < 140" for C m using that by (simp add: faddr_def)
  have i: "inodes demo_kernel ! 0 = demo_inode\<lparr>i_locked := False\<rparr>" "length (inodes demo_kernel) = 50" by (simp_all add: demo_kernel_fields)
  have "inode_ok demo_kernel 0" unfolding inode_ok_def i map_ok_def by (simp add: demo_inode_def f0)
  then have "inode_free demo_kernel 0" using i V(21) by (simp add: inode_free_def demo_inode_def demo_fs_fields demo_sb_fields)
  moreover have "nfree demo_kernel = nfree demo_fs" unfolding nfree_def V(8,21) by simp
  then have "free_cost demo_kernel 0 + 12 \<le> nfree demo_kernel" using demo_nfree by (simp add: free_cost_def)
  ultimately show "swap_ok 0 1 demo_kernel" using a by (simp add: swap_ok_def swap_inode_def demo_kernel_fields demo_proc_def)
  show "swap_bytes 0 demo_kernel = []"
    by (simp add: swap_bytes_def swap_inode_def demo_kernel_fields(1,5) demo_proc_def file_bytes_def i demo_inode_def)
qed

theorem swap_slots_roundtrip_witness:
  "\<exists>k' k''. writeToSwapFile demo_kernel 0 (replicate 4096 9) 0 = Ok (4096, k') \<and> readFromSwapFile k' 0 0 4096 = Ok ((4096, replicate 4096 9), k'') \<and>
     kphys k'' = demo_phys"
proof -
  have s: "swap_ok 0 (Suc 0) demo_kernel" "4096 * 0 \<le> length (swap_bytes 0 demo_kernel)" "(0 :: nat) < 17" "length (swap_bytes 0 demo_kernel) \<le> MAXFILE * BSIZE"
    using demo_swap_ok by simp_all
  have z: "4096 * of_nat 0 = (0 :: u32)" by simp
  obtain k' k'' where "writeToSwapFile demo_kernel 0 (replicate 4096 9) 0 = Ok (4096, k')"
    "readFromSwapFile k' 0 0 4096 = Ok ((4096, replicate 4096 9), k'')" "same_kernel demo_kernel k''"
    using swap_slots_roundtrip [OF s(1) length_replicate s(2-4), of 9] unfolding z by blast
  then show ?thesis unfolding same_kernel_def demo_kernel_fields by blast
qed

end
