(* ===== verification/Swap.thy ===== *)
theory Swap
  imports SwapFile
begin

text \<open>
  The pager of vm.c: choosing a victim page under each replacement policy, ageing, moving pages between
  memory and the swap file, and the copy of a swap file in fork. A process is its index in the process
  table. The page table walks work on the physical memory; the data of a page is read and written through
  the page directory in \<^verbatim>\<open>%cr3\<close>, as the code does by using the user address.
\<close>

section \<open>Page data of a process\<close>

definition meta_do :: "kernel \<Rightarrow> nat \<Rightarrow> (p_meta \<Rightarrow> (int \<times> p_meta) outcome) \<Rightarrow> (int \<times> kernel) outcome" where
  "meta_do k p f =
     andThen (f (paging_meta (procs k ! p))) (\<lambda>(r, m). Ok (r, upd_proc k p (\<lambda>q. q\<lparr>paging_meta := m\<rparr>)))"

definition set_meta :: "kernel \<Rightarrow> nat \<Rightarrow> (p_meta \<Rightarrow> p_meta) \<Rightarrow> kernel" where
  "set_meta k p f = upd_proc k p (\<lambda>q. q\<lparr>paging_meta := f (paging_meta q)\<rparr>)"

text \<open>The entry of a page as the code reads it: a null pointer from the walk is used unchecked.\<close>

definition pte_of :: "kernel \<Rightarrow> nat \<Rightarrow> addr \<Rightarrow> u32 outcome" where
  "pte_of k p va = read_pte (kphys k) (p_pgdir (procs k ! p)) va"

definition clear_A :: "kernel \<Rightarrow> nat \<Rightarrow> addr \<Rightarrow> kernel outcome" where
  "clear_A k p va =
     andThen (pte_of k p va) (\<lambda>e. phys_do k (\<lambda>m. clearPTE_FLAG m (p_pgdir (procs k ! p)) va PTE_A))"

section \<open>Choosing a victim\<close>

text \<open>The loop of SCFIFO gives accessed pages a second chance; it ends after at most one round of the queue.\<close>

fun scfifo_loop :: "nat \<Rightarrow> kernel \<Rightarrow> nat \<Rightarrow> (addr \<times> kernel) outcome" where
  "scfifo_loop 0 k p = Fault ''select_page_to_back: does not return''"
| "scfifo_loop (Suc n) k p =
     (case dequeue (pq (paging_meta (procs k ! p))) of (current, q) \<Rightarrow>
        let k = set_meta k p (\<lambda>m. m\<lparr>pq := q\<rparr>)
        in andThen (pte_of k p (vaddr current))
             (\<lambda>e. if e AND PTE_A > 0 then
                    andThen (clear_A k p (vaddr current))
                      (\<lambda>k. andThen (enqueue (pq (paging_meta (procs k ! p))) current)
                         (\<lambda>q. scfifo_loop n (set_meta k p (\<lambda>m. m\<lparr>pq := q\<rparr>)) p))
                  else Ok (vaddr current, k)))"

definition select_page_to_back :: "kernel \<Rightarrow> nat \<Rightarrow> (addr \<times> kernel) outcome" where
  "select_page_to_back k p =
     (let m = paging_meta (procs k ! p)
      in case SELECTION k of
           NFUA \<Rightarrow> Ok (vaddr (nfua_select (pages m)), set_meta k p (\<lambda>m. m\<lparr>pq := snd (dequeue (pq m))\<rparr>))
         | LAPA \<Rightarrow> Ok (vaddr (lapa_select (pages m)), set_meta k p (\<lambda>m. m\<lparr>pq := snd (dequeue (pq m))\<rparr>))
         | SCFIFO \<Rightarrow> scfifo_loop (Suc MAX_TOTAL_PAGES) k p
         | AQ \<Rightarrow> Ok (vaddr (fst (dequeue (pq m))), set_meta k p (\<lambda>m. m\<lparr>pq := snd (dequeue (pq m))\<rparr>))
         | NONE \<Rightarrow> Ok (1, k))"

section \<open>Ageing\<close>

definition age_entry :: "bool \<Rightarrow> page \<Rightarrow> page" where
  "age_entry accessed q =
     (if accessed
      then q\<lparr>age := drop_bit 1 (age q) OR MSB, age2 := drop_bit 1 (age2 q) OR MSB\<rparr>
      else q\<lparr>age := drop_bit 1 (age q), age2 := drop_bit 1 (age2 q)\<rparr>)"

definition age_one :: "nat \<Rightarrow> nat \<Rightarrow> kernel \<Rightarrow> kernel outcome" where
  "age_one p i k =
     (let q = pages (paging_meta (procs k ! p)) ! i
      in if \<not> exists q \<or> in_back q then Ok k
         else
           andThen (pte_of k p (vaddr q))
             (\<lambda>e. andThen (if e AND PTE_A > 0 then clear_A k p (vaddr q) else Ok k)
                (\<lambda>k. Ok (set_meta k p (\<lambda>m. m\<lparr>pages := (pages m)[i := age_entry (e AND PTE_A > 0) q]\<rparr>)))))"

text \<open>The queue part of AQ: an accessed page moves one place back past one that was not.\<close>

definition aq_one :: "nat \<Rightarrow> nat \<Rightarrow> kernel \<Rightarrow> kernel outcome" where
  "aq_one p j k =
     (let qs = qpages (pq (paging_meta (procs k ! p)))
      in if j + 1 \<ge> MAX_TOTAL_PAGES then Fault ''age_process_pages: read outside pq.pages''
         else
           andThen (pte_of k p (vaddr (qs ! j)))
             (\<lambda>e. andThen (pte_of k p (vaddr (qs ! (j + 1))))
                (\<lambda>e'. if e AND PTE_A > 0 \<and> e' AND PTE_A \<le> 0
                      then Ok (set_meta k p (\<lambda>m. m\<lparr>pq := (pq m)\<lparr>qpages := qs[j := qs ! (j + 1), j + 1 := qs ! j]\<rparr>\<rparr>))
                      else Ok k)))"

definition aq_clear :: "nat \<Rightarrow> nat \<Rightarrow> kernel \<Rightarrow> kernel outcome" where
  "aq_clear p j k = clear_A k p (vaddr (qpages (pq (paging_meta (procs k ! p))) ! j))"

definition age_process_pages :: "kernel \<Rightarrow> nat \<Rightarrow> kernel outcome" where
  "age_process_pages k p =
     andThen (for_each (age_one p) [0..<MAX_TOTAL_PAGES] k)
       (\<lambda>k. if SELECTION k = AQ
            then
              let js = rev [0..<nat (lastIndex (pq (paging_meta (procs k ! p))))]
              in andThen (for_each (aq_one p) js k) (for_each (aq_clear p) js)
            else Ok k)"

section \<open>Moving pages\<close>

definition getPageFromBack :: "kernel \<Rightarrow> nat \<Rightarrow> addr \<Rightarrow> addr \<Rightarrow> (int \<times> kernel) outcome" where
  "getPageFromBack k p va buffer =
     (case first_idx (\<lambda>q. exists q \<and> vaddr q = va \<and> in_back q) (pages (paging_meta (procs k ! p))) of
        None \<Rightarrow> Ok (0, k)
      | Some i \<Rightarrow>
          andThen (readFromSwapFile k p (offset (pages (paging_meta (procs k ! p)) ! i)) PGSIZE)
            (\<lambda>((r, bs), k). if r < 0 then Panic ''get page error''
               else andThen (uwrite k buffer bs) (\<lambda>k. Ok (1, k))))"

text \<open>\<^verbatim>\<open>pageIn\<close> does not check the result of \<^verbatim>\<open>kalloc\<close>.\<close>

definition pageIn :: "kernel \<Rightarrow> nat \<Rightarrow> addr \<Rightarrow> (int \<times> kernel) outcome" where
  "pageIn k p va =
     (case kkalloc k of (paddr, k) \<Rightarrow>
        if paddr = 0 then Fault ''pageIn: null page''
        else
          andThen (phys_call k (\<lambda>m. mappages m (p_pgdir (procs k ! p)) va PGSIZE (V2P paddr) (PTE_U OR PTE_W)))
            (\<lambda>(r, k). if r \<noteq> 0 then Panic ''pagein-mappages''
               else
                 andThen (getPageFromBack k p va va)
                   (\<lambda>(r, k). if r = 0 then Ok (0, k)
                      else
                        andThen (phys_do k (\<lambda>m. clearPTE_FLAG m (p_pgdir (procs k ! p)) va PTE_PG))
                          (\<lambda>k. andThen (phys_do k (\<lambda>m. setPTE_FLAG m (p_pgdir (procs k ! p)) va PTE_P))
                             (\<lambda>k. andThen (meta_do k p (\<lambda>m. page_in_meta m va))
                                (\<lambda>(r, k). Ok (if r = 0 then 0 else 1, k)))))))"

text \<open>The result of the write to the swap file is ignored.\<close>

definition addPageToBack :: "kernel \<Rightarrow> nat \<Rightarrow> addr \<Rightarrow> (int \<times> kernel) outcome" where
  "addPageToBack k p va =
     (let free_offset = getFreePageOffset (paging_meta (procs k ! p))
      in if free_offset = PGFILE_FULL_ERR then Ok (0, k)
         else
           andThen (uread k (PTE_ADDR va) 4096)
             (\<lambda>bs. andThen (writeToSwapFile k p bs free_offset)
                (\<lambda>(r, k). andThen (meta_do k p (\<lambda>m. page_out_meta m (PTE_ADDR va) free_offset))
                   (\<lambda>(r, k). Ok (1, k)))))"

definition pageOut :: "kernel \<Rightarrow> nat \<Rightarrow> addr \<Rightarrow> (int \<times> kernel) outcome" where
  "pageOut k p va =
     andThen (addPageToBack k p va)
       (\<lambda>(r, k). if r = 0 then Panic ''page_out''
          else
            andThen (pte_of k p va)
              (\<lambda>e. andThen (phys_do k (\<lambda>m. kfree m (P2V (PTE_ADDR e))))
                 (\<lambda>k. andThen (phys_do k (\<lambda>m. clearPTE_FLAG m (p_pgdir (procs k ! p)) va PTE_P))
                    (\<lambda>k. andThen (phys_do k (\<lambda>m. setPTE_FLAG m (p_pgdir (procs k ! p)) va PTE_PG))
                       (\<lambda>k. Ok (1, upd_proc (k\<lparr>cr3 := V2P (p_pgdir (procs k ! p))\<rparr>) p (\<lambda>q. q\<lparr>num_pageouts := num_pageouts q + 1\<rparr>)))))))"

definition safe_page_in :: "kernel \<Rightarrow> nat \<Rightarrow> addr \<Rightarrow> (int \<times> kernel) outcome" where
  "safe_page_in k p va =
     andThen (if numOfPagedIn (paging_meta (procs k ! p)) = MAX_PSYC_PAGES
              then andThen (select_page_to_back k p) (\<lambda>(v, k). andThen (pageOut k p v) (\<lambda>(r, k). Ok k))
              else Ok k)
       (\<lambda>k. pageIn k p (PGROUNDDOWN va))"

section \<open>Copying a swap file\<close>

text \<open>The loop writes a whole chunk even when it has read less; the buffer keeps the bytes of the last read. Every
  round reads at least one byte, and a file has at most 140 blocks of 512 bytes.\<close>

fun copy_swap_loop :: "nat \<Rightarrow> kernel \<Rightarrow> nat \<Rightarrow> nat \<Rightarrow> byte list \<Rightarrow> u32 \<Rightarrow> kernel outcome" where
  "copy_swap_loop 0 k child parent buff off = Fault ''copy_parent_swapfile: does not return''"
| "copy_swap_loop (Suc n) k child parent buff off =
     andThen (readFromSwapFile k parent off 2048)
       (\<lambda>((r, bs), k). if r > 0
          then
            let buff = overwrite 0 bs buff
            in andThen (writeToSwapFile k child buff off)
                 (\<lambda>(w, k). copy_swap_loop n k child parent buff (off + of_int r))
          else Ok k)"

definition copy_parent_swapfile :: "kernel \<Rightarrow> nat \<Rightarrow> nat \<Rightarrow> (int \<times> kernel) outcome" where
  "copy_parent_swapfile k child parent =
     andThen (copy_swap_loop (Suc (MAXFILE * BSIZE)) k child parent (replicate 2048 0) 0)
       (\<lambda>k. Ok (1, set_meta k child (\<lambda>_. paging_meta (procs k ! parent))))"

end
