(* ===== verification/Replace.thy ===== *)
theory Replace
  imports Swap
begin

text \<open>
  The replacement policies: SCFIFO is a second-chance queue and always finds a victim; the queue of AQ
  is never reordered because the ageing loop clears the accessed bits that the reordering looks at.
\<close>

section \<open>Accessed bits\<close>

definition accessed :: "kernel \<Rightarrow> nat \<Rightarrow> addr \<Rightarrow> bool" where
  "accessed k p va \<longleftrightarrow> pte_val (mem (kphys k)) (p_pgdir (procs k ! p)) va AND PTE_A > 0"

text \<open>The page table of process \<open>p\<close> has a table for each of the pages.\<close>

definition pages_walk :: "kernel \<Rightarrow> nat \<Rightarrow> addr list \<Rightarrow> addr set \<Rightarrow> bool" where
  "pages_walk k p xs vs \<longleftrightarrow> p < length (procs k) \<and> pt_wf (kphys k) (p_pgdir (procs k ! p)) xs \<and>
     (\<forall>va\<in>vs. pde_present (mem (kphys k)) (p_pgdir (procs k ! p)) (PDX va)) \<and>
     (\<forall>va\<in>vs. \<forall>va'\<in>vs. PGROUNDDOWN va = PGROUNDDOWN va' \<longrightarrow> va = va')"

lemma pte_of_eq:
  assumes "pages_walk k p xs vs" "va \<in> vs"
  shows "pte_of k p va = Ok (pte_val (mem (kphys k)) (p_pgdir (procs k ! p)) va)"
  using assms read_pte_eq [of "kphys k" _ xs va] by (simp add: pages_walk_def pte_of_def)

lemma set_meta_simps [simp]:
  "kphys (set_meta k p f) = kphys k" "length (procs (set_meta k p f)) = length (procs k)" "SELECTION (set_meta k p f) = SELECTION k"
  "p < length (procs k) \<Longrightarrow> procs (set_meta k p f) ! p = (procs k ! p)\<lparr>paging_meta := f (paging_meta (procs k ! p))\<rparr>"
  by (simp_all add: set_meta_def upd_proc_def)

lemma pages_walk_meta [simp]: "p < length (procs k) \<Longrightarrow> pages_walk (set_meta k p f) p xs vs = pages_walk k p xs vs"
  "p < length (procs k) \<Longrightarrow> accessed (set_meta k p f) p va = accessed k p va"
  by (simp_all add: pages_walk_def accessed_def)

text \<open>Clearing an accessed bit.\<close>

lemma clear_bit_A: "(e AND NOT PTE_A) AND PTE_A = 0" for e :: u32
  by (simp only: and.assoc) simp

text \<open>A change of the flags of one entry.\<close>

lemma update_pte_ok:
  assumes "pt_wf s d xs" "pde_present (mem s) d (PDX va)"
  obtains s' where "update_pte msg s d va f = Ok s'" "pt_wf s' d xs" "s' = s\<lparr>mem := mem s'\<rparr>" "tables (mem s') d = tables (mem s) d"
    "\<And>v. pte_val (mem s') d v = (if PGROUNDDOWN v = PGROUNDDOWN va then f (pte_val (mem s) d va) else pte_val (mem s) d v)"
    "\<And>v. pde_present (mem s') d (PDX v) = pde_present (mem s) d (PDX v)"
    "\<And>q. q \<notin> tables (mem s) d \<Longrightarrow> same_page (mem s') (mem s) q"
proof
  let ?s = "s\<lparr>mem := store32 (mem s) (pte_ptr (mem s) d va) (f (pte_val (mem s) d va))\<rparr>"
  note S = set_pte [OF assms, where w = "f (pte_val (mem s) d va)"]
  show "update_pte msg s d va f = Ok ?s"
    using assms(2) pte_ptr_nonzero [OF assms] by (simp add: update_pte_def walkpgdir_present pte_val_def)
  show "pde_present (mem ?s) d (PDX v) = pde_present (mem s) d (PDX v)" for v
    using S(5) [of "PDX v"] PDX_less [of v] by auto
qed (use set_pte(1-4) [OF assms, where w = "f (pte_val (mem s) d va)"] in auto)

lemma clear_A_ok:
  assumes "pages_walk k p xs vs" "va \<in> vs"
  shows "\<exists>k'. clear_A k p va = Ok k' \<and> pages_walk k' p xs vs \<and> procs k' = procs k \<and> SELECTION k' = SELECTION k \<and>
    (\<forall>v\<in>vs. accessed k' p v = (v \<noteq> va \<and> accessed k p v))"
proof -
  let ?d = "p_pgdir (procs k ! p)" and ?m = "mem (kphys k)"
  have w: "p < length (procs k)" "pt_wf (kphys k) ?d xs" "pde_present ?m ?d (PDX va)" using assms by (auto simp: pages_walk_def)
  obtain s' where s': "clearPTE_FLAG (kphys k) ?d va PTE_A = Ok s'" "pt_wf s' ?d xs"
    "\<And>v. pte_val (mem s') ?d v = (if PGROUNDDOWN v = PGROUNDDOWN va then pte_val ?m ?d va AND NOT PTE_A else pte_val ?m ?d v)"
    "\<And>v. pde_present (mem s') ?d (PDX v) = pde_present ?m ?d (PDX v)"
    by (rule update_pte_ok [OF w(2,3), where f = "\<lambda>e. e AND NOT PTE_A" and msg = "''setPTE_PG''", folded clearPTE_FLAG_def]) blast
  then have c: "clear_A k p va = Ok (k\<lparr>kphys := s'\<rparr>)" by (simp add: clear_A_def pte_of_eq [OF assms] phys_do_def)
  show ?thesis
    unfolding c using assms w(1) s'(2-) clear_bit_A [of "pte_val ?m ?d va"]
    by (auto simp: pages_walk_def accessed_def)
qed

section \<open>SCFIFO\<close>

text \<open>What a second-chance queue does: the accessed pages at the head lose their bit and go to the back, the first
  page not accessed is the victim; when all were accessed it is the oldest page.\<close>

definition second_chance_spec :: "('a \<Rightarrow> bool) \<Rightarrow> 'a list \<Rightarrow> 'a \<times> 'a list" where
  "second_chance_spec A vs =
     (let pre = takeWhile A vs; post = dropWhile A vs
      in if post = [] then (hd vs, tl vs) else (hd post, tl post @ pre))"

lemma rotate_parts:
  assumes "A v" "distinct (v # ws)"
  shows "takeWhile (\<lambda>u. u \<noteq> v \<and> A u) (ws @ [v]) = takeWhile A ws" "dropWhile (\<lambda>u. u \<noteq> v \<and> A u) (ws @ [v]) = dropWhile A ws @ [v]"
  using assms by (induction ws) auto

lemma spec_rotate:
  assumes "A v" "distinct (v # ws)"
  shows "second_chance_spec (\<lambda>u. u \<noteq> v \<and> A u) (ws @ [v]) = second_chance_spec A (v # ws)"
  using assms by (cases "dropWhile A ws = []")
    (auto simp: second_chance_spec_def Let_def rotate_parts [where A = A] takeWhile_eq_all_conv simp flip: dropWhile_eq_Nil_conv)

lemma spec_hit: "vs \<noteq> [] \<Longrightarrow> \<not> A (hd vs) \<Longrightarrow> second_chance_spec A vs = (hd vs, tl vs)"
  by (cases vs) (simp_all add: second_chance_spec_def)

lemma spec_cong: "(\<And>v. v \<in> set vs \<Longrightarrow> A v = B v) \<Longrightarrow> second_chance_spec A vs = second_chance_spec B vs"
  unfolding second_chance_spec_def using takeWhile_cong [of vs vs A B] dropWhile_cong [of vs vs A B] by simp

definition queue_of :: "kernel \<Rightarrow> nat \<Rightarrow> page list" where
  "queue_of k p = queue_list (pq (paging_meta (procs k ! p)))"

definition queue_ok :: "kernel \<Rightarrow> nat \<Rightarrow> addr list \<Rightarrow> bool" where
  "queue_ok k p xs \<longleftrightarrow> queue_wf (pq (paging_meta (procs k ! p))) \<and> queue_of k p \<noteq> [] \<and> distinct (map vaddr (queue_of k p)) \<and>
     pages_walk k p xs (vaddr ` set (queue_of k p))"

lemma scfifo_loop_ok:
  assumes "queue_ok k p xs" "length (takeWhile (\<lambda>q. accessed k p (vaddr q)) (queue_of k p)) < n"
  shows "\<exists>k'. scfifo_loop n k p = Ok (vaddr (fst (second_chance_spec (\<lambda>q. accessed k p (vaddr q)) (queue_of k p))), k') \<and>
    queue_wf (pq (paging_meta (procs k' ! p))) \<and>
    queue_of k' p = snd (second_chance_spec (\<lambda>q. accessed k p (vaddr q)) (queue_of k p)) \<and>
    (\<forall>q\<in>set (queue_of k p). accessed k' p (vaddr q) =
       (accessed k p (vaddr q) \<and> q \<notin> set (takeWhile (\<lambda>q. accessed k p (vaddr q)) (queue_of k p))))"
  using assms
proof (induction n arbitrary: k)
  case (Suc n)
  let ?A = "\<lambda>q. accessed k p (vaddr q)" and ?q = "pq (paging_meta (procs k ! p))"
  let ?k1 = "set_meta k p (\<lambda>m. m\<lparr>pq := snd (dequeue ?q)\<rparr>)" and ?c = "hd (queue_of k p)"
  have Q: "queue_wf ?q" "queue_of k p \<noteq> []" "distinct (map vaddr (queue_of k p))"
    and W: "pages_walk k p xs (vaddr ` set (queue_of k p))" "p < length (procs k)"
    using Suc.prems(1) by (auto simp: queue_ok_def pages_walk_def)
  have dq: "fst (dequeue ?q) = ?c" "queue_wf (snd (dequeue ?q))" "queue_list (snd (dequeue ?q)) = tl (queue_of k p)"
    using pageq.deq [OF Q(1)] Q(2) by (auto simp: queue_of_def)
  obtain vs where vs: "queue_of k p = ?c # vs" using Q(2) by (cases "queue_of k p") auto
  have W1: "pages_walk ?k1 p xs (vaddr ` set (queue_of k p))" using W by simp
  have c: "vaddr ?c \<in> vaddr ` set (queue_of k p)" using Q(2) by simp
  have e: "pte_of ?k1 p (vaddr ?c) = Ok (pte_val (mem (kphys k)) (p_pgdir (procs k ! p)) (vaddr ?c))"
    using pte_of_eq [OF W1 c] W(2) by simp
  show ?case
  proof (cases "?A ?c")
    case False
    then have "second_chance_spec ?A (queue_of k p) = (?c, tl (queue_of k p))" using spec_hit [OF Q(2)] by simp
    moreover have "takeWhile ?A (queue_of k p) = []" using False by (subst vs) simp
    ultimately show ?thesis using False
      W(2) dq e by (simp add: case_prod_beta Let_def accessed_def queue_of_def)
  next
    case True
    obtain k2 where k2: "clear_A ?k1 p (vaddr ?c) = Ok k2" "pages_walk k2 p xs (vaddr ` set (queue_of k p))" "procs k2 = procs ?k1"
      "\<forall>v\<in>vaddr ` set (queue_of k p). accessed k2 p v = (v \<noteq> vaddr ?c \<and> accessed ?k1 p v)"
      using clear_A_ok [OF W1 c] by auto
    obtain q' where q': "enqueue (snd (dequeue ?q)) ?c = Ok q'" "queue_wf q'" "queue_list q' = rotate1 (queue_of k p)"
      using pageq.second_chance [OF Q(1)] Q(2) dq by (auto simp: queue_of_def)
    let ?k3 = "set_meta k2 p (\<lambda>m. m\<lparr>pq := q'\<rparr>)"
    have p2: "p < length (procs k2)" using k2(2) by (simp add: pages_walk_def)
    have rot: "rotate1 (queue_of k p) = vs @ [?c]" by (subst vs) simp
    have q3: "queue_of ?k3 p = vs @ [?c]" "queue_wf (pq (paging_meta (procs ?k3 ! p)))"
      using p2 q' rot by (simp_all add: queue_of_def)
    have st: "set (vs @ [?c]) = set (queue_of k p)" using rot by (metis set_rotate1)
    have "distinct (map vaddr (rotate1 (queue_of k p)))" using Q(3) by (simp only: rotate1_map [symmetric] distinct1_rotate)
    then have ok3: "queue_ok ?k3 p xs"
      using q3 p2 k2(2) st rot unfolding queue_ok_def by simp
    have dv: "distinct (?c # vs)" using Q(3) vs by (metis distinct_map)
    have inj: "vaddr q = vaddr ?c \<longleftrightarrow> q = ?c" if "q \<in> set (vs @ [?c])" for q
      using Q(3) that unfolding vs [symmetric] by (metis Q(2) distinct_map hd_in_set inj_onD st)
    have A3: "accessed ?k3 p (vaddr q) = (q \<noteq> ?c \<and> ?A q)" if "q \<in> set (vs @ [?c])" for q
      using k2(4) that p2 W(2) inj [OF that] st by auto
    have tw: "takeWhile (\<lambda>q. accessed ?k3 p (vaddr q)) (vs @ [?c]) = takeWhile ?A vs"
      using rotate_parts(1) [of ?A, OF True dv] takeWhile_cong [of "vs @ [?c]", OF refl A3] by simp
    have sp: "second_chance_spec (\<lambda>q. accessed ?k3 p (vaddr q)) (vs @ [?c]) = second_chance_spec ?A (?c # vs)"
      using spec_rotate [of ?A, OF True dv] spec_cong [of "vs @ [?c]", OF A3] by simp
    have "length (takeWhile ?A (?c # vs)) < Suc n" using Suc.prems(2) vs by metis
    then have "length (takeWhile (\<lambda>q. accessed ?k3 p (vaddr q)) (queue_of ?k3 p)) < n"
      unfolding q3(1) tw using True by simp
    note IH = Suc.IH [OF ok3 this, unfolded q3(1) sp tw st, unfolded vs [symmetric]]
    have "(accessed ?k3 p (vaddr q) \<and> q \<notin> set (takeWhile ?A vs)) = (?A q \<and> q \<notin> set (takeWhile ?A (queue_of k p)))"
      if "q \<in> set (queue_of k p)" for q
      using A3 [unfolded st, OF that] True by (subst vs) auto
    with IH show ?thesis using True k2(1,3) q'(1) dq(1) e p2 W(2)
      by (simp add: case_prod_beta Let_def accessed_def)
  qed
qed simp

section \<open>Ageing\<close>

definition aged :: "kernel \<Rightarrow> nat \<Rightarrow> page \<Rightarrow> page" where
  "aged k p q = (if in_ram q then age_entry (accessed k p (vaddr q)) q else q)"

definition aged_upto :: "kernel \<Rightarrow> nat \<Rightarrow> nat \<Rightarrow> p_meta \<Rightarrow> p_meta" where
  "aged_upto k p n m = m\<lparr>pages := map (aged k p) (take n (pages m)) @ drop n (pages m)\<rparr>"

definition ram_upto :: "nat \<Rightarrow> p_meta \<Rightarrow> addr set" where
  "ram_upto n m = {vaddr (pages m ! i) | i. i < n \<and> in_ram (pages m ! i)}"

lemma aged_upto_Suc:
  assumes "n < length (pages m)"
  shows "aged_upto k p (Suc n) m = (aged_upto k p n m)\<lparr>pages := (pages (aged_upto k p n m))[n := aged k p (pages m ! n)]\<rparr>"
    "pages (aged_upto k p n m) ! n = pages m ! n"
  using assms
  by (simp_all add: aged_upto_def take_Suc_conv_app_nth list_update_append nth_append Cons_nth_drop_Suc [symmetric])

lemma set_meta_set_meta: "p < length (procs k) \<Longrightarrow> procs (set_meta k p f) = (procs k)[p := (procs k ! p)\<lparr>paging_meta := f (paging_meta (procs k ! p))\<rparr>]"
  by (simp add: set_meta_def upd_proc_def)

lemma ageing_loop:
  assumes "meta_wf m" "m = paging_meta (procs k ! p)" "pages_walk k p xs V" "ram_vaddrs m \<subseteq> V" "n \<le> 32"
  shows "\<exists>k'. for_each (age_one p) [0..<n] k = Ok k' \<and> pages_walk k' p xs V \<and> SELECTION k' = SELECTION k \<and>
    procs k' = procs (set_meta k p (aged_upto k p n)) \<and>
    (\<forall>v\<in>V. accessed k' p v = (accessed k p v \<and> v \<notin> ram_upto n m))"
  using assms(5)
proof (induction n)
  case 0
  then show ?case using assms(3) by (simp add: ram_upto_def aged_upto_def set_meta_def upd_proc_def)
next
  case (Suc n)
  then have n: "n \<le> 32" "n < 32" by simp_all
  obtain k1 where k1: "for_each (age_one p) [0..<n] k = Ok k1" "pages_walk k1 p xs V" "SELECTION k1 = SELECTION k"
    "procs k1 = procs (set_meta k p (aged_upto k p n))" "\<forall>v\<in>V. accessed k1 p v = (accessed k p v \<and> v \<notin> ram_upto n m)"
    using Suc.IH [OF n(1)] by blast
  have pl: "p < length (procs k)" "p < length (procs k1)" using assms(3) k1(2) by (simp_all add: pages_walk_def)
  have len: "n < length (pages m)" using assms(1) n(2) by (simp add: meta_wf_def)
  let ?q = "pages m ! n"
  have m1: "paging_meta (procs k1 ! p) = aged_upto k p n m" using k1(4) pl assms(2) by simp
  have q1: "pages (paging_meta (procs k1 ! p)) ! n = ?q" unfolding m1 by (rule aged_upto_Suc(2) [OF len])
  have ram: "ram_upto (Suc n) m = ram_upto n m \<union> (if in_ram ?q then {vaddr ?q} else {})"
    by (auto simp: ram_upto_def less_Suc_eq)
  have fin: "procs (set_meta k2 p (\<lambda>m'. m'\<lparr>pages := (pages m')[n := aged k p ?q]\<rparr>)) = procs (set_meta k p (aged_upto k p (Suc n)))"
    if "procs k2 = procs k1" for k2
    using that pl k1(4) assms(2) aged_upto_Suc(1) [OF len, of k p] by (simp add: set_meta_set_meta)
  show ?case
  proof (cases "in_ram ?q")
    case False
    then have "age_one p n k1 = Ok k1" using q1 by (auto simp: age_one_def in_ram_def)
    moreover have "procs k1 = procs (set_meta k p (aged_upto k p (Suc n)))"
      using fin [of k1] False pl list_update_id [of "pages (paging_meta (procs k1 ! p))" n]
      by (simp add: aged_def set_meta_set_meta q1)
    ultimately show ?thesis using k1 False ram by (simp add: for_each_append)
  next
    case True
    have qV: "vaddr ?q \<in> V" using assms(4) True n(2) by (auto simp: ram_vaddrs_def)
    have "vaddr ?q \<noteq> vaddr (pages m ! i)" if "i < n" "in_ram (pages m ! i)" for i
      using meta_wfD(5) [OF assms(1), of n i] True that n(2) by (auto simp: in_ram_def)
    then have "vaddr ?q \<notin> ram_upto n m" by (auto simp: ram_upto_def)
    then have A: "accessed k1 p (vaddr ?q) = accessed k p (vaddr ?q)" using k1(5) qV by simp
    obtain k2 where k2: "(if accessed k1 p (vaddr ?q) then clear_A k1 p (vaddr ?q) else Ok k1) = Ok k2" "pages_walk k2 p xs V"
      "procs k2 = procs k1" "SELECTION k2 = SELECTION k1" "\<forall>v\<in>V. accessed k2 p v = (v \<noteq> vaddr ?q \<and> accessed k1 p v)"
      using clear_A_ok [OF k1(2) qV] k1(2) by (cases "accessed k1 p (vaddr ?q)") auto
    let ?k3 = "set_meta k2 p (\<lambda>m'. m'\<lparr>pages := (pages m')[n := aged k p ?q]\<rparr>)"
    have "age_one p n k1 = Ok ?k3"
      using True k2(1) q1 A by (simp add: age_one_def pte_of_eq [OF k1(2) qV] accessed_def [symmetric] in_ram_def aged_def Let_def)
    then show ?thesis using k1 k2 True ram fin [OF k2(3)] pl by (auto simp: for_each_append)
  qed
qed

text \<open>After the ageing loop no page of the queue is accessed, so no swap of the AQ pass happens.\<close>

lemma aq_pass_idle:
  assumes "pages_walk k p xs V" "vaddr ` set qs \<subseteq> V" "qs = qpages (pq (paging_meta (procs k ! p)))" "length qs = 32"
    "\<forall>q\<in>set (take n qs). \<not> accessed k p (vaddr q)" "n < 32"
  shows "for_each (aq_one p) (rev [0..<n]) k = Ok k"
  using assms(5,6)
proof (induction n)
  case (Suc n)
  have V: "vaddr (qs ! n) \<in> V" "vaddr (qs ! Suc n) \<in> V" using assms(2,4) Suc.prems(2) by auto
  have "\<not> accessed k p (vaddr (qs ! n))" using Suc.prems assms(4) by (simp add: take_Suc_conv_app_nth)
  then have "aq_one p n k = Ok k"
    using Suc.prems(2) pte_of_eq [OF assms(1) V(1)] pte_of_eq [OF assms(1) V(2)]
    by (simp add: aq_one_def assms(3) [symmetric] accessed_def)
  then show ?case using Suc.IH Suc.prems assms(4) by (simp add: take_Suc_conv_app_nth)
qed simp

lemma aq_clear_ok:
  assumes "pages_walk k p xs V" "\<forall>j\<in>set js. vaddr (qpages (pq (paging_meta (procs k ! p))) ! j) \<in> V"
  shows "\<exists>k'. for_each (aq_clear p) js k = Ok k' \<and> procs k' = procs k \<and> pages_walk k' p xs V \<and> (\<forall>v\<in>V. accessed k' p v \<longrightarrow> accessed k p v)"
  using assms
proof (induction js arbitrary: k)
  case (Cons j js)
  obtain k1 where k1: "aq_clear p j k = Ok k1" "pages_walk k1 p xs V" "procs k1 = procs k" "\<forall>v\<in>V. accessed k1 p v \<longrightarrow> accessed k p v"
    using clear_A_ok [OF Cons.prems(1), of "vaddr (qpages (pq (paging_meta (procs k ! p))) ! j)"] Cons.prems(2)
    by (auto simp: aq_clear_def)
  with Cons.IH [of k1] Cons.prems(2) show ?case by (auto simp: k1(3))
qed auto

text \<open>C4: Ageing shifts the counters of exactly the resident pages, setting the top bit for those accessed since the last
  call, and leaves no resident page accessed. The page queue is unchanged under every policy, AQ included: the first loop has
  already cleared every accessed bit that the reordering of AQ asks for, so AQ is a plain first-in first-out queue.\<close>

theorem ageing_never_reorders_queue:
  assumes "meta_wf (paging_meta (procs k ! p))" "queue_agrees (paging_meta (procs k ! p))"
    and "lastIndex (pq (paging_meta (procs k ! p))) < 32"
    and "pages_walk k p xs (ram_vaddrs (paging_meta (procs k ! p)) \<union> vaddr ` set (qpages (pq (paging_meta (procs k ! p)))))"
  shows "\<exists>k'. age_process_pages k p = Ok k' \<and> pq (paging_meta (procs k' ! p)) = pq (paging_meta (procs k ! p)) \<and>
    pages (paging_meta (procs k' ! p)) =
      map (\<lambda>q. if in_ram q then age_entry (accessed k p (vaddr q)) q else q) (pages (paging_meta (procs k ! p))) \<and>
    map (\<lambda>q. (vaddr q, age q, age2 q)) (pages (paging_meta (procs k' ! p))) =
      map (\<lambda>q. let bit = (if accessed k p (vaddr q) then 0x80000000 else 0)
               in if in_ram q then (vaddr q, drop_bit 1 (age q) OR bit, drop_bit 1 (age2 q) OR bit) else (vaddr q, age q, age2 q))
        (pages (paging_meta (procs k ! p))) \<and>
    (\<forall>v\<in>ram_vaddrs (paging_meta (procs k ! p)). \<not> accessed k' p v)"
proof -
  let ?m = "paging_meta (procs k ! p)"
  let ?V = "ram_vaddrs ?m \<union> vaddr ` set (qpages (pq ?m))"
  obtain k1 where k1: "for_each (age_one p) [0..<32] k = Ok k1" "pages_walk k1 p xs ?V"
    "procs k1 = procs (set_meta k p (aged_upto k p 32))" "\<forall>v\<in>?V. accessed k1 p v = (accessed k p v \<and> v \<notin> ram_upto 32 ?m)"
    using ageing_loop [OF assms(1) refl assms(4), of 32] by auto
  have pl: "p < length (procs k)" using assms(4) by (simp add: pages_walk_def)
  have m1: "paging_meta (procs k1 ! p) = aged_upto k p 32 ?m" using k1(3) pl by simp
  have pg: "pages (paging_meta (procs k1 ! p)) = map (aged k p) (pages ?m)" and pq1: "pq (paging_meta (procs k1 ! p)) = pq ?m"
    using assms(1) unfolding m1 by (simp_all add: aged_upto_def meta_wf_def)
  have ram: "ram_upto 32 ?m = ram_vaddrs ?m" by (simp add: ram_upto_def ram_vaddrs_def)
  let ?n = "nat (lastIndex (pq ?m))" and ?qs = "qpages (pq ?m)"
  have n: "?n < 32" "length ?qs = 32" using assms(1,3) by (auto simp: meta_wf_def queue_wf_def)
  have "vaddr ` set (take ?n ?qs) = ram_vaddrs ?m" using assms(2) unfolding queue_agrees_def queue_list_def by blast
  then have "\<forall>q\<in>set (take ?n ?qs). \<not> accessed k1 p (vaddr q)" using k1(4) ram by blast
  then have idle: "for_each (aq_one p) (rev [0..<?n]) k1 = Ok k1"
    by (intro aq_pass_idle [OF k1(2) _ _ n(2)]) (blast | simp only: pq1 | rule n(1))+
  obtain k2 where k2: "for_each (aq_clear p) (rev [0..<?n]) k1 = Ok k2" "procs k2 = procs k1" "\<forall>v\<in>?V. accessed k2 p v \<longrightarrow> accessed k1 p v"
  proof -
    have "\<forall>j\<in>set (rev [0..<?n]). vaddr (qpages (pq (paging_meta (procs k1 ! p))) ! j) \<in> ?V"
      using n unfolding pq1 by simp
    then show ?thesis using that aq_clear_ok [OF k1(2)] by blast
  qed
  have ages: "map (\<lambda>q. (vaddr q, age q, age2 q)) (pages (paging_meta (procs k1 ! p))) =
      map (\<lambda>q. let bit = (if accessed k p (vaddr q) then 0x80000000 else 0)
               in if in_ram q then (vaddr q, drop_bit 1 (age q) OR bit, drop_bit 1 (age2 q) OR bit) else (vaddr q, age q, age2 q))
        (pages ?m)"
    unfolding pg by (simp add: aged_def age_entry_def Let_def)
  have "\<exists>k'. age_process_pages k p = Ok k' \<and> procs k' = procs k1 \<and> (\<forall>v\<in>ram_vaddrs ?m. \<not> accessed k' p v)"
    using k1(1,4) k2 idle pq1 ram by (cases "SELECTION k1 = AQ") (auto simp: age_process_pages_def Let_def)
  then show ?thesis using pg pq1 ages by (auto simp: aged_def)
qed

text \<open>C3: SCFIFO always finds a victim, and the loop is the second-chance queue: the accessed pages at the head of the
  queue lose their accessed bit and move to its back, and the victim is the first page not accessed, or the oldest page
  when all of them were. No other accessed bit changes.\<close>

theorem scfifo_second_chance:
  assumes "SELECTION k = SCFIFO" "queue_ok k p xs"
  shows "\<exists>k'. select_page_to_back k p = Ok (vaddr (fst (second_chance_spec (\<lambda>q. accessed k p (vaddr q)) (queue_of k p))), k') \<and>
    queue_wf (pq (paging_meta (procs k' ! p))) \<and>
    queue_of k' p = snd (second_chance_spec (\<lambda>q. accessed k p (vaddr q)) (queue_of k p)) \<and>
    (\<forall>q\<in>set (queue_of k p). accessed k' p (vaddr q) =
       (accessed k p (vaddr q) \<and> q \<notin> set (takeWhile (\<lambda>q. accessed k p (vaddr q)) (queue_of k p))))"
proof -
  have "length (queue_of k p) \<le> MAX_TOTAL_PAGES" using assms(2) pageq.wf_cap unfolding queue_ok_def queue_of_def by blast
  then have "length (takeWhile (\<lambda>q. accessed k p (vaddr q)) (queue_of k p)) < Suc MAX_TOTAL_PAGES"
    using length_takeWhile_le le_trans less_Suc_eq_le by blast
  from scfifo_loop_ok [OF assms(2) this] show ?thesis using assms(1) by (simp add: select_page_to_back_def)
qed

section \<open>A process with one resident page\<close>

definition one_in :: p_meta where
  "one_in = reset_paging_meta\<lparr>pages := new_page 0 # replicate 31 zero_page, pq := \<lparr>qpages = new_page 0 # replicate 31 zero_page, lastIndex = 1\<rparr>\<rparr>"

definition pager_kernel :: kernel where
  "pager_kernel = set_meta demo_kernel 0 (\<lambda>_. one_in)"

lemma one_in_wf: "meta_wf one_in" "queue_agrees one_in" "ram_vaddrs one_in = {0}" "queue_list (pq one_in) = [new_page 0]"
proof -
  have r: "replicate 32 x = x # replicate 31 x" for x :: page by (simp add: numeral_eq_Suc)
  have a: "add_new_page reset_paging_meta 0 = Ok (1, one_in)"
    by (simp add: add_new_page_def enqueue_def one_in_def reset_paging_meta_def r zero_page_def)
  have "get_allocated_pages reset_paging_meta < 32" "\<forall>p\<in>set (pages reset_paging_meta). exists p \<longrightarrow> vaddr p \<noteq> 0"
    by (simp_all add: get_allocated_pages_def reset_paging_meta_def zero_page_def)
  note inv = add_new_page_inv [OF meta_wf_reset queue_agrees_reset this]
  have i: "meta_wf one_in \<and> queue_agrees one_in \<and> ram_vaddrs one_in = insert 0 (ram_vaddrs reset_paging_meta) \<and>
      queue_list (pq one_in) = queue_list (pq reset_paging_meta) @ [new_page 0]"
    using inv unfolding a by auto
  moreover have "ram_vaddrs reset_paging_meta = {}" "queue_list (pq reset_paging_meta) = []"
    by (auto simp: ram_vaddrs_def in_ram_def reset_paging_meta_def zero_page_def queue_list_def)
  ultimately show "meta_wf one_in" "queue_agrees one_in" "ram_vaddrs one_in = {0}" "queue_list (pq one_in) = [new_page 0]"
    by auto
qed

lemma pager_kernel_facts:
  "paging_meta (procs pager_kernel ! 0) = one_in" "SELECTION pager_kernel = SCFIFO" "pages_walk pager_kernel 0 [0x80500000] {0}"
  "\<not> accessed pager_kernel 0 0" "queue_of pager_kernel 0 = [new_page 0]"
proof -
  have l: "0 < length (procs demo_kernel)" by (simp add: demo_kernel_fields)
  show m: "paging_meta (procs pager_kernel ! 0) = one_in" using l by (simp add: pager_kernel_def)
  show "SELECTION pager_kernel = SCFIFO" using l by (simp add: pager_kernel_def demo_kernel_fields)
  have d: "p_pgdir (procs demo_kernel ! 0) = 0x80200000" "mem (kphys demo_kernel) = demo_mem" by (simp_all add: demo_kernel_fields demo_proc_def demo_phys_def)
  have w: "pages_walk demo_kernel 0 [0x80500000] {0}" "\<not> accessed demo_kernel 0 0"
    unfolding pages_walk_def accessed_def d using l uvm_wfD(1) [OF demo_uvm] demo_pde(1) [of 0]
    by (simp_all add: demo_kernel_fields(2) PDX_def demo_pte PGROUNDDOWN_def)
  show "pages_walk pager_kernel 0 [0x80500000] {0}" "\<not> accessed pager_kernel 0 0"
    using w l by (simp_all add: pager_kernel_def)
  show "queue_of pager_kernel 0 = [new_page 0]" by (simp add: queue_of_def m one_in_wf)
qed

theorem scfifo_second_chance_witness:
  "\<exists>k'. select_page_to_back pager_kernel 0 = Ok (0, k') \<and> queue_of k' 0 = []"
proof -
  have "queue_ok pager_kernel 0 [0x80500000]"
    using meta_wfD(3) [OF one_in_wf(1)] by (simp add: queue_ok_def pager_kernel_facts new_page_def)
  from scfifo_second_chance [OF pager_kernel_facts(2) this]
  show ?thesis by (auto simp: pager_kernel_facts second_chance_spec_def new_page_def)
qed

theorem ageing_never_reorders_queue_witness:
  "\<exists>k'. age_process_pages pager_kernel 0 = Ok k' \<and> pq (paging_meta (procs k' ! 0)) = pq one_in"
proof -
  note f = pager_kernel_facts(1)
  have v: "vaddr ` set (qpages (pq one_in)) = {0}" by (auto simp: one_in_def new_page_def zero_page_def)
  from ageing_never_reorders_queue [of pager_kernel 0 "[0x80500000]", unfolded f v one_in_wf(3)]
  show ?thesis using one_in_wf pager_kernel_facts(3) by (auto simp: one_in_def)
qed

end
