(* ===== verification/Paging.thy ===== *)
theory Paging
  imports Replace
begin

text \<open>
  Paging is transparent: the bytes of the user pages of a process, seen as resident or in the swap file, are the
  same before and after a page is moved out by \<^verbatim>\<open>pageOut\<close> or brought back by \<^verbatim>\<open>pageIn\<close>.
\<close>

section \<open>Writing a user page\<close>

lemma page_offset: "i < 4096 \<Longrightarrow> page_aligned a \<Longrightarrow> PGROUNDDOWN (a + of_nat i) = a"
  by (rule PGROUNDDOWN_add) (simp_all add: word_less_nat_alt unat_of_nat)

lemma page_byte_inj:
  fixes a :: addr
  assumes "i < 4096" "j < 4096"
  shows "a + of_nat i = a + of_nat j \<longleftrightarrow> i = j"
proof
  assume "a + of_nat i = a + of_nat j"
  then have "unat (of_nat i :: addr) = unat (of_nat j :: addr)" by simp
  then show "i = j" using assms by (simp add: unat_of_nat)
qed simp

lemma uwrite_page:
  assumes "uvm_wf (kphys k) (P2V (cr3 k)) xs" "page_aligned a" "a < KERNBASE" "present (mem (kphys k)) (P2V (cr3 k)) a" "j + length bs \<le> 4096"
  shows "\<exists>m. uwrite k (a + of_nat j) bs = Ok (k\<lparr>kphys := (kphys k)\<lparr>mem := m\<rparr>\<rparr>) \<and>
    (\<forall>q. q \<noteq> user_frame (mem (kphys k)) (P2V (cr3 k)) a \<longrightarrow> same_page m (mem (kphys k)) q) \<and>
    (\<forall>i<4096. m (user_frame (mem (kphys k)) (P2V (cr3 k)) a + of_nat i) =
       (if j \<le> i \<and> i < j + length bs then bs ! (i - j) else mem (kphys k) (user_frame (mem (kphys k)) (P2V (cr3 k)) a + of_nat i)))"
  using assms
proof (induction bs arbitrary: k j)
  case Nil
  then show ?case by (intro exI [of _ "mem (kphys k)"]) auto
next
  case (Cons b bs)
  let ?d = "P2V (cr3 k)" and ?m = "mem (kphys k)"
  let ?f = "user_frame ?m ?d a" and ?v = "a + of_nat j :: addr"
  note wf = uvm_wfD [OF Cons.prems(1)]
  have j: "j < 4096" using Cons.prems(5) by simp
  have pg: "PGROUNDDOWN ?v = a" by (rule page_offset [OF j Cons.prems(2)])
  have al: "PGROUNDDOWN a = a" using Cons.prems(2) by (simp add: page_aligned_iff)
  have fr: "present ?m ?d ?v" "user_frame ?m ?d ?v = ?f"
    using Cons.prems(4) present_page [of ?v a] user_frame_page [of ?v a] pg al by simp_all
  have fa: "page_aligned ?f" using wf(2) [OF Cons.prems(3,4)] by (simp add: kpage_def)
  define m1 where "m1 = ?m(?f + of_nat j := b)"
  have st: "ustore k ?v b = k\<lparr>kphys := (kphys k)\<lparr>mem := m1\<rparr>\<rparr>" using pg fr by (simp add: ustore_def m1_def Let_def)
  have sp: "same_page m1 ?m q" if "q \<noteq> ?f" for q
    using that page_offset [OF j fa] by (auto simp: same_page_def m1_def)
  let ?k1 = "k\<lparr>kphys := (kphys k)\<lparr>mem := m1\<rparr>\<rparr>"
  have fo: "\<forall>q\<in>insert ?d (tables ?m ?d \<union> set xs). same_page m1 ?m q" using sp wf(3) [OF Cons.prems(3,4)] by metis
  then have w1: "uvm_wf (kphys ?k1) (P2V (cr3 ?k1)) xs" using uvm_wf_mem_update [OF Cons.prems(1)] by simp
  have pv: "pte_val m1 ?d v = pte_val ?m ?d v" for v using pte_val_frame(1) [OF wf(1)] fo by blast
  then have eq: "present m1 ?d a" "user_frame m1 ?d a = ?f" using Cons.prems(4) by (simp_all add: present_def user_frame_def)
  obtain m where m: "uwrite ?k1 (a + of_nat (Suc j)) bs = Ok (?k1\<lparr>kphys := (kphys ?k1)\<lparr>mem := m\<rparr>\<rparr>)"
    "\<forall>q. q \<noteq> ?f \<longrightarrow> same_page m m1 q"
    "\<forall>i<4096. m (?f + of_nat i) = (if Suc j \<le> i \<and> i < Suc j + length bs then bs ! (i - Suc j) else m1 (?f + of_nat i))"
    using Cons.IH [OF w1 Cons.prems(2,3), of "Suc j"] eq Cons.prems(5) by auto
  have "uwrite k ?v (b # bs) = Ok (k\<lparr>kphys := (kphys k)\<lparr>mem := m\<rparr>\<rparr>)"
    using m(1) st fr(1) by (simp add: uaccess_def algebra_simps)
  moreover have "\<forall>q. q \<noteq> ?f \<longrightarrow> same_page m ?m q" using m(2) sp same_page_trans by blast
  moreover have "m (?f + of_nat i) = (if j \<le> i \<and> i < j + length (b # bs) then (b # bs) ! (i - j) else ?m (?f + of_nat i))" if "i < 4096" for i
    using m(3) that page_byte_inj [OF that j, of ?f] by (auto simp: m1_def nth_Cons' not_less_eq_eq)
  ultimately show ?case by blast
qed

lemma uread_page:
  assumes "page_aligned a" "present (mem (kphys k)) (P2V (cr3 k)) a"
  shows "uread k a 4096 = Ok (map (\<lambda>i. mem (kphys k) (user_frame (mem (kphys k)) (P2V (cr3 k)) a + of_nat i)) [0..<4096])"
proof -
  let ?d = "P2V (cr3 k)" and ?m = "mem (kphys k)"
  have p: "PGROUNDDOWN (a + of_nat i) = a" "PGROUNDDOWN a = a" if "i < 4096" for i
    using page_offset [OF that assms(1)] assms(1) by (simp_all add: page_aligned_iff)
  have "present ?m ?d (a + of_nat i)" "user_frame ?m ?d (a + of_nat i) = user_frame ?m ?d a" if "i < 4096" for i
    using present_page [of "a + of_nat i" a] user_frame_page [of "a + of_nat i" a] p [OF that] assms(2) by simp_all
  then have a: "\<forall>i\<in>set [0..<4096]. uaccess k (a + of_nat i)"
    and b: "\<And>i. i < 4096 \<Longrightarrow> ubyte ?m ?d (a + of_nat i) = ?m (user_frame ?m ?d a + of_nat i)"
    using p by (simp_all add: uaccess_def ubyte_def)
  have "map (\<lambda>i. ubyte ?m ?d (a + of_nat i)) [0..<4096] = map (\<lambda>i. ?m (user_frame ?m ?d a + of_nat i)) [0..<4096]"
    by (rule map_cong [OF refl]) (use b in simp)
  then show ?thesis unfolding uread_def if_P [OF a] by (rule arg_cong)
qed

section \<open>The swap file while memory changes\<close>

lemma swap_same:
  assumes "fs_view k k'" "outstanding k' = outstanding k" "committing k' = committing k" "files k' = files k"
    "swapFile (procs k' ! p) = swapFile (procs k ! p)"
  shows "swap_ok p n k' = swap_ok p n k" "swap_bytes p k' = swap_bytes p k"
proof -
  note V = fs_view_cong [OF assms(1)]
  have i: "swap_inode k' p = swap_inode k p" unfolding swap_inode_def assms(4,5) by (rule refl)
  have fi: "fs_idle k' = fs_idle k" using assms(2,3) by (simp add: fs_idle_def alloc_ok_def V)
  have fr: "inode_free k' = inode_free k" by (simp add: inode_free_def V fun_eq_iff)
  show "swap_ok p n k' = swap_ok p n k" unfolding swap_ok_def i assms(4,5) fi fr V by (rule refl)
  show "swap_bytes p k' = swap_bytes p k" unfolding swap_bytes_def i V by simp
qed

lemma swap_phys [simp]:
  "swap_ok p n (k\<lparr>kphys := s\<rparr>) = swap_ok p n k" "swap_bytes p (k\<lparr>kphys := s\<rparr>) = swap_bytes p k"
  "swap_ok p n (k\<lparr>cr3 := c\<rparr>) = swap_ok p n k" "swap_bytes p (k\<lparr>cr3 := c\<rparr>) = swap_bytes p k"
  by (intro swap_same; simp add: fs_view_def)+

lemma swap_proc:
  assumes "\<And>q. swapFile (f q) = swapFile q" "p < length (procs k)"
  shows "swap_ok p n (upd_proc k p f) = swap_ok p n k" "swap_bytes p (upd_proc k p f) = swap_bytes p k"
  using assms by (intro swap_same; simp add: fs_view_def upd_proc_def)+

section \<open>Evicting a frame\<close>

lemma flag_bits:
  fixes e :: u32
  shows "((e AND NOT PTE_P) OR PTE_PG) AND PTE_P = 0"
  by (simp add: bit.conj_disj_distrib2 and.assoc)

lemma kfree_frame:
  assumes "uvm_wf s d xs" "va < KERNBASE" "present (mem s) d va"
  defines "f \<equiv> user_frame (mem s) d va"
  shows "\<exists>s'. kfree s f = Ok s' \<and> pt_wf s' d (f # xs) \<and> s' = s\<lparr>mem := mem s', freelist := freelist s'\<rparr> \<and>
    (\<forall>v. pte_val (mem s') d v = pte_val (mem s) d v) \<and> tables (mem s') d = tables (mem s) d \<and>
    (\<forall>i<1024. pde_present (mem s') d i = pde_present (mem s) d i) \<and> (\<forall>q. q \<noteq> f \<longrightarrow> same_page (mem s') (mem s) q)"
proof -
  note wf = uvm_wfD [OF assms(1)]
  note pw = pt_wfD [OF wf(1)]
  have f: "kpage s f" "f \<notin> insert d (tables (mem s) d \<union> set xs)" using wf(2,3) [OF assms(2,3)] by (simp_all add: f_def)
  obtain s' where s': "kfree s f = Ok s'" "kinv s' (f # xs)" "\<forall>q. q \<noteq> f \<longrightarrow> same_page (mem s') (mem s) q"
    "kend s' = kend s" "s' = s\<lparr>mem := mem s', freelist := f\<rparr>"
    using kfree_ok [OF pw(1) f(1)] f(2) by auto
  have sd: "same_page (mem s') (mem s) d" using s'(3) f(2) by auto
  have pd: "pde_present (mem s') d i = pde_present (mem s) d i" "table_of (mem s') d i = table_of (mem s) d i" if "i < 1024" for i
    using pde_same_page [OF sd pw(4) that] by simp_all
  have kp: "kpage s' x = kpage s x" for x using s'(4) by (simp add: kpage_def)
  have "table_of (mem s) d i \<noteq> f" if "i < 1024" "pde_present (mem s) d i" for i using f(2) that by (auto simp: tables_def)
  then have "pt_wf s' d (f # xs)" by (intro pt_wfI [OF s'(2)]) (use pw pd kp f in auto)
  moreover have "\<forall>q\<in>insert d (tables (mem s) d). same_page (mem s') (mem s) q" using s'(3) f(2) by auto
  note F = pte_val_frame [OF wf(1) this]
  moreover have "s' = s\<lparr>mem := mem s', freelist := freelist s'\<rparr>" using s'(5) by (metis phys.simps phys.surjective phys.update_convs)
  ultimately show ?thesis using s'(1,3) pd(1) F by blast
qed

lemma present_pde: "present m d v \<Longrightarrow> pde_present m d (PDX v)"
  by (auto simp: present_def pte_val_def split: if_splits)

lemma evict_ok:
  assumes "uvm_wf s d xs" "va < KERNBASE" "page_aligned va" "present (mem s) d va"
  defines "f \<equiv> user_frame (mem s) d va"
  shows "\<exists>s1 s2 s3. kfree s f = Ok s1 \<and> clearPTE_FLAG s1 d va PTE_P = Ok s2 \<and> setPTE_FLAG s2 d va PTE_PG = Ok s3 \<and>
    uvm_wf s3 d (f # xs) \<and> \<not> present (mem s3) d va \<and> (\<forall>v. pde_present (mem s3) d (PDX v) = pde_present (mem s) d (PDX v)) \<and>
    (\<forall>v. PGROUNDDOWN v \<noteq> va \<longrightarrow> pte_val (mem s3) d v = pte_val (mem s) d v) \<and>
    (\<forall>q. q \<notin> insert f (tables (mem s) d) \<longrightarrow> same_page (mem s3) (mem s) q) \<and> pte_val (mem s3) d va AND PTE_PG \<noteq> 0"
proof -
  note wf = uvm_wfD [OF assms(1)]
  have al: "PGROUNDDOWN va = va" using assms(3) by (simp add: page_aligned_iff)
  have pd: "pde_present (mem s) d (PDX va)" by (rule present_pde [OF assms(4)])
  obtain s1 where s1: "kfree s f = Ok s1" "pt_wf s1 d (f # xs)" "s1 = s\<lparr>mem := mem s1, freelist := freelist s1\<rparr>"
    "\<forall>v. pte_val (mem s1) d v = pte_val (mem s) d v" "tables (mem s1) d = tables (mem s) d"
    "\<forall>i<1024. pde_present (mem s1) d i = pde_present (mem s) d i" "\<forall>q. q \<noteq> f \<longrightarrow> same_page (mem s1) (mem s) q"
    using kfree_frame [OF assms(1,2,4)] unfolding f_def by blast
  have pd1: "pde_present (mem s1) d (PDX v) = pde_present (mem s) d (PDX v)" for v using s1(6) PDX_less by blast
  obtain s2 where s2: "clearPTE_FLAG s1 d va PTE_P = Ok s2" "pt_wf s2 d (f # xs)" "s2 = s1\<lparr>mem := mem s2\<rparr>" "tables (mem s2) d = tables (mem s1) d"
    "\<And>v. pte_val (mem s2) d v = (if PGROUNDDOWN v = va then pte_val (mem s1) d va AND NOT PTE_P else pte_val (mem s1) d v)"
    "\<And>v. pde_present (mem s2) d (PDX v) = pde_present (mem s1) d (PDX v)" "\<And>q. q \<notin> tables (mem s1) d \<Longrightarrow> same_page (mem s2) (mem s1) q"
    by (rule update_pte_ok [OF s1(2) pd1 [of va, THEN iffD2, OF pd], where f = "\<lambda>e. e AND NOT PTE_P" and msg = "''setPTE_PG''",
          folded clearPTE_FLAG_def, unfolded al]) blast
  have pd2: "pde_present (mem s2) d (PDX va)" using pd pd1 s2(6) by simp
  obtain s3 where s3: "setPTE_FLAG s2 d va PTE_PG = Ok s3" "pt_wf s3 d (f # xs)" "s3 = s2\<lparr>mem := mem s3\<rparr>" "tables (mem s3) d = tables (mem s2) d"
    "\<And>v. pte_val (mem s3) d v = (if PGROUNDDOWN v = va then pte_val (mem s2) d va OR PTE_PG else pte_val (mem s2) d v)"
    "\<And>v. pde_present (mem s3) d (PDX v) = pde_present (mem s2) d (PDX v)" "\<And>q. q \<notin> tables (mem s2) d \<Longrightarrow> same_page (mem s3) (mem s2) q"
    by (rule update_pte_ok [OF s2(2) pd2, where f = "\<lambda>e. e OR PTE_PG" and msg = "''setPTE_PG''", folded setPTE_FLAG_def, unfolded al]) blast
  have np: "\<not> present (mem s3) d v" if "PGROUNDDOWN v = va" for v
    using s3(5) [of v] s2(5) [of va] that al flag_bits by (simp add: present_def)
  have eq: "pte_val (mem s3) d v = pte_val (mem s) d v" if "PGROUNDDOWN v \<noteq> va" for v
    using s3(5) [of v] s2(5) [of v] s1(4) that by simp
  have oth: "present (mem s) d v \<and> user_frame (mem s3) d v = user_frame (mem s) d v \<and> PGROUNDDOWN v \<noteq> va" if "present (mem s3) d v" for v
    using eq np that unfolding present_def user_frame_def by metis
  have tb: "tables (mem s3) d = tables (mem s) d" using s3(4) s2(4) s1(5) by simp
  have "kend s3 = kend s" using arg_cong [OF s1(3), of kend] arg_cong [OF s2(3), of kend] arg_cong [OF s3(3), of kend] by simp
  then have kp: "kpage s3 = kpage s" by (rule kpage_cong)
  have "user_frame (mem s) d v \<noteq> f" if "v < KERNBASE" "present (mem s) d v" "PGROUNDDOWN v \<noteq> va" for v
    using wf(4) [OF that(1) assms(2) that(2) assms(4)] that(3) al by (auto simp: f_def)
  then have fr: "kpage s3 (user_frame (mem s3) d v) \<and> user_frame (mem s3) d v \<notin> insert d (tables (mem s3) d \<union> set (f # xs))"
    if "v < KERNBASE" "present (mem s3) d v" for v
    using oth [OF that(2)] wf(2,3) [OF that(1)] that(1) unfolding tb kp by auto
  have "PGROUNDDOWN v = PGROUNDDOWN v'" if "v < KERNBASE" "v' < KERNBASE" "present (mem s3) d v" "present (mem s3) d v'"
    "user_frame (mem s3) d v = user_frame (mem s3) d v'" for v v'
    using wf(4) [OF that(1,2)] oth [OF that(3)] oth [OF that(4)] that(5) by auto
  then have "uvm_wf s3 d (f # xs)" unfolding uvm_wf_def using s3(2) fr by blast
  moreover have "same_page (mem s3) (mem s) q" if "q \<notin> insert f (tables (mem s) d)" for q
    using that s1(5,7) s2(4,7) s3(7) same_page_trans by (metis insertI1 insertI2)
  moreover have "(pte_val (mem s2) d va OR PTE_PG) AND PTE_PG = PTE_PG" by (simp only: bit.conj_disj_distrib2 and.idem) (simp add: and.commute)
  then have "pte_val (mem s3) d va AND PTE_PG \<noteq> 0" using s3(5) [of va] al by simp
  ultimately show ?thesis using s1(1) s2(1) s3(1,6) s2(6) pd1 np [OF al] eq by blast
qed

lemma page_rest_nat:
  fixes v :: addr
  obtains i where "i < 4096" "v - PGROUNDDOWN v = of_nat i" "unat (v - PGROUNDDOWN v) = i" "v = PGROUNDDOWN v + of_nat i"
proof
  have l: "v - PGROUNDDOWN v < PGSIZE" using in_page_iff [OF page_aligned_PGROUNDDOWN, of v v] by simp
  then show "unat (v - PGROUNDDOWN v) < 4096" by (simp add: word_less_nat_alt)
qed simp_all

section \<open>The memory of a process\<close>

abbreviation pgd :: "kernel \<Rightarrow> nat \<Rightarrow> addr" where
  "pgd k p \<equiv> p_pgdir (procs k ! p)"

abbreviation meta :: "kernel \<Rightarrow> nat \<Rightarrow> p_meta" where
  "meta k p \<equiv> paging_meta (procs k ! p)"

text \<open>The byte at a user address: in memory when the page is present, else in the slot of the page in the swap file.\<close>

definition vbyte :: "kernel \<Rightarrow> nat \<Rightarrow> addr \<Rightarrow> byte option" where
  "vbyte k p v =
     (if present (mem (kphys k)) (pgd k p) v then Some (ubyte (mem (kphys k)) (pgd k p) v)
      else case first_idx (\<lambda>q. backed q \<and> vaddr q = PGROUNDDOWN v) (pages (meta k p)) of
        None \<Rightarrow> None
      | Some i \<Rightarrow> Some (swap_bytes p k ! (unat (offset (pages (meta k p) ! i)) + unat (v - PGROUNDDOWN v))))"

text \<open>The invariant of the pager for process \<open>p\<close> with free pages \<open>xs\<close> and room for \<open>n\<close> page writes on the disk.\<close>

definition paged :: "nat \<Rightarrow> nat \<Rightarrow> addr list \<Rightarrow> kernel \<Rightarrow> bool" where
  "paged p n xs k \<longleftrightarrow> p < length (procs k) \<and> P2V (cr3 k) = pgd k p \<and> uvm_wf (kphys k) (pgd k p) xs \<and> meta_wf (meta k p) \<and>
     swap_ok p n k \<and> length (swap_bytes p k) \<le> MAXFILE * BSIZE \<and>
     (\<forall>i<32. exists (pages (meta k p) ! i) \<longrightarrow>
        page_aligned (vaddr (pages (meta k p) ! i)) \<and> vaddr (pages (meta k p) ! i) < KERNBASE \<and>
        pde_present (mem (kphys k)) (pgd k p) (PDX (vaddr (pages (meta k p) ! i))) \<and>
        present (mem (kphys k)) (pgd k p) (vaddr (pages (meta k p) ! i)) = (\<not> in_back (pages (meta k p) ! i))) \<and>
     (\<forall>i<32. backed (pages (meta k p) ! i) \<longrightarrow> unat (offset (pages (meta k p) ! i)) + 4096 \<le> length (swap_bytes p k))"

lemma pagedD:
  assumes "paged p n xs k"
  shows "p < length (procs k)" "P2V (cr3 k) = pgd k p" "uvm_wf (kphys k) (pgd k p) xs" "meta_wf (meta k p)" "swap_ok p n k"
    "length (swap_bytes p k) \<le> MAXFILE * BSIZE"
    "\<And>i. i < 32 \<Longrightarrow> exists (pages (meta k p) ! i) \<Longrightarrow> page_aligned (vaddr (pages (meta k p) ! i))"
    "\<And>i. i < 32 \<Longrightarrow> exists (pages (meta k p) ! i) \<Longrightarrow> vaddr (pages (meta k p) ! i) < KERNBASE"
    "\<And>i. i < 32 \<Longrightarrow> exists (pages (meta k p) ! i) \<Longrightarrow> pde_present (mem (kphys k)) (pgd k p) (PDX (vaddr (pages (meta k p) ! i)))"
    "\<And>i. i < 32 \<Longrightarrow> exists (pages (meta k p) ! i) \<Longrightarrow> present (mem (kphys k)) (pgd k p) (vaddr (pages (meta k p) ! i)) = (\<not> in_back (pages (meta k p) ! i))"
    "\<And>i. i < 32 \<Longrightarrow> backed (pages (meta k p) ! i) \<Longrightarrow> unat (offset (pages (meta k p) ! i)) + 4096 \<le> length (swap_bytes p k)"
  using assms unfolding paged_def by blast+

lemma vbyte_backed:
  assumes "meta_wf (meta k p)" "\<not> present (mem (kphys k)) (pgd k p) v" "i < 32" "backed (pages (meta k p) ! i)" "vaddr (pages (meta k p) ! i) = PGROUNDDOWN v"
  shows "vbyte k p v = Some (swap_bytes p k ! (unat (offset (pages (meta k p) ! i)) + unat (v - PGROUNDDOWN v)))"
proof -
  note wf = meta_wfD [OF assms(1)]
  have "\<not> (backed (pages (meta k p) ! j) \<and> vaddr (pages (meta k p) ! j) = PGROUNDDOWN v)" if "j < i" for j
    using wf(5) [of j i] assms(3-5) that by (auto simp: backed_def)
  then have "first_idx (\<lambda>q. backed q \<and> vaddr q = PGROUNDDOWN v) (pages (meta k p)) = Some i"
    using assms(3-5) wf(1) by (simp add: first_idx_Some_iff)
  then show ?thesis using assms(2) by (simp add: vbyte_def)
qed

lemma vbyte_none:
  assumes "meta_wf (meta k p)" "\<not> present (mem (kphys k)) (pgd k p) v"
    "\<And>i. i < 32 \<Longrightarrow> backed (pages (meta k p) ! i) \<Longrightarrow> vaddr (pages (meta k p) ! i) \<noteq> PGROUNDDOWN v"
  shows "vbyte k p v = None"
proof -
  have "first_idx (\<lambda>q. backed q \<and> vaddr q = PGROUNDDOWN v) (pages (meta k p)) = None"
    using assms(3) meta_wfD(1) [OF assms(1)] by (auto simp: first_idx_None in_set_conv_nth)
  then show ?thesis using assms(2) by (simp add: vbyte_def)
qed

lemma vbyte_absent:
  assumes "meta_wf (meta k p)" "meta_wf (meta k' p)" "\<not> present (mem (kphys k)) (pgd k p) v" "\<not> present (mem (kphys k')) (pgd k' p) v"
    "\<And>l. l < 32 \<Longrightarrow> backed (pages (meta k' p) ! l) \<and> vaddr (pages (meta k' p) ! l) = PGROUNDDOWN v \<longleftrightarrow>
       backed (pages (meta k p) ! l) \<and> vaddr (pages (meta k p) ! l) = PGROUNDDOWN v"
    "\<And>l. l < 32 \<Longrightarrow> backed (pages (meta k p) ! l) \<Longrightarrow> vaddr (pages (meta k p) ! l) = PGROUNDDOWN v \<Longrightarrow>
       offset (pages (meta k' p) ! l) = offset (pages (meta k p) ! l) \<and>
       (\<forall>i<4096. swap_bytes p k' ! (unat (offset (pages (meta k p) ! l)) + i) = swap_bytes p k ! (unat (offset (pages (meta k p) ! l)) + i))"
  shows "vbyte k' p v = vbyte k p v"
proof (cases "\<exists>l<32. backed (pages (meta k p) ! l) \<and> vaddr (pages (meta k p) ! l) = PGROUNDDOWN v")
  case True
  then obtain l where l: "l < 32" "backed (pages (meta k p) ! l)" "vaddr (pages (meta k p) ! l) = PGROUNDDOWN v" by blast
  obtain i where "i < 4096" "unat (v - PGROUNDDOWN v) = i" by (rule page_rest_nat [of v])
  then show ?thesis
    using vbyte_backed [OF assms(1,3) l] vbyte_backed [OF assms(2,4) l(1)] assms(5) [OF l(1)] assms(6) [OF l] l by simp
next
  case False
  then show ?thesis using vbyte_none [OF assms(1,3)] vbyte_none [OF assms(2,4)] assms(5) by metis
qed

lemma ubyte_same:
  assumes "pte_val m' d v = pte_val m d v" "same_page m' m (user_frame m d v)" "page_aligned (user_frame m d v)"
  shows "ubyte m' d v = ubyte m d v"
proof -
  obtain i where i: "i < 4096" "v - PGROUNDDOWN v = of_nat i" by (rule page_rest_nat [of v])
  show ?thesis using assms(1,2) page_offset [OF i(1) assms(3)] by (simp add: ubyte_def user_frame_def same_page_def i(2))
qed

section \<open>Moving a page out\<close>

lemma free_slot_ok:
  assumes "paged p n xs k" "numOfPagedOut (meta k p) \<le> MAX_PSYC_PAGES"
  obtains j where "getFreePageOffset (meta k p) = 4096 * of_nat j" "j < 17" "\<not> offsets (meta k p) ! j" "4096 * j \<le> length (swap_bytes p k)"
proof -
  note P = pagedD [OF assms(1)]
  note wf = meta_wfD [OF P(4)]
  obtain j where j: "getFreePageOffset (meta k p) = PGSIZE * of_nat j" "j < 32" "\<not> offsets (meta k p) ! j" "j \<le> numOfPagedOut (meta k p)"
    using getFreePageOffset_ok [OF P(4)] assms(2) by auto
  have "4096 * j \<le> length (swap_bytes p k)"
  proof (cases j)
    case (Suc l)
    obtain j' where f: "first_idx Not (offsets (meta k p)) = Some j'"
      using j(3) wf(2) j(2) first_idx_None [of Not "offsets (meta k p)"] by (metis nth_mem not_Some_eq)
    then have "j' < 32" using first_idx_SomeD [OF f] wf(2) by simp
    then have "j' = j" using f j(1,2) of_nat_slot_inj [of j' j] by (simp add: getFreePageOffset_def)
    then have "offsets (meta k p) ! l" using first_idx_SomeD [OF f] Suc by auto
    then obtain i where i: "i < 32" "backed (pages (meta k p) ! i)" "offset (pages (meta k p) ! i) = PGSIZE * of_nat l"
      using slots_okD(3) [OF wf(4), of l] Suc j(2) by auto
    have "unat (PGSIZE * of_nat l :: u32) = 4096 * l" using Suc j(2) by (simp add: unat_word_ariths unat_of_nat)
    then show ?thesis using P(11) [OF i(1,2)] i(3) Suc by simp
  qed simp
  with j assms(2) that show ?thesis by auto
qed

lemma addPageToBack_ok:
  assumes "paged p (Suc n) xs k" "va \<in> ram_vaddrs (meta k p)" "numOfPagedOut (meta k p) \<le> MAX_PSYC_PAGES"
    "distinct (map vaddr (queue_list (pq (meta k p))))" "vaddr ` set (queue_list (pq (meta k p))) = ram_vaddrs (meta k p) - {va}"
  shows "\<exists>k' m' i j. addPageToBack k p va = Ok (1, k') \<and> kphys k' = kphys k \<and> cr3 k' = cr3 k \<and> procs k' = (procs k)[p := (procs k ! p)\<lparr>paging_meta := m'\<rparr>] \<and>
    swap_ok p n k' \<and> meta_wf m' \<and> queue_agrees m' \<and> ram_vaddrs m' = ram_vaddrs (meta k p) - {va} \<and>
    i < 32 \<and> in_ram (pages (meta k p) ! i) \<and> vaddr (pages (meta k p) ! i) = va \<and> j < 17 \<and> \<not> offsets (meta k p) ! j \<and>
    pages m' = (pages (meta k p))[i := (pages (meta k p) ! i)\<lparr>in_back := True, offset := 4096 * of_nat j\<rparr>] \<and>
    length (swap_bytes p k') = max (length (swap_bytes p k)) (4096 * j + 4096) \<and>
    (\<forall>l. l \<noteq> j \<longrightarrow> 4096 * l + 4096 \<le> length (swap_bytes p k) \<longrightarrow> swap_store.slot_at p k' l = swap_store.slot_at p k l) \<and>
    swap_store.slot_at p k' j = map (\<lambda>i. mem (kphys k) (user_frame (mem (kphys k)) (pgd k p) va + of_nat i)) [0..<4096]"
proof -
  note P = pagedD [OF assms(1)]
  obtain j where j: "getFreePageOffset (meta k p) = 4096 * of_nat j" "j < 17" "\<not> offsets (meta k p) ! j" "4096 * j \<le> length (swap_bytes p k)"
    by (rule free_slot_ok [OF assms(1,3)])
  obtain i where i: "i < 32" "in_ram (pages (meta k p) ! i)" "vaddr (pages (meta k p) ! i) = va"
    using assms(2) by (auto simp: ram_vaddrs_def)
  have va: "page_aligned va" "present (mem (kphys k)) (pgd k p) va" using P(7,10) [OF i(1)] i(2,3) by (auto simp: in_ram_def)
  let ?bs = "map (\<lambda>i. mem (kphys k) (user_frame (mem (kphys k)) (pgd k p) va + of_nat i)) [0..<4096]"
  have rd: "uread k va 4096 = Ok ?bs" using uread_page [OF va(1)] va(2) P(2) by simp
  have len: "length ?bs = 4096" by (simp only: length_map length_upt)
  obtain k1 where k1: "writeToSwapFile k p ?bs (4096 * of_nat j) = Ok (4096, k1)" "swap_ok p n k1" "same_kernel k k1" "swap_store.slot_at p k1 j = ?bs"
    "length (swap_bytes p k1) = max (length (swap_bytes p k)) (4096 * j + 4096)"
    "\<forall>l. l \<noteq> j \<longrightarrow> 4096 * l + 4096 \<le> length (swap_bytes p k) \<longrightarrow> swap_store.slot_at p k1 l = swap_store.slot_at p k l"
    using swap_store.put_slot [OF P(5) len j(4,2)] by blast
  obtain m' i' where m': "page_out_meta (meta k p) va (PGSIZE * of_nat j) = Ok (1, m')" "meta_wf m'" "queue_agrees m'"
    "ram_vaddrs m' = ram_vaddrs (meta k p) - {va}" "i' < 32" "in_ram (pages (meta k p) ! i')" "vaddr (pages (meta k p) ! i') = va"
    "pages m' = (pages (meta k p))[i' := (pages (meta k p) ! i')\<lparr>in_back := True, offset := PGSIZE * of_nat j\<rparr>]"
    using page_out_meta_inv [OF P(4) assms(2) _ j(3) assms(4,5)] j(2) by auto
  let ?k2 = "upd_proc k1 p (\<lambda>q. q\<lparr>paging_meta := m'\<rparr>)"
  have pr: "procs k1 = procs k" "kphys k1 = kphys k" "cr3 k1 = cr3 k" using k1(3) by (simp_all add: same_kernel_def)
  have pa: "PTE_ADDR va = va" using va(1) by (simp add: PTE_ADDR_eq_PGROUNDDOWN page_aligned_iff)
  have "unat (4096 * of_nat j :: u32) = 4096 * j" using j(2) by (rule swap_store.slot_pos)
  then have nf: "(4096 * of_nat j :: u32) = 1310720 \<longleftrightarrow> False" using j(2) by (auto simp: word_unat_eq_iff)
  have "addPageToBack k p va = Ok (1, ?k2)"
    by (simp only: addPageToBack_def Let_def j(1) nf if_False pa rd andThen.simps k1(1) prod.case meta_do_def pr m'(1))
  moreover have "swap_ok p n ?k2" "swap_bytes p ?k2 = swap_bytes p k1"
    using swap_proc [of "\<lambda>q. q\<lparr>paging_meta := m'\<rparr>"] k1(2) P(1) pr(1) by simp_all
  moreover have "swap_store.slot_at p ?k2 l = swap_store.slot_at p k1 l" for l unfolding swap_store.slot_at_def calculation(3) by (rule refl)
  ultimately show ?thesis using pr k1(4-6) m'(2-8) j(2,3)
    by (intro exI [of _ ?k2] exI [of _ m'] exI [of _ i'] exI [of _ j]) (simp add: upd_proc_def)
qed

text \<open>The address space after an eviction.\<close>

lemma P2V_V2P [simp]: "P2V (V2P a) = a"
  by (simp add: P2V_def V2P_def)

lemma slot_nth:
  assumes "4096 * j + 4096 \<le> length (swap_bytes p k)" "i < 4096"
  shows "swap_store.slot_at p k j ! i = swap_bytes p k ! (4096 * j + i)"
  using assms by (simp add: swap_store.slot_at_def)

text \<open>What an eviction of the page \<open>va\<close> (entry \<open>i\<close>) to slot \<open>j\<close> leaves.\<close>

definition moved_out :: "nat \<Rightarrow> addr \<Rightarrow> nat \<Rightarrow> nat \<Rightarrow> kernel \<Rightarrow> kernel \<Rightarrow> bool" where
  "moved_out p va i j k k' \<longleftrightarrow>
     pgd k' p = pgd k p \<and> meta_wf (meta k' p) \<and> i < 32 \<and> in_ram (pages (meta k p) ! i) \<and> vaddr (pages (meta k p) ! i) = va \<and>
     pages (meta k' p) = (pages (meta k p))[i := (pages (meta k p) ! i)\<lparr>in_back := True, offset := 4096 * of_nat j\<rparr>] \<and>
     j < 17 \<and> \<not> offsets (meta k p) ! j \<and> length (swap_bytes p k') = max (length (swap_bytes p k)) (4096 * j + 4096) \<and>
     (\<forall>l. l \<noteq> j \<longrightarrow> 4096 * l + 4096 \<le> length (swap_bytes p k) \<longrightarrow> swap_store.slot_at p k' l = swap_store.slot_at p k l) \<and>
     swap_store.slot_at p k' j = map (\<lambda>i. mem (kphys k) (user_frame (mem (kphys k)) (pgd k p) va + of_nat i)) [0..<4096] \<and>
     \<not> present (mem (kphys k')) (pgd k p) va \<and> (\<forall>v. pde_present (mem (kphys k')) (pgd k p) (PDX v) = pde_present (mem (kphys k)) (pgd k p) (PDX v)) \<and>
     (\<forall>v. PGROUNDDOWN v \<noteq> va \<longrightarrow> pte_val (mem (kphys k')) (pgd k p) v = pte_val (mem (kphys k)) (pgd k p) v) \<and>
     (\<forall>q. q \<notin> insert (user_frame (mem (kphys k)) (pgd k p) va) (tables (mem (kphys k)) (pgd k p)) \<longrightarrow>
        same_page (mem (kphys k')) (mem (kphys k)) q)"

lemma moved_outD:
  assumes "moved_out p va i j k k'"
  shows "pgd k' p = pgd k p" "meta_wf (meta k' p)" "i < 32" "in_ram (pages (meta k p) ! i)" "vaddr (pages (meta k p) ! i) = va"
    "pages (meta k' p) = (pages (meta k p))[i := (pages (meta k p) ! i)\<lparr>in_back := True, offset := 4096 * of_nat j\<rparr>]"
    "j < 17" "\<not> offsets (meta k p) ! j" "length (swap_bytes p k') = max (length (swap_bytes p k)) (4096 * j + 4096)"
    "\<And>l. l \<noteq> j \<Longrightarrow> 4096 * l + 4096 \<le> length (swap_bytes p k) \<Longrightarrow> swap_store.slot_at p k' l = swap_store.slot_at p k l"
    "swap_store.slot_at p k' j = map (\<lambda>i. mem (kphys k) (user_frame (mem (kphys k)) (pgd k p) va + of_nat i)) [0..<4096]"
    "\<not> present (mem (kphys k')) (pgd k p) va" "\<And>v. pde_present (mem (kphys k')) (pgd k p) (PDX v) = pde_present (mem (kphys k)) (pgd k p) (PDX v)"
    "\<And>v. PGROUNDDOWN v \<noteq> va \<Longrightarrow> pte_val (mem (kphys k')) (pgd k p) v = pte_val (mem (kphys k)) (pgd k p) v"
    "\<And>q. q \<notin> insert (user_frame (mem (kphys k)) (pgd k p) va) (tables (mem (kphys k)) (pgd k p)) \<Longrightarrow> same_page (mem (kphys k')) (mem (kphys k)) q"
  using assms unfolding moved_out_def by blast+

lemma pageOut_moves:
  assumes "paged p (Suc n) xs k" "va \<in> ram_vaddrs (meta k p)" "numOfPagedOut (meta k p) \<le> MAX_PSYC_PAGES"
    "distinct (map vaddr (queue_list (pq (meta k p))))" "vaddr ` set (queue_list (pq (meta k p))) = ram_vaddrs (meta k p) - {va}"
  shows "\<exists>k' i j. pageOut k p va = Ok (1, k') \<and> moved_out p va i j k k' \<and> queue_agrees (meta k' p) \<and>
    ram_vaddrs (meta k' p) = ram_vaddrs (meta k p) - {va} \<and> uvm_wf (kphys k') (pgd k p) (user_frame (mem (kphys k)) (pgd k p) va # xs) \<and>
    P2V (cr3 k') = pgd k p \<and> p < length (procs k') \<and> swap_ok p n k' \<and> pte_val (mem (kphys k')) (pgd k p) va AND PTE_PG \<noteq> 0"
proof -
  note P = pagedD [OF assms(1)]
  let ?d = "pgd k p" and ?M = "meta k p" and ?s = "kphys k"
  let ?f = "user_frame (mem ?s) ?d va"
  obtain k1 m' i j where k1: "addPageToBack k p va = Ok (1, k1)" "kphys k1 = ?s" "cr3 k1 = cr3 k" "procs k1 = (procs k)[p := (procs k ! p)\<lparr>paging_meta := m'\<rparr>]"
    "swap_ok p n k1" and m': "meta_wf m'" "queue_agrees m'" "ram_vaddrs m' = ram_vaddrs ?M - {va}"
    "pages m' = (pages ?M)[i := (pages ?M ! i)\<lparr>in_back := True, offset := 4096 * of_nat j\<rparr>]"
    and i: "i < 32" "in_ram (pages ?M ! i)" "vaddr (pages ?M ! i) = va" and j: "j < 17" "\<not> offsets ?M ! j"
    and B: "length (swap_bytes p k1) = max (length (swap_bytes p k)) (4096 * j + 4096)"
    "\<forall>l. l \<noteq> j \<longrightarrow> 4096 * l + 4096 \<le> length (swap_bytes p k) \<longrightarrow> swap_store.slot_at p k1 l = swap_store.slot_at p k l"
    "swap_store.slot_at p k1 j = map (\<lambda>i. mem ?s (?f + of_nat i)) [0..<4096]"
    using addPageToBack_ok [OF assms] by metis
  have va: "page_aligned va" "va < KERNBASE" "present (mem ?s) ?d va"
    using P(7,8,10) [OF i(1)] i(2,3) by (auto simp: in_ram_def)
  obtain s1 s2 s3 where s: "kfree ?s ?f = Ok s1" "clearPTE_FLAG s1 ?d va PTE_P = Ok s2" "setPTE_FLAG s2 ?d va PTE_PG = Ok s3"
    "uvm_wf s3 ?d (?f # xs)" "\<not> present (mem s3) ?d va" "\<forall>v. pde_present (mem s3) ?d (PDX v) = pde_present (mem ?s) ?d (PDX v)"
    "\<forall>v. PGROUNDDOWN v \<noteq> va \<longrightarrow> pte_val (mem s3) ?d v = pte_val (mem ?s) ?d v"
    "\<forall>q. q \<notin> insert ?f (tables (mem ?s) ?d) \<longrightarrow> same_page (mem s3) (mem ?s) q" "pte_val (mem s3) ?d va AND PTE_PG \<noteq> 0"
    using evict_ok [OF P(3) va(2,1,3)] by blast
  define k2 where "k2 = upd_proc (k1\<lparr>kphys := s3, cr3 := V2P ?d\<rparr>) p (\<lambda>q. q\<lparr>num_pageouts := num_pageouts q + 1\<rparr>)"
  have "pte_of k1 p va = Ok (pte_val (mem ?s) ?d va)"
    using read_pte_eq [OF uvm_wfD(1) [OF P(3)], of va] present_pde [OF va(3)] k1(2,4) P(1) by (simp add: pte_of_def)
  then have out: "pageOut k p va = Ok (1, k2)"
    using k1(1,2,4) s(1-3) P(1) by (simp add: pageOut_def phys_do_def user_frame_def k2_def)
  have p1: "p < length (procs k1)" using k1(4) P(1) by simp
  have F: "kphys k2 = s3" "P2V (cr3 k2) = ?d" "pgd k2 p = ?d" "meta k2 p = m'" "p < length (procs k2)" "swap_ok p n k2" "swap_bytes p k2 = swap_bytes p k1"
    using k1(4,5) P(1) p1 swap_proc [of "\<lambda>q. q\<lparr>num_pageouts := num_pageouts q + 1\<rparr>" p "k1\<lparr>kphys := s3, cr3 := V2P ?d\<rparr>"]
    by (simp_all add: k2_def) (simp_all add: upd_proc_def)
  have sl: "swap_store.slot_at p k2 l = swap_store.slot_at p k1 l" for l unfolding swap_store.slot_at_def F(7) by (rule refl)
  have "moved_out p va i j k k2"
    unfolding moved_out_def F sl using m'(1,4) i j B s(5-8) by blast
  then show ?thesis using out m'(2,3) F s(4,9) by auto
qed

lemma moved_out_paged:
  assumes "paged p (Suc n) xs k" "moved_out p va i j k k'" "uvm_wf (kphys k') (pgd k p) ys" "P2V (cr3 k') = pgd k p" "p < length (procs k')" "swap_ok p n k'"
  shows "paged p n ys k'"
proof -
  note P = pagedD [OF assms(1)] and O = moved_outD [OF assms(2)]
  note wf = meta_wfD [OF P(4)]
  let ?d = "pgd k p" and ?M = "meta k p" and ?M' = "meta k' p"
  have uj: "unat (4096 * of_nat j :: u32) = 4096 * j" by (rule swap_store.slot_pos [OF O(7)])
  have pl: "pages ?M' ! l = pages ?M ! l" if "l \<noteq> i" for l using O(6) that by simp
  have pi: "pages ?M' ! i = (pages ?M ! i)\<lparr>in_back := True, offset := 4096 * of_nat j\<rparr>" using O(3,6) wf(1) by simp
  have "page_aligned (vaddr (pages ?M' ! l)) \<and> vaddr (pages ?M' ! l) < KERNBASE \<and> pde_present (mem (kphys k')) ?d (PDX (vaddr (pages ?M' ! l))) \<and>
      present (mem (kphys k')) ?d (vaddr (pages ?M' ! l)) = (\<not> in_back (pages ?M' ! l))" if "l < 32" "exists (pages ?M' ! l)" for l
  proof (cases "l = i")
    case True
    then show ?thesis using P(7-9) [OF O(3)] O(4,5,12,13) pi by (simp add: in_ram_def)
  next
    case False
    then have e: "exists (pages ?M ! l)" using that pl by simp
    note E = P(7-10) [OF that(1) e]
    have "vaddr (pages ?M ! l) \<noteq> va" using wf(5) [OF that(1) O(3) e] O(4,5) False by (auto simp: in_ram_def)
    then have "PGROUNDDOWN (vaddr (pages ?M ! l)) \<noteq> va" using E(1) by (simp add: page_aligned_iff)
    then show ?thesis using E O(13,14) pl [OF False] by (simp add: present_def)
  qed
  moreover have "unat (offset (pages ?M' ! l)) + 4096 \<le> length (swap_bytes p k')" if "l < 32" "backed (pages ?M' ! l)" for l
    using P(11) [OF that(1)] that pl [of l] pi uj O(9) by (cases "l = i") auto
  ultimately show ?thesis unfolding paged_def O(1) using assms(3-6) O(2,7,9) P(6) by auto
qed

text \<open>The bytes of the user pages are as before: those of the evicted page are now in its slot.\<close>

lemma moved_out_page:
  assumes "paged p (Suc n) xs k" "moved_out p va i j k k'" "PGROUNDDOWN v = va"
  shows "vbyte k' p v = vbyte k p v"
proof -
  note P = pagedD [OF assms(1)] and O = moved_outD [OF assms(2)]
  let ?d = "pgd k p" and ?M = "meta k p" and ?s = "kphys k"
  let ?f = "user_frame (mem ?s) ?d va"
  have pi: "pages (meta k' p) ! i = (pages ?M ! i)\<lparr>in_back := True, offset := 4096 * of_nat j\<rparr>" using O(3,6) meta_wfD(1) [OF P(4)] by simp
  have va: "page_aligned va" "present (mem ?s) ?d va" using P(7,10) [OF O(3)] O(4,5) by (auto simp: in_ram_def)
  obtain o' where o': "o' < 4096" "v - PGROUNDDOWN v = of_nat o'" "unat (v - PGROUNDDOWN v) = o'" by (rule page_rest_nat [of v])
  have fr: "present (mem ?s) ?d v" "user_frame (mem ?s) ?d v = ?f" "\<not> present (mem (kphys k')) ?d v"
    using present_page [of v va] user_frame_page [of v va] assms(3) va O(12) by (simp_all add: page_aligned_iff)
  have "unat (4096 * of_nat j :: u32) = 4096 * j" by (rule swap_store.slot_pos [OF O(7)])
  then have "vbyte k' p v = Some (swap_bytes p k' ! (4096 * j + o'))"
    using vbyte_backed [of k' p v i] O(1-5) fr(3) assms(3) pi o'(3) by (simp add: backed_def in_ram_def)
  also have "swap_bytes p k' ! (4096 * j + o') = swap_store.slot_at p k' j ! o'" using slot_nth [of j p k' o'] O(9) o'(1) by simp
  also have "\<dots> = mem ?s (?f + of_nat o')" unfolding O(11) using o'(1) by (simp only: nth_map length_upt) simp
  finally show ?thesis using fr o'(2) by (simp add: vbyte_def ubyte_def)
qed

lemma moved_out_other:
  assumes "paged p (Suc n) xs k" "moved_out p va i j k k'" "PGROUNDDOWN v \<noteq> va" "\<not> present (mem (kphys k)) (pgd k p) v"
  shows "vbyte k' p v = vbyte k p v"
proof (rule vbyte_absent)
  note P = pagedD [OF assms(1)] and O = moved_outD [OF assms(2)]
  note wf = meta_wfD [OF P(4)]
  let ?M = "meta k p"
  have pl: "pages (meta k' p) ! l = pages ?M ! l" if "l \<noteq> i" for l using O(6) that by simp
  show "meta_wf ?M" "meta_wf (meta k' p)" "\<not> present (mem (kphys k)) (pgd k p) v" "\<not> present (mem (kphys k')) (pgd k' p) v"
    using P(4) O(1,2,14) assms(3,4) by (simp_all add: present_def)
  fix l :: nat assume l: "l < 32"
  show "backed (pages (meta k' p) ! l) \<and> vaddr (pages (meta k' p) ! l) = PGROUNDDOWN v \<longleftrightarrow>
      backed (pages ?M ! l) \<and> vaddr (pages ?M ! l) = PGROUNDDOWN v"
    using assms(3) pl [of l] O(5,6) l wf(1) by (cases "l = i") auto
  assume b: "backed (pages ?M ! l)" "vaddr (pages ?M ! l) = PGROUNDDOWN v"
  obtain q where q: "q < 32" "offset (pages ?M ! l) = PGSIZE * of_nat q" "offsets ?M ! q" using slots_okD(1) [OF wf(4) l b(1)] by blast
  have "l \<noteq> i" using b(2) O(5) assms(3) by auto
  have "unat (PGSIZE * of_nat q :: u32) = 4096 * q" using q(1) by (simp add: unat_word_ariths unat_of_nat)
  moreover have "q \<noteq> j" "4096 * q + 4096 \<le> length (swap_bytes p k)" using q O(8) P(11) [OF l b(1)] calculation by auto
  moreover have "swap_bytes p k' ! (4096 * q + o') = swap_bytes p k ! (4096 * q + o')" if "o' < 4096" for o'
    using slot_nth [of q p k o'] slot_nth [of q p k' o'] O(9,10) calculation(2,3) that by simp
  ultimately show "offset (pages (meta k' p) ! l) = offset (pages ?M ! l) \<and>
    (\<forall>i<4096. swap_bytes p k' ! (unat (offset (pages ?M ! l)) + i) = swap_bytes p k ! (unat (offset (pages ?M ! l)) + i))"
    using pl [OF \<open>l \<noteq> i\<close>] q(2) by simp
qed

lemma moved_out_resident:
  assumes "paged p (Suc n) xs k" "moved_out p va i j k k'" "PGROUNDDOWN v \<noteq> va" "present (mem (kphys k)) (pgd k p) v" "v < KERNBASE"
  shows "vbyte k' p v = vbyte k p v"
proof -
  note P = pagedD [OF assms(1)] and O = moved_outD [OF assms(2)]
  let ?d = "pgd k p" and ?s = "kphys k"
  have va: "page_aligned va" "va < KERNBASE" "present (mem ?s) ?d va" using P(7,8,10) [OF O(3)] O(4,5) by (auto simp: in_ram_def)
  have w: "kpage ?s (user_frame (mem ?s) ?d v)" "user_frame (mem ?s) ?d v \<notin> insert (user_frame (mem ?s) ?d va) (tables (mem ?s) ?d)"
    using uvm_wfD(2,3) [OF P(3) assms(5,4)] uvm_wfD(4) [OF P(3) assms(5) va(2) assms(4) va(3)] assms(3) va(1) by (auto simp: page_aligned_iff)
  then have "ubyte (mem (kphys k')) ?d v = ubyte (mem ?s) ?d v" using O(14,15) assms(3) by (intro ubyte_same) (auto simp: kpage_def)
  then show ?thesis using O(1,14) assms(3,4) by (simp add: vbyte_def present_def)
qed

section \<open>Bringing a page back\<close>

lemma PTE_ADDR_flags:
  assumes "w < PGSIZE"
  shows "PTE_ADDR (e OR w) = PTE_ADDR e" "PTE_ADDR (e AND NOT w) = PTE_ADDR e"
proof -
  have "\<not> bit w n" if "12 \<le> n" for n using bit_small [of w 12 n] assms that by (simp add: word_less_nat_alt)
  then show "PTE_ADDR (e OR w) = PTE_ADDR e" "PTE_ADDR (e AND NOT w) = PTE_ADDR e"
    by (auto intro!: bit_word_eqI simp: bit_PTE_ADDR bit_simps)
qed

text \<open>The entry for a new frame.\<close>

lemma map_page_ok:
  assumes "uvm_wf s d (x # ys)" "kalloc s = (x, s0)" "page_aligned va" "va < KERNBASE" "pde_present (mem s) d (PDX va)" "\<not> present (mem s) d va"
  shows "\<exists>s1. mappages s0 d va PGSIZE (V2P x) (PTE_U OR PTE_W) = Ok (0, s1) \<and> uvm_wf s1 d ys \<and> present (mem s1) d va \<and> user_frame (mem s1) d va = x \<and>
    (\<forall>v. PGROUNDDOWN v \<noteq> va \<longrightarrow> pte_val (mem s1) d v = pte_val (mem s) d v) \<and>
    (\<forall>v. pde_present (mem s1) d (PDX v) = pde_present (mem s) d (PDX v)) \<and>
    tables (mem s1) d = tables (mem s) d \<and> (\<forall>q. q \<notin> tables (mem s) d \<longrightarrow> same_page (mem s1) (mem s) q)"
proof -
  note wf = uvm_wfD [OF assms(1)]
  note pw = pt_wfD [OF wf(1)]
  have al: "PGROUNDDOWN va = va" "PGROUNDDOWN (4095 + va) = va"
    using assms(3) page_offset [of 4095 va] by (simp_all add: page_aligned_iff add.commute)
  have k0: "kinv s0 ys" "mem s0 = mem s" "kend s0 = kend s" using kalloc_Cons [OF pw(1)] assms(2) by auto
  have x: "kpage s x" "x \<noteq> d" "x \<notin> set ys" using pw(1,3) by (auto simp: kinv_def)
  have xt: "x \<notin> tables (mem s) d" using pw(6) unfolding tables_def by fastforce
  have w0: "pt_wf s0 d ys" by (rule pt_wfI [OF k0(1)]) (use pw k0 in \<open>auto simp: kpage_def\<close>)
  let ?e = "V2P x OR (PTE_U OR PTE_W) OR PTE_P"
  let ?s1 = "s0\<lparr>mem := store32 (mem s0) (pte_ptr (mem s0) d va) ?e\<rparr>"
  have pd: "pde_present (mem s0) d (PDX va)" using assms(5) k0(2) by simp
  note S = set_pte [OF w0 pd, where w = ?e]
  have "load32 (mem s0) (pte_ptr (mem s0) d va) AND PTE_P = 0" using assms(6) pd k0(2) by (simp add: present_def pte_val_def)
  then have mp: "mappages s0 d va PGSIZE (V2P x) (PTE_U OR PTE_W) = Ok (0, ?s1)"
    using pte_ptr_nonzero [OF w0 pd] al
    by (simp add: mappages_def mappages_loop.simps walkpgdir_present [OF pd] Let_def)
  have "page_aligned (V2P x)" by (rule page_aligned_V2P [OF x(1)])
  then have "PTE_ADDR ?e = V2P x" using PTE_ADDR_flags(1) [of _ "V2P x"] by (simp add: or.assoc PTE_ADDR_eq_PGROUNDDOWN page_aligned_iff)
  then have fx: "user_frame (mem ?s1) d v = x \<and> present (mem ?s1) d v" if "PGROUNDDOWN v = va" for v
    using S(2) [of v] that al by (simp add: user_frame_def present_def bit.conj_disj_distrib2)
  have eq: "pte_val (mem ?s1) d v = pte_val (mem s) d v" if "PGROUNDDOWN v \<noteq> va" for v using S(2) [of v] that al k0(2) by simp
  have kp: "kpage ?s1 = kpage s" using k0(3) by (intro kpage_cong) simp
  have tb: "tables (mem ?s1) d = tables (mem s) d" using S(4) k0(2) by simp
  have fr: "kpage ?s1 (user_frame (mem ?s1) d v) \<and> user_frame (mem ?s1) d v \<notin> insert d (tables (mem ?s1) d \<union> set ys)"
    and fn: "PGROUNDDOWN v \<noteq> va \<longrightarrow> user_frame (mem ?s1) d v \<noteq> x" if "v < KERNBASE" "present (mem ?s1) d v" for v
    using wf(2,3) [OF that(1)] eq [of v] that(2) fx [of v] x xt unfolding tb kp
    by (cases "PGROUNDDOWN v = va"; auto simp: present_def user_frame_def)+
  have "PGROUNDDOWN v = PGROUNDDOWN v'" if "v < KERNBASE" "v' < KERNBASE" "present (mem ?s1) d v" "present (mem ?s1) d v'"
    "user_frame (mem ?s1) d v = user_frame (mem ?s1) d v'" for v v'
    using wf(4) [OF that(1,2)] eq [of v] eq [of v'] fx [of v] fx [of v'] fn [OF that(1,3)] fn [OF that(2,4)] that(3-5)
    by (cases "PGROUNDDOWN v = va"; cases "PGROUNDDOWN v' = va"; auto simp: present_def user_frame_def)
  then have "uvm_wf ?s1 d ys" unfolding uvm_wf_def using S(1) fr by blast
  moreover have "pde_present (mem ?s1) d (PDX v) = pde_present (mem s) d (PDX v)" for v using S(5) [of "PDX v"] PDX_less [of v] k0(2) by auto
  moreover have "same_page (mem ?s1) (mem s) q" if "q \<notin> tables (mem s) d" for q using S(3) [of q] that k0(2) by simp
  ultimately show ?thesis using mp fx [OF al(1)] eq tb by blast
qed

text \<open>A change of the other flags of a present page.\<close>

lemma uvm_wf_flags:
  assumes "uvm_wf s d xs" "pde_present (mem s) d (PDX va)" "\<And>e. PTE_ADDR (f e) = PTE_ADDR e" "\<And>e. e AND PTE_P \<noteq> 0 \<Longrightarrow> f e AND PTE_P \<noteq> 0"
    "present (mem s) d va"
  obtains s' where "update_pte msg s d va f = Ok s'" "uvm_wf s' d xs" "\<And>v. present (mem s') d v = present (mem s) d v"
    "\<And>v. user_frame (mem s') d v = user_frame (mem s) d v" "\<And>v. pde_present (mem s') d (PDX v) = pde_present (mem s) d (PDX v)"
    "tables (mem s') d = tables (mem s) d" "\<And>q. q \<notin> tables (mem s) d \<Longrightarrow> same_page (mem s') (mem s) q"
proof -
  note wf = uvm_wfD [OF assms(1)]
  obtain s' where s': "update_pte msg s d va f = Ok s'" "pt_wf s' d xs" "s' = s\<lparr>mem := mem s'\<rparr>" "tables (mem s') d = tables (mem s) d"
    "\<And>v. pte_val (mem s') d v = (if PGROUNDDOWN v = PGROUNDDOWN va then f (pte_val (mem s) d va) else pte_val (mem s) d v)"
    "\<And>v. pde_present (mem s') d (PDX v) = pde_present (mem s) d (PDX v)" "\<And>q. q \<notin> tables (mem s) d \<Longrightarrow> same_page (mem s') (mem s) q"
    by (rule update_pte_ok [OF wf(1) assms(2), of msg f]) blast
  have eq: "present (mem s') d v = present (mem s) d v" "user_frame (mem s') d v = user_frame (mem s) d v" for v
    using s'(5) [of v] assms(3-5) pte_val_page [of v va "mem s" d] by (auto simp: present_def user_frame_def)
  have "kend s' = kend s" using arg_cong [OF s'(3), of kend] by simp
  then have "kpage s' = kpage s" by (rule kpage_cong)
  then have "uvm_wf s' d xs" using assms(1) s'(2) unfolding uvm_wf_def eq s'(4) by simp
  with s' eq show ?thesis by (intro that)
qed

lemma pageIn_flags:
  assumes "uvm_wf s d xs" "present (mem s) d va"
  obtains s1 s2 where "clearPTE_FLAG s d va PTE_PG = Ok s1" "setPTE_FLAG s1 d va PTE_P = Ok s2" "uvm_wf s2 d xs"
    "\<And>v. present (mem s2) d v = present (mem s) d v" "\<And>v. user_frame (mem s2) d v = user_frame (mem s) d v"
    "\<And>v. pde_present (mem s2) d (PDX v) = pde_present (mem s) d (PDX v)" "\<And>q. q \<notin> tables (mem s) d \<Longrightarrow> same_page (mem s2) (mem s) q"
proof -
  have p: "pde_present (mem s) d (PDX va)" by (rule present_pde [OF assms(2)])
  have f: "PTE_ADDR (e AND NOT PTE_PG) = PTE_ADDR e" "PTE_ADDR (e OR PTE_P) = PTE_ADDR e"
    "(e AND NOT PTE_PG) AND PTE_P = e AND PTE_P" "e AND PTE_P \<noteq> 0 \<Longrightarrow> (e OR PTE_P) AND PTE_P \<noteq> 0" for e :: u32
    using PTE_ADDR_flags [of PTE_PG e] PTE_ADDR_flags [of PTE_P e] by (simp_all add: and.assoc bit.conj_disj_distrib2)
  obtain s1 where s1: "clearPTE_FLAG s d va PTE_PG = Ok s1" "uvm_wf s1 d xs" "\<And>v. present (mem s1) d v = present (mem s) d v"
    "\<And>v. user_frame (mem s1) d v = user_frame (mem s) d v" "\<And>v. pde_present (mem s1) d (PDX v) = pde_present (mem s) d (PDX v)"
    "tables (mem s1) d = tables (mem s) d" "\<And>q. q \<notin> tables (mem s) d \<Longrightarrow> same_page (mem s1) (mem s) q"
    by (rule uvm_wf_flags [OF assms(1) p, where f = "\<lambda>e. e AND NOT PTE_PG" and msg = "''setPTE_PG''", folded clearPTE_FLAG_def])
      (use f assms(2) in \<open>simp_all only: not_False_eq_True simp_thms\<close>)
  obtain s2 where s2: "setPTE_FLAG s1 d va PTE_P = Ok s2" "uvm_wf s2 d xs" "\<And>v. present (mem s2) d v = present (mem s1) d v"
    "\<And>v. user_frame (mem s2) d v = user_frame (mem s1) d v" "\<And>v. pde_present (mem s2) d (PDX v) = pde_present (mem s1) d (PDX v)"
    "tables (mem s2) d = tables (mem s1) d" "\<And>q. q \<notin> tables (mem s1) d \<Longrightarrow> same_page (mem s2) (mem s1) q"
    by (rule uvm_wf_flags [OF s1(2), of va "\<lambda>e. e OR PTE_P" "''setPTE_PG''", folded setPTE_FLAG_def])
      (use f assms(2) p s1(3,5) in \<open>simp_all only: not_False_eq_True simp_thms\<close>)
  show ?thesis
    using s1 s2 same_page_trans by (intro that [OF s1(1) s2(1,2)]) (simp_all, blast)
qed

text \<open>What bringing back the page \<open>va\<close> (entry \<open>i\<close>) into frame \<open>x\<close> leaves.\<close>

definition moved_in :: "nat \<Rightarrow> addr \<Rightarrow> nat \<Rightarrow> addr \<Rightarrow> kernel \<Rightarrow> kernel \<Rightarrow> bool" where
  "moved_in p va i x k k' \<longleftrightarrow>
     pgd k' p = pgd k p \<and> meta_wf (meta k' p) \<and> i < 32 \<and> backed (pages (meta k p) ! i) \<and> vaddr (pages (meta k p) ! i) = va \<and>
     pages (meta k' p) = (pages (meta k p))[i := (pages (meta k p) ! i)\<lparr>in_back := False, age := 0, age2 := 0xffffffff\<rparr>] \<and>
     swap_bytes p k' = swap_bytes p k \<and> present (mem (kphys k')) (pgd k p) va \<and> user_frame (mem (kphys k')) (pgd k p) va = x \<and>
     (\<forall>l<4096. mem (kphys k') (x + of_nat l) = swap_bytes p k ! (unat (offset (pages (meta k p) ! i)) + l)) \<and>
     (\<forall>v. pde_present (mem (kphys k')) (pgd k p) (PDX v) = pde_present (mem (kphys k)) (pgd k p) (PDX v)) \<and>
     (\<forall>v. PGROUNDDOWN v \<noteq> va \<longrightarrow> present (mem (kphys k')) (pgd k p) v = present (mem (kphys k)) (pgd k p) v \<and>
        user_frame (mem (kphys k')) (pgd k p) v = user_frame (mem (kphys k)) (pgd k p) v) \<and>
     (\<forall>q. q \<notin> insert x (tables (mem (kphys k)) (pgd k p)) \<longrightarrow> same_page (mem (kphys k')) (mem (kphys k)) q)"

lemma moved_inD:
  assumes "moved_in p va i x k k'"
  shows "pgd k' p = pgd k p" "meta_wf (meta k' p)" "i < 32" "backed (pages (meta k p) ! i)" "vaddr (pages (meta k p) ! i) = va"
    "pages (meta k' p) = (pages (meta k p))[i := (pages (meta k p) ! i)\<lparr>in_back := False, age := 0, age2 := 0xffffffff\<rparr>]"
    "swap_bytes p k' = swap_bytes p k" "present (mem (kphys k')) (pgd k p) va" "user_frame (mem (kphys k')) (pgd k p) va = x"
    "\<And>o'. o' < 4096 \<Longrightarrow> mem (kphys k') (x + of_nat o') = swap_bytes p k ! (unat (offset (pages (meta k p) ! i)) + o')"
    "\<And>v. pde_present (mem (kphys k')) (pgd k p) (PDX v) = pde_present (mem (kphys k)) (pgd k p) (PDX v)"
    "\<And>v. PGROUNDDOWN v \<noteq> va \<Longrightarrow> present (mem (kphys k')) (pgd k p) v = present (mem (kphys k)) (pgd k p) v"
    "\<And>v. PGROUNDDOWN v \<noteq> va \<Longrightarrow> user_frame (mem (kphys k')) (pgd k p) v = user_frame (mem (kphys k)) (pgd k p) v"
    "\<And>q. q \<notin> insert x (tables (mem (kphys k)) (pgd k p)) \<Longrightarrow> same_page (mem (kphys k')) (mem (kphys k)) q"
  using assms unfolding moved_in_def by blast+

text \<open>The read of the slot and the copy to the new frame.\<close>

lemma getPageFromBack_ok:
  assumes "meta_wf (meta k p)" "i < 32" "backed (pages (meta k p) ! i)" "vaddr (pages (meta k p) ! i) = va"
    "swap_ok p n k" "unat (offset (pages (meta k p) ! i)) + 4096 \<le> length (swap_bytes p k)" "length (swap_bytes p k) \<le> MAXFILE * BSIZE"
    "uvm_wf (kphys k) (P2V (cr3 k)) xs" "page_aligned va" "va < KERNBASE" "present (mem (kphys k)) (P2V (cr3 k)) va"
  defines "x \<equiv> user_frame (mem (kphys k)) (P2V (cr3 k)) va"
  shows "\<exists>k' m. getPageFromBack k p va va = Ok (1, k') \<and> kphys k' = (kphys k)\<lparr>mem := m\<rparr> \<and> procs k' = procs k \<and> cr3 k' = cr3 k \<and>
    swap_ok p n k' \<and> swap_bytes p k' = swap_bytes p k \<and> (\<forall>q. q \<noteq> x \<longrightarrow> same_page m (mem (kphys k)) q) \<and>
    (\<forall>l<4096. m (x + of_nat l) = swap_bytes p k ! (unat (offset (pages (meta k p) ! i)) + l))"
proof -
  note wf = meta_wfD [OF assms(1)]
  obtain j where j: "j < 32" "offset (pages (meta k p) ! i) = PGSIZE * of_nat j" using slots_okD(1) [OF wf(4) assms(2,3)] by blast
  have uj: "unat (PGSIZE * of_nat j :: u32) = 4096 * j" using j(1) by (simp add: unat_word_ariths unat_of_nat)
  have j17: "j < 17" "4096 * j + 4096 \<le> length (swap_bytes p k)" using uj j assms(6,7) by auto
  have "\<not> (exists (pages (meta k p) ! l) \<and> vaddr (pages (meta k p) ! l) = va \<and> in_back (pages (meta k p) ! l))" if "l < i" for l
    using wf(5) [of l i] assms(2-4) that by (auto simp: backed_def)
  then have fi: "first_idx (\<lambda>q. exists q \<and> vaddr q = va \<and> in_back q) (pages (meta k p)) = Some i"
    using assms(2-4) wf(1) by (simp add: first_idx_Some_iff backed_def)
  obtain k1 where k1: "readFromSwapFile k p (4096 * of_nat j) 4096 = Ok ((4096, swap_store.slot_at p k j), k1)" "swap_ok p n k1" "same_kernel k k1"
    "swap_bytes p k1 = swap_bytes p k"
    using swap_store.get_slot [OF assms(5) j17(2,1)] assms(7) by auto
  have sk: "kphys k1 = kphys k" "procs k1 = procs k" "cr3 k1 = cr3 k" using k1(3) by (simp_all add: same_kernel_def)
  have ls: "length (swap_store.slot_at p k j) = 4096" using j17(2) by (simp add: swap_store.slot_at_def)
  obtain m where m: "uwrite k1 va (swap_store.slot_at p k j) = Ok (k1\<lparr>kphys := (kphys k1)\<lparr>mem := m\<rparr>\<rparr>)"
    "\<forall>q. q \<noteq> x \<longrightarrow> same_page m (mem (kphys k)) q" "\<forall>i<4096. m (x + of_nat i) = swap_store.slot_at p k j ! i"
    using uwrite_page [of k1 xs va 0 "swap_store.slot_at p k j"] assms(8-11) ls by (auto simp: sk x_def)
  let ?k2 = "k1\<lparr>kphys := (kphys k1)\<lparr>mem := m\<rparr>\<rparr>"
  have "getPageFromBack k p va va = Ok (1, ?k2)" using fi k1(1) m(1) j(2) by (simp add: getPageFromBack_def)
  moreover have "m (x + of_nat i) = swap_bytes p k ! (4096 * j + i)" if "i < 4096" for i using m(3) slot_nth [OF j17(2) that] that by simp
  ultimately show ?thesis using m(2) k1(2,4) sk j(2) uj by (intro exI [of _ ?k2] exI [of _ m]) simp
qed

lemma pageIn_moves:
  assumes "paged p n (x # ys) k" "queue_agrees (meta k p)" "i < 32" "backed (pages (meta k p) ! i)" "vaddr (pages (meta k p) ! i) = va" "va \<noteq> 0 \<or> i = 0"
  shows "\<exists>k'. pageIn k p va = Ok (1, k') \<and> moved_in p va i x k k' \<and> queue_agrees (meta k' p) \<and>
    ram_vaddrs (meta k' p) = insert va (ram_vaddrs (meta k p)) \<and> uvm_wf (kphys k') (pgd k p) ys \<and>
    P2V (cr3 k') = pgd k p \<and> p < length (procs k') \<and> swap_ok p n k'"
proof -
  note P = pagedD [OF assms(1)]
  let ?d = "pgd k p" and ?M = "meta k p"
  have ex: "exists (pages ?M ! i)" "in_back (pages ?M ! i)" using assms(4) by (simp_all add: backed_def)
  have va: "page_aligned va" "va < KERNBASE" "pde_present (mem (kphys k)) ?d (PDX va)" "\<not> present (mem (kphys k)) ?d va"
    using P(7-10) [OF assms(3) ex(1)] assms(5) ex(2) by simp_all
  have kx: "kinv (kphys k) (x # ys)" by (rule pt_wfD(1) [OF uvm_wfD(1) [OF P(3)]])
  then obtain s0 where s0: "kalloc (kphys k) = (x, s0)" "x \<noteq> 0" using kalloc_Cons kinv_nonzero by (metis list.set_intros(1))
  obtain s1 where s1: "mappages s0 ?d va PGSIZE (V2P x) (PTE_U OR PTE_W) = Ok (0, s1)" "uvm_wf s1 ?d ys" "present (mem s1) ?d va" "user_frame (mem s1) ?d va = x"
    "\<forall>v. PGROUNDDOWN v \<noteq> va \<longrightarrow> pte_val (mem s1) ?d v = pte_val (mem (kphys k)) ?d v"
    "\<forall>v. pde_present (mem s1) ?d (PDX v) = pde_present (mem (kphys k)) ?d (PDX v)"
    "tables (mem s1) ?d = tables (mem (kphys k)) ?d" "\<forall>q. q \<notin> tables (mem (kphys k)) ?d \<longrightarrow> same_page (mem s1) (mem (kphys k)) q"
    using map_page_ok [OF P(3) s0(1) va] by blast
  let ?k1 = "k\<lparr>kphys := s1\<rparr>"
  obtain k2 m where k2: "getPageFromBack ?k1 p va va = Ok (1, k2)" "kphys k2 = s1\<lparr>mem := m\<rparr>" "procs k2 = procs k" "cr3 k2 = cr3 k"
    "swap_ok p n k2" "swap_bytes p k2 = swap_bytes p k" "\<forall>q. q \<noteq> x \<longrightarrow> same_page m (mem s1) q"
    "\<forall>l<4096. m (x + of_nat l) = swap_bytes p k ! (unat (offset (pages ?M ! i)) + l)"
    using getPageFromBack_ok [of ?k1 p i va n ys] P assms(3-5) s1(2-4) va(1,2) by auto
  note X = uvm_wfD(3) [OF s1(2) va(2) s1(3), unfolded s1(4)]
  have w2: "uvm_wf (kphys k2) ?d ys" unfolding k2(2) by (rule uvm_wf_mem_update [OF s1(2)]) (use k2(7) X in auto)
  have sm: "\<forall>q\<in>insert ?d (tables (mem s1) ?d). same_page m (mem s1) q" using k2(7) X by auto
  note pv = pte_val_frame [OF uvm_wfD(1) [OF s1(2)] sm]
  have pp: "pde_present m ?d (PDX v) = pde_present (mem s1) ?d (PDX v)" for v
    using pde_same_page(2) [OF _ pt_wfD(4) [OF uvm_wfD(1) [OF s1(2)]] PDX_less] sm by blast
  have mk: "mem (kphys k2) = m" by (simp add: k2(2))
  have "present (mem (kphys k2)) ?d va" using s1(3) pv(1) by (simp add: mk present_def)
  from pageIn_flags [OF w2 this, unfolded mk] obtain s3 s4 where s4: "clearPTE_FLAG (kphys k2) ?d va PTE_PG = Ok s3" "setPTE_FLAG s3 ?d va PTE_P = Ok s4" "uvm_wf s4 ?d ys"
    "\<And>v. present (mem s4) ?d v = present m ?d v" "\<And>v. user_frame (mem s4) ?d v = user_frame m ?d v"
    "\<And>v. pde_present (mem s4) ?d (PDX v) = pde_present m ?d (PDX v)" "\<And>q. q \<notin> tables m ?d \<Longrightarrow> same_page (mem s4) m q"
    by blast
  obtain m' where m': "page_in_meta ?M va = Ok (1, m')" "meta_wf m'" "queue_agrees m'" "ram_vaddrs m' = insert va (ram_vaddrs ?M)"
    "pages m' = (pages ?M)[i := (pages ?M ! i)\<lparr>in_back := False, age := 0, age2 := 0xffffffff\<rparr>]"
    using page_in_meta_inv [OF P(4) assms(2-6)] by blast
  define k' where "k' = upd_proc (k2\<lparr>kphys := s4\<rparr>) p (\<lambda>q. q\<lparr>paging_meta := m'\<rparr>)"
  have "pageIn k p va = Ok (1, k')"
    using s0 s1(1) k2(1,3) s4(1,2) m'(1)
    by (simp add: pageIn_def kkalloc_def phys_call_def phys_do_def meta_do_def k'_def)
  moreover have F: "kphys k' = s4" "P2V (cr3 k') = ?d" "pgd k' p = ?d" "meta k' p = m'" "p < length (procs k')" "swap_ok p n k'" "swap_bytes p k' = swap_bytes p k"
    using k2(3-6) P(1,2) swap_proc [of "\<lambda>q. q\<lparr>paging_meta := m'\<rparr>" p "k2\<lparr>kphys := s4\<rparr>"]
    by (simp_all add: k'_def) (simp_all add: upd_proc_def)
  moreover have "moved_in p va i x k k'" unfolding moved_in_def F
  proof (intro conjI allI impI)
    show "present (mem s4) ?d va" "user_frame (mem s4) ?d va = x" using s4(4,5) s1(3,4) pv(1) by (simp_all add: present_def user_frame_def)
    show "pde_present (mem s4) ?d (PDX v) = pde_present (mem (kphys k)) ?d (PDX v)" for v using s4(6) pp s1(6) by simp
    show "present (mem s4) ?d v = present (mem (kphys k)) ?d v" "user_frame (mem s4) ?d v = user_frame (mem (kphys k)) ?d v" if "PGROUNDDOWN v \<noteq> va" for v
      using s4(4,5) pv(1) s1(5) that by (simp_all add: present_def user_frame_def)
    show "same_page (mem s4) (mem (kphys k)) q" if "q \<notin> insert x (tables (mem (kphys k)) ?d)" for q
      using s4(7) [of q] k2(7) s1(7,8) pv(2) that same_page_trans by (metis insertCI)
    show "mem s4 (x + of_nat l) = swap_bytes p k ! (unat (offset (pages ?M ! i)) + l)" if "l < 4096" for l
      using s4(7) [of x] X pv(2) k2(8) that page_offset [OF that, of x] kx by (simp add: same_page_def kinv_def kpage_def)
  qed (use m' assms(3-5) in auto)
  ultimately show ?thesis using m'(3,4) s4(3) by auto
qed

lemma moved_in_paged:
  assumes "paged p n xs k" "moved_in p va i x k k'" "uvm_wf (kphys k') (pgd k p) ys" "P2V (cr3 k') = pgd k p" "p < length (procs k')" "swap_ok p n k'"
  shows "paged p n ys k'"
proof -
  note P = pagedD [OF assms(1)] and I = moved_inD [OF assms(2)]
  note wf = meta_wfD [OF P(4)]
  let ?d = "pgd k p" and ?M = "meta k p" and ?M' = "meta k' p"
  have pl: "pages ?M' ! l = pages ?M ! l" if "l \<noteq> i" for l using I(6) that by simp
  have pi: "pages ?M' ! i = (pages ?M ! i)\<lparr>in_back := False, age := 0, age2 := 0xffffffff\<rparr>" using I(3,6) wf(1) by simp
  have "page_aligned (vaddr (pages ?M' ! l)) \<and> vaddr (pages ?M' ! l) < KERNBASE \<and> pde_present (mem (kphys k')) ?d (PDX (vaddr (pages ?M' ! l))) \<and>
      present (mem (kphys k')) ?d (vaddr (pages ?M' ! l)) = (\<not> in_back (pages ?M' ! l))" if "l < 32" "exists (pages ?M' ! l)" for l
  proof (cases "l = i")
    case True
    then show ?thesis using P(7-9) [OF I(3)] I(4,5,8,11) pi by (simp add: backed_def)
  next
    case False
    then have e: "exists (pages ?M ! l)" using that pl by simp
    note E = P(7-10) [OF that(1) e]
    have "vaddr (pages ?M ! l) \<noteq> va" using wf(5) [OF that(1) I(3) e] I(4,5) False by (auto simp: backed_def)
    then have "PGROUNDDOWN (vaddr (pages ?M ! l)) \<noteq> va" using E(1) by (simp add: page_aligned_iff)
    then show ?thesis using E I(11,12) pl [OF False] by simp
  qed
  moreover have "unat (offset (pages ?M' ! l)) + 4096 \<le> length (swap_bytes p k')" if "l < 32" "backed (pages ?M' ! l)" for l
    using P(11) [OF that(1)] that pl [of l] pi I(7) by (cases "l = i") (auto simp: backed_def)
  ultimately show ?thesis unfolding paged_def I(1) using assms(3-6) I(2,7) P(6) by auto
qed

lemma moved_in_page:
  assumes "paged p n xs k" "moved_in p va i x k k'" "PGROUNDDOWN v = va"
  shows "vbyte k' p v = vbyte k p v"
proof -
  note P = pagedD [OF assms(1)] and I = moved_inD [OF assms(2)]
  let ?d = "pgd k p"
  obtain o' where o': "o' < 4096" "v - PGROUNDDOWN v = of_nat o'" "unat (v - PGROUNDDOWN v) = o'" by (rule page_rest_nat [of v])
  have al: "PGROUNDDOWN va = va" using assms(3) by auto
  have np: "\<not> present (mem (kphys k)) ?d v" using present_page [of v va] assms(3) al P(10) [OF I(3)] I(4,5) by (simp add: backed_def)
  have "present (mem (kphys k')) ?d v" "user_frame (mem (kphys k')) ?d v = x"
    using present_page [of v va] user_frame_page [of v va] assms(3) al I(8,9) by simp_all
  then have "vbyte k' p v = Some (mem (kphys k') (x + of_nat o'))" using I(1) o'(2) by (simp add: vbyte_def ubyte_def)
  then show ?thesis using vbyte_backed [OF P(4) np I(3,4)] I(5) I(10) [OF o'(1)] o'(3) assms(3) by simp
qed

lemma moved_in_other:
  assumes "paged p n (x # ys) k" "moved_in p va i x k k'" "PGROUNDDOWN v \<noteq> va" "v < KERNBASE"
  shows "vbyte k' p v = vbyte k p v"
proof (cases "present (mem (kphys k)) (pgd k p) v")
  case True
  note P = pagedD [OF assms(1)] and I = moved_inD [OF assms(2)]
  let ?d = "pgd k p" and ?s = "kphys k"
  have f: "kpage ?s (user_frame (mem ?s) ?d v)" "user_frame (mem ?s) ?d v \<notin> insert x (tables (mem ?s) ?d)"
    using uvm_wfD(2,3) [OF P(3) assms(4) True] by auto
  obtain o' where o': "o' < 4096" "v - PGROUNDDOWN v = of_nat o'" by (rule page_rest_nat [of v])
  have "mem (kphys k') (user_frame (mem ?s) ?d v + of_nat o') = mem ?s (user_frame (mem ?s) ?d v + of_nat o')"
    using I(14) [OF f(2)] page_offset [OF o'(1)] f(1) by (simp add: same_page_def kpage_def)
  then show ?thesis using True I(1,12,13) assms(3) o'(2) by (simp add: vbyte_def ubyte_def)
next
  case False
  note P = pagedD [OF assms(1)] and I = moved_inD [OF assms(2)]
  note wf = meta_wfD [OF P(4)]
  have pl: "pages (meta k' p) ! l = pages (meta k p) ! l" if "l \<noteq> i" for l using I(6) that by simp
  show ?thesis
  proof (rule vbyte_absent)
    fix l :: nat assume l: "l < 32"
    show "backed (pages (meta k' p) ! l) \<and> vaddr (pages (meta k' p) ! l) = PGROUNDDOWN v \<longleftrightarrow>
        backed (pages (meta k p) ! l) \<and> vaddr (pages (meta k p) ! l) = PGROUNDDOWN v"
      using assms(3) pl [of l] I(5,6) l wf(1) by (cases "l = i") auto
    assume "vaddr (pages (meta k p) ! l) = PGROUNDDOWN v"
    then have "l \<noteq> i" using I(5) assms(3) by auto
    then show "offset (pages (meta k' p) ! l) = offset (pages (meta k p) ! l) \<and>
      (\<forall>i<4096. swap_bytes p k' ! (unat (offset (pages (meta k p) ! l)) + i) = swap_bytes p k ! (unat (offset (pages (meta k p) ! l)) + i))"
      using pl I(7) by simp
  qed (use P(4) I(1,2,12) False assms(3) in auto)
qed

section \<open>Properties\<close>

text \<open>C1: pageOut is transparent. It never panics when the page is resident and the disk has room; it frees the frame of
  the page, marks the page not present, keeps the invariant of the pager, and every user byte of the process, seen in
  memory or in the swap file, is what it was.\<close>

theorem pageOut_transparent:
  assumes "paged p (Suc n) xs k" "va \<in> ram_vaddrs (meta k p)" "numOfPagedOut (meta k p) \<le> MAX_PSYC_PAGES"
    "distinct (map vaddr (queue_list (pq (meta k p))))" "vaddr ` set (queue_list (pq (meta k p))) = ram_vaddrs (meta k p) - {va}"
  shows "\<exists>k'. pageOut k p va = Ok (1, k') \<and> paged p n (user_frame (mem (kphys k)) (pgd k p) va # xs) k' \<and> queue_agrees (meta k' p) \<and>
    \<not> present (mem (kphys k')) (pgd k' p) va \<and>
    ram_vaddrs (meta k' p) = ram_vaddrs (meta k p) - {va} \<and> (\<forall>v<KERNBASE. vbyte k' p v = vbyte k p v)"
proof -
  obtain k' i j where k': "pageOut k p va = Ok (1, k')" "moved_out p va i j k k'" "queue_agrees (meta k' p)"
    "ram_vaddrs (meta k' p) = ram_vaddrs (meta k p) - {va}" "uvm_wf (kphys k') (pgd k p) (user_frame (mem (kphys k)) (pgd k p) va # xs)"
    "P2V (cr3 k') = pgd k p" "p < length (procs k')" "swap_ok p n k'"
    using pageOut_moves [OF assms] by blast
  have "vbyte k' p v = vbyte k p v" if "v < KERNBASE" for v
    using moved_out_page [OF assms(1) k'(2)] moved_out_other [OF assms(1) k'(2)] moved_out_resident [OF assms(1) k'(2) _ _ that] by blast
  moreover have "\<not> present (mem (kphys k')) (pgd k' p) va" using moved_outD(1,12) [OF k'(2)] by simp
  ultimately show ?thesis using k' moved_out_paged [OF assms(1) k'(2,5-8)] by blast
qed

text \<open>C2: pageIn is transparent. For a page in the swap file and a free frame it returns 1 and makes the page present in
  that frame with the bytes of its slot; the invariant of the pager is kept and every user byte is what it was. The entry
  for address 0 must be the first one, because page_in_meta also matches empty entries, whose address is 0.\<close>

theorem pageIn_transparent:
  assumes "paged p n (x # ys) k" "queue_agrees (meta k p)" "i < 32" "backed (pages (meta k p) ! i)" "vaddr (pages (meta k p) ! i) = va" "va \<noteq> 0 \<or> i = 0"
  shows "\<exists>k'. pageIn k p va = Ok (1, k') \<and> paged p n ys k' \<and> queue_agrees (meta k' p) \<and> present (mem (kphys k')) (pgd k' p) va \<and>
    ram_vaddrs (meta k' p) = insert va (ram_vaddrs (meta k p)) \<and> (\<forall>v<KERNBASE. vbyte k' p v = vbyte k p v)"
proof -
  obtain k' where k': "pageIn k p va = Ok (1, k')" "moved_in p va i x k k'" "queue_agrees (meta k' p)"
    "ram_vaddrs (meta k' p) = insert va (ram_vaddrs (meta k p))" "uvm_wf (kphys k') (pgd k p) ys" "P2V (cr3 k') = pgd k p" "p < length (procs k')" "swap_ok p n k'"
    using pageIn_moves [OF assms] by blast
  have "vbyte k' p v = vbyte k p v" if "v < KERNBASE" for v
    using moved_in_page [OF assms(1) k'(2)] moved_in_other [OF assms(1) k'(2) _ that] by blast
  moreover have "present (mem (kphys k')) (pgd k' p) va" using moved_inD(1,8) [OF k'(2)] by simp
  ultimately show ?thesis using k' moved_in_paged [OF assms(1) k'(2,5-8)] by blast
qed

section \<open>One page out and in again\<close>

definition evict_kernel :: kernel where
  "evict_kernel = set_meta demo_kernel 0 (\<lambda>_. one_in\<lparr>pq := pq reset_paging_meta\<rparr>)"

lemma evict_kernel_facts:
  "paged 0 1 [0x80500000] evict_kernel" "meta evict_kernel 0 = one_in\<lparr>pq := pq reset_paging_meta\<rparr>"
  "ram_vaddrs (meta evict_kernel 0) = {0}" "numOfPagedOut (meta evict_kernel 0) = 0" "queue_list (pq (meta evict_kernel 0)) = []"
  "i < 32 \<Longrightarrow> in_ram (pages (meta evict_kernel 0) ! i) \<Longrightarrow> i = 0"
proof -
  let ?M = "one_in\<lparr>pq := pq reset_paging_meta\<rparr>"
  have l: "0 < length (procs demo_kernel)" by (simp add: demo_kernel_fields)
  show m: "meta evict_kernel 0 = ?M" using l by (simp add: evict_kernel_def)
  have pg: "pages ?M ! i = (if i = 0 then new_page 0 else zero_page)" if "i < 32" for i
    using that by (simp add: one_in_def nth_Cons')
  show "ram_vaddrs (meta evict_kernel 0) = {0}" unfolding m using one_in_wf(3) by (simp add: ram_vaddrs_def)
  show "numOfPagedOut (meta evict_kernel 0) = 0" unfolding m by (simp add: numOfPagedOut_def one_in_def new_page_def zero_page_def)
  show "queue_list (pq (meta evict_kernel 0)) = []" unfolding m by (simp add: queue_list_reset)
  show "i < 32 \<Longrightarrow> in_ram (pages (meta evict_kernel 0) ! i) \<Longrightarrow> i = 0" unfolding m using pg by (auto simp: in_ram_def zero_page_def split: if_splits)
  have w: "meta_wf ?M" using one_in_wf(1) queue_wf_reset unfolding meta_wf_def slots_ok_def by simp
  have d: "pgd evict_kernel 0 = 0x80200000" "kphys evict_kernel = demo_phys" "cr3 evict_kernel = 0x200000"
    using l by (simp_all add: evict_kernel_def demo_kernel_fields demo_proc_def set_meta_def upd_proc_def)
  have s: "swap_ok 0 1 evict_kernel" "swap_bytes 0 evict_kernel = []"
    using demo_swap_ok swap_proc [of "\<lambda>q. q\<lparr>paging_meta := ?M\<rparr>" 0 demo_kernel] l by (simp_all add: evict_kernel_def set_meta_def)
  have p0: "present demo_mem 0x80200000 0" "pde_present demo_mem 0x80200000 (PDX 0)"
    using demo_pde(1) [of 0] by (simp_all add: present_def demo_pte PGROUNDDOWN_def PDX_def)
  have r: "P2V 0x200000 = 0x80200000" "mem demo_phys = demo_mem" by (simp_all add: P2V_def demo_phys_def)
  show "paged 0 1 [0x80500000] evict_kernel" unfolding paged_def m d s(2) r
  proof (intro conjI allI impI)
    show "uvm_wf demo_phys 0x80200000 [0x80500000]" by (rule demo_uvm)
    show "0 < length (procs evict_kernel)" using l by (simp add: evict_kernel_def)
    show "swap_ok 0 1 evict_kernel" by (rule s)
    show "meta_wf ?M" by (rule w)
  qed (use p0 pg in \<open>auto simp: new_page_def zero_page_def page_aligned_def backed_def split: if_splits\<close>)
qed

theorem pageOut_transparent_witness:
  "\<exists>k'. pageOut evict_kernel 0 0 = Ok (1, k') \<and> \<not> present (mem (kphys k')) (pgd k' 0) 0 \<and> (\<forall>v<KERNBASE. vbyte k' 0 v = vbyte evict_kernel 0 v)"
  using pageOut_transparent [of 0 0 "[0x80500000]" evict_kernel 0] evict_kernel_facts(1-5) by auto

theorem pageIn_transparent_witness:
  "\<exists>k' k''. pageOut evict_kernel 0 0 = Ok (1, k') \<and> pageIn k' 0 0 = Ok (1, k'') \<and> present (mem (kphys k'')) (pgd k'' 0) 0 \<and>
    (\<forall>v<KERNBASE. vbyte k'' 0 v = vbyte k' 0 v)"
proof -
  let ?x = "user_frame (mem (kphys evict_kernel)) (pgd evict_kernel 0) 0"
  have P: "paged 0 (Suc 0) [0x80500000] evict_kernel" using evict_kernel_facts(1) by simp
  obtain k' i j where k': "pageOut evict_kernel 0 0 = Ok (1, k')" "moved_out 0 0 i j evict_kernel k'" "queue_agrees (meta k' 0)"
    "uvm_wf (kphys k') (pgd evict_kernel 0) (?x # [0x80500000])" "P2V (cr3 k') = pgd evict_kernel 0" "0 < length (procs k')" "swap_ok 0 0 k'"
    using pageOut_moves [OF P, of 0] evict_kernel_facts(3-5) by auto
  note O = moved_outD [OF k'(2)]
  have "i = 0" using evict_kernel_facts(6) O(3,4) by blast
  then have "backed (pages (meta k' 0) ! 0)" "vaddr (pages (meta k' 0) ! 0) = 0"
    using O(3-6) meta_wfD(1) [OF pagedD(4) [OF P]] by (simp_all add: backed_def in_ram_def)
  then show ?thesis
    using pageIn_transparent [OF moved_out_paged [OF P k'(2,4-7)] k'(3), of 0 0] k'(1) by auto
qed

end
