(* ===== verification/Uvm.thy ===== *)
theory Uvm
  imports Paging
begin

text \<open>
  Whole address spaces (vm.c): building and freeing page tables, growing and shrinking user memory, loading a
  program segment and copying an address space in fork. The loops run over page addresses below
  \<^verbatim>\<open>KERNBASE\<close>; an address that wraps around is a fault, which only makes the recursion well-founded.
\<close>

section \<open>Freeing user memory\<close>

text \<open>The bookkeeping that \<^verbatim>\<open>deallocuvm\<close> does when the page table is that of the running process.\<close>

definition dealloc_meta :: "kernel \<Rightarrow> addr \<Rightarrow> addr \<Rightarrow> kernel" where
  "dealloc_meta k pgdir a =
     (case cur k of
        Some i \<Rightarrow> if SELECTION k \<noteq> NONE \<and> pgdir = p_pgdir (procs k ! i) then set_meta k i (\<lambda>m. forget_page m a) else k
      | None \<Rightarrow> k)"

text \<open>One page: the address the loop then adds a page size to, and the new state.\<close>

definition dealloc_page :: "kernel \<Rightarrow> addr \<Rightarrow> addr \<Rightarrow> (addr \<times> kernel) outcome" where
  "dealloc_page k pgdir a =
     (case walkpgdir (kphys k) pgdir a False of (pte, _) \<Rightarrow>
        if pte = 0 then Ok (PGADDR (PDX a + 1) 0 0 - PGSIZE, k)
        else
          let e = load32 (mem (kphys k)) pte
          in if e AND PTE_P \<noteq> 0 then
               if PTE_ADDR e = 0 then Panic ''kfree''
               else
                 andThen (phys_do (dealloc_meta k pgdir a) (\<lambda>m. kfree m (P2V (PTE_ADDR e))))
                   (\<lambda>k. Ok (a, k\<lparr>kphys := (kphys k)\<lparr>mem := store32 (mem (kphys k)) pte 0\<rparr>\<rparr>))
             else Ok (a, k))"

function dealloc_loop :: "kernel \<Rightarrow> addr \<Rightarrow> addr \<Rightarrow> u32 \<Rightarrow> kernel outcome" where
  "dealloc_loop k pgdir a oldsz =
     (if a < oldsz then
        andThen (dealloc_page k pgdir a)
          (\<lambda>(b, k). if b + PGSIZE \<le> a then Fault ''deallocuvm: address wraps'' else dealloc_loop k pgdir (b + PGSIZE) oldsz)
      else Ok k)"
  by pat_completeness auto
termination
proof (relation "measure (\<lambda>(k, pgdir, a, oldsz). unat oldsz - unat a)", goal_cases)
  case (2 k pgdir a oldsz r b k')
  then have "unat a < unat oldsz" "unat a < unat (b + PGSIZE)" by (simp_all add: word_less_nat_alt word_le_nat_alt not_le)
  then show ?case by simp
qed simp

declare dealloc_loop.simps [simp del]

definition deallocuvm :: "kernel \<Rightarrow> addr \<Rightarrow> u32 \<Rightarrow> u32 \<Rightarrow> (u32 \<times> kernel) outcome" where
  "deallocuvm k pgdir oldsz newsz =
     (if newsz \<ge> oldsz then Ok (oldsz, k)
      else andThen (dealloc_loop k pgdir (PGROUNDUP newsz) oldsz) (\<lambda>k. Ok (newsz, k)))"

definition free_table :: "addr \<Rightarrow> nat \<Rightarrow> kernel \<Rightarrow> kernel outcome" where
  "free_table pgdir i k =
     (let e = load32 (mem (kphys k)) (slot pgdir (of_nat i))
      in if e AND PTE_P \<noteq> 0 then phys_do k (\<lambda>m. kfree m (P2V (PTE_ADDR e))) else Ok k)"

definition freevm :: "kernel \<Rightarrow> addr \<Rightarrow> kernel outcome" where
  "freevm k pgdir =
     (if pgdir = 0 then Panic ''freevm: no pgdir''
      else
        andThen (deallocuvm k pgdir KERNBASE 0)
          (\<lambda>(r, k). andThen (for_each (free_table pgdir) [0..<1024] k) (\<lambda>k. phys_do k (\<lambda>m. kfree m pgdir))))"

section \<open>Kernel page tables\<close>

fun setupkvm_loop :: "kmap_entry list \<Rightarrow> kernel \<Rightarrow> addr \<Rightarrow> (addr \<times> kernel) outcome" where
  "setupkvm_loop [] k pgdir = Ok (pgdir, k)"
| "setupkvm_loop (e # es) k pgdir =
     andThen (phys_call k (\<lambda>m. mappages m pgdir (virt e) (phys_end e - phys_start e) (phys_start e) (kperm e)))
       (\<lambda>(r, k). if r < 0 then andThen (freevm k pgdir) (\<lambda>k. Ok (0, k)) else setupkvm_loop es k pgdir)"

definition setupkvm :: "kernel \<Rightarrow> (addr \<times> kernel) outcome" where
  "setupkvm k =
     (case kkalloc k of (pgdir, k) \<Rightarrow>
        if pgdir = 0 then Ok (0, k)
        else
          let k = k\<lparr>kphys := (kphys k)\<lparr>mem := memset (mem (kphys k)) pgdir 0 PGSIZE\<rparr>\<rparr>
          in if P2V PHYSTOP > DEVSPACE then Panic ''PHYSTOP too high''
             else setupkvm_loop (kmap (kphys k)) k pgdir)"

definition switchkvm :: "kernel \<Rightarrow> kernel" where
  "switchkvm k = k\<lparr>cr3 := V2P (kpgdir k)\<rparr>"

definition kvmalloc :: "kernel \<Rightarrow> kernel outcome" where
  "kvmalloc k = andThen (setupkvm k) (\<lambda>(pgdir, k). Ok (switchkvm (k\<lparr>kpgdir := pgdir\<rparr>)))"

text \<open>The descriptor of the task state segment in the GDT is machine state that is not modelled.\<close>

definition switchuvm :: "kernel \<Rightarrow> nat option \<Rightarrow> kernel outcome" where
  "switchuvm k p =
     (case p of
        None \<Rightarrow> Panic ''switchuvm: no process''
      | Some i \<Rightarrow>
          if p_kstack (procs k ! i) = 0 then Panic ''switchuvm: no kstack''
          else if p_pgdir (procs k ! i) = 0 then Panic ''switchuvm: no pgdir''
          else
            Ok (k\<lparr>ts_ss0 := 2 * 8, ts_esp0 := p_kstack (procs k ! i) + KSTACKSIZE, ts_iomb := 0xFFFF, cr3 := V2P (p_pgdir (procs k ! i))\<rparr>))"

section \<open>Growing user memory\<close>

text \<open>Make room in memory for one more page of the running process. The results of \<^verbatim>\<open>pageOut\<close> and of
  \<^verbatim>\<open>add_new_page\<close> are ignored, and \<^verbatim>\<open>add_new_page\<close> is called even without a process.\<close>

definition alloc_evict :: "kernel \<Rightarrow> kernel outcome" where
  "alloc_evict k =
     (case cur k of
        Some i \<Rightarrow>
          if SELECTION k \<noteq> NONE \<and> numOfPagedIn (paging_meta (procs k ! i)) = MAX_PSYC_PAGES
          then andThen (select_page_to_back k i) (\<lambda>(v, k). andThen (pageOut k i v) (\<lambda>(r, k). Ok k))
          else Ok k
      | None \<Rightarrow> Ok k)"

definition alloc_record :: "kernel \<Rightarrow> addr \<Rightarrow> kernel outcome" where
  "alloc_record k a =
     (if SELECTION k = NONE then Ok k
      else my k (\<lambda>i. andThen (meta_do k i (\<lambda>m. add_new_page m a)) (\<lambda>(r, k). Ok k)))"

function allocuvm_loop :: "kernel \<Rightarrow> addr \<Rightarrow> addr \<Rightarrow> u32 \<Rightarrow> u32 \<Rightarrow> (u32 \<times> kernel) outcome" where
  "allocuvm_loop k pgdir a oldsz newsz =
     (if a < newsz then
        andThen (alloc_evict k)
          (\<lambda>k. case kkalloc k of (page, k) \<Rightarrow>
             if page = 0 then
               andThen (kprintf k ''allocuvm out of memory\<newline>'' [])
                 (\<lambda>k. andThen (deallocuvm k pgdir newsz oldsz) (\<lambda>(r, k). Ok (0, k)))
             else
               andThen (phys_call (k\<lparr>kphys := (kphys k)\<lparr>mem := memset (mem (kphys k)) page 0 PGSIZE\<rparr>\<rparr>)
                          (\<lambda>m. mappages m pgdir a PGSIZE (V2P page) (PTE_W OR PTE_U)))
                 (\<lambda>(r, k). if r < 0 then
                      andThen (kprintf k ''allocuvm out of memory (2)\<newline>'' [])
                        (\<lambda>k. andThen (deallocuvm k pgdir newsz oldsz)
                           (\<lambda>(r, k). andThen (phys_do k (\<lambda>m. kfree m page)) (\<lambda>k. Ok (0, k))))
                    else
                      andThen (alloc_record k a)
                        (\<lambda>k. if a + PGSIZE \<le> a then Fault ''allocuvm: address wraps''
                             else allocuvm_loop k pgdir (a + PGSIZE) oldsz newsz)))
      else Ok (newsz, k))"
  by pat_completeness auto
termination
proof (relation "measure (\<lambda>(k, pgdir, a, oldsz, newsz). unat newsz - unat a)", goal_cases)
  case (2 k pgdir a oldsz newsz)
  then have "unat a < unat newsz" "unat a < unat (a + PGSIZE)" by (simp_all add: word_less_nat_alt word_le_nat_alt not_le)
  then show ?case by simp
qed simp

declare allocuvm_loop.simps [simp del]

definition allocuvm :: "kernel \<Rightarrow> addr \<Rightarrow> u32 \<Rightarrow> u32 \<Rightarrow> (u32 \<times> kernel) outcome" where
  "allocuvm k pgdir oldsz newsz =
     (if newsz \<ge> KERNBASE then Ok (0, k)
      else if newsz < oldsz then Ok (oldsz, k)
      else allocuvm_loop k pgdir (PGROUNDUP oldsz) oldsz newsz)"

section \<open>Loading and copying\<close>

fun store_bytes :: "memory \<Rightarrow> addr \<Rightarrow> byte list \<Rightarrow> memory" where
  "store_bytes m a [] = m"
| "store_bytes m a (b # bs) = store_bytes (m(a := b)) (a + 1) bs"

text \<open>\<^verbatim>\<open>readi\<close> stores what it read even when it is short; the result is compared as an unsigned number.\<close>

function loaduvm_loop :: "kernel \<Rightarrow> addr \<Rightarrow> addr \<Rightarrow> nat \<Rightarrow> u32 \<Rightarrow> u32 \<Rightarrow> u32 \<Rightarrow> (int \<times> kernel) outcome" where
  "loaduvm_loop k pgdir a ip off sz i =
     (if i < sz then
        case walkpgdir (kphys k) pgdir (a + i) False of (pte, _) \<Rightarrow>
          if pte = 0 then Panic ''loaduvm: address should exist''
          else
            let pa = PTE_ADDR (load32 (mem (kphys k)) pte);
                n = (if sz - i < PGSIZE then sz - i else PGSIZE)
            in andThen (readi (fs_enter k) ip (off + i) n)
                 (\<lambda>((r, bs), k).
                    let k = k\<lparr>kphys := (kphys k)\<lparr>mem := store_bytes (mem (kphys k)) (P2V pa) bs\<rparr>\<rparr>
                    in if of_int r \<noteq> n then Ok (- 1, k)
                       else if i + PGSIZE \<le> i then Fault ''loaduvm: offset wraps''
                       else loaduvm_loop k pgdir a ip off sz (i + PGSIZE))
      else Ok (0, k))"
  by pat_completeness auto
termination
proof (relation "measure (\<lambda>(k, pgdir, a, ip, off, sz, i). unat sz - unat i)", goal_cases)
  case (2 k pgdir a ip off sz i)
  then have "unat i < unat sz" "unat i < unat (i + PGSIZE)" by (simp_all add: word_less_nat_alt word_le_nat_alt not_le)
  then show ?case by simp
qed simp

declare loaduvm_loop.simps [simp del]

definition loaduvm :: "kernel \<Rightarrow> addr \<Rightarrow> addr \<Rightarrow> nat \<Rightarrow> u32 \<Rightarrow> u32 \<Rightarrow> (int \<times> kernel) outcome" where
  "loaduvm k pgdir a ip off sz =
     (if a mod PGSIZE \<noteq> 0 then Panic ''loaduvm: addr must be page aligned'' else loaduvm_loop k pgdir a ip off sz 0)"

text \<open>One page of \<^verbatim>\<open>copyuvm\<close>: false means no memory. A page in the swap file gets a frame of its own that is never
  used, and the entry of the parent is rewritten.\<close>

definition copyuvm_page :: "kernel \<Rightarrow> addr \<Rightarrow> addr \<Rightarrow> addr \<Rightarrow> (bool \<times> kernel) outcome" where
  "copyuvm_page k pgdir d i =
     (case walkpgdir (kphys k) pgdir i False of (pte, _) \<Rightarrow>
        if pte = 0 then Panic ''copyuvm: pte should exist''
        else
          let e = load32 (mem (kphys k)) pte
          in if e AND PTE_P = 0 \<and> e AND PTE_PG = 0 then Panic ''copyuvm: page not present''
             else
               let paged_out = (e AND PTE_PG > 0);
                   e = (if paged_out then PTE_PG OR PTE_U OR PTE_W else e);
                   k = (if paged_out then k\<lparr>kphys := (kphys k)\<lparr>mem := store32 (mem (kphys k)) pte e\<rparr>\<rparr> else k)
               in case kkalloc k of (page, k) \<Rightarrow>
                    if page = 0 then Ok (False, k)
                    else
                      andThen (phys_call (k\<lparr>kphys := (kphys k)\<lparr>mem := memmove (mem (kphys k)) page (P2V (PTE_ADDR e)) PGSIZE\<rparr>\<rparr>)
                                 (\<lambda>m. mappages m d i PGSIZE (V2P page) (PTE_FLAGS e)))
                        (\<lambda>(r, k). if r < 0 then Ok (False, k)
                           else if paged_out then
                             (case walkpgdir (kphys k) d i False of (pte, _) \<Rightarrow>
                                if pte = 0 then Fault ''copyuvm: null pte''
                                else Ok (True, k\<lparr>kphys := (kphys k)\<lparr>mem := store32 (mem (kphys k)) pte (load32 (mem (kphys k)) pte AND NOT PTE_P)\<rparr>\<rparr>))
                           else Ok (True, k)))"

function copyuvm_loop :: "kernel \<Rightarrow> addr \<Rightarrow> addr \<Rightarrow> u32 \<Rightarrow> addr \<Rightarrow> (addr \<times> kernel) outcome" where
  "copyuvm_loop k pgdir d sz i =
     (if i < sz then
        andThen (copyuvm_page k pgdir d i)
          (\<lambda>(more, k). if \<not> more then andThen (freevm k d) (\<lambda>k. Ok (0, k))
             else if i + PGSIZE \<le> i then Fault ''copyuvm: address wraps''
             else copyuvm_loop k pgdir d sz (i + PGSIZE))
      else Ok (d, k))"
  by pat_completeness auto
termination
proof (relation "measure (\<lambda>(k, pgdir, d, sz, i). unat sz - unat i)", goal_cases)
  case (2 k pgdir d sz i)
  then have "unat i < unat sz" "unat i < unat (i + PGSIZE)" by (simp_all add: word_less_nat_alt word_le_nat_alt not_le)
  then show ?case by simp
qed simp

declare copyuvm_loop.simps [simp del]

definition copyuvm :: "kernel \<Rightarrow> addr \<Rightarrow> u32 \<Rightarrow> (addr \<times> kernel) outcome" where
  "copyuvm k pgdir sz =
     andThen (setupkvm k) (\<lambda>(d, k). if d = 0 then Ok (0, k) else copyuvm_loop k pgdir d sz 0)"

section \<open>Ranges of pages\<close>

definition in_range :: "addr \<Rightarrow> u32 \<Rightarrow> addr \<Rightarrow> bool" where
  "in_range a sz v \<longleftrightarrow> a \<le> PGROUNDDOWN v \<and> PGROUNDDOWN v < sz"

lemma next_page_unat: "a < sz \<Longrightarrow> sz \<le> KERNBASE \<Longrightarrow> unat (a + PGSIZE) = unat a + 4096"
  by (simp add: word_less_nat_alt word_le_nat_alt unat_word_ariths)

lemma in_range_step:
  assumes "page_aligned a" "a < sz" "sz \<le> KERNBASE"
  shows "in_range a sz v \<longleftrightarrow> PGROUNDDOWN v = a \<or> in_range (a + PGSIZE) sz v"
proof -
  obtain q where q: "unat a = 4096 * q" using assms(1) by (auto simp: page_aligned_unat)
  obtain r where r: "unat (PGROUNDDOWN v) = 4096 * r" by (simp add: unat_PGROUNDDOWN)
  have n: "unat (a + PGSIZE) = 4096 * Suc q" using next_page_unat [OF assms(2,3)] q by simp
  have "a \<le> PGROUNDDOWN v \<longleftrightarrow> q \<le> r" "a + PGSIZE \<le> PGROUNDDOWN v \<longleftrightarrow> Suc q \<le> r" "PGROUNDDOWN v = a \<longleftrightarrow> r = q"
    unfolding word_le_nat_alt word_unat_eq_iff n q r by auto
  then show ?thesis using assms(2) unfolding in_range_def by auto
qed

lemma unat_PDX: "unat (PDX a) = unat a div 2 ^ 22"
proof -
  have "PDX a = drop_bit 22 a"
    by (rule bit_word_eqI) (auto simp: bit_PDX bit_drop_bit_eq dest: bit_imp_le_length)
  then show ?thesis by (simp add: drop_bit_eq_div unat_div)
qed

lemma skip_table:
  assumes "a < KERNBASE"
  defines "c \<equiv> PGADDR (PDX a + 1) 0 0"
  shows "unat c = (unat a div 2 ^ 22 + 1) * 2 ^ 22" "a < c" "page_aligned c" "in_range a sz v \<Longrightarrow> \<not> in_range c sz v \<Longrightarrow> PDX v = PDX a"
proof -
  have a: "unat a div 2 ^ 22 < 512" using assms(1) by (simp add: word_less_nat_alt less_mult_imp_div_less)
  obtain w where w: "w = PDX a + 1" by simp
  then have "unat w = unat a div 2 ^ 22 + 1" using a unat_PDX [of a] by (simp add: unat_word_ariths)
  moreover have "unat c = unat w * 2 ^ 22 mod 2 ^ 32"
    unfolding c_def w [symmetric] by (simp add: PGADDR_def push_bit_eq_mult unat_word_ariths)
  ultimately show c: "unat c = (unat a div 2 ^ 22 + 1) * 2 ^ 22" using a by simp
  show "a < c" unfolding word_less_nat_alt c using dividend_less_div_times [of "2 ^ 22" "unat a"] by simp
  show "page_aligned c" unfolding page_aligned_unat c by simp
  show "PDX v = PDX a" if "in_range a sz v" "\<not> in_range c sz v"
  proof -
    have "unat a \<le> unat (PGROUNDDOWN v)" "unat (PGROUNDDOWN v) < unat c"
      using that by (auto simp: in_range_def word_le_nat_alt word_less_nat_alt)
    then have "unat (PGROUNDDOWN v) div 2 ^ 22 = unat a div 2 ^ 22" unfolding c
      by (metis div_le_mono less_Suc_eq_le less_mult_imp_div_less le_antisym Suc_eq_plus1)
    then have "unat (PDX (PGROUNDDOWN v)) = unat (PDX a)" by (simp add: unat_PDX)
    moreover have "PDX (PGROUNDDOWN v) = PDX v" using PDX_PTX_inj [of "PGROUNDDOWN v" v] by simp
    ultimately show ?thesis by (simp add: word_unat_eq_iff)
  qed
qed

section \<open>Shrinking an address space\<close>

text \<open>What freeing the frames \<open>ys\<close> of the pages in a range leaves.\<close>

definition freed :: "phys \<Rightarrow> addr \<Rightarrow> addr list \<Rightarrow> (addr \<Rightarrow> bool) \<Rightarrow> addr list \<Rightarrow> phys \<Rightarrow> bool" where
  "freed s d xs R ys s' \<longleftrightarrow> uvm_wf s' d (ys @ xs) \<and> kend s' = kend s \<and> tables (mem s') d = tables (mem s) d \<and>
     (\<forall>v. present (mem s') d v \<longleftrightarrow> present (mem s) d v \<and> \<not> R v) \<and>
     (\<forall>v. \<not> R v \<longrightarrow> pte_val (mem s') d v = pte_val (mem s) d v) \<and>
     set ys = user_frame (mem s) d ` {v. v < KERNBASE \<and> R v \<and> present (mem s) d v} \<and>
     (\<forall>q. q \<notin> tables (mem s) d \<union> set ys \<longrightarrow> same_page (mem s') (mem s) q)"

lemma freed_none: "uvm_wf s d xs \<Longrightarrow> (\<And>v. R v \<Longrightarrow> v < KERNBASE \<Longrightarrow> \<not> present (mem s) d v) \<Longrightarrow> (\<And>v. R v \<Longrightarrow> v < KERNBASE) \<Longrightarrow> freed s d xs R [] s"
  by (auto simp: freed_def)

lemma freed_trans:
  assumes "freed s d xs R ys s1" "freed s1 d (ys @ xs) R' zs s2" "\<And>v. R'' v \<longleftrightarrow> R v \<or> R' v"
  shows "freed s d xs R'' (zs @ ys) s2"
proof -
  have "set (zs @ ys) = user_frame (mem s) d ` {v. v < KERNBASE \<and> R'' v \<and> present (mem s) d v}"
    using assms unfolding freed_def by (auto simp: user_frame_def image_iff)
  moreover have "same_page (mem s2) (mem s) q" if "q \<notin> tables (mem s) d \<union> set (zs @ ys)" for q
    using assms(1,2) that unfolding freed_def by (metis (no_types, lifting) UnCI UnE set_append same_page_trans)
  ultimately show ?thesis using assms unfolding freed_def by (auto simp: append_assoc)
qed

text \<open>Freeing one mapped page.\<close>

lemma unmap_page:
  assumes "uvm_wf s d xs" "va < KERNBASE" "page_aligned va" "present (mem s) d va"
  defines "f \<equiv> user_frame (mem s) d va"
  shows "\<exists>s1. kfree s f = Ok s1 \<and> freed s d xs (\<lambda>v. PGROUNDDOWN v = va) [f] (s1\<lparr>mem := store32 (mem s1) (pte_ptr (mem s) d va) 0\<rparr>)"
proof -
  note wf = uvm_wfD [OF assms(1)]
  have al: "PGROUNDDOWN va = va" using assms(3) by (simp add: page_aligned_iff)
  have pd: "pde_present (mem s) d (PDX va)" by (rule present_pde [OF assms(4)])
  obtain s1 where s1: "kfree s f = Ok s1" "pt_wf s1 d (f # xs)" "s1 = s\<lparr>mem := mem s1, freelist := freelist s1\<rparr>"
    "\<forall>v. pte_val (mem s1) d v = pte_val (mem s) d v" "tables (mem s1) d = tables (mem s) d"
    "\<forall>i<1024. pde_present (mem s1) d i = pde_present (mem s) d i" "\<forall>q. q \<noteq> f \<longrightarrow> same_page (mem s1) (mem s) q"
    using kfree_frame [OF assms(1,2,4)] unfolding f_def by blast
  have pd1: "pde_present (mem s1) d (PDX va)" using pd s1(6) PDX_less by blast
  have "same_page (mem s1) (mem s) d" using s1(7) wf(3) [OF assms(2,4)] unfolding f_def by auto
  then have pp: "pte_ptr (mem s1) d va = pte_ptr (mem s) d va"
    using pde_same_page(3) [OF _ pt_wfD(4) [OF wf(1)] PDX_less] by (simp add: pte_ptr_def)
  let ?s2 = "s1\<lparr>mem := store32 (mem s1) (pte_ptr (mem s1) d va) 0\<rparr>"
  note S = set_pte [OF s1(2) pd1, where w = 0]
  have np: "\<not> present (mem ?s2) d v" if "PGROUNDDOWN v = va" for v using S(2) [of v] that al by (simp add: present_def)
  have eq: "pte_val (mem ?s2) d v = pte_val (mem s) d v" if "PGROUNDDOWN v \<noteq> va" for v using S(2) [of v] s1(4) that al by simp
  have oth: "present (mem s) d v \<and> user_frame (mem ?s2) d v = user_frame (mem s) d v \<and> PGROUNDDOWN v \<noteq> va" if "present (mem ?s2) d v" for v
    using eq np that unfolding present_def user_frame_def by metis
  have tb: "tables (mem ?s2) d = tables (mem s) d" using S(4) s1(5) by simp
  have ke: "kend ?s2 = kend s" using arg_cong [OF s1(3), of kend] by simp
  then have kp: "kpage ?s2 = kpage s" by (rule kpage_cong)
  have nf: "user_frame (mem s) d v \<noteq> f" if "v < KERNBASE" "present (mem s) d v" "PGROUNDDOWN v \<noteq> va" for v
    using wf(4) [OF that(1) assms(2) that(2) assms(4)] that(3) al by (auto simp: f_def)
  have fr: "kpage ?s2 (user_frame (mem ?s2) d v) \<and> user_frame (mem ?s2) d v \<notin> insert d (tables (mem ?s2) d \<union> set (f # xs))"
    if "v < KERNBASE" "present (mem ?s2) d v" for v
    using oth [OF that(2)] wf(2,3) [OF that(1)] nf [OF that(1)] unfolding tb kp by auto
  have "PGROUNDDOWN v = PGROUNDDOWN v'" if "v < KERNBASE" "v' < KERNBASE" "present (mem ?s2) d v" "present (mem ?s2) d v'"
    "user_frame (mem ?s2) d v = user_frame (mem ?s2) d v'" for v v'
    using wf(4) [OF that(1,2)] oth [OF that(3)] oth [OF that(4)] that(5) by auto
  then have "uvm_wf ?s2 d (f # xs)" unfolding uvm_wf_def using S(1) fr by blast
  moreover have "user_frame (mem s) d v = f" if "PGROUNDDOWN v = va" for v using user_frame_page [of v va "mem s" d] that al by (simp add: f_def)
  then have "set [f] = user_frame (mem s) d ` {v. v < KERNBASE \<and> PGROUNDDOWN v = va \<and> present (mem s) d v}"
    using assms(2,4) al by (auto simp: image_iff intro!: exI [of _ va])
  moreover have "same_page (mem ?s2) (mem s) q" if "q \<notin> tables (mem s) d \<union> set [f]" for q
    using same_page_trans [of "mem ?s2" "mem s1" q "mem s"] S(3) [of q] s1(5,7) that by simp
  moreover have "present (mem ?s2) d v \<longleftrightarrow> present (mem s) d v \<and> PGROUNDDOWN v \<noteq> va" for v
    using np [of v] eq [of v] by (cases "PGROUNDDOWN v = va") (simp_all add: present_def)
  ultimately show ?thesis using s1(1) tb ke eq unfolding freed_def pp [symmetric] by auto
qed

lemma kphys_dealloc_meta [simp]: "kphys (dealloc_meta k d a) = kphys k"
  by (simp add: dealloc_meta_def split: option.splits)

lemma dealloc_page_ok:
  assumes "uvm_wf (kphys k) d xs" "KERNBASE < kend (kphys k)" "page_aligned a" "a < sz" "sz \<le> KERNBASE"
  shows "\<exists>b k1 ys R. dealloc_page k d a = Ok (b, k1) \<and> freed (kphys k) d xs R ys (kphys k1) \<and> a < b + PGSIZE \<and> page_aligned (b + PGSIZE) \<and>
    (\<forall>v. in_range a sz v \<longleftrightarrow> R v \<or> in_range (b + PGSIZE) sz v)"
proof -
  note wf = uvm_wfD [OF assms(1)]
  let ?s = "kphys k"
  have akb: "a < KERNBASE" using assms(4,5) by (rule less_le_trans)
  have st: "a < a + PGSIZE" "page_aligned (a + PGSIZE)" using next_page_unat [OF assms(4,5)] page_aligned_next [OF assms(3)] by (simp_all add: word_less_nat_alt)
  note inr = in_range_step [OF assms(3-5)]
  have lowr: "v < KERNBASE" if "in_range a sz v" for v
  proof -
    have "unat (PGROUNDDOWN v) < 2 ^ 31" using that assms(5) by (simp add: in_range_def word_less_nat_alt word_le_nat_alt)
    then show ?thesis by (simp add: unat_PGROUNDDOWN word_less_nat_alt)
  qed
  consider "\<not> pde_present (mem ?s) d (PDX a)" | "pde_present (mem ?s) d (PDX a)" "\<not> present (mem ?s) d a" | "present (mem ?s) d a" by blast
  then show ?thesis
  proof cases
    case 1
    let ?c = "PGADDR (PDX a + 1) 0 0"
    note K = skip_table [OF akb]
    let ?R = "\<lambda>v. in_range a sz v \<and> \<not> in_range ?c sz v"
    have "dealloc_page k d a = Ok (?c - PGSIZE, k)" using 1 by (simp add: dealloc_page_def walkpgdir_absent)
    moreover have "freed ?s d xs ?R [] ?s"
      using K(4) 1 present_pde lowr by (intro freed_none [OF assms(1)]) metis+
    moreover have "in_range a sz v" if "in_range ?c sz v" for v using that K(2) by (auto simp: in_range_def)
    ultimately show ?thesis using K(2,3) by (intro exI [of _ "?c - PGSIZE"] exI [of _ k] exI [of _ "[]"] exI [of _ ?R]) auto
  next
    case 2
    have "load32 (mem ?s) (pte_ptr (mem ?s) d a) AND PTE_P = 0" using 2 by (simp add: present_def pte_val_def)
    then have "dealloc_page k d a = Ok (a, k)"
      using 2(1) pte_ptr_nonzero [OF wf(1) 2(1)] by (simp add: dealloc_page_def walkpgdir_present Let_def)
    moreover have np: "\<not> present (mem ?s) d v" if "PGROUNDDOWN v = a" for v
      using 2(2) present_page [of v a "mem ?s" d] assms(3) that by (simp add: page_aligned_iff)
    then have "freed ?s d xs (\<lambda>v. PGROUNDDOWN v = a) [] ?s" using lowr inr by (intro freed_none [OF assms(1)]) blast+
    ultimately show ?thesis using st inr by blast
  next
    case 3
    have pd: "pde_present (mem ?s) d (PDX a)" by (rule present_pde [OF 3])
    have ld: "load32 (mem ?s) (pte_ptr (mem ?s) d a) = pte_val (mem ?s) d a" using pd by (simp add: pte_val_def)
    obtain s1 where s1: "kfree ?s (user_frame (mem ?s) d a) = Ok s1"
      "freed ?s d xs (\<lambda>v. PGROUNDDOWN v = a) [user_frame (mem ?s) d a] (s1\<lparr>mem := store32 (mem s1) (pte_ptr (mem ?s) d a) 0\<rparr>)"
      using unmap_page [OF assms(1) akb assms(3) 3] by blast
    have "KERNBASE < user_frame (mem ?s) d a" using wf(2) [OF akb 3] assms(2) by (auto simp: kpage_def)
    then have "PTE_ADDR (pte_val (mem ?s) d a) \<noteq> 0" by (auto simp: user_frame_def P2V_def)
    then have "dealloc_page k d a = Ok (a, (dealloc_meta k d a)\<lparr>kphys := s1\<lparr>mem := store32 (mem s1) (pte_ptr (mem ?s) d a) 0\<rparr>\<rparr>)"
      using pd pte_ptr_nonzero [OF wf(1) pd] 3 s1(1)
      by (simp add: dealloc_page_def walkpgdir_present Let_def ld present_def [symmetric] phys_do_def user_frame_def)
    then show ?thesis using st inr s1(2) by force
  qed
qed

lemma dealloc_loop_ok:
  assumes "uvm_wf (kphys k) d xs" "KERNBASE < kend (kphys k)" "page_aligned a" "sz \<le> KERNBASE"
  shows "\<exists>k' ys. dealloc_loop k d a sz = Ok k' \<and> freed (kphys k) d xs (in_range a sz) ys (kphys k')"
  using assms
proof (induction k d a sz arbitrary: xs rule: dealloc_loop.induct)
  case (1 k d a sz)
  show ?case
  proof (cases "a < sz")
    case True
    obtain b k1 ys R where b: "dealloc_page k d a = Ok (b, k1)" "freed (kphys k) d xs R ys (kphys k1)" "a < b + PGSIZE" "page_aligned (b + PGSIZE)"
      "\<forall>v. in_range a sz v \<longleftrightarrow> R v \<or> in_range (b + PGSIZE) sz v"
      using dealloc_page_ok [OF "1.prems"(1-3) True "1.prems"(4)] by blast
    have w: "uvm_wf (kphys k1) d (ys @ xs)" "KERNBASE < kend (kphys k1)" using b(2) "1.prems"(2) by (simp_all add: freed_def)
    obtain k' zs where k': "dealloc_loop k1 d (b + PGSIZE) sz = Ok k'" "freed (kphys k1) d (ys @ xs) (in_range (b + PGSIZE) sz) zs (kphys k')"
      using "1.IH" [OF True b(1) refl iffD2 [OF not_le b(3)] w b(4) "1.prems"(4)] by blast
    have "dealloc_loop k d a sz = Ok k'" using True b(1,3) k'(1) by (simp add: dealloc_loop.simps [of k])
    then show ?thesis using freed_trans [OF b(2) k'(2)] b(5) by blast
  next
    case False
    then have "\<not> in_range a sz v" for v by (auto simp: in_range_def)
    then show ?thesis using False "1.prems"(1) by (auto simp: dealloc_loop.simps [of k] intro!: freed_none exI [of _ "[]"])
  qed
qed

text \<open>C11: deallocuvm from oldsz (at most KERNBASE) to newsz never panics, whichever tables are missing: it frees exactly the
  frames of the present pages from newsz rounded up to oldsz, unmaps those pages and no other, and every user byte
  below stays what it was.\<close>

theorem deallocuvm_frees_range:
  assumes "uvm_wf (kphys k) pgdir xs" "KERNBASE < kend (kphys k)" "newsz < oldsz" "oldsz \<le> KERNBASE"
  shows "\<exists>k' ys. deallocuvm k pgdir oldsz newsz = Ok (newsz, k') \<and> uvm_wf (kphys k') pgdir (ys @ xs) \<and>
    set ys = user_frame (mem (kphys k)) pgdir ` {v. v < KERNBASE \<and> PGROUNDUP newsz \<le> PGROUNDDOWN v \<and> PGROUNDDOWN v < oldsz \<and> present (mem (kphys k)) pgdir v} \<and>
    (\<forall>v. present (mem (kphys k')) pgdir v \<longleftrightarrow>
       present (mem (kphys k)) pgdir v \<and> \<not> (PGROUNDUP newsz \<le> PGROUNDDOWN v \<and> PGROUNDDOWN v < oldsz)) \<and>
    (\<forall>v<KERNBASE. present (mem (kphys k')) pgdir v \<longrightarrow> ubyte (mem (kphys k')) pgdir v = ubyte (mem (kphys k)) pgdir v)"
proof -
  let ?a = "PGROUNDUP newsz" and ?s = "kphys k"
  obtain k' ys where k': "dealloc_loop k pgdir ?a oldsz = Ok k'" "freed ?s pgdir xs (in_range ?a oldsz) ys (kphys k')"
    using dealloc_loop_ok [OF assms(1,2) page_aligned_PGROUNDUP assms(4)] by blast
  note F = k'(2) [unfolded freed_def in_range_def]
  have "ubyte (mem (kphys k')) pgdir v = ubyte (mem ?s) pgdir v" if v: "v < KERNBASE" "present (mem (kphys k')) pgdir v" for v
  proof (rule ubyte_same)
    have p: "present (mem ?s) pgdir v" and e: "pte_val (mem (kphys k')) pgdir v = pte_val (mem ?s) pgdir v" using F v(2) by blast+
    have uf: "user_frame (mem (kphys k')) pgdir v = user_frame (mem ?s) pgdir v" using e by (simp add: user_frame_def)
    have w': "uvm_wf (kphys k') pgdir (ys @ xs)" using F by blast
    have "user_frame (mem ?s) pgdir v \<notin> tables (mem ?s) pgdir \<union> set ys"
      using uvm_wfD(3) [OF w' v] uf F by auto
    then show "same_page (mem (kphys k')) (mem ?s) (user_frame (mem ?s) pgdir v)" using F by blast
    show "page_aligned (user_frame (mem ?s) pgdir v)" using uvm_wfD(2) [OF assms(1) v(1) p] by (simp add: kpage_def)
    show "pte_val (mem (kphys k')) pgdir v = pte_val (mem ?s) pgdir v" by (rule e)
  qed
  moreover have "deallocuvm k pgdir oldsz newsz = Ok (newsz, k')" using assms(3) k'(1) by (auto simp: deallocuvm_def)
  moreover note F
  ultimately show ?thesis by (intro exI [of _ k'] exI [of _ ys]) (simp only: conj_assoc simp_thms, blast)
qed

theorem deallocuvm_frees_range_witness:
  "\<exists>k' ys. deallocuvm demo_kernel 0x80200000 4096 0 = Ok (0, k') \<and> \<not> present (mem (kphys k')) 0x80200000 0 \<and> uvm_wf (kphys k') 0x80200000 (ys @ [0x80500000])"
proof -
  have "uvm_wf (kphys demo_kernel) 0x80200000 [0x80500000]" "KERNBASE < kend (kphys demo_kernel)"
    using demo_uvm by (simp_all add: demo_kernel_fields(2) demo_phys_def boot_state_def)
  from deallocuvm_frees_range [OF this, of 0 4096] show ?thesis by (auto simp: PGROUNDUP_def PGROUNDDOWN_def)
qed

end
