(* ===== verification/Proc.thy ===== *)
theory Proc
  imports Uvm
begin

text \<open>
  Processes (proc.c). A process is its index in the process table. Control moves between a process and the
  scheduler at \<^verbatim>\<open>sched\<close>: the code before it is one function here and the code after it runs when the process
  is picked again. A call that has to wait returns \<open>Sleep\<close>. Critical sections under \<^verbatim>\<open>ptable.lock\<close> are atomic;
  the checks of \<^verbatim>\<open>sched\<close> on that lock and on the interrupt flag are in the theory of spin locks. The contents of
  a new trap frame are whatever the page of the stack held; both callers of \<^verbatim>\<open>allocproc\<close> overwrite it.
\<close>

section \<open>Creating processes\<close>

definition zero_context :: kcontext where
  "zero_context = \<lparr>c_edi = 0, c_esi = 0, c_ebx = 0, c_ebp = 0, c_eip = 0\<rparr>"

definition zero_tf :: trapframe where
  "zero_tf = \<lparr>tf_edi = 0, tf_esi = 0, tf_ebp = 0, tf_ebx = 0, tf_edx = 0, tf_ecx = 0, tf_eax = 0, tf_gs = 0, tf_fs = 0, tf_es = 0, tf_ds = 0,
     tf_trapno = 0, tf_err = 0, tf_eip = 0, tf_cs = 0, tf_eflags = 0, tf_esp = 0, tf_ss = 0\<rparr>"

text \<open>The stack of a new process: the trap frame (76 bytes), the address of \<^verbatim>\<open>trapret\<close> below it, then the context.\<close>

definition allocproc :: "kernel \<Rightarrow> nat option \<times> kernel" where
  "allocproc k =
     (case first_idx (\<lambda>p. p_state p = UNUSED) (procs k) of
        None \<Rightarrow> (None, k)
      | Some i \<Rightarrow>
          let k = upd_proc k i (\<lambda>p. p\<lparr>p_state := EMBRYO, p_pid := nextpid k\<rparr>);
              k = k\<lparr>nextpid := nextpid k + 1\<rparr>
          in case kkalloc k of (stack, k) \<Rightarrow>
               let k = upd_proc k i (\<lambda>p. p\<lparr>p_kstack := stack\<rparr>)
               in if stack = 0 then (None, upd_proc k i (\<lambda>p. p\<lparr>p_state := UNUSED\<rparr>))
                  else
                    let sp = stack + KSTACKSIZE - 76 - 4;
                        k = k\<lparr>kphys := (kphys k)\<lparr>mem := store32 (mem (kphys k)) sp (trapret_addr k)\<rparr>\<rparr>
                    in (Some i, upd_proc k i (\<lambda>p. p\<lparr>p_context := zero_context\<lparr>c_eip := forkret_addr k\<rparr>\<rparr>)))"

definition user_tf :: trapframe where
  "user_tf = zero_tf\<lparr>tf_cs := 0x1b, tf_ds := 0x23, tf_es := 0x23, tf_ss := 0x23, tf_eflags := 0x200, tf_esp := PGSIZE, tf_eip := 0\<rparr>"

text \<open>\<open>init\<close> and \<open>sz\<close> are the address and the size of the program that the linker embeds.\<close>

definition userinit :: "kernel \<Rightarrow> addr \<Rightarrow> u32 \<Rightarrow> kernel outcome" where
  "userinit k init sz =
     (case allocproc k of
        (None, k) \<Rightarrow> Fault ''userinit: null process''
      | (Some i, k) \<Rightarrow>
          andThen (setupkvm (k\<lparr>initproc := Some i\<rparr>))
            (\<lambda>(pgdir, k). let k = upd_proc k i (\<lambda>p. p\<lparr>p_pgdir := pgdir\<rparr>)
               in if pgdir = 0 then Panic ''userinit: out of memory?''
                  else
                    andThen (phys_do k (\<lambda>m. inituvm m pgdir init sz))
                      (\<lambda>k. let k = upd_proc k i (\<lambda>p. p\<lparr>p_sz := PGSIZE, p_tf := user_tf, page_faults := 0, num_pageouts := 0,
                                 p_name := overwrite 0 (safestrcpy (str ''initcode'' @ [0]) 16) (p_name p)\<rparr>)
                           in andThen (namei (fs_enter k) (str ''/''))
                                (\<lambda>(cwd, k). Ok (upd_proc k i (\<lambda>p. p\<lparr>p_cwd := cwd, p_state := RUNNABLE\<rparr>))))))"

definition growproc :: "kernel \<Rightarrow> int \<Rightarrow> (int \<times> kernel) outcome" where
  "growproc k n =
     my k (\<lambda>i.
       let pgdir = p_pgdir (procs k ! i); sz = p_sz (procs k ! i)
       in andThen (if n > 0 then allocuvm k pgdir sz (sz + of_int n)
                   else if n < 0 then deallocuvm k pgdir sz (sz + of_int n)
                   else Ok (sz, k))
            (\<lambda>(sz, k). if n \<noteq> 0 \<and> sz = 0 then Ok (- 1, k)
               else
                 let k = upd_proc k i (\<lambda>p. p\<lparr>p_sz := sz\<rparr>)
                 in andThen (switchuvm k (Some i)) (\<lambda>k. Ok (0, k))))"

definition fork_file :: "nat \<Rightarrow> nat \<Rightarrow> nat \<Rightarrow> kernel \<Rightarrow> kernel outcome" where
  "fork_file i np fd k =
     (case p_ofile (procs k ! i) ! fd of
        None \<Rightarrow> Ok k
      | Some f \<Rightarrow> andThen (filedup k f) (\<lambda>(g, k). Ok (upd_proc k np (\<lambda>p. p\<lparr>p_ofile := (p_ofile p)[fd := Some g]\<rparr>))))"

text \<open>The part of \<^verbatim>\<open>fork\<close> for the swap file of the child.\<close>

definition fork_swap :: "kernel \<Rightarrow> nat \<Rightarrow> nat \<Rightarrow> kernel outcome" where
  "fork_swap k i np =
     (if SELECTION k = NONE then Ok k
      else
        andThen (if is_user_proc (procs k ! np)
                 then andThen (createSwapFile k np) (\<lambda>(r, k). if r \<noteq> 0 then Panic ''fork_create swapfile'' else Ok k)
                 else Ok k)
          (\<lambda>k. andThen (if is_user_proc (procs k ! i) then andThen (copy_parent_swapfile k np i) (\<lambda>(r, k). Ok k) else Ok k)
             (\<lambda>k. Ok (upd_proc k np (\<lambda>p. p\<lparr>page_faults := 0, num_pageouts := 0\<rparr>)))))"

definition fork :: "kernel \<Rightarrow> (int \<times> kernel) outcome" where
  "fork k =
     my k (\<lambda>i. case allocproc k of
       (None, k) \<Rightarrow> Ok (- 1, k)
     | (Some np, k) \<Rightarrow>
         andThen (copyuvm k (p_pgdir (procs k ! i)) (p_sz (procs k ! i)))
           (\<lambda>(pgdir, k). let k = upd_proc k np (\<lambda>p. p\<lparr>p_pgdir := pgdir\<rparr>)
              in if pgdir = 0 then
                   andThen (phys_do k (\<lambda>m. kfree m (p_kstack (procs k ! np))))
                     (\<lambda>k. Ok (- 1, upd_proc k np (\<lambda>p. p\<lparr>p_kstack := 0, p_state := UNUSED\<rparr>)))
                 else
                   let q = procs k ! i;
                       k = upd_proc k np (\<lambda>p. p\<lparr>p_sz := p_sz q, p_parent := Some i, p_tf := (p_tf q)\<lparr>tf_eax := 0\<rparr>\<rparr>)
                   in andThen (for_each (fork_file i np) [0..<NOFILE] k)
                        (\<lambda>k. case p_cwd q of
                           None \<Rightarrow> Fault ''idup: null inode''
                         | Some cwd \<Rightarrow>
                             (case idup k cwd of (c, k) \<Rightarrow>
                                let k = upd_proc k np (\<lambda>p. p\<lparr>p_cwd := Some c, p_name := overwrite 0 (safestrcpy (p_name q) 16) (p_name p)\<rparr>)
                                in andThen (fork_swap k i np)
                                     (\<lambda>k. Ok (p_pid (procs k ! np), upd_proc k np (\<lambda>p. p\<lparr>p_state := RUNNABLE\<rparr>)))))))"

section \<open>Scheduling\<close>

text \<open>\<^verbatim>\<open>swtch\<close> to the scheduler, which leaves the address space of the process.\<close>

definition sched :: "kernel \<Rightarrow> kernel outcome" where
  "sched k = my k (\<lambda>i. if p_state (procs k ! i) = RUNNING then Panic ''sched running'' else Ok ((switchkvm k)\<lparr>cur := None\<rparr>))"

text \<open>The scheduler goes round the table; \<open>pos\<close> is where its inner loop stands.\<close>

definition next_runnable :: "kernel \<Rightarrow> nat \<Rightarrow> nat option" where
  "next_runnable k pos = find (\<lambda>i. p_state (procs k ! i) = RUNNABLE) ([pos..<length (procs k)] @ [0..<pos])"

definition scheduler :: "kernel \<Rightarrow> nat \<Rightarrow> (nat option \<times> kernel) outcome" where
  "scheduler k pos =
     (case next_runnable k pos of
        None \<Rightarrow> Ok (None, k)
      | Some i \<Rightarrow>
          andThen (switchuvm (k\<lparr>cur := Some i\<rparr>) (Some i))
            (\<lambda>k. Ok (Some i, upd_proc k i (\<lambda>p. p\<lparr>p_state := RUNNING\<rparr>))))"

definition yield :: "kernel \<Rightarrow> kernel outcome" where
  "yield k = my k (\<lambda>i. sched (upd_proc k i (\<lambda>p. p\<lparr>p_state := RUNNABLE\<rparr>)))"

definition forkret :: "kernel \<Rightarrow> kernel outcome" where
  "forkret k =
     (if forkret_first k then andThen (iinit (k\<lparr>forkret_first := False\<rparr>) 1) (\<lambda>k. initlog k 1) else Ok k)"

definition sleep :: "kernel \<Rightarrow> chan \<Rightarrow> kernel outcome" where
  "sleep k c =
     (case cur k of
        None \<Rightarrow> Panic ''sleep''
      | Some i \<Rightarrow> sched (upd_proc k i (\<lambda>p. p\<lparr>p_chan := Some c, p_state := SLEEPING\<rparr>)))"

text \<open>What \<^verbatim>\<open>sleep\<close> does when the process runs again.\<close>

definition sleep_return :: "kernel \<Rightarrow> kernel outcome" where
  "sleep_return k = my k (\<lambda>i. Ok (upd_proc k i (\<lambda>p. p\<lparr>p_chan := None\<rparr>)))"

definition kill :: "kernel \<Rightarrow> int \<Rightarrow> int \<times> kernel" where
  "kill k pid =
     (case first_idx (\<lambda>p. p_pid p = pid) (procs k) of
        None \<Rightarrow> (- 1, k)
      | Some i \<Rightarrow> (0, upd_proc k i (\<lambda>p. p\<lparr>p_killed := True, p_state := (if p_state p = SLEEPING then RUNNABLE else p_state p)\<rparr>)))"

section \<open>Exit and wait\<close>

definition exit_file :: "nat \<Rightarrow> nat \<Rightarrow> kernel \<Rightarrow> kernel outcome" where
  "exit_file i fd k =
     (case p_ofile (procs k ! i) ! fd of
        None \<Rightarrow> Ok k
      | Some f \<Rightarrow> andThen (fileclose k f) (\<lambda>k. Ok (upd_proc k i (\<lambda>p. p\<lparr>p_ofile := (p_ofile p)[fd := None]\<rparr>))))"

text \<open>A null channel wakes nobody: a sleeping process has a channel.\<close>

definition wake_proc :: "kernel \<Rightarrow> nat option \<Rightarrow> kernel" where
  "wake_proc k p = (case p of None \<Rightarrow> k | Some i \<Rightarrow> wakeup1 k (Chan_proc i))"

definition reparent :: "nat \<Rightarrow> nat \<Rightarrow> kernel \<Rightarrow> kernel" where
  "reparent i j k =
     (if p_parent (procs k ! j) = Some i then
        let k' = upd_proc k j (\<lambda>p. p\<lparr>p_parent := initproc k\<rparr>)
        in if p_state (procs k ! j) = ZOMBIE then wake_proc k' (initproc k) else k'
      else k)"

definition exit_table :: "kernel \<Rightarrow> nat \<Rightarrow> kernel" where
  "exit_table k i =
     (let k = wake_proc k (p_parent (procs k ! i));
          k = fold (reparent i) [0..<length (procs k)] k
      in upd_proc k i (\<lambda>p. p\<lparr>p_state := ZOMBIE\<rparr>))"

definition state_name :: "procstate \<Rightarrow> byte list" where
  "state_name st =
     str (case st of UNUSED \<Rightarrow> ''unused'' | EMBRYO \<Rightarrow> ''embryo'' | SLEEPING \<Rightarrow> ''sleep '' | RUNNABLE \<Rightarrow> ''runble'' | RUNNING \<Rightarrow> ''run   '' | ZOMBIE \<Rightarrow> ''zombie'') @ [0]"

text \<open>The call stack of a sleeping process, followed through the saved frame pointers.\<close>

fun callerpcs_loop :: "nat \<Rightarrow> memory \<Rightarrow> addr \<Rightarrow> u32 list" where
  "callerpcs_loop 0 m ebp = []"
| "callerpcs_loop (Suc n) m ebp =
     (if ebp = 0 \<or> ebp < KERNBASE \<or> ebp = 0xffffffff then replicate (Suc n) 0
      else load32 m (ebp + 4) # callerpcs_loop n m (load32 m ebp))"

definition getcallerpcs :: "memory \<Rightarrow> addr \<Rightarrow> u32 list" where
  "getcallerpcs m v = callerpcs_loop 10 m (v - 8)"

definition procdump_one :: "nat \<Rightarrow> kernel \<Rightarrow> kernel outcome" where
  "procdump_one i k =
     (let p = procs k ! i
      in if p_state p = UNUSED then Ok k
         else
           andThen (kprintf k ''%d %s %s'' [Num (of_int (p_pid p)), Str (Some (state_name (p_state p))), Str (Some (p_name p))])
             (\<lambda>k. andThen (if SELECTION k = NONE then Ok k
                           else kprintf k '' %d %d %d %d''
                             [Num (of_nat (get_allocated_pages (paging_meta p))), Num (of_nat (numOfPagedOut (paging_meta p))), Num (page_faults p), Num (num_pageouts p)])
                (\<lambda>k. andThen (if p_state p = SLEEPING
                              then for_each (\<lambda>pc k. kprintf k '' %p'' [Num pc]) (takeWhile (\<lambda>pc. pc \<noteq> 0) (getcallerpcs (mem (kphys k)) (c_ebp (p_context p) + 8))) k
                              else Ok k)
                   (\<lambda>k. kprintf k ''\<newline>'' []))))"

definition procdump :: "kernel \<Rightarrow> kernel outcome" where
  "procdump k =
     andThen (for_each procdump_one [0..<length (procs k)] k)
       (\<lambda>k. if SELECTION k = NONE then Ok k
            else case num_free (kphys k) of
              None \<Rightarrow> Fault ''num_free: does not return''
            | Some n \<Rightarrow> kprintf k ''%d  /  %d  free pages in the system\<newline>''
                [Num (of_nat n), Num (of_nat n + initial_pages_num (kphys k))])"

definition exit :: "kernel \<Rightarrow> kernel outcome" where
  "exit k =
     my k (\<lambda>i.
       if cur k = initproc k then Panic ''init exiting''
       else
         andThen (if SELECTION k \<noteq> NONE \<and> is_user_proc (procs k ! i)
                  then andThen (removeSwapFile k i)
                         (\<lambda>(r, k). if r \<noteq> 0 then Panic ''remove_swap_file'' else Ok (set_meta k i (\<lambda>_. reset_paging_meta)))
                  else Ok k)
           (\<lambda>k. andThen (for_each (exit_file i) [0..<NOFILE] k)
              (\<lambda>k. case p_cwd (procs k ! i) of
                 None \<Rightarrow> Fault ''iput: null inode''
               | Some cwd \<Rightarrow>
                   andThen (begin_op k) (\<lambda>k. andThen (iput k cwd) (\<lambda>k. andThen (end_op k)
                     (\<lambda>k. let k = upd_proc k i (\<lambda>p. p\<lparr>p_cwd := None\<rparr>)
                          in andThen (if VERBOSE_PRINT k then procdump k else Ok k) (\<lambda>k. sched (exit_table k i))))))))"

definition reap :: "kernel \<Rightarrow> nat \<Rightarrow> kernel outcome" where
  "reap k j =
     andThen (phys_do k (\<lambda>m. kfree m (p_kstack (procs k ! j))))
       (\<lambda>k. andThen (freevm (upd_proc k j (\<lambda>p. p\<lparr>p_kstack := 0\<rparr>)) (p_pgdir (procs k ! j)))
          (\<lambda>k. Ok (upd_proc k j (\<lambda>p. p\<lparr>p_pid := 0, p_parent := None, p_name := (p_name p)[0 := 0], p_killed := False, p_state := UNUSED\<rparr>))))"

text \<open>One pass of \<^verbatim>\<open>wait\<close> over the table.\<close>

definition wait :: "kernel \<Rightarrow> ((int, unit) run \<times> kernel) outcome" where
  "wait k =
     my k (\<lambda>i.
       case first_idx (\<lambda>p. p_parent p = Some i \<and> p_state p = ZOMBIE) (procs k) of
         Some j \<Rightarrow> andThen (reap k j) (\<lambda>k'. Ok (Return (p_pid (procs k ! j)), k'))
       | None \<Rightarrow>
           if (\<forall>p\<in>set (procs k). p_parent p \<noteq> Some i) \<or> p_killed (procs k ! i) then Ok (Return (- 1), k)
           else andThen (sleep k (Chan_proc i)) (\<lambda>k. Ok (Sleep (), k)))"

end
