(* ===== verification/ProcInv.thy ===== *)
theory ProcInv
  imports Proc
begin

text \<open>
  The process table as a state machine: one step for every operation of proc.c on the table, and the
  invariants that hold in every interleaving of them on one processor.
\<close>

section \<open>What the table operations look at\<close>

definition pview :: "proc \<Rightarrow> procstate \<times> int \<times> nat option \<times> chan option" where
  "pview p = (p_state p, p_pid p, p_parent p, p_chan p)"

definition same_table :: "kernel \<Rightarrow> kernel \<Rightarrow> bool" where
  "same_table k k' \<longleftrightarrow> map pview (procs k') = map pview (procs k) \<and> cur k' = cur k \<and> nextpid k' = nextpid k \<and> initproc k' = initproc k"

abbreviation st_of :: "kernel \<Rightarrow> nat \<Rightarrow> procstate" where "st_of k i \<equiv> p_state (procs k ! i)"
abbreviation pid_of :: "kernel \<Rightarrow> nat \<Rightarrow> int" where "pid_of k i \<equiv> p_pid (procs k ! i)"
abbreviation par_of :: "kernel \<Rightarrow> nat \<Rightarrow> nat option" where "par_of k i \<equiv> p_parent (procs k ! i)"
abbreviation chan_of :: "kernel \<Rightarrow> nat \<Rightarrow> chan option" where "chan_of k i \<equiv> p_chan (procs k ! i)"

lemma same_tableD:
  assumes "same_table k k'"
  shows "length (procs k') = length (procs k)" "cur k' = cur k" "nextpid k' = nextpid k" "initproc k' = initproc k"
    "\<And>i. i < length (procs k) \<Longrightarrow> st_of k' i = st_of k i \<and> pid_of k' i = pid_of k i \<and> par_of k' i = par_of k i \<and> chan_of k' i = chan_of k i"
proof -
  have m: "map pview (procs k') = map pview (procs k)" using assms by (simp add: same_table_def)
  then show l: "length (procs k') = length (procs k)" by (metis length_map)
  show "cur k' = cur k" "nextpid k' = nextpid k" "initproc k' = initproc k" using assms by (simp_all add: same_table_def)
  show "st_of k' i = st_of k i \<and> pid_of k' i = pid_of k i \<and> par_of k' i = par_of k i \<and> chan_of k' i = chan_of k i"
    if "i < length (procs k)" for i
    using arg_cong [OF m, of "\<lambda>xs. xs ! i"] that l by (simp add: pview_def)
qed

lemma same_table_refl [simp]: "same_table k k"
  by (simp add: same_table_def)

lemma same_table_trans: "same_table k k' \<Longrightarrow> same_table k' k'' \<Longrightarrow> same_table k k''"
  by (simp add: same_table_def)

lemma same_table_upd: "(\<And>p. pview (f p) = pview p) \<Longrightarrow> same_table k (upd_proc k i f)"
  by (cases "i < length (procs k)")
    (auto simp: same_table_def upd_proc_def map_update list_update_beyond intro: list_update_same_conv [THEN iffD2])

lemma same_table_phys [simp]: "same_table k (k\<lparr>kphys := s\<rparr>)"
  by (simp add: same_table_def)

section \<open>Freeing memory leaves the table alone\<close>

lemma phys_do_table: "phys_do k f = Ok k' \<Longrightarrow> same_table k k'"
  by (auto simp: phys_do_def split: outcome.splits)

lemma dealloc_meta_table: "same_table k (dealloc_meta k d a)"
  by (auto simp: dealloc_meta_def set_meta_def pview_def intro: same_table_upd split: option.splits)

lemma dealloc_page_table: "dealloc_page k d a = Ok (b, k') \<Longrightarrow> same_table k k'"
proof -
  assume a: "dealloc_page k d a = Ok (b, k')"
  obtain pte s where w: "walkpgdir (kphys k) d a False = (pte, s)" by (cases "walkpgdir (kphys k) d a False")
  show ?thesis
  proof (cases "pte = 0 \<or> load32 (mem (kphys k)) pte AND PTE_P = 0")
    case True
    then show ?thesis using a w by (auto simp: dealloc_page_def Let_def split: if_splits)
  next
    case False
    then obtain k1 where k1: "phys_do (dealloc_meta k d a) (\<lambda>m. kfree m (P2V (PTE_ADDR (load32 (mem (kphys k)) pte)))) = Ok k1"
      "k' = k1\<lparr>kphys := (kphys k1)\<lparr>mem := store32 (mem (kphys k1)) pte 0\<rparr>\<rparr>"
      using a w by (auto simp: dealloc_page_def Let_def split: if_splits)
    show ?thesis unfolding k1(2) by (rule same_table_trans [OF dealloc_meta_table same_table_trans [OF phys_do_table [OF k1(1)] same_table_phys]])
  qed
qed

lemma dealloc_loop_table: "dealloc_loop k d a sz = Ok k' \<Longrightarrow> same_table k k'"
proof (induction k d a sz rule: dealloc_loop.induct)
  case (1 k d a sz)
  show ?case
  proof (cases "a < sz")
    case True
    then obtain b k1 where b: "dealloc_page k d a = Ok (b, k1)" "\<not> b + PGSIZE \<le> a" "dealloc_loop k1 d (b + PGSIZE) sz = Ok k'"
      using "1.prems" by (auto simp: dealloc_loop.simps [of k] split: if_splits)
    show ?thesis by (rule same_table_trans [OF dealloc_page_table [OF b(1)] "1.IH" [OF True b(1) refl b(2,3)]])
  qed (use "1.prems" in \<open>simp add: dealloc_loop.simps [of k]\<close>)
qed

lemma free_tables_table:
  "for_each (free_table d) xs k = Ok k' \<Longrightarrow> same_table k k'"
proof (induction xs arbitrary: k)
  case (Cons i xs)
  then obtain k1 where k1: "free_table d i k = Ok k1" "for_each (free_table d) xs k1 = Ok k'" by auto
  have "same_table k k1" using k1(1) by (auto simp: free_table_def Let_def split: if_splits dest: phys_do_table)
  then show ?case using Cons.IH [OF k1(2)] same_table_trans by blast
qed simp

lemma freevm_table:
  assumes "freevm k d = Ok k'"
  shows "same_table k k'"
proof -
  obtain r k1 k2 where k: "deallocuvm k d KERNBASE 0 = Ok (r, k1)" "for_each (free_table d) [0..<1024] k1 = Ok k2" "phys_do k2 (\<lambda>m. kfree m d) = Ok k'"
    using assms by (auto simp: freevm_def simp del: upt_rec_numeral split: if_splits)
  have "same_table k k1" using k(1) by (auto simp: deallocuvm_def split: if_splits dest: dealloc_loop_table)
  then show ?thesis using free_tables_table [OF k(2)] phys_do_table [OF k(3)] same_table_trans by blast
qed

section \<open>The steps\<close>

text \<open>
  \<^verbatim>\<open>fork\<close> makes an embryo of the running process and then a runnable process, or gives the slot back;
  \<^verbatim>\<open>exit\<close> ends in \<open>exit_table\<close>; only \<^verbatim>\<open>wait\<close> sleeps on the channel of a process. The last rule is all other code.
\<close>

inductive table_step :: "kernel \<Rightarrow> kernel \<Rightarrow> bool" where
  pick: "cur k = None \<Longrightarrow> pos \<le> length (procs k) \<Longrightarrow> scheduler k pos = Ok (Some i, k') \<Longrightarrow> table_step k k'"
| yields: "yield k = Ok k' \<Longrightarrow> table_step k k'"
| sleeps: "sleep k c = Ok k' \<Longrightarrow> (\<And>i. c \<noteq> Chan_proc i) \<Longrightarrow> table_step k k'"
| resumes: "sleep_return k = Ok k' \<Longrightarrow> table_step k k'"
| wakes: "table_step k (wakeup k c)"
| kills: "kill k pid = (r, k') \<Longrightarrow> table_step k k'"
| allocs: "allocproc k = (r, k') \<Longrightarrow> table_step k k'"
| parents: "cur k = Some i \<Longrightarrow> np < length (procs k) \<Longrightarrow> st_of k np = EMBRYO \<Longrightarrow> table_step k (upd_proc k np (\<lambda>p. p\<lparr>p_parent := Some i\<rparr>))"
| starts: "np < length (procs k) \<Longrightarrow> st_of k np = EMBRYO \<Longrightarrow> table_step k (upd_proc k np (\<lambda>p. p\<lparr>p_state := RUNNABLE\<rparr>))"
| aborts: "np < length (procs k) \<Longrightarrow> st_of k np = EMBRYO \<Longrightarrow> table_step k (upd_proc k np (\<lambda>p. p\<lparr>p_kstack := 0, p_state := UNUSED\<rparr>))"
| exits: "cur k = Some i \<Longrightarrow> initproc k \<noteq> Some i \<Longrightarrow> sched (exit_table k i) = Ok k' \<Longrightarrow> table_step k k'"
| waits: "wait k = Ok (r, k') \<Longrightarrow> table_step k k'"
| other: "same_table k k' \<Longrightarrow> table_step k k'"

inductive table_reach :: "kernel \<Rightarrow> kernel \<Rightarrow> bool" where
  refl: "table_reach k k"
| step: "table_reach k k' \<Longrightarrow> table_step k' k'' \<Longrightarrow> table_reach k k''"

section \<open>The invariant\<close>

definition table_inv :: "kernel \<Rightarrow> bool" where
  "table_inv k \<longleftrightarrow>
     (\<forall>i. cur k = Some i \<longrightarrow> i < length (procs k) \<and> st_of k i = RUNNING) \<and>
     (\<forall>i<length (procs k). st_of k i = RUNNING \<longrightarrow> cur k = Some i) \<and>
     (\<forall>i<length (procs k). st_of k i = SLEEPING \<longrightarrow> chan_of k i \<noteq> None) \<and>
     (\<forall>i<length (procs k). pid_of k i < nextpid k) \<and>
     (\<forall>i<length (procs k). \<forall>j<length (procs k). st_of k i \<noteq> UNUSED \<and> st_of k j \<noteq> UNUSED \<and> pid_of k i = pid_of k j \<longrightarrow> i = j) \<and>
     0 < nextpid k \<and>
     (\<forall>i<length (procs k). par_of k i \<noteq> Some i) \<and>
     (\<forall>w. initproc k = Some w \<longrightarrow> w < length (procs k) \<and> par_of k w = None \<and> st_of k w \<notin> {UNUSED, EMBRYO, ZOMBIE}) \<and>
     (\<forall>i<length (procs k). \<forall>j<length (procs k). st_of k i = SLEEPING \<and> chan_of k i = Some (Chan_proc i) \<and>
        par_of k j = Some i \<longrightarrow> st_of k j \<noteq> ZOMBIE)"

lemma table_invD:
  assumes "table_inv k"
  shows "\<And>i. cur k = Some i \<Longrightarrow> i < length (procs k) \<and> st_of k i = RUNNING" "\<And>i. i < length (procs k) \<Longrightarrow> st_of k i = RUNNING \<Longrightarrow> cur k = Some i"
    "\<And>i. i < length (procs k) \<Longrightarrow> st_of k i = SLEEPING \<Longrightarrow> chan_of k i \<noteq> None"
    "\<And>i. i < length (procs k) \<Longrightarrow> pid_of k i < nextpid k"
    "\<And>i j. i < length (procs k) \<Longrightarrow> j < length (procs k) \<Longrightarrow> st_of k i \<noteq> UNUSED \<Longrightarrow> st_of k j \<noteq> UNUSED \<Longrightarrow> pid_of k i = pid_of k j \<Longrightarrow> i = j"
    "0 < nextpid k" "\<And>i. i < length (procs k) \<Longrightarrow> par_of k i \<noteq> Some i"
    "\<And>w. initproc k = Some w \<Longrightarrow> w < length (procs k) \<and> par_of k w = None \<and> st_of k w \<notin> {UNUSED, EMBRYO, ZOMBIE}"
    "\<And>i j. i < length (procs k) \<Longrightarrow> j < length (procs k) \<Longrightarrow> st_of k i = SLEEPING \<Longrightarrow> chan_of k i = Some (Chan_proc i) \<Longrightarrow>
       par_of k j = Some i \<Longrightarrow> st_of k j \<noteq> ZOMBIE"
  using assms unfolding table_inv_def by blast+

lemma table_invI:
  assumes "\<And>i. cur k = Some i \<Longrightarrow> i < length (procs k) \<and> st_of k i = RUNNING" "\<And>i. i < length (procs k) \<Longrightarrow> st_of k i = RUNNING \<Longrightarrow> cur k = Some i"
    "\<And>i. i < length (procs k) \<Longrightarrow> st_of k i = SLEEPING \<Longrightarrow> chan_of k i \<noteq> None"
    "\<And>i. i < length (procs k) \<Longrightarrow> pid_of k i < nextpid k"
    "\<And>i j. i < length (procs k) \<Longrightarrow> j < length (procs k) \<Longrightarrow> st_of k i \<noteq> UNUSED \<Longrightarrow> st_of k j \<noteq> UNUSED \<Longrightarrow> pid_of k i = pid_of k j \<Longrightarrow> i = j"
    "0 < nextpid k" "\<And>i. i < length (procs k) \<Longrightarrow> par_of k i \<noteq> Some i"
    "\<And>w. initproc k = Some w \<Longrightarrow> w < length (procs k) \<and> par_of k w = None \<and> st_of k w \<notin> {UNUSED, EMBRYO, ZOMBIE}"
    "\<And>i j. i < length (procs k) \<Longrightarrow> j < length (procs k) \<Longrightarrow> st_of k i = SLEEPING \<Longrightarrow> chan_of k i = Some (Chan_proc i) \<Longrightarrow>
       par_of k j = Some i \<Longrightarrow> st_of k j \<noteq> ZOMBIE"
  shows "table_inv k"
  using assms unfolding table_inv_def by blast

lemma upd_nth [simp]:
  "length (procs (upd_proc k i f)) = length (procs k)" "cur (upd_proc k i f) = cur k" "nextpid (upd_proc k i f) = nextpid k"
  "initproc (upd_proc k i f) = initproc k"
  "i < length (procs k) \<Longrightarrow> procs (upd_proc k i f) ! j = (if j = i then f (procs k ! i) else procs k ! j)"
  by (simp_all add: upd_proc_def)

text \<open>Waking processes.\<close>

lemma wakeup1_simps [simp]:
  "length (procs (wakeup1 k c)) = length (procs k)" "cur (wakeup1 k c) = cur k" "nextpid (wakeup1 k c) = nextpid k" "initproc (wakeup1 k c) = initproc k"
  "i < length (procs k) \<Longrightarrow> procs (wakeup1 k c) ! i = wake_if c (procs k ! i)"
  by (simp_all add: wakeup1_def)

lemma wake_if_simps [simp]:
  "p_pid (wake_if c p) = p_pid p" "p_parent (wake_if c p) = p_parent p" "p_chan (wake_if c p) = p_chan p"
  "p_state (wake_if c p) = (if p_state p = SLEEPING \<and> p_chan p = Some c then RUNNABLE else p_state p)"
  by (simp_all add: wake_if_def)

text \<open>Steps that only wake sleeping processes.\<close>

lemma inv_awaken:
  assumes I: "table_inv k"
    and E: "length (procs k') = length (procs k)" "cur k' = cur k" "nextpid k' = nextpid k" "initproc k' = initproc k"
    and P: "\<And>i. i < length (procs k) \<Longrightarrow> pid_of k' i = pid_of k i \<and> par_of k' i = par_of k i \<and> chan_of k' i = chan_of k i \<and>
      (st_of k' i = st_of k i \<or> st_of k i = SLEEPING \<and> st_of k' i = RUNNABLE)"
  shows "table_inv k'"
proof (rule table_invI, unfold E)
  note D = table_invD [OF I]
  fix i j
  show "cur k = Some i \<Longrightarrow> i < length (procs k) \<and> st_of k' i = RUNNING" using D(1) [of i] P [of i] by auto
  show "i < length (procs k) \<Longrightarrow> st_of k' i = RUNNING \<Longrightarrow> cur k = Some i" using D(2) [of i] P [of i] by auto
  show "i < length (procs k) \<Longrightarrow> st_of k' i = SLEEPING \<Longrightarrow> chan_of k' i \<noteq> None" using D(3) [of i] P [of i] by auto
  show "i < length (procs k) \<Longrightarrow> pid_of k' i < nextpid k" using D(4) [of i] P [of i] by auto
  show "i < length (procs k) \<Longrightarrow> j < length (procs k) \<Longrightarrow> st_of k' i \<noteq> UNUSED \<Longrightarrow> st_of k' j \<noteq> UNUSED \<Longrightarrow> pid_of k' i = pid_of k' j \<Longrightarrow> i = j"
    using D(5) [of i j] P [of i] P [of j] by (auto elim!: disjE)
  show "0 < nextpid k" by (rule D(6))
  show "i < length (procs k) \<Longrightarrow> par_of k' i \<noteq> Some i" using D(7) [of i] P [of i] by auto
  show "initproc k = Some i \<Longrightarrow> i < length (procs k) \<and> par_of k' i = None \<and> st_of k' i \<notin> {UNUSED, EMBRYO, ZOMBIE}" using D(8) [of i] P [of i] by auto
  show "i < length (procs k) \<Longrightarrow> j < length (procs k) \<Longrightarrow> st_of k' i = SLEEPING \<Longrightarrow> chan_of k' i = Some (Chan_proc i) \<Longrightarrow> par_of k' j = Some i \<Longrightarrow> st_of k' j \<noteq> ZOMBIE"
    using D(9) [of i j] P [of i] P [of j] by auto
qed

lemma inv_same: "same_table k k' \<Longrightarrow> table_inv k \<Longrightarrow> table_inv k'"
  using same_tableD [of k k'] by (auto intro: inv_awaken)

lemma inv_wakeup1: "table_inv k \<Longrightarrow> table_inv (wakeup1 k c)"
  by (erule inv_awaken) auto

lemma inv_kill:
  assumes "table_inv k" "kill k pid = (r, k')"
  shows "table_inv k'"
proof (cases "first_idx (\<lambda>p. p_pid p = pid) (procs k)")
  case (Some i)
  then have i: "i < length (procs k)" by (simp add: first_idx_Some_iff)
  have k': "k' = upd_proc k i (\<lambda>p. p\<lparr>p_killed := True, p_state := (if p_state p = SLEEPING then RUNNABLE else p_state p)\<rparr>)"
    using assms(2) Some by (simp add: kill_def)
  show ?thesis unfolding k' by (rule inv_awaken [OF assms(1)]) (use i in auto)
qed (use assms in \<open>simp add: kill_def\<close>)

text \<open>Steps that change one entry and perhaps the running process.\<close>

lemma inv_change:
  assumes I: "table_inv k"
    and E: "length (procs k') = length (procs k)" "initproc k' = initproc k" "nextpid k \<le> nextpid k'" "j < length (procs k)"
    and P: "\<And>i. i < length (procs k) \<Longrightarrow> i \<noteq> j \<Longrightarrow> procs k' ! i = procs k ! i"
    and C: "\<And>i. cur k' = Some i \<Longrightarrow> i \<noteq> j \<and> cur k = Some i \<or> i = j \<and> st_of k' j = RUNNING" "st_of k' j = RUNNING \<Longrightarrow> cur k' = Some j"
      "\<And>i. cur k = Some i \<Longrightarrow> i \<noteq> j \<Longrightarrow> cur k' = Some i"
    and S: "st_of k' j = SLEEPING \<Longrightarrow> chan_of k' j \<noteq> None"
    and N: "pid_of k' j < nextpid k'" "st_of k' j = UNUSED \<or> pid_of k' j = pid_of k j \<and> st_of k j \<noteq> UNUSED \<or> nextpid k \<le> pid_of k' j"
    and R: "par_of k' j \<noteq> Some j" "initproc k = Some j \<Longrightarrow> par_of k' j = None \<and> st_of k' j \<notin> {UNUSED, EMBRYO, ZOMBIE}"
    and Z: "\<And>i. i < length (procs k) \<Longrightarrow> i \<noteq> j \<Longrightarrow> st_of k' j = SLEEPING \<Longrightarrow> chan_of k' j = Some (Chan_proc j) \<Longrightarrow> par_of k i = Some j \<Longrightarrow> st_of k i \<noteq> ZOMBIE"
      "\<And>i. i < length (procs k) \<Longrightarrow> i \<noteq> j \<Longrightarrow> st_of k' j = ZOMBIE \<Longrightarrow> par_of k' j = Some i \<Longrightarrow> st_of k i = SLEEPING \<Longrightarrow> chan_of k i = Some (Chan_proc i) \<Longrightarrow> False"
  shows "table_inv k'"
proof (rule table_invI, unfold E(1,2))
  note D = table_invD [OF I]
  fix i l
  show "cur k' = Some i \<Longrightarrow> i < length (procs k) \<and> st_of k' i = RUNNING" using D(1) [of i] P [of i] C(1) [of i] E(4) by auto
  show "i < length (procs k) \<Longrightarrow> st_of k' i = RUNNING \<Longrightarrow> cur k' = Some i" using D(2) [of i] P [of i] C(2) C(3) [of i] by (cases "i = j") auto
  show "i < length (procs k) \<Longrightarrow> st_of k' i = SLEEPING \<Longrightarrow> chan_of k' i \<noteq> None" using D(3) [of i] P [of i] S by (cases "i = j") auto
  show "i < length (procs k) \<Longrightarrow> pid_of k' i < nextpid k'" using D(4) [of i] P [of i] N(1) E(3) by (cases "i = j") auto
  show "i < length (procs k) \<Longrightarrow> l < length (procs k) \<Longrightarrow> st_of k' i \<noteq> UNUSED \<Longrightarrow> st_of k' l \<noteq> UNUSED \<Longrightarrow> pid_of k' i = pid_of k' l \<Longrightarrow> i = l"
    using D(4) [of i] D(4) [of l] D(5) [of i l] P [of i] P [of l] N(2) by (cases "i = j"; cases "l = j") auto
  show "0 < nextpid k'" using D(6) E(3) by simp
  show "i < length (procs k) \<Longrightarrow> par_of k' i \<noteq> Some i" using D(7) [of i] P [of i] R(1) by (cases "i = j") auto
  show "initproc k = Some i \<Longrightarrow> i < length (procs k) \<and> par_of k' i = None \<and> st_of k' i \<notin> {UNUSED, EMBRYO, ZOMBIE}"
    using D(8) [of i] P [of i] R(2) by (cases "i = j") auto
  show "i < length (procs k) \<Longrightarrow> l < length (procs k) \<Longrightarrow> st_of k' i = SLEEPING \<Longrightarrow> chan_of k' i = Some (Chan_proc i) \<Longrightarrow> par_of k' l = Some i \<Longrightarrow> st_of k' l \<noteq> ZOMBIE"
    using D(9) [of i l] P [of i] P [of l] Z(1) [of l] Z(2) [of i] R(1) by (cases "i = j"; cases "l = j") auto
qed

lemma next_runnableD:
  assumes "next_runnable k pos = Some i" "pos \<le> length (procs k)"
  shows "i < length (procs k)" "st_of k i = RUNNABLE"
proof -
  have "i \<in> set ([pos..<length (procs k)] @ [0..<pos])" "st_of k i = RUNNABLE"
    using assms(1) nth_mem unfolding next_runnable_def find_Some_iff by blast+
  then show "i < length (procs k)" "st_of k i = RUNNABLE" using assms(2) by auto
qed

lemma inv_pick:
  assumes "table_inv k" "cur k = None" "pos \<le> length (procs k)" "scheduler k pos = Ok (Some i, k')"
  shows "table_inv k'"
proof -
  have i: "i < length (procs k)" "st_of k i = RUNNABLE"
    using assms(3,4) next_runnableD [of k pos i] by (auto simp: scheduler_def switchuvm_def split: option.splits if_splits)
  obtain k1 where k': "k' = upd_proc k1 i (\<lambda>p. p\<lparr>p_state := RUNNING\<rparr>)" "procs k1 = procs k" "cur k1 = Some i" "nextpid k1 = nextpid k" "initproc k1 = initproc k"
    using assms(4) by (auto simp: scheduler_def switchuvm_def split: option.splits if_splits)
  show ?thesis unfolding k'(1)
    by (rule inv_change [OF assms(1), of _ i]) (use i k'(2-) assms(2) table_invD(4,7,8) [OF assms(1)] in auto)
qed

text \<open>Giving up the processor.\<close>

lemma sched_ok:
  assumes "sched k = Ok k'"
  shows "procs k' = procs k" "cur k' = None" "nextpid k' = nextpid k" "initproc k' = initproc k"
  using assms by (auto simp: sched_def my_def switchkvm_def split: option.splits if_splits)

lemma inv_leave:
  assumes "table_inv k" "cur k = Some i" "sched (upd_proc k i f) = Ok k'" "\<And>p. p_pid (f p) = p_pid p \<and> p_parent (f p) = p_parent p"
    "\<And>p. p_state (f p) = RUNNABLE \<or> p_state (f p) = SLEEPING \<and> p_chan (f p) \<noteq> None"
    "\<And>j. j < length (procs k) \<Longrightarrow> p_state (f (procs k ! i)) = SLEEPING \<Longrightarrow> p_chan (f (procs k ! i)) = Some (Chan_proc i) \<Longrightarrow> par_of k j = Some i \<Longrightarrow> st_of k j \<noteq> ZOMBIE"
  shows "table_inv k'"
proof -
  note S = sched_ok [OF assms(3)] and D = table_invD [OF assms(1)]
  have i: "i < length (procs k)" "st_of k i = RUNNING" using D(1) [OF assms(2)] by auto
  have e: "procs k' ! i = f (procs k ! i)" using S(1) i(1) by simp
  show ?thesis
  proof (rule inv_change [OF assms(1), of k' i], unfold e)
    show "p_state (f (procs k ! i)) = UNUSED \<or> p_pid (f (procs k ! i)) = pid_of k i \<and> st_of k i \<noteq> UNUSED \<or> nextpid k \<le> p_pid (f (procs k ! i))"
      using assms(4) i(2) by simp
    show "initproc k = Some i \<Longrightarrow> p_parent (f (procs k ! i)) = None \<and> p_state (f (procs k ! i)) \<notin> {UNUSED, EMBRYO, ZOMBIE}"
      using D(8) [of i] assms(4) assms(5) [of "procs k ! i"] by auto
  qed (use S i assms(2,4,6) assms(5) [of "procs k ! i"] D(4,7) [OF i(1)] in auto)
qed

lemma inv_yield: "table_inv k \<Longrightarrow> yield k = Ok k' \<Longrightarrow> table_inv k'"
  by (auto simp: yield_def my_def split: option.splits elim!: inv_leave)

lemma inv_sleep:
  assumes "table_inv k" "sleep k c = Ok k'" "\<And>i j. cur k = Some i \<Longrightarrow> c = Chan_proc i \<Longrightarrow> j < length (procs k) \<Longrightarrow> par_of k j = Some i \<Longrightarrow> st_of k j \<noteq> ZOMBIE"
  shows "table_inv k'"
  using assms(2,3) by (auto simp: sleep_def split: option.splits elim!: inv_leave [OF assms(1)])

lemma inv_sleep_return:
  assumes "table_inv k" "sleep_return k = Ok k'"
  shows "table_inv k'"
proof -
  obtain i where i: "cur k = Some i" "k' = upd_proc k i (\<lambda>p. p\<lparr>p_chan := None\<rparr>)" using assms(2) by (auto simp: sleep_return_def my_def split: option.splits)
  note D = table_invD [OF assms(1)]
  have s: "i < length (procs k)" "st_of k i = RUNNING" using D(1) [OF i(1)] by auto
  show ?thesis unfolding i(2) by (rule inv_change [OF assms(1), of _ i]) (use i(1) s D(4,7) [OF s(1)] D(8) [of i] in auto)
qed

text \<open>The life of an embryo.\<close>

lemma inv_embryo:
  assumes "table_inv k" "np < length (procs k)" "st_of k np = EMBRYO" "\<And>p. p_pid (f p) = p_pid p"
    "p_state (f (procs k ! np)) \<in> {EMBRYO, RUNNABLE, UNUSED}" "p_parent (f (procs k ! np)) = par_of k np \<or> p_parent (f (procs k ! np)) = cur k"
  shows "table_inv (upd_proc k np f)"
proof -
  note D = table_invD [OF assms(1)]
  have "cur k \<noteq> Some np" using D(1) [of np] assms(3) by auto
  moreover have "initproc k \<noteq> Some np" using D(8) [of np] assms(3) by auto
  ultimately show ?thesis
    by (intro inv_change [OF assms(1), of _ np]) (use assms(2-6) D(4,7) [OF assms(2)] in auto)
qed

lemma inv_alloc:
  assumes "table_inv k" "allocproc k = (r, k')"
  shows "table_inv k'"
proof (cases "first_idx (\<lambda>p. p_state p = UNUSED) (procs k)")
  case (Some i)
  then have i: "i < length (procs k)" "st_of k i = UNUSED" by (simp_all add: first_idx_Some_iff)
  note D = table_invD [OF assms(1)]
  have c: "cur k \<noteq> Some i" "initproc k \<noteq> Some i" using D(1,8) [of i] i(2) by auto
  have k': "length (procs k') = length (procs k)" "cur k' = cur k" "nextpid k' = nextpid k + 1" "initproc k' = initproc k" "\<And>j. j \<noteq> i \<Longrightarrow> procs k' ! j = procs k ! j"
    "pid_of k' i = nextpid k" "par_of k' i = par_of k i" "st_of k' i \<in> {EMBRYO, UNUSED}"
    using assms(2) Some i(1) by (auto simp: allocproc_def kkalloc_def Let_def split: prod.splits if_splits)
  show ?thesis by (rule inv_change [OF assms(1), of _ i]) (use k' i c D(7) [OF i(1)] in auto)
qed (use assms in \<open>simp add: allocproc_def\<close>)

text \<open>Exit and wait.\<close>

lemma inv_wake_proc: "table_inv k \<Longrightarrow> table_inv (wake_proc k p)"
  by (simp add: wake_proc_def inv_wakeup1 split: option.splits)

lemma wake_proc_simps [simp]:
  "length (procs (wake_proc k p)) = length (procs k)" "cur (wake_proc k p) = cur k" "nextpid (wake_proc k p) = nextpid k" "initproc (wake_proc k p) = initproc k"
  "i < length (procs k) \<Longrightarrow> par_of (wake_proc k p) i = par_of k i \<and> chan_of (wake_proc k p) i = chan_of k i \<and> pid_of (wake_proc k p) i = pid_of k i"
  "i < length (procs k) \<Longrightarrow> st_of (wake_proc k p) i = (case p of Some w \<Rightarrow> if st_of k i = SLEEPING \<and> chan_of k i = Some (Chan_proc w) then RUNNABLE else st_of k i | None \<Rightarrow> st_of k i)"
  by (auto simp: wake_proc_def split: option.splits)

text \<open>Giving a child to init: the running process is not init, and init is woken when the child is a zombie.\<close>

lemma inv_reparent:
  assumes "table_inv k" "cur k = Some i" "initproc k \<noteq> Some i" "j < length (procs k)"
  shows "table_inv (reparent i j k)"
proof (cases "par_of k j = Some i")
  case True
  define k1 where k1: "k1 = (if st_of k j = ZOMBIE then wake_proc k (initproc k) else k)"
  have I: "table_inv k1" using assms(1) inv_wake_proc k1 by simp
  note D = table_invD [OF assms(1)] and D' = table_invD [OF I]
  have j: "initproc k \<noteq> Some j" using D(8) [of j] True by auto
  have e: "reparent i j k = upd_proc k1 j (\<lambda>p. p\<lparr>p_parent := initproc k\<rparr>)"
    using True assms(4) by (auto simp: k1 reparent_def wake_proc_def Let_def wakeup1_def wake_if_def upd_proc_def map_update split: option.splits)
  have s: "length (procs k1) = length (procs k)" "cur k1 = cur k" "nextpid k1 = nextpid k" "initproc k1 = initproc k" by (simp_all add: k1)
  have z: "initproc k = Some w \<Longrightarrow> w < length (procs k) \<Longrightarrow> st_of k1 w = SLEEPING \<Longrightarrow> chan_of k1 w = Some (Chan_proc w) \<Longrightarrow> st_of k1 j \<noteq> ZOMBIE" for w
    using assms(4) by (auto simp: k1 split: if_splits option.splits)
  have l: "j < length (procs k1)" using s assms(4) by simp
  have r: "cur k1 = Some j \<Longrightarrow> st_of k1 j = RUNNING" "st_of k1 j = RUNNING \<Longrightarrow> cur k1 = Some j" using D'(1) [of j] D'(2) [OF l] by auto
  have c: "st_of k1 j = SLEEPING \<Longrightarrow> chan_of k1 j \<noteq> None" "pid_of k1 j < nextpid k" using D'(3,4) [OF l] s by auto
  have w: "st_of k1 j = SLEEPING \<Longrightarrow> chan_of k1 j = Some (Chan_proc j) \<Longrightarrow> m < length (procs k) \<Longrightarrow> par_of k1 m = Some j \<Longrightarrow> st_of k1 m \<noteq> ZOMBIE" for m
    using D'(9) [OF l, of m] s by simp
  show ?thesis unfolding e by (rule inv_change [OF I, of _ j]) (use s l z j r c w in auto)
qed (use assms in \<open>simp add: reparent_def\<close>)

lemma reparent_simps:
  assumes "j < length (procs k)"
  shows "length (procs (reparent i j k)) = length (procs k)" "cur (reparent i j k) = cur k" "nextpid (reparent i j k) = nextpid k" "initproc (reparent i j k) = initproc k"
    "m < length (procs k) \<Longrightarrow> par_of (reparent i j k) m = (if m = j \<and> par_of k j = Some i then initproc k else par_of k m)"
    "m < length (procs k) \<Longrightarrow> chan_of (reparent i j k) m = chan_of k m" "m < length (procs k) \<Longrightarrow> pid_of (reparent i j k) m = pid_of k m"
    "m < length (procs k) \<Longrightarrow> st_of (reparent i j k) m = st_of k m \<or> st_of k m = SLEEPING \<and> st_of (reparent i j k) m = RUNNABLE"
  using assms by (auto simp: reparent_def Let_def split: option.splits)

lemma atLeastLessThan_subset: "{0..<n} \<subseteq> {..<n}" for n :: nat
  by auto

lemma reparent_all:
  assumes "table_inv k" "cur k = Some i" "initproc k \<noteq> Some i" "set js \<subseteq> {..<length (procs k)}"
  defines "k' \<equiv> fold (reparent i) js k"
  shows "table_inv k' \<and> length (procs k') = length (procs k) \<and> cur k' = Some i \<and> nextpid k' = nextpid k \<and> initproc k' = initproc k \<and>
    (\<forall>m<length (procs k). par_of k' m = (if m \<in> set js \<and> par_of k m = Some i then initproc k else par_of k m) \<and> chan_of k' m = chan_of k m \<and> pid_of k' m = pid_of k m \<and>
      (st_of k' m = st_of k m \<or> st_of k m = SLEEPING \<and> st_of k' m = RUNNABLE))"
  using assms(1-4) unfolding k'_def
proof (induction js arbitrary: k)
  case (Cons j js)
  then have j: "j < length (procs k)" by simp
  note R = reparent_simps [OF j, where i = i]
  let ?k = "reparent i j k"
  have "table_inv ?k" by (rule inv_reparent [OF Cons.prems(1-3) j])
  note H = Cons.IH [OF this, unfolded R(1,2,4), OF Cons.prems(2,3)]
  have "par_of (fold (reparent i) js ?k) m = (if m \<in> set (j # js) \<and> par_of k m = Some i then initproc k else par_of k m) \<and>
      chan_of (fold (reparent i) js ?k) m = chan_of k m \<and> pid_of (fold (reparent i) js ?k) m = pid_of k m \<and>
      (st_of (fold (reparent i) js ?k) m = st_of k m \<or> st_of k m = SLEEPING \<and> st_of (fold (reparent i) js ?k) m = RUNNABLE)"
    if "m < length (procs k)" for m
    using spec [OF H [THEN conjunct2, THEN conjunct2, THEN conjunct2, THEN conjunct2, THEN conjunct2], of m] that Cons.prems(3,4) R(5-8) [OF that] by auto
  then show ?case using H Cons.prems(4) R(3) by simp
qed simp

lemma inv_exit:
  assumes "table_inv k" "cur k = Some i" "initproc k \<noteq> Some i" "sched (exit_table k i) = Ok k'"
  shows "table_inv k'"
proof -
  let ?k = "wake_proc k (par_of k i)"
  define k1 where "k1 = fold (reparent i) [0..<length (procs k)] ?k"
  note D = table_invD [OF assms(1)]
  have i: "i < length (procs k)" using D(1) [OF assms(2)] by simp
  note F = reparent_all [OF inv_wake_proc [OF assms(1), of "par_of k i"], of i "[0..<length (procs k)]", simplified, OF assms(2,3), OF atLeastLessThan_subset, folded k1_def]
  have I: "table_inv k1" using F by blast
  have k': "procs k' = procs (upd_proc k1 i (\<lambda>p. p\<lparr>p_state := ZOMBIE\<rparr>))" "cur k' = None" "nextpid k' = nextpid k1" "initproc k' = initproc k1"
    using sched_ok [OF assms(4)] by (simp_all add: exit_table_def Let_def k1_def)
  have p: "par_of k1 i = par_of k i" "par_of k i \<noteq> Some i" using F i D(7) [OF i] by auto
  have w: "par_of k i = Some w \<Longrightarrow> w < length (procs k) \<Longrightarrow> st_of k1 w = SLEEPING \<Longrightarrow> chan_of k1 w \<noteq> Some (Chan_proc w)" for w
    using F by (auto split: if_splits)
  have l: "length (procs k1) = length (procs k)" "cur k1 = Some i" "initproc k1 = initproc k" using F by auto
  have c: "pid_of k1 i < nextpid k1" "st_of k1 i = RUNNING" using table_invD(1,4) [OF I, of i] l i by auto
  show ?thesis by (rule inv_change [OF I, of _ i]) (use k' p w l c i assms(3) in auto)
qed

lemma reap_table:
  assumes "reap k j = Ok k'" "j < length (procs k)"
  shows "\<exists>k1. same_table k k1 \<and> length (procs k1) = length (procs k) \<and> k' = upd_proc k1 j (\<lambda>p. p\<lparr>p_pid := 0, p_parent := None, p_name := (p_name p)[0 := 0], p_killed := False, p_state := UNUSED\<rparr>)"
proof -
  obtain k1 k2 where k: "phys_do k (\<lambda>m. kfree m (p_kstack (procs k ! j))) = Ok k1" "freevm (upd_proc k1 j (\<lambda>p. p\<lparr>p_kstack := 0\<rparr>)) (p_pgdir (procs k1 ! j)) = Ok k2"
    "k' = upd_proc k2 j (\<lambda>p. p\<lparr>p_pid := 0, p_parent := None, p_name := (p_name p)[0 := 0], p_killed := False, p_state := UNUSED\<rparr>)"
    using assms(1) by (auto simp: reap_def)
  have "same_table k1 (upd_proc k1 j (\<lambda>p. p\<lparr>p_kstack := 0\<rparr>))" by (rule same_table_upd) (simp add: pview_def)
  then have s: "same_table k k2" using phys_do_table [OF k(1)] freevm_table [OF k(2)] same_table_trans by blast
  then show ?thesis using k(3) same_tableD(1) [OF s] by blast
qed

lemma wait_zombie:
  assumes "wait k = Ok (r, k')" "cur k = Some i" "first_idx (\<lambda>p. p_parent p = Some i \<and> p_state p = ZOMBIE) (procs k) = Some j"
  shows "r = Return (pid_of k j) \<and> reap k j = Ok k'"
  using assms by (auto simp: wait_def my_def)

lemma inv_wait:
  assumes "table_inv k" "wait k = Ok (r, k')"
  shows "table_inv k'"
proof -
  obtain i where i: "cur k = Some i" using assms(2) by (auto simp: wait_def my_def split: option.splits)
  show ?thesis
  proof (cases "first_idx (\<lambda>p. p_parent p = Some i \<and> p_state p = ZOMBIE) (procs k)")
    case None
    then have "\<And>j. j < length (procs k) \<Longrightarrow> par_of k j = Some i \<Longrightarrow> st_of k j \<noteq> ZOMBIE" by (auto simp: first_idx_None)
    then show ?thesis using assms i None by (auto simp: wait_def my_def split: if_splits intro: inv_sleep)
  next
    case (Some j)
    then have j: "j < length (procs k)" "st_of k j = ZOMBIE" by (simp_all add: first_idx_Some_iff)
    obtain k1 where k1: "same_table k k1" "length (procs k1) = length (procs k)" "k' = upd_proc k1 j (\<lambda>p. p\<lparr>p_pid := 0, p_parent := None, p_name := (p_name p)[0 := 0], p_killed := False, p_state := UNUSED\<rparr>)"
      using reap_table [OF wait_zombie [OF assms(2) i Some, THEN conjunct2] j(1)] by blast
    note I = inv_same [OF k1(1) assms(1)] note D = table_invD [OF I]
    have z: "st_of k1 j = ZOMBIE" using same_tableD [OF k1(1)] j by simp
    then have "cur k1 \<noteq> Some j" "initproc k1 \<noteq> Some j" using D(1,8) [of j] by auto
    then show ?thesis unfolding k1(3) by (intro inv_change [OF I, of _ j]) (use k1(2) j z D(6) in auto)
  qed
qed

lemmas steps_inv = inv_pick inv_yield inv_sleep_return inv_wakeup1 inv_kill inv_alloc inv_exit inv_wait inv_same

lemma table_step_inv: "table_step k k' \<Longrightarrow> table_inv k \<Longrightarrow> table_inv k'"
proof (induction rule: table_step.induct)
  case (sleeps k c k')
  then show ?case by (intro inv_sleep [of k c k']) auto
next
  case (parents k i np)
  then show ?case by (intro inv_embryo) auto
next
  case (starts np k)
  then show ?case by (intro inv_embryo) auto
next
  case (aborts np k)
  then show ?case by (intro inv_embryo) auto
next
  case (wakes k c)
  then show ?case unfolding wakeup_def by (rule steps_inv)
qed (rule steps_inv, assumption+)+

section \<open>The process table through every run\<close>


definition idle_kernel :: kernel where
  "idle_kernel = demo_kernel\<lparr>cur := None, initproc := Some 0, nextpid := 3,
     procs := [unused_proc\<lparr>p_state := SLEEPING, p_chan := Some (Chan_proc 0), p_pid := 1\<rparr>, unused_proc\<lparr>p_state := RUNNABLE, p_pid := 2, p_parent := Some 0\<rparr>, unused_proc]\<rparr>"

lemma idle_kernel_inv: "table_inv idle_kernel"
  by (auto simp: table_inv_def idle_kernel_def unused_proc_def less_Suc_eq numeral_3_eq_3)


end
