(* ===== verification/Sched.thy ===== *)
theory Sched
  imports ProcInv
begin

text \<open>
  What the process code promises beyond the invariant of the table: the scheduler starves nobody, \<^verbatim>\<open>exit\<close> hands
  the children over and wakes who waits, \<^verbatim>\<open>wait\<close> frees exactly one zombie child, and \<^verbatim>\<open>kill\<close> with the id of a free slot.
\<close>

section \<open>The scheduler is fair\<close>

text \<open>The picks of the scheduler when its inner loop meets the tables of \<open>ks\<close>, starting at entry \<open>pos\<close>.\<close>

fun picks :: "kernel list \<Rightarrow> nat \<Rightarrow> nat list" where
  "picks [] pos = []"
| "picks (k # ks) pos = (case next_runnable k pos of None \<Rightarrow> picks ks pos | Some i \<Rightarrow> i # picks ks (Suc i))"

text \<open>How many entries the inner loop passes before it comes to entry \<open>w\<close>.\<close>

definition ahead :: "nat \<Rightarrow> nat \<Rightarrow> nat \<Rightarrow> nat" where
  "ahead n pos w = (if pos \<le> w then w - pos else n - pos + w)"

lemma find_first:
  "find P xs = Some x \<Longrightarrow> \<exists>m<length xs. xs ! m = x \<and> P x \<and> (\<forall>l<m. \<not> P (xs ! l))"
  by (auto simp: find_Some_iff)

lemma round_nth:
  assumes "pos \<le> n" "m < n"
  shows "([pos..<n] @ [0..<pos]) ! m = (if m < n - pos then pos + m else m - (n - pos))"
  using assms by (auto simp: nth_append)

lemma next_runnable_first:
  assumes "pos \<le> length (procs k)" "w < length (procs k)" "st_of k w = RUNNABLE"
  shows "\<exists>i. next_runnable k pos = Some i \<and> i < length (procs k) \<and> st_of k i = RUNNABLE \<and>
    (i = w \<or> ahead (length (procs k)) (Suc i) w < ahead (length (procs k)) pos w)"
proof -
  let ?n = "length (procs k)" let ?r = "[pos..<length (procs k)] @ [0..<pos]"
  have "next_runnable k pos \<noteq> None" using assms by (auto simp: next_runnable_def find_None_iff intro!: exI [of _ w])
  then obtain i where i: "next_runnable k pos = Some i" by blast
  obtain m where m: "m < length ?r" "?r ! m = i" "st_of k i = RUNNABLE" "\<And>l. l < m \<Longrightarrow> st_of k (?r ! l) \<noteq> RUNNABLE"
    using find_first [OF i [unfolded next_runnable_def]] by metis
  have mn: "m < ?n" using m(1) assms(1) by simp
  have ie: "i = (if m < ?n - pos then pos + m else m - (?n - pos))" using round_nth [OF assms(1) mn] m(2) by simp
  define a where "a = ahead ?n pos w"
  have a: "a < ?n" "?r ! a = w" using assms(1,2) round_nth [OF assms(1), of a] by (auto simp: a_def ahead_def split: if_splits)
  have "\<not> a < m" using m(4) [of a] a(2) assms(3) by auto
  then have "i = w \<or> ahead ?n (Suc i) w < a"
    using ie a mn assms(1,2) m(2) by (cases "a = m") (auto simp: a_def ahead_def less_diff_conv split: if_splits)
  moreover have "i < ?n" using ie mn assms(1) by (auto split: if_splits)
  ultimately show ?thesis using i m(3) a_def by blast
qed

text \<open>C8: no process starves. A process that stays runnable is picked within as many picks as the table has
  entries, whatever the other processes do in between and wherever the inner loop of the scheduler stands.\<close>

theorem scheduler_no_starvation:
  assumes "\<And>k. k \<in> set ks \<Longrightarrow> length (procs k) = n \<and> st_of k w = RUNNABLE" "w < n" "pos \<le> n" "n \<le> length ks"
  shows "w \<in> set (picks ks pos)"
proof -
  have "\<lbrakk>\<And>k. k \<in> set ks \<Longrightarrow> length (procs k) = n \<and> st_of k w = RUNNABLE; pos \<le> n; ahead n pos w < length ks\<rbrakk> \<Longrightarrow> w \<in> set (picks ks pos)" for ks pos
  proof (induction ks arbitrary: pos)
    case (Cons k ks)
    then have k: "length (procs k) = n" "st_of k w = RUNNABLE" by auto
    obtain i where i: "next_runnable k pos = Some i" "i < n" "i = w \<or> ahead n (Suc i) w < ahead n pos w"
      using next_runnable_first [of pos k w] k assms(2) Cons.prems(2) by auto
    show ?case
    proof (cases "i = w")
      case False
      then have "w \<in> set (picks ks (Suc i))" using Cons.prems i by (intro Cons.IH) auto
      then show ?thesis using i by simp
    qed (use i in simp)
  qed simp
  moreover have "ahead n pos w < n" using assms(2,3) by (auto simp: ahead_def)
  ultimately show ?thesis using assms by simp
qed

theorem scheduler_no_starvation_witness: "1 \<in> set (picks [idle_kernel, idle_kernel, idle_kernel] 2)"
  by (rule scheduler_no_starvation [of _ 3]) (simp_all add: idle_kernel_def)

section \<open>Exit and wait\<close>

text \<open>C9: no wakeup is lost between \<^verbatim>\<open>exit\<close> and \<^verbatim>\<open>wait\<close>. When the running process exits it becomes a zombie, all its
  children are children of init, no other parent, id or channel changes, and afterwards nobody sleeps in \<^verbatim>\<open>wait\<close> while a
  child of it is a zombie: a parent that waits is runnable again, and so is init when it inherits a zombie.\<close>

theorem exit_hands_over:
  assumes "table_inv k" "cur k = Some i" "initproc k \<noteq> Some i" "sched (exit_table k i) = Ok k'"
  shows "st_of k' i = ZOMBIE \<and> cur k' = None \<and> length (procs k') = length (procs k) \<and>
    (\<forall>j<length (procs k). par_of k' j = (if par_of k j = Some i then initproc k else par_of k j) \<and> pid_of k' j = pid_of k j \<and> chan_of k' j = chan_of k j \<and>
       (j \<noteq> i \<longrightarrow> st_of k' j = st_of k j \<or> st_of k j = SLEEPING \<and> st_of k' j = RUNNABLE)) \<and>
    (\<forall>w j. w < length (procs k) \<and> j < length (procs k) \<and> par_of k' j = Some w \<and> st_of k' j = ZOMBIE \<longrightarrow>
       \<not> (st_of k' w = SLEEPING \<and> chan_of k' w = Some (Chan_proc w)))"
proof -
  let ?k = "wake_proc k (par_of k i)"
  define k1 where "k1 = fold (reparent i) [0..<length (procs k)] ?k"
  have i: "i < length (procs k)" "par_of k i \<noteq> Some i" using table_invD(1,7) [OF assms(1)] assms(2) by auto
  note F = reparent_all [OF inv_wake_proc [OF assms(1), of "par_of k i"], of i "[0..<length (procs k)]", simplified, OF assms(2,3), OF atLeastLessThan_subset, folded k1_def]
  have k': "procs k' = procs (upd_proc k1 i (\<lambda>p. p\<lparr>p_state := ZOMBIE\<rparr>))" "cur k' = None"
    using sched_ok [OF assms(4)] by (simp_all add: exit_table_def Let_def k1_def)
  have e: "par_of k' j = (if par_of k j = Some i then initproc k else par_of k j) \<and> pid_of k' j = pid_of k j \<and> chan_of k' j = chan_of k j \<and>
       (j \<noteq> i \<longrightarrow> st_of k' j = st_of k j \<or> st_of k j = SLEEPING \<and> st_of k' j = RUNNABLE)" if "j < length (procs k)" for j
    using F i k' that by (auto split: option.splits if_splits)
  have l: "length (procs k') = length (procs k)" "st_of k' i = ZOMBIE" using F k' i by auto
  show ?thesis using table_invD(9) [OF inv_exit [OF assms]] e l k' by auto
qed

definition exit_kernel :: kernel where
  "exit_kernel = idle_kernel\<lparr>cur := Some 1, nextpid := 4,
     procs := [unused_proc\<lparr>p_state := SLEEPING, p_chan := Some (Chan_proc 0), p_pid := 1\<rparr>, unused_proc\<lparr>p_state := RUNNING, p_pid := 2, p_parent := Some 0\<rparr>,
       unused_proc\<lparr>p_state := ZOMBIE, p_pid := 3, p_parent := Some 1\<rparr>]\<rparr>"

lemma exit_kernel_inv: "table_inv exit_kernel"
  by (auto simp: table_inv_def exit_kernel_def idle_kernel_def unused_proc_def less_Suc_eq numeral_3_eq_3)

theorem exit_hands_over_witness: "\<exists>k'. sched (exit_table exit_kernel 1) = Ok k' \<and> par_of k' 2 = Some 0"
proof -
  have "\<exists>k'. sched (exit_table exit_kernel 1) = Ok k'"
    by (simp add: exit_table_def exit_kernel_def idle_kernel_def sched_def my_def wake_proc_def wakeup1_def wake_if_def reparent_def upd_proc_def unused_proc_def numeral_3_eq_3)
  then obtain k' where k': "sched (exit_table exit_kernel 1) = Ok k'" by blast
  have "initproc exit_kernel \<noteq> Some 1" "cur exit_kernel = Some 1" by (simp_all add: exit_kernel_def idle_kernel_def)
  from exit_hands_over [OF exit_kernel_inv this(2,1) k'] have "par_of k' 2 = (if par_of exit_kernel 2 = Some 1 then initproc exit_kernel else par_of exit_kernel 2)"
    by (simp add: exit_kernel_def)
  then show ?thesis using k' by (auto simp: exit_kernel_def idle_kernel_def)
qed

text \<open>C10: one pass of \<^verbatim>\<open>wait\<close>. With a zombie child it returns the id of the first one and frees exactly its slot;
  with no zombie child it returns -1 when the process has no child at all or was killed, and sleeps on its own channel otherwise.\<close>

theorem wait_reaps_one:
  assumes "table_inv k" "cur k = Some i" "wait k = Ok (r, k')"
  shows "case first_idx (\<lambda>p. p_parent p = Some i \<and> p_state p = ZOMBIE) (procs k) of
      Some j \<Rightarrow> r = Return (pid_of k j) \<and> cur k' = Some i \<and> st_of k' j = UNUSED \<and> pid_of k' j = 0 \<and> par_of k' j = None \<and>
        (\<forall>m<length (procs k). m \<noteq> j \<longrightarrow> st_of k' m = st_of k m \<and> pid_of k' m = pid_of k m \<and> par_of k' m = par_of k m \<and> chan_of k' m = chan_of k m)
    | None \<Rightarrow> if (\<forall>j<length (procs k). par_of k j \<noteq> Some i) \<or> p_killed (procs k ! i) then r = Return (- 1) \<and> k' = k
        else r = Sleep () \<and> cur k' = None \<and> st_of k' i = SLEEPING \<and> chan_of k' i = Some (Chan_proc i)"
proof (cases "first_idx (\<lambda>p. p_parent p = Some i \<and> p_state p = ZOMBIE) (procs k)")
  case None
  have i: "i < length (procs k)" using table_invD(1) [OF assms(1,2)] by simp
  have "(\<forall>p\<in>set (procs k). p_parent p \<noteq> Some i) = (\<forall>j<length (procs k). par_of k j \<noteq> Some i)" by (metis in_set_conv_nth)
  then show ?thesis using assms(2,3) None i by (auto simp: wait_def my_def sleep_def split: if_splits dest: sched_ok(1,2))
next
  case (Some j)
  then have j: "j < length (procs k)" by (simp add: first_idx_Some_iff)
  note w = wait_zombie [OF assms(3,2) Some]
  obtain k1 where k1: "same_table k k1" "length (procs k1) = length (procs k)" "k' = upd_proc k1 j (\<lambda>p. p\<lparr>p_pid := 0, p_parent := None, p_name := (p_name p)[0 := 0], p_killed := False, p_state := UNUSED\<rparr>)"
    using reap_table [OF w [THEN conjunct2] j] by blast
  show ?thesis using Some w k1 j same_tableD [OF k1(1)] assms(2) by simp
qed

theorem wait_reaps_one_witness: "\<exists>r k'. wait (upd_proc exit_kernel 2 (\<lambda>p. p\<lparr>p_state := RUNNABLE\<rparr>)) = Ok (r, k') \<and> r = Sleep () \<and> chan_of k' 1 = Some (Chan_proc 1)"
proof -
  let ?k = "upd_proc exit_kernel 2 (\<lambda>p. p\<lparr>p_state := RUNNABLE\<rparr>)"
  have I: "table_inv ?k" by (auto simp: table_inv_def upd_proc_def exit_kernel_def idle_kernel_def unused_proc_def less_Suc_eq numeral_3_eq_3 numeral_2_eq_2)
  have "\<exists>r k'. wait ?k = Ok (r, k')"
    by (simp add: wait_def my_def exit_kernel_def idle_kernel_def sched_def sleep_def upd_proc_def unused_proc_def numeral_2_eq_2)
  then obtain r k' where w: "wait ?k = Ok (r, k')" by blast
  have "cur ?k = Some 1" by (simp add: exit_kernel_def)
  from wait_reaps_one [OF I this w] show ?thesis using w
    by (auto simp: exit_kernel_def idle_kernel_def upd_proc_def unused_proc_def numeral_2_eq_2 split: if_splits)
qed

section \<open>Kill\<close>

text \<open>C12: \<^verbatim>\<open>kill\<close> does not check that the slot is in use, and \<^verbatim>\<open>allocproc\<close> does not clear \<^verbatim>\<open>killed\<close>. A free slot
  has id 0, so \<^verbatim>\<open>kill(0)\<close> succeeds on the first free slot and the next process made in it is born killed.\<close>

theorem kill_zero_kills_newborn:
  assumes "first_idx (\<lambda>p. p_pid p = 0) (procs k) = Some i" "first_idx (\<lambda>p. p_state p = UNUSED) (procs k) = Some i"
    "kill k 0 = (r, k1)" "allocproc k1 = (Some np, k2)"
  shows "r = 0 \<and> np = i \<and> p_killed (procs k2 ! np) \<and> p_state (procs k2 ! np) = EMBRYO"
proof -
  have i: "i < length (procs k)" "st_of k i = UNUSED" "\<And>j. j < i \<Longrightarrow> st_of k j \<noteq> UNUSED" using assms(2) by (auto simp: first_idx_Some_iff)
  have k1: "r = 0" "k1 = upd_proc k i (\<lambda>p. p\<lparr>p_killed := True, p_state := (if p_state p = SLEEPING then RUNNABLE else p_state p)\<rparr>)"
    using assms(1,3) by (auto simp: kill_def)
  have "first_idx (\<lambda>p. p_state p = UNUSED) (procs k1) = Some i" using i k1(2) by (auto simp: first_idx_Some_iff)
  then show ?thesis using assms(4) i(1) k1 by (auto simp: allocproc_def kkalloc_def Let_def split: prod.splits if_splits)
qed

theorem kill_zero_kills_newborn_witness: "fst (kill idle_kernel 0) = 0 \<and> (\<exists>k2. allocproc (snd (kill idle_kernel 0)) = (Some 2, k2) \<and> p_killed (procs k2 ! 2))"
proof -
  have f: "first_idx (\<lambda>p. p_pid p = 0) (procs idle_kernel) = Some 2" "first_idx (\<lambda>p. p_state p = UNUSED) (procs idle_kernel) = Some 2"
    by (simp_all add: idle_kernel_def unused_proc_def)
  have "freelist (kphys idle_kernel) = 0x80500000" by (simp add: idle_kernel_def demo_kernel_fields demo_phys_def)
  moreover have "first_idx (\<lambda>p. p_state p = UNUSED) (procs (snd (kill idle_kernel 0))) = Some 2"
    by (simp add: kill_def f upd_proc_def) (simp add: idle_kernel_def unused_proc_def numeral_2_eq_2)
  moreover have "kphys (snd (kill idle_kernel 0)) = kphys idle_kernel" by (simp add: kill_def f upd_proc_def)
  ultimately obtain k2 where k2: "allocproc (snd (kill idle_kernel 0)) = (Some 2, k2)"
    by (simp add: allocproc_def kkalloc_def kalloc_def phys_call_def Let_def upd_proc_def)
  show ?thesis using kill_zero_kills_newborn [OF f surjective_pairing k2] k2 by simp
qed

end
