(* ===== verification/UserMem.thy ===== *)
theory UserMem
  imports Sched
begin

text \<open>
  The kernel's accesses to user memory. An access to a page that is not present traps; for a page in the swap file the
  handler (the case \<^verbatim>\<open>T_PGFLT\<close> of \<^verbatim>\<open>trap\<close>) brings it in and the access is made again, and for any other page a fault inside the
  kernel is a panic. Above this are the functions of syscall.c that fetch the arguments of a system call. A string
  argument is read once, when its end is looked for.
\<close>

section \<open>Page faults\<close>

text \<open>The case \<^verbatim>\<open>T_PGFLT\<close> of \<^verbatim>\<open>trap\<close>; the flag says whether the fault was handled or the default case follows.\<close>

definition page_fault :: "kernel \<Rightarrow> addr \<Rightarrow> (bool \<times> kernel) outcome" where
  "page_fault k va =
     (if SELECTION k = NONE then Ok (False, k)
      else case cur k of
        None \<Rightarrow> Fault ''is_user_proc: null process''
      | Some i \<Rightarrow>
          let k = upd_proc k i (\<lambda>p. p\<lparr>page_faults := page_faults p + 1\<rparr>)
          in if is_user_proc (procs k ! i)
             then andThen (isPagedOut (kphys k) (p_pgdir (procs k ! i)) va)
                    (\<lambda>b. if b then andThen (safe_page_in k i va) (\<lambda>(r, k). Ok (True, k)) else Ok (False, k))
             else Ok (False, k))"

text \<open>A fault that the handler took care of and that comes again would come forever.\<close>

definition touch :: "kernel \<Rightarrow> addr \<Rightarrow> kernel outcome" where
  "touch k va =
     (if uaccess k va then Ok k
      else andThen (page_fault k va)
             (\<lambda>(handled, k). if \<not> handled then Panic ''trap''
                else if uaccess k va then Ok k else Fault ''page fault: comes again''))"

fun uload :: "kernel \<Rightarrow> addr \<Rightarrow> nat \<Rightarrow> (byte list \<times> kernel) outcome" where
  "uload k va 0 = Ok ([], k)"
| "uload k va (Suc n) =
     andThen (touch k va)
       (\<lambda>k. let b = ubyte (mem (kphys k)) (P2V (cr3 k)) va
            in andThen (uload k (va + 1) n) (\<lambda>(bs, k). Ok (b # bs, k)))"

fun usave :: "kernel \<Rightarrow> addr \<Rightarrow> byte list \<Rightarrow> kernel outcome" where
  "usave k va [] = Ok k"
| "usave k va (b # bs) = andThen (touch k va) (\<lambda>k. usave (ustore k va b) (va + 1) bs)"

section \<open>Arguments of system calls\<close>

definition fetchint :: "kernel \<Rightarrow> u32 \<Rightarrow> (u32 option \<times> kernel) outcome" where
  "fetchint k a =
     my k (\<lambda>i. let sz = p_sz (procs k ! i)
       in if a \<ge> sz \<or> a + 4 > sz then Ok (None, k)
          else andThen (uload k a 4) (\<lambda>(bs, k). Ok (Some (word32 bs), k)))"

text \<open>The loop over the at most \<open>n\<close> bytes from \<open>a\<close> to the end of the process.\<close>

fun fetchstr_loop :: "nat \<Rightarrow> kernel \<Rightarrow> addr \<Rightarrow> (byte list option \<times> kernel) outcome" where
  "fetchstr_loop 0 k s = Ok (None, k)"
| "fetchstr_loop (Suc n) k s =
     andThen (touch k s)
       (\<lambda>k. let b = ubyte (mem (kphys k)) (P2V (cr3 k)) s
            in if b = 0 then Ok (Some [], k)
               else andThen (fetchstr_loop n k (s + 1)) (\<lambda>(r, k). Ok (map_option (Cons b) r, k)))"

definition fetchstr :: "kernel \<Rightarrow> u32 \<Rightarrow> (byte list option \<times> kernel) outcome" where
  "fetchstr k a =
     my k (\<lambda>i. let sz = p_sz (procs k ! i)
       in if a \<ge> sz then Ok (None, k) else fetchstr_loop (unat (sz - a)) k a)"

definition argint :: "kernel \<Rightarrow> nat \<Rightarrow> (u32 option \<times> kernel) outcome" where
  "argint k n = my k (\<lambda>i. fetchint k (tf_esp (p_tf (procs k ! i)) + 4 + 4 * of_nat n))"

definition argptr :: "kernel \<Rightarrow> nat \<Rightarrow> int \<Rightarrow> (addr option \<times> kernel) outcome" where
  "argptr k n sz =
     andThen (argint k n)
       (\<lambda>(r, k). case r of
          None \<Rightarrow> Ok (None, k)
        | Some p \<Rightarrow> my k (\<lambda>i. let psz = p_sz (procs k ! i)
            in if sz < 0 \<or> p \<ge> psz \<or> p + of_int sz > psz then Ok (None, k) else Ok (Some p, k)))"

definition argstr :: "kernel \<Rightarrow> nat \<Rightarrow> (byte list option \<times> kernel) outcome" where
  "argstr k n =
     andThen (argint k n) (\<lambda>(r, k). case r of None \<Rightarrow> Ok (None, k) | Some a \<Rightarrow> fetchstr k a)"

section \<open>Arguments lie in the process\<close>

text \<open>The loop of \<^verbatim>\<open>fetchstr\<close> against a plain read of the bytes: a string is found exactly when the bytes before it hold no
  zero and the next one, still in the range, is zero.\<close>

lemma fetchstr_loop_Some:
  "fetchstr_loop n k a = Ok (Some s, k') \<longleftrightarrow> length s < n \<and> 0 \<notin> set s \<and> uload k a (Suc (length s)) = Ok (s @ [0], k')"
proof (induction n arbitrary: k a s)
  case (Suc n)
  show ?case
  proof (cases "touch k a")
    case (Ok k1)
    let ?b = "ubyte (mem (kphys k1)) (P2V (cr3 k1)) a"
    show ?thesis
    proof (cases s)
      case Nil
      then show ?thesis using Ok by (auto simp: Let_def)
    next
      case (Cons c cs)
      have "fetchstr_loop (Suc n) k a = Ok (Some s, k') \<longleftrightarrow> ?b \<noteq> 0 \<and> c = ?b \<and> fetchstr_loop n k1 (a + 1) = Ok (Some cs, k')"
        using Ok Cons by (auto simp: Let_def)
      moreover have "uload k a (Suc (length s)) = Ok (s @ [0], k') \<longleftrightarrow> c = ?b \<and> uload k1 (a + 1) (Suc (length cs)) = Ok (cs @ [0], k')"
        using Ok Cons by (auto simp: Let_def simp del: uload.simps(2)) (auto simp: uload.simps(2) [of k] Let_def simp del: uload.simps(2))
      ultimately show ?thesis using Suc.IH [of k1 "a + 1" cs] Cons by (auto simp del: uload.simps)
    qed
  qed simp_all
qed simp

lemma fetchstr_loop_None:
  "fetchstr_loop n k a = Ok (None, k') \<longleftrightarrow> (\<exists>bs. 0 \<notin> set bs \<and> uload k a n = Ok (bs, k'))"
proof (induction n arbitrary: k a)
  case (Suc n)
  show ?case
  proof (cases "touch k a")
    case (Ok k1)
    let ?b = "ubyte (mem (kphys k1)) (P2V (cr3 k1)) a"
    have "fetchstr_loop (Suc n) k a = Ok (None, k') \<longleftrightarrow> ?b \<noteq> 0 \<and> fetchstr_loop n k1 (a + 1) = Ok (None, k')"
      using Ok by (auto simp: Let_def)
    moreover have "uload k a (Suc n) = Ok (bs, k') \<longleftrightarrow> (\<exists>cs. bs = ?b # cs \<and> uload k1 (a + 1) n = Ok (cs, k'))" for bs
      using Ok by (auto simp: Let_def)
    ultimately show ?thesis using Suc.IH [of k1 "a + 1"] by (auto simp del: uload.simps)
  qed simp_all
qed simp

text \<open>In resident memory a read changes nothing and gives the bytes at the addresses.\<close>

lemma uload_resident:
  assumes "\<And>j. j < n \<Longrightarrow> uaccess k (a + of_nat j)"
  shows "uload k a n = Ok (map (\<lambda>j. ubyte (mem (kphys k)) (P2V (cr3 k)) (a + of_nat j)) [0..<n], k)"
  using assms
proof (induction n arbitrary: a)
  case (Suc n)
  have "touch k a = Ok k" using Suc.prems [of 0] by (simp add: touch_def)
  moreover have "uaccess k (a + 1 + of_nat j)" if "j < n" for j using Suc.prems [of "Suc j"] that by (simp add: add.assoc)
  ultimately show ?case
    using Suc.IH [of "a + 1"] by (simp add: Let_def upt_conv_Cons map_Suc_upt [symmetric] add.assoc comp_def del: upt_Suc)
qed simp

lemma argptr_accepts:
  assumes "cur k1 = Some i" "p_sz (procs k1 ! i) \<le> KERNBASE" "sz < 2 ^ 31"
  shows "argptr k n sz = Ok (Some p, k1) \<longleftrightarrow> argint k n = Ok (Some p, k1) \<and> 0 \<le> sz \<and>
    p < p_sz (procs k1 ! i) \<and> unat p + nat sz \<le> unat (p_sz (procs k1 ! i))"
proof -
  let ?z = "p_sz (procs k1 ! i)"
  have z: "unat ?z \<le> 2 ^ 31" using assms(2) by (simp add: word_le_nat_alt)
  have sum: "p + of_int sz \<le> ?z \<longleftrightarrow> unat p + nat sz \<le> unat ?z" if "0 \<le> sz" "p < ?z"
  proof -
    have "unat p < 2 ^ 31" "nat sz < 2 ^ 31" using that z assms(3) by (simp_all add: word_less_nat_alt)
    then have "unat (p + of_int sz) = unat p + nat sz"
      using that(1) by (simp add: unat_word_ariths unat_of_nat flip: of_nat_nat)
    then show ?thesis by (simp add: word_le_nat_alt)
  qed
  have "argptr k n sz = Ok (Some p, k1) \<longleftrightarrow> argint k n = Ok (Some p, k1) \<and> 0 \<le> sz \<and> p < ?z \<and> p + of_int sz \<le> ?z"
  proof (cases "argint k n")
    case (Ok rk)
    obtain r k0 where rk: "rk = (r, k0)" by (cases rk)
    show ?thesis
    proof (cases r)
      case (Some q)
      then show ?thesis using assms(1) Ok rk by (cases "cur k0") (auto simp: argptr_def my_def Let_def not_less not_le split: if_split_asm)
    qed (use Ok rk in \<open>simp add: argptr_def\<close>)
  qed (simp_all add: argptr_def)
  then show ?thesis using sum by blast
qed

lemma fetchstr_accepts:
  assumes "cur k = Some i"
  shows "fetchstr k a = Ok (Some s, k2) \<longleftrightarrow> unat a + length s < unat (p_sz (procs k ! i)) \<and> 0 \<notin> set s \<and> uload k a (Suc (length s)) = Ok (s @ [0], k2)"
    and "fetchstr k a = Ok (None, k2) \<longleftrightarrow>
      (if a < p_sz (procs k ! i) then \<exists>bs. 0 \<notin> set bs \<and> uload k a (unat (p_sz (procs k ! i)) - unat a) = Ok (bs, k2) else k2 = k)"
proof -
  let ?z = "p_sz (procs k ! i)"
  have f: "fetchstr k a = (if a < ?z then fetchstr_loop (unat ?z - unat a) k a else Ok (None, k))"
    using assms by (auto simp: fetchstr_def my_def Let_def unat_sub word_le_nat_alt word_less_nat_alt)
  show "fetchstr k a = Ok (Some s, k2) \<longleftrightarrow> unat a + length s < unat ?z \<and> 0 \<notin> set s \<and> uload k a (Suc (length s)) = Ok (s @ [0], k2)"
    unfolding f fetchstr_loop_Some if_distrib [of "\<lambda>x. x = _"] by (auto simp: word_less_nat_alt simp del: uload.simps)
  show "fetchstr k a = Ok (None, k2) \<longleftrightarrow>
      (if a < ?z then \<exists>bs. 0 \<notin> set bs \<and> uload k a (unat ?z - unat a) = Ok (bs, k2) else k2 = k)"
    unfolding f using fetchstr_loop_None by auto
qed

text \<open>C16: exactly the arguments that lie in the process are accepted. A pointer is accepted when it is the argument on the
  stack and the whole block it points to lies in the process; the sum of \<^verbatim>\<open>argptr\<close> does not wrap around because the process
  ends below \<^verbatim>\<open>KERNBASE\<close>. A string is accepted, and has the bytes \<open>s\<close>, when reading user memory from its address gives \<open>s\<close>
  without a zero and then a zero, all of it inside the process; it is rejected when it starts outside or when reading up to the
  end of the process gives no zero. When its pages are resident the bytes are those in memory and nothing changes.\<close>

theorem arguments_in_process:
  assumes "cur k1 = Some i" "p_sz (procs k1 ! i) \<le> KERNBASE" "sz < 2 ^ 31"
  shows "(argptr k n sz = Ok (Some p, k1) \<longleftrightarrow> argint k n = Ok (Some p, k1) \<and> 0 \<le> sz \<and>
      p < p_sz (procs k1 ! i) \<and> unat p + nat sz \<le> unat (p_sz (procs k1 ! i))) \<and>
    (fetchstr k1 a = Ok (Some s, k2) \<longleftrightarrow>
      unat a + length s < unat (p_sz (procs k1 ! i)) \<and> 0 \<notin> set s \<and> uload k1 a (length s + 1) = Ok (s @ [0], k2)) \<and>
    (fetchstr k1 a = Ok (None, k2) \<longleftrightarrow>
      (if a < p_sz (procs k1 ! i) then \<exists>bs. 0 \<notin> set bs \<and> uload k1 a (unat (p_sz (procs k1 ! i)) - unat a) = Ok (bs, k2) else k2 = k1)) \<and>
    ((\<forall>j\<le>length s. uaccess k1 (a + of_nat j)) \<longrightarrow>
      (fetchstr k1 a = Ok (Some s, k2) \<longleftrightarrow> k2 = k1 \<and> unat a + length s < unat (p_sz (procs k1 ! i)) \<and> 0 \<notin> set s \<and>
        map (\<lambda>j. ubyte (mem (kphys k1)) (P2V (cr3 k1)) (a + of_nat j)) [0..<length s + 1] = s @ [0]))"
proof -
  have "uload k1 a (Suc (length s)) = Ok (map (\<lambda>j. ubyte (mem (kphys k1)) (P2V (cr3 k1)) (a + of_nat j)) [0..<Suc (length s)], k1)"
    if "\<forall>j\<le>length s. uaccess k1 (a + of_nat j)"
    using that by (intro uload_resident) auto
  then show ?thesis
    using argptr_accepts [OF assms] fetchstr_accepts [OF assms(1)] by (auto simp del: uload.simps upt_Suc)
qed

text \<open>A process with one page of user memory that holds the string \<^verbatim>\<open>h\<close> at address 5 and is zero elsewhere.\<close>

definition text_kernel :: kernel where
  "text_kernel = demo_kernel\<lparr>kphys := demo_phys\<lparr>mem := demo_mem(0x80400005 := 104)\<rparr>\<rparr>"

lemma text_user:
  assumes "a < 4096"
  shows "uaccess text_kernel a" "ubyte (mem (kphys text_kernel)) (P2V (cr3 text_kernel)) a = (if a = 5 then 104 else 0)"
proof -
  let ?m = "demo_mem(0x80400005 := 104)"
  have r: "P2V (cr3 text_kernel) = 0x80200000" "mem (kphys text_kernel) = ?m"
    by (simp_all add: text_kernel_def demo_kernel_fields P2V_def)
  have z: "PGROUNDDOWN a = 0" using assms in_page_iff [of 0 a] by (simp add: page_aligned_def)
  have sp: "same_page ?m demo_mem p" if "p = 0x80200000 \<or> p = 0x80300000" for p
    using that by (auto simp: same_page_def PGROUNDDOWN_def)
  have tab: "table_of demo_mem 0x80200000 (PDX a) = 0x80300000" if "pde_present demo_mem 0x80200000 (PDX a)"
    using that demo_pde(1) [OF PDX_less, of a] demo_pde(2) by simp
  have pte: "pte_val ?m 0x80200000 a = 0x400007"
  proof -
    have "pte_val ?m 0x80200000 a = pte_val demo_mem 0x80200000 a"
      by (rule pte_val_same_page) (use sp tab in \<open>auto simp: page_aligned_def\<close>)
    then show ?thesis by (simp add: demo_pte z)
  qed
  show "uaccess text_kernel a" by (simp add: uaccess_def r present_def pte)
  have "PGROUNDDOWN (0x80400000 + a) = 0x80400000" using assms in_page_iff [of "0x80400000" "0x80400000 + a"] by (simp add: page_aligned_def)
  then have "0x80400000 + a \<noteq> slot 0x80200000 0 + i \<and> 0x80400000 + a \<noteq> slot 0x80300000 0 + i" if "i < 4" for i
    using that PGROUNDDOWN_slot_add [of "0x80200000" 0 i] PGROUNDDOWN_slot_add [of "0x80300000" 0 i] by (auto simp: page_aligned_def)
  from this [of 0] this [of 1] this [of 2] this [of 3] have d: "demo_mem (0x80400000 + a) = 0" by (simp add: demo_mem_def store32_apply)
  have "0x80400000 + a = 0x80400005 \<longleftrightarrow> a = 5"
  proof
    assume "0x80400000 + a = 0x80400005"
    then have "0x80400000 + a = 0x80400000 + 5" by simp
    then show "a = 5" by (rule add_left_imp_eq)
  qed simp
  then show "ubyte (mem (kphys text_kernel)) (P2V (cr3 text_kernel)) a = (if a = 5 then 104 else 0)"
    using d unfolding r ubyte_def user_frame_def pte z by (simp add: P2V_def PTE_ADDR_def)
qed

text \<open>The pointer 0 with a block of 16 bytes is accepted, and the string at address 5 is \<^verbatim>\<open>h\<close>.\<close>

theorem arguments_in_process_witness:
  "argptr text_kernel 1 16 = Ok (Some 0, text_kernel) \<and> fetchstr text_kernel 5 = Ok (Some [104], text_kernel) \<and>
   uload text_kernel 5 2 = Ok ([104, 0], text_kernel) \<and> fetchstr text_kernel 4096 = Ok (None, text_kernel)"
proof -
  have p: "cur text_kernel = Some 0" "procs text_kernel ! 0 = demo_proc" by (simp_all add: text_kernel_def demo_kernel_fields)
  have z: "p_sz (procs text_kernel ! 0) = 4096" by (simp add: p demo_proc_def)
  have s: "p_sz (procs text_kernel ! 0) \<le> KERNBASE" "(16 :: int) < 2 ^ 31" using z by simp_all
  note A = arguments_in_process [of text_kernel 0 16, OF p(1) s, unfolded z]
  have u: "uload text_kernel 8 4 = Ok ([0, 0, 0, 0], text_kernel)"
  proof -
    have "uaccess text_kernel (8 + of_nat j)" if "j < 4" for j
      using that by (intro text_user(1)) (simp add: word_less_nat_alt unat_word_ariths unat_of_nat)
    then have "uload text_kernel 8 4 = Ok (map (\<lambda>j. ubyte (mem (kphys text_kernel)) (P2V (cr3 text_kernel)) (8 + of_nat j)) [0..<4], text_kernel)"
      by (rule uload_resident)
    then show ?thesis by (simp add: text_user(2) upt_rec)
  qed
  have "argint text_kernel 1 = Ok (Some 0, text_kernel)"
    using u by (simp add: argint_def fetchint_def my_def p demo_proc_def unused_proc_def demo_tf_def word32_def)
  then have a: "argptr text_kernel 1 16 = Ok (Some 0, text_kernel)" using A by simp
  have r: "uaccess text_kernel (5 + of_nat j)" if "j \<le> 1" for j
    using that by (intro text_user(1)) (simp add: word_less_nat_alt unat_word_ariths unat_of_nat)
  have "map (\<lambda>j. ubyte (mem (kphys text_kernel)) (P2V (cr3 text_kernel)) (5 + of_nat j)) [0..<length [104 :: byte] + 1] = [104] @ [0]"
    by (simp add: text_user(2))
  then have f: "fetchstr text_kernel 5 = Ok (Some [104], text_kernel)" using A [of _ _ _ 5 "[104]" text_kernel] r by simp
  moreover have "uload text_kernel 5 (length [104 :: byte] + 1) = Ok ([104] @ [0], text_kernel)"
    using A [of _ _ _ 5 "[104]" text_kernel] f by blast
  moreover have "fetchstr text_kernel 4096 = Ok (None, text_kernel)" using A [of _ _ _ 4096 "[]" text_kernel] by simp
  ultimately show ?thesis using a by (simp add: numeral_2_eq_2 del: uload.simps)
qed

end
