(* ===== verification/Sysfile.thy ===== *)
theory Sysfile
  imports UserMem
begin

text \<open>
  The system calls on files (sysfile.c) and \<^verbatim>\<open>exec\<close> (exec.c). The bytes that a call writes are read from user memory
  before it and the bytes that a call reads are stored there after it. The paths are those of the calling process.
\<close>

section \<open>File descriptors\<close>

definition argfd :: "kernel \<Rightarrow> nat \<Rightarrow> ((nat \<times> nat) option \<times> kernel) outcome" where
  "argfd k n =
     andThen (argint k n)
       (\<lambda>(r, k). case r of
          None \<Rightarrow> Ok (None, k)
        | Some w \<Rightarrow> my k (\<lambda>i. let fd = sint w
            in if fd < 0 \<or> fd \<ge> int NOFILE then Ok (None, k)
               else case p_ofile (procs k ! i) ! nat fd of
                      None \<Rightarrow> Ok (None, k)
                    | Some f \<Rightarrow> Ok (Some (nat fd, f), k)))"

definition fdalloc :: "kernel \<Rightarrow> nat \<Rightarrow> (nat option \<times> kernel) outcome" where
  "fdalloc k f =
     my k (\<lambda>i. case first_idx (\<lambda>x. x = None) (take NOFILE (p_ofile (procs k ! i))) of
       None \<Rightarrow> Ok (None, k)
     | Some fd \<Rightarrow> Ok (Some fd, upd_proc k i (\<lambda>p. p\<lparr>p_ofile := (p_ofile p)[fd := Some f]\<rparr>)))"

definition sys_dup :: "kernel \<Rightarrow> (int \<times> kernel) outcome" where
  "sys_dup k =
     andThen (argfd k 0)
       (\<lambda>(r, k). case r of
          None \<Rightarrow> Ok (- 1, k)
        | Some (_, f) \<Rightarrow> andThen (fdalloc k f)
            (\<lambda>(r, k). case r of None \<Rightarrow> Ok (- 1, k) | Some fd \<Rightarrow> andThen (filedup k f) (\<lambda>(_, k). Ok (int fd, k))))"

text \<open>The arguments of \<^verbatim>\<open>sys_read\<close> and \<^verbatim>\<open>sys_write\<close>: the file, the buffer and the count.\<close>

definition arg_buffer :: "kernel \<Rightarrow> ((nat \<times> addr \<times> int) option \<times> kernel) outcome" where
  "arg_buffer k =
     andThen (argfd k 0)
       (\<lambda>(r, k). case r of
          None \<Rightarrow> Ok (None, k)
        | Some (_, f) \<Rightarrow> andThen (argint k 2)
            (\<lambda>(r, k). case r of
               None \<Rightarrow> Ok (None, k)
             | Some n \<Rightarrow> andThen (argptr k 1 (sint n))
                 (\<lambda>(r, k). case r of None \<Rightarrow> Ok (None, k) | Some p \<Rightarrow> Ok (Some (f, p, sint n), k))))"

definition sys_read :: "kernel \<Rightarrow> (int \<times> kernel) outcome" where
  "sys_read k =
     andThen (arg_buffer k)
       (\<lambda>(r, k). case r of
          None \<Rightarrow> Ok (- 1, k)
        | Some (f, p, n) \<Rightarrow> andThen (fileread k f n) (\<lambda>((r, bs), k). andThen (usave k p bs) (\<lambda>k. Ok (r, k))))"

definition sys_write :: "kernel \<Rightarrow> (int \<times> kernel) outcome" where
  "sys_write k =
     andThen (arg_buffer k)
       (\<lambda>(r, k). case r of
          None \<Rightarrow> Ok (- 1, k)
        | Some (f, p, n) \<Rightarrow> andThen (uload k p (nat n)) (\<lambda>(bs, k). filewrite k f bs))"

definition sys_close :: "kernel \<Rightarrow> (int \<times> kernel) outcome" where
  "sys_close k =
     andThen (argfd k 0)
       (\<lambda>(r, k). case r of
          None \<Rightarrow> Ok (- 1, k)
        | Some (fd, f) \<Rightarrow> my k (\<lambda>i.
            andThen (fileclose (upd_proc k i (\<lambda>p. p\<lparr>p_ofile := (p_ofile p)[fd := None]\<rparr>)) f) (\<lambda>k. Ok (0, k))))"

text \<open>\<^verbatim>\<open>struct stat\<close> as it lies in memory: two bytes of padding after the type and after the link count.\<close>

definition sys_fstat :: "kernel \<Rightarrow> (int \<times> kernel) outcome" where
  "sys_fstat k =
     andThen (argfd k 0)
       (\<lambda>(r, k). case r of
          None \<Rightarrow> Ok (- 1, k)
        | Some (_, f) \<Rightarrow> andThen (argptr k 1 20)
            (\<lambda>(r, k). case r of
               None \<Rightarrow> Ok (- 1, k)
             | Some p \<Rightarrow> andThen (filestat k f)
                 (\<lambda>(st, k). case st of
                    None \<Rightarrow> Ok (- 1, k)
                  | Some st \<Rightarrow>
                      andThen (usave k p (bytes16 (st_type st)))
                        (\<lambda>k. andThen (usave k (p + 4) (bytes32 (st_dev st)))
                          (\<lambda>k. andThen (usave k (p + 8) (bytes32 (st_ino st)))
                            (\<lambda>k. andThen (usave k (p + 12) (bytes16 (st_nlink st)))
                              (\<lambda>k. andThen (usave k (p + 16) (bytes32 (st_size st))) (\<lambda>k. Ok (0, k)))))))))"

section \<open>Names\<close>

definition link_bad :: "kernel \<Rightarrow> nat \<Rightarrow> (int \<times> kernel) outcome" where
  "link_bad k ip =
     andThen (ilock k (Some ip))
       (\<lambda>k. andThen (iupdate (upd_inode k ip (\<lambda>j. j\<lparr>i_nlink := i_nlink j - 1\<rparr>)) ip)
          (\<lambda>k. andThen (iunlockput k ip) (\<lambda>k. andThen (end_op k) (\<lambda>k. Ok (- 1, k)))))"

definition link_new :: "kernel \<Rightarrow> nat \<Rightarrow> byte list \<Rightarrow> (int \<times> kernel) outcome" where
  "link_new k ip new =
     andThen (nameiparent k new)
       (\<lambda>(r, k). case r of
          None \<Rightarrow> link_bad k ip
        | Some (dp, name) \<Rightarrow>
            andThen (ilock k (Some dp))
              (\<lambda>k. andThen (if i_dev (inodes k ! dp) \<noteq> i_dev (inodes k ! ip) then Ok (- 1, k) else dirlink k dp name (i_inum (inodes k ! ip)))
                 (\<lambda>(r, k). andThen (iunlockput k dp)
                    (\<lambda>k. if r < 0 then link_bad k ip
                         else andThen (iput k ip) (\<lambda>k. andThen (end_op k) (\<lambda>k. Ok (0, k)))))))"

definition sys_link :: "kernel \<Rightarrow> (int \<times> kernel) outcome" where
  "sys_link k =
     andThen (argstr k 0)
       (\<lambda>(r, k). case r of
          None \<Rightarrow> Ok (- 1, k)
        | Some old \<Rightarrow> andThen (argstr k 1)
            (\<lambda>(r, k). case r of
               None \<Rightarrow> Ok (- 1, k)
             | Some new \<Rightarrow> andThen (begin_op (fs_enter k))
                 (\<lambda>k. andThen (namei k (old))
                    (\<lambda>(r, k). case r of
                       None \<Rightarrow> andThen (end_op k) (\<lambda>k. Ok (- 1, k))
                     | Some ip \<Rightarrow> andThen (ilock k (Some ip))
                         (\<lambda>k. if i_type (inodes k ! ip) = T_DIR
                              then andThen (iunlockput k ip) (\<lambda>k. andThen (end_op k) (\<lambda>k. Ok (- 1, k)))
                              else andThen (iupdate (upd_inode k ip (\<lambda>j. j\<lparr>i_nlink := i_nlink j + 1\<rparr>)) ip)
                                (\<lambda>k. andThen (iunlock k (Some ip)) (\<lambda>k. link_new k ip (new))))))))"

definition sys_unlink :: "kernel \<Rightarrow> (int \<times> kernel) outcome" where
  "sys_unlink k =
     andThen (argstr k 0)
       (\<lambda>(r, k). case r of None \<Rightarrow> Ok (- 1, k) | Some path \<Rightarrow> unlink_path (fs_enter k) (path))"

definition op_fails :: "kernel \<Rightarrow> (int \<times> kernel) outcome" where
  "op_fails k = andThen (end_op k) (\<lambda>k. Ok (- 1, k))"

text \<open>The inode that \<^verbatim>\<open>sys_open\<close> opens, locked; none when the call fails.\<close>

definition open_inode :: "kernel \<Rightarrow> byte list \<Rightarrow> u32 \<Rightarrow> (nat option \<times> kernel) outcome" where
  "open_inode k path omode =
     (if omode AND 0x200 \<noteq> 0 then create k path T_FILE 0 0
      else andThen (namei k path)
             (\<lambda>(r, k). case r of
                None \<Rightarrow> Ok (None, k)
              | Some ip \<Rightarrow> andThen (ilock k (Some ip))
                  (\<lambda>k. if i_type (inodes k ! ip) = T_DIR \<and> omode \<noteq> 0 then andThen (iunlockput k ip) (\<lambda>k. Ok (None, k))
                       else Ok (Some ip, k))))"

definition open_file :: "kernel \<Rightarrow> nat \<Rightarrow> u32 \<Rightarrow> (int \<times> kernel) outcome" where
  "open_file k ip omode =
     (case filealloc k of
        (None, k) \<Rightarrow> andThen (iunlockput k ip) op_fails
      | (Some f, k) \<Rightarrow> andThen (fdalloc k f)
          (\<lambda>(r, k). case r of
             None \<Rightarrow> andThen (fileclose k f) (\<lambda>k. andThen (iunlockput k ip) op_fails)
           | Some fd \<Rightarrow> andThen (iunlock k (Some ip))
               (\<lambda>k. andThen (end_op k)
                  (\<lambda>k. Ok (int fd, upd_file k f (\<lambda>g. g\<lparr>f_type := FD_INODE, f_ip := Some ip, f_off := 0, f_readable := (omode AND 1 = 0),
                     f_writable := (omode AND 1 \<noteq> 0 \<or> omode AND 2 \<noteq> 0)\<rparr>))))))"

definition sys_open :: "kernel \<Rightarrow> (int \<times> kernel) outcome" where
  "sys_open k =
     andThen (argstr k 0)
       (\<lambda>(r, k). case r of
          None \<Rightarrow> Ok (- 1, k)
        | Some path \<Rightarrow> andThen (argint k 1)
            (\<lambda>(r, k). case r of
               None \<Rightarrow> Ok (- 1, k)
             | Some omode \<Rightarrow> andThen (begin_op (fs_enter k))
                 (\<lambda>k. andThen (open_inode k path omode)
                    (\<lambda>(r, k). case r of None \<Rightarrow> op_fails k | Some ip \<Rightarrow> open_file k ip omode))))"

definition sys_mkdir :: "kernel \<Rightarrow> (int \<times> kernel) outcome" where
  "sys_mkdir k =
     andThen (begin_op k)
       (\<lambda>k. andThen (argstr k 0)
          (\<lambda>(r, k). case r of
             None \<Rightarrow> op_fails k
           | Some path \<Rightarrow> andThen (create (fs_enter k) path T_DIR 0 0)
               (\<lambda>(r, k). case r of
                  None \<Rightarrow> op_fails k
                | Some ip \<Rightarrow> andThen (iunlockput k ip) (\<lambda>k. andThen (end_op k) (\<lambda>k. Ok (0, k))))))"

definition sys_mknod :: "kernel \<Rightarrow> (int \<times> kernel) outcome" where
  "sys_mknod k =
     andThen (begin_op k)
       (\<lambda>k. andThen (argstr k 0)
          (\<lambda>(r, k). case r of
             None \<Rightarrow> op_fails k
           | Some path \<Rightarrow> andThen (argint k 1)
               (\<lambda>(r, k). case r of
                  None \<Rightarrow> op_fails k
                | Some major \<Rightarrow> andThen (argint k 2)
                    (\<lambda>(r, k). case r of
                       None \<Rightarrow> op_fails k
                     | Some minor \<Rightarrow> andThen (create (fs_enter k) path T_DEV (ucast major) (ucast minor))
                         (\<lambda>(r, k). case r of
                            None \<Rightarrow> op_fails k
                          | Some ip \<Rightarrow> andThen (iunlockput k ip) (\<lambda>k. andThen (end_op k) (\<lambda>k. Ok (0, k))))))))"

definition sys_chdir :: "kernel \<Rightarrow> (int \<times> kernel) outcome" where
  "sys_chdir k =
     andThen (begin_op k)
       (\<lambda>k. andThen (argstr k 0)
          (\<lambda>(r, k). case r of
             None \<Rightarrow> op_fails k
           | Some path \<Rightarrow> andThen (namei (fs_enter k) path)
               (\<lambda>(r, k). case r of
                  None \<Rightarrow> op_fails k
                | Some ip \<Rightarrow> andThen (ilock k (Some ip))
                    (\<lambda>k. if i_type (inodes k ! ip) \<noteq> T_DIR then andThen (iunlockput k ip) op_fails
                         else andThen (iunlock k (Some ip))
                           (\<lambda>k. my k (\<lambda>i. case p_cwd (procs k ! i) of
                              None \<Rightarrow> Fault ''iput: null inode''
                            | Some cwd \<Rightarrow> andThen (iput k cwd)
                                (\<lambda>k. andThen (end_op k) (\<lambda>k. Ok (0, upd_proc k i (\<lambda>p. p\<lparr>p_cwd := Some ip\<rparr>))))))))))"

text \<open>The descriptors are stored as two ints.\<close>

definition sys_pipe :: "kernel \<Rightarrow> (int \<times> kernel) outcome" where
  "sys_pipe k =
     andThen (argptr k 0 8)
       (\<lambda>(r, k). case r of
          None \<Rightarrow> Ok (- 1, k)
        | Some fd \<Rightarrow> andThen (pipealloc k)
            (\<lambda>(r, k). case r of
               None \<Rightarrow> Ok (- 1, k)
             | Some (rfile, wfile) \<Rightarrow> andThen (fdalloc k rfile)
                 (\<lambda>(r, k). case r of
                    None \<Rightarrow> andThen (fileclose k rfile) (\<lambda>k. andThen (fileclose k wfile) (\<lambda>k. Ok (- 1, k)))
                  | Some fd0 \<Rightarrow> andThen (fdalloc k wfile)
                      (\<lambda>(r, k). case r of
                         None \<Rightarrow> my k (\<lambda>i. let k = upd_proc k i (\<lambda>p. p\<lparr>p_ofile := (p_ofile p)[fd0 := None]\<rparr>)
                           in andThen (fileclose k rfile) (\<lambda>k. andThen (fileclose k wfile) (\<lambda>k. Ok (- 1, k))))
                       | Some fd1 \<Rightarrow> andThen (usave k fd (bytes32 (of_nat fd0)))
                           (\<lambda>k. andThen (usave k (fd + 4) (bytes32 (of_nat fd1))) (\<lambda>k. Ok (0, k)))))))"

section \<open>Executing a program\<close>

record elfhdr =
  e_magic :: u32
  e_elf :: "byte list"
  e_type :: u16
  e_machine :: u16
  e_version :: u32
  e_entry :: u32
  e_phoff :: u32
  e_shoff :: u32
  e_flags :: u32
  e_ehsize :: u16
  e_phentsize :: u16
  e_phnum :: u16
  e_shentsize :: u16
  e_shnum :: u16
  e_shstrndx :: u16

definition get_elfhdr :: "byte list \<Rightarrow> elfhdr" where
  "get_elfhdr b = \<lparr>e_magic = get32 0 b, e_elf = get_bytes 4 12 b, e_type = get16 16 b, e_machine = get16 18 b, e_version = get32 20 b, e_entry = get32 24 b,
     e_phoff = get32 28 b, e_shoff = get32 32 b, e_flags = get32 36 b, e_ehsize = get16 40 b, e_phentsize = get16 42 b, e_phnum = get16 44 b,
     e_shentsize = get16 46 b, e_shnum = get16 48 b, e_shstrndx = get16 50 b\<rparr>"

record proghdr =
  ph_type :: u32
  ph_off :: u32
  ph_vaddr :: u32
  ph_paddr :: u32
  ph_filesz :: u32
  ph_memsz :: u32
  ph_flags :: u32
  ph_align :: u32

definition get_proghdr :: "byte list \<Rightarrow> proghdr" where
  "get_proghdr b = \<lparr>ph_type = get32 0 b, ph_off = get32 4 b, ph_vaddr = get32 8 b, ph_paddr = get32 12 b, ph_filesz = get32 16 b, ph_memsz = get32 20 b,
     ph_flags = get32 24 b, ph_align = get32 28 b\<rparr>"

text \<open>The loop over the program headers; the size of the image, or nothing when the file is bad.\<close>

fun exec_segments :: "nat \<Rightarrow> kernel \<Rightarrow> addr \<Rightarrow> nat \<Rightarrow> u32 \<Rightarrow> u32 \<Rightarrow> (u32 option \<times> kernel) outcome" where
  "exec_segments 0 k pgdir ip off sz = Ok (Some sz, k)"
| "exec_segments (Suc n) k pgdir ip off sz =
     andThen (readi (fs_enter k) ip off 32)
       (\<lambda>((r, bs), k). let ph = get_proghdr bs
          in if r \<noteq> 32 then Ok (None, k)
             else if ph_type ph \<noteq> 1 then exec_segments n k pgdir ip (off + 32) sz
             else if ph_memsz ph < ph_filesz ph then Ok (None, k)
             else if ph_vaddr ph + ph_memsz ph < ph_vaddr ph then Ok (None, k)
             else andThen (allocuvm k pgdir sz (ph_vaddr ph + ph_memsz ph))
               (\<lambda>(sz, k). if sz = 0 then Ok (None, k)
                  else if ph_vaddr ph mod PGSIZE \<noteq> 0 then Ok (None, k)
                  else andThen (loaduvm k pgdir (ph_vaddr ph) ip (ph_off ph) (ph_filesz ph))
                    (\<lambda>(r, k). if r < 0 then Ok (None, k) else exec_segments n k pgdir ip (off + 32) sz)))"

text \<open>\<^verbatim>\<open>copyout\<close> of bytes that are not in the kernel's own memory.\<close>

function copyout_bytes :: "phys \<Rightarrow> addr \<Rightarrow> addr \<Rightarrow> byte list \<Rightarrow> (int \<times> phys) outcome" where
  "copyout_bytes s pgdir va bs =
     (if bs = [] then Ok (0, s)
      else
        let va0 = PGROUNDDOWN va
        in andThen (uva2ka s pgdir va0)
             (\<lambda>pa0. if pa0 = 0 then Ok (- 1, s)
                else
                  let n = min (unat (PGSIZE - (va - va0))) (length bs)
                  in copyout_bytes (s\<lparr>mem := store_bytes (mem s) (pa0 + (va - va0)) (take n bs)\<rparr>) pgdir (va0 + PGSIZE) (drop n bs)))"
  by pat_completeness auto
termination
proof (relation "measure (\<lambda>(s, pgdir, va, bs). length bs)", goal_cases)
  case (2 s pgdir va bs)
  then show ?case using page_rest(1) [of va] by (auto simp: word_less_nat_alt)
qed simp

declare copyout_bytes.simps [simp del]

text \<open>Pushing the argument strings: the stack pointer and the addresses of the strings.\<close>

fun exec_args :: "byte list list \<Rightarrow> nat \<Rightarrow> phys \<Rightarrow> addr \<Rightarrow> u32 \<Rightarrow> ((u32 \<times> u32 list) option \<times> phys) outcome" where
  "exec_args [] argc s pgdir sp = Ok (Some (sp, []), s)"
| "exec_args (arg # args) argc s pgdir sp =
     (if argc \<ge> 32 then Ok (None, s)
      else
        let sp = (sp - (of_nat (length arg) + 1)) AND NOT 3
        in andThen (copyout_bytes s pgdir sp (arg @ [0]))
             (\<lambda>(r, s). if r < 0 then Ok (None, s)
                else andThen (exec_args args (Suc argc) s pgdir sp)
                       (\<lambda>(r, s). Ok (map_option (\<lambda>(sp', us). (sp', sp # us)) r, s))))"

text \<open>The arguments and the frame of \<^verbatim>\<open>main\<close>: the stack pointer of the new image.\<close>

definition exec_stack :: "phys \<Rightarrow> addr \<Rightarrow> u32 \<Rightarrow> byte list list \<Rightarrow> (u32 option \<times> phys) outcome" where
  "exec_stack s pgdir sp argv =
     andThen (exec_args argv 0 s pgdir sp)
       (\<lambda>(r, s). case r of
          None \<Rightarrow> Ok (None, s)
        | Some (sp, us) \<Rightarrow>
            let argc = of_nat (length us);
                ustack = [0xffffffff, argc, sp - (argc + 1) * 4] @ us @ [0];
                sp = sp - (3 + argc + 1) * 4
            in andThen (copyout_bytes s pgdir sp (concat (map bytes32 ustack)))
                 (\<lambda>(r, s). if r < 0 then Ok (None, s) else Ok (Some sp, s)))"

definition exec_bad :: "kernel \<Rightarrow> addr \<Rightarrow> nat option \<Rightarrow> (int \<times> kernel) outcome" where
  "exec_bad k pgdir ip =
     andThen (if pgdir \<noteq> 0 then freevm k pgdir else Ok k)
       (\<lambda>k. case ip of None \<Rightarrow> Ok (- 1, k) | Some ip \<Rightarrow> andThen (iunlockput k ip) op_fails)"

definition last_name :: "byte list \<Rightarrow> byte list" where
  "last_name path = rev (takeWhile (\<lambda>c. c \<noteq> ch CHR ''/'') (rev path))"

definition exec_commit :: "kernel \<Rightarrow> nat \<Rightarrow> addr \<Rightarrow> u32 \<Rightarrow> u32 \<Rightarrow> u32 \<Rightarrow> byte list \<Rightarrow> (int \<times> kernel) outcome" where
  "exec_commit k i pgdir sz entry sp path =
     (let oldpgdir = p_pgdir (procs k ! i);
          k = upd_proc k i (\<lambda>p. p\<lparr>p_name := overwrite 0 (safestrcpy (last_name path @ [0]) 16) (p_name p), p_pgdir := pgdir, p_sz := sz,
                p_tf := (p_tf p)\<lparr>tf_eip := entry, tf_esp := sp\<rparr>\<rparr>)
      in andThen (switchuvm k (Some i)) (\<lambda>k. andThen (freevm k oldpgdir) (\<lambda>k. Ok (0, k))))"

definition exec_image :: "kernel \<Rightarrow> nat \<Rightarrow> addr \<Rightarrow> u32 \<Rightarrow> u32 \<Rightarrow> byte list \<Rightarrow> byte list list \<Rightarrow> (int \<times> kernel) outcome" where
  "exec_image k i pgdir sz entry path argv =
     (let sz = PGROUNDUP sz
      in andThen (allocuvm k pgdir sz (sz + 2 * PGSIZE))
           (\<lambda>(sz, k). if sz = 0 then exec_bad k pgdir None
              else andThen (phys_do k (\<lambda>m. clearpteu m pgdir (sz - 2 * PGSIZE)))
                (\<lambda>k. andThen (phys_call k (\<lambda>m. exec_stack m pgdir sz argv))
                   (\<lambda>(r, k). case r of
                      None \<Rightarrow> exec_bad k pgdir None
                    | Some sp \<Rightarrow> exec_commit k i pgdir sz entry sp path))))"

definition exec_swap :: "kernel \<Rightarrow> nat \<Rightarrow> kernel outcome" where
  "exec_swap k i =
     (if SELECTION k \<noteq> NONE \<and> is_user_proc (procs k ! i)
      then andThen (createSwapFile (set_meta k i (\<lambda>_. reset_paging_meta)) i)
             (\<lambda>(r, k). if r \<noteq> 0 then Panic ''exec_create swapfile'' else Ok k)
      else Ok k)"

definition exec_inode :: "kernel \<Rightarrow> nat \<Rightarrow> nat \<Rightarrow> byte list \<Rightarrow> byte list list \<Rightarrow> (int \<times> kernel) outcome" where
  "exec_inode k i ip path argv =
     andThen (readi (fs_enter k) ip 0 52)
       (\<lambda>((r, bs), k). let elf = get_elfhdr bs
          in if r \<noteq> 52 \<or> e_magic elf \<noteq> 0x464C457F then exec_bad k 0 (Some ip)
             else andThen (setupkvm k)
               (\<lambda>(pgdir, k). if pgdir = 0 then exec_bad k 0 (Some ip)
                  else andThen (exec_swap k i)
                    (\<lambda>k. andThen (exec_segments (unat (e_phnum elf)) k pgdir ip (e_phoff elf) 0)
                       (\<lambda>(r, k). case r of
                          None \<Rightarrow> exec_bad k pgdir (Some ip)
                        | Some sz \<Rightarrow> andThen (iunlockput k ip)
                            (\<lambda>k. andThen (end_op k) (\<lambda>k. exec_image k i pgdir sz (e_entry elf) path argv))))))"

definition exec :: "kernel \<Rightarrow> byte list \<Rightarrow> byte list list \<Rightarrow> (int \<times> kernel) outcome" where
  "exec k path argv =
     my k (\<lambda>i. andThen (begin_op (fs_enter k))
       (\<lambda>k. andThen (namei k path)
          (\<lambda>(r, k). case r of
             None \<Rightarrow> andThen (end_op k) (\<lambda>k. andThen (kprintf k ''exec: fail\<newline>'' []) (\<lambda>k. Ok (- 1, k)))
           | Some ip \<Rightarrow> andThen (ilock k (Some ip)) (\<lambda>k. exec_inode k i ip path argv))))"

text \<open>The argument vector of \<^verbatim>\<open>sys_exec\<close>: at most 31 strings and the null pointer.\<close>

fun exec_argv :: "nat \<Rightarrow> kernel \<Rightarrow> u32 \<Rightarrow> (byte list list option \<times> kernel) outcome" where
  "exec_argv 0 k uargv = Ok (None, k)"
| "exec_argv (Suc n) k uargv =
     andThen (fetchint k uargv)
       (\<lambda>(r, k). case r of
          None \<Rightarrow> Ok (None, k)
        | Some uarg \<Rightarrow> if uarg = 0 then Ok (Some [], k)
            else andThen (fetchstr k uarg)
              (\<lambda>(r, k). case r of
                 None \<Rightarrow> Ok (None, k)
               | Some s \<Rightarrow> andThen (exec_argv n k (uargv + 4)) (\<lambda>(r, k). Ok (map_option (Cons s) r, k))))"

definition sys_exec :: "kernel \<Rightarrow> (int \<times> kernel) outcome" where
  "sys_exec k =
     andThen (argstr k 0)
       (\<lambda>(r, k). case r of
          None \<Rightarrow> Ok (- 1, k)
        | Some path \<Rightarrow> andThen (argint k 1)
            (\<lambda>(r, k). case r of
               None \<Rightarrow> Ok (- 1, k)
             | Some uargv \<Rightarrow> andThen (exec_argv 32 k uargv)
                 (\<lambda>(r, k). case r of None \<Rightarrow> Ok (- 1, k) | Some argv \<Rightarrow> exec k path argv)))"

end
