(* ===== verification/Trap.thy ===== *)
theory Trap
  imports Sysfile
begin

text \<open>
  The system calls on processes (sysproc.c), the system call dispatcher (syscall.c) and the trap handler (trap.c). A call
  in which the process gives up the processor returns \<open>Sleep\<close>: what it does when it runs again is the next pass of
  its loop. The characters of an input interrupt are those \<^verbatim>\<open>getc\<close> returns before -1. The disk driver has no
  request waiting here, so its interrupt finds an empty queue. \<open>cr2\<close> is the address of the last page fault.
\<close>

section \<open>System calls on processes\<close>

definition returns :: "(int \<times> kernel) outcome \<Rightarrow> ((int, unit) run \<times> kernel) outcome" where
  "returns r = andThen r (\<lambda>(v, k). Ok (Return v, k))"

definition gives_up :: "kernel outcome \<Rightarrow> ((int, unit) run \<times> kernel) outcome" where
  "gives_up r = andThen r (\<lambda>k. Ok (Sleep (), k))"

definition sys_yield :: "kernel \<Rightarrow> ((int, unit) run \<times> kernel) outcome" where
  "sys_yield k = gives_up (yield k)"

definition sys_fork :: "kernel \<Rightarrow> ((int, unit) run \<times> kernel) outcome" where
  "sys_fork k = returns (fork k)"

definition sys_exit :: "kernel \<Rightarrow> ((int, unit) run \<times> kernel) outcome" where
  "sys_exit k = gives_up (exit k)"

definition sys_wait :: "kernel \<Rightarrow> ((int, unit) run \<times> kernel) outcome" where
  "sys_wait k = wait k"

definition sys_kill :: "kernel \<Rightarrow> ((int, unit) run \<times> kernel) outcome" where
  "sys_kill k =
     returns (andThen (argint k 0) (\<lambda>(r, k). case r of None \<Rightarrow> Ok (- 1, k) | Some pid \<Rightarrow> Ok (kill k (sint pid))))"

definition sys_getpid :: "kernel \<Rightarrow> ((int, unit) run \<times> kernel) outcome" where
  "sys_getpid k = returns (my k (\<lambda>i. Ok (p_pid (procs k ! i), k)))"

definition sys_sbrk :: "kernel \<Rightarrow> ((int, unit) run \<times> kernel) outcome" where
  "sys_sbrk k =
     returns (andThen (argint k 0)
       (\<lambda>(r, k). case r of
          None \<Rightarrow> Ok (- 1, k)
        | Some n \<Rightarrow> my k (\<lambda>i. let a = p_sz (procs k ! i)
            in andThen (growproc k (sint n)) (\<lambda>(r, k). Ok (if r < 0 then - 1 else sint a, k)))))"

text \<open>A pass of the loop of \<^verbatim>\<open>sys_sleep\<close>. The comparison is one of unsigned numbers.\<close>

definition sleep_pass :: "kernel \<Rightarrow> u32 \<Rightarrow> u32 \<Rightarrow> ((int, unit) run \<times> kernel) outcome" where
  "sleep_pass k ticks0 n =
     (if ticks k - ticks0 < n
      then my k (\<lambda>i. if p_killed (procs k ! i) then Ok (Return (- 1), k) else gives_up (sleep k Chan_ticks))
      else Ok (Return 0, k))"

definition sys_sleep :: "kernel \<Rightarrow> ((int, unit) run \<times> kernel) outcome" where
  "sys_sleep k =
     andThen (argint k 0) (\<lambda>(r, k). case r of None \<Rightarrow> Ok (Return (- 1), k) | Some n \<Rightarrow> sleep_pass k (ticks k) n)"

definition sys_uptime :: "kernel \<Rightarrow> ((int, unit) run \<times> kernel) outcome" where
  "sys_uptime k = Ok (Return (sint (ticks k)), k)"

section \<open>The dispatcher\<close>

definition syscalls :: "int \<Rightarrow> (kernel \<Rightarrow> ((int, unit) run \<times> kernel) outcome) option" where
  "syscalls num =
     (if num = 1 then Some sys_fork else if num = 2 then Some sys_exit else if num = 3 then Some sys_wait
      else if num = 4 then Some (returns \<circ> sys_pipe) else if num = 5 then Some (returns \<circ> sys_read) else if num = 6 then Some sys_kill
      else if num = 7 then Some (returns \<circ> sys_exec) else if num = 8 then Some (returns \<circ> sys_fstat) else if num = 9 then Some (returns \<circ> sys_chdir)
      else if num = 10 then Some (returns \<circ> sys_dup) else if num = 11 then Some sys_getpid else if num = 12 then Some sys_sbrk
      else if num = 13 then Some sys_sleep else if num = 14 then Some sys_uptime else if num = 15 then Some (returns \<circ> sys_open)
      else if num = 16 then Some (returns \<circ> sys_write) else if num = 17 then Some (returns \<circ> sys_mknod) else if num = 18 then Some (returns \<circ> sys_unlink)
      else if num = 19 then Some (returns \<circ> sys_link) else if num = 20 then Some (returns \<circ> sys_mkdir) else if num = 21 then Some (returns \<circ> sys_close)
      else if num = 22 then Some sys_yield else None)"

definition set_eax :: "kernel \<Rightarrow> nat \<Rightarrow> u32 \<Rightarrow> kernel" where
  "set_eax k i v = upd_proc k i (\<lambda>p. p\<lparr>p_tf := (p_tf p)\<lparr>tf_eax := v\<rparr>\<rparr>)"

definition syscall :: "kernel \<Rightarrow> kernel outcome" where
  "syscall k =
     my k (\<lambda>i. let num = sint (tf_eax (p_tf (procs k ! i)))
       in case syscalls num of
            Some f \<Rightarrow> andThen (f k) (\<lambda>(r, k). case r of Return v \<Rightarrow> Ok (set_eax k i (of_int v)) | Sleep _ \<Rightarrow> Ok k)
          | None \<Rightarrow>
              andThen (kprintf k ''%d %s: unknown sys call %d\<newline>''
                  [Num (of_int (p_pid (procs k ! i))), Str (Some (p_name (procs k ! i))), Num (of_int num)])
                (\<lambda>k. Ok (set_eax k i (- 1))))"

section \<open>Traps\<close>

definition console_input :: "kernel \<Rightarrow> byte list \<Rightarrow> kernel outcome" where
  "console_input k inp =
     andThen (consoleintr inp (cons k)) (\<lambda>(c, dump). let k = k\<lparr>cons := c\<rparr> in if dump then procdump k else Ok k)"

definition user_mode :: "trapframe \<Rightarrow> bool" where
  "user_mode tf \<longleftrightarrow> tf_cs tf AND 3 = 3"

text \<open>The default case: a trap that nobody expected.\<close>

definition trap_default :: "kernel \<Rightarrow> trapframe \<Rightarrow> u32 \<Rightarrow> kernel outcome" where
  "trap_default k tf cr2 =
     (if cur k = None \<or> tf_cs tf AND 3 = 0
      then andThen (kprintf k ''unexpected trap %d from cpu %d eip %x (cr2=0x%x)\<newline>'' [Num (tf_trapno tf), Num 0, Num (tf_eip tf), Num cr2])
             (\<lambda>k. Panic ''trap'')
      else my k (\<lambda>i.
        andThen (kprintf k ''pid %d %s: trap %d err %d on cpu %d eip 0x%x addr 0x%x--kill proc\<newline>''
            [Num (of_int (p_pid (procs k ! i))), Str (Some (p_name (procs k ! i))), Num (tf_trapno tf), Num (tf_err tf), Num 0, Num (tf_eip tf), Num cr2])
          (\<lambda>k. Ok (upd_proc k i (\<lambda>p. p\<lparr>p_killed := True\<rparr>)))))"

definition trap_case :: "kernel \<Rightarrow> trapframe \<Rightarrow> u32 \<Rightarrow> byte list \<Rightarrow> kernel outcome" where
  "trap_case k tf cr2 inp =
     (let n = tf_trapno tf
      in if n = 32 then Ok (wakeup (k\<lparr>ticks := ticks k + 1\<rparr>) Chan_ticks)
         else if n = 46 \<or> n = 47 then Ok k
         else if n = 33 \<or> n = 36 then console_input k inp
         else if n = 39 \<or> n = 63
           then kprintf k ''cpu%d: spurious interrupt at %x:%x\<newline>'' [Num 0, Num (ucast (tf_cs tf)), Num (tf_eip tf)]
         else if n = 14 then andThen (page_fault k cr2) (\<lambda>(handled, k). if handled then Ok k else trap_default k tf cr2)
         else trap_default k tf cr2)"

text \<open>What follows the switch; after \<^verbatim>\<open>yield\<close> the process is back when it is picked again.\<close>

definition exit_if_killed :: "kernel \<Rightarrow> trapframe \<Rightarrow> (kernel \<Rightarrow> kernel outcome) \<Rightarrow> kernel outcome" where
  "exit_if_killed k tf next =
     (case cur k of
        None \<Rightarrow> next k
      | Some i \<Rightarrow> if p_killed (procs k ! i) \<and> user_mode tf then exit k else next k)"

definition trap_tick :: "kernel \<Rightarrow> trapframe \<Rightarrow> kernel outcome" where
  "trap_tick k tf =
     (case cur k of
        None \<Rightarrow> Ok k
      | Some i \<Rightarrow>
          if p_state (procs k ! i) = RUNNING \<and> tf_trapno tf = 32
          then andThen (if SELECTION k \<noteq> NONE then age_process_pages k i else Ok k) yield
          else Ok k)"

definition trap_resume :: "kernel \<Rightarrow> trapframe \<Rightarrow> kernel outcome" where
  "trap_resume k tf = exit_if_killed k tf Ok"

definition trap_syscall :: "kernel \<Rightarrow> trapframe \<Rightarrow> kernel outcome" where
  "trap_syscall k tf =
     my k (\<lambda>i. if p_killed (procs k ! i) then exit k
       else andThen (syscall (upd_proc k i (\<lambda>p. p\<lparr>p_tf := tf\<rparr>)))
              (\<lambda>k. case cur k of None \<Rightarrow> Ok k | Some j \<Rightarrow> if p_killed (procs k ! j) then exit k else Ok k))"

definition trap :: "kernel \<Rightarrow> trapframe \<Rightarrow> u32 \<Rightarrow> byte list \<Rightarrow> kernel outcome" where
  "trap k tf cr2 inp =
     (if tf_trapno tf = 64 then trap_syscall k tf
      else andThen (trap_case k tf cr2 inp)
             (\<lambda>k. exit_if_killed k tf
                (\<lambda>k. andThen (trap_tick k tf)
                   (\<lambda>k'. if cur k' = None then Ok k' else trap_resume k' tf))))"

end
