(* ===== verification/PageFault.thy ===== *)
theory PageFault
  imports Trap
begin

text \<open>
  The page-fault handler is transparent: under SCFIFO and AQ a fault on a page in the swap file ends with the page present
  and every byte of the process unchanged, whether or not another page had to make room.
\<close>

section \<open>Changes that the pager does not see\<close>

definition quiet :: "nat \<Rightarrow> nat \<Rightarrow> addr list \<Rightarrow> kernel \<Rightarrow> kernel \<Rightarrow> bool" where
  "quiet p n xs k k' \<longleftrightarrow> paged p n xs k' \<and> (\<forall>v<KERNBASE. vbyte k' p v = vbyte k p v) \<and> pages (meta k' p) = pages (meta k p) \<and>
     cur k' = cur k \<and> SELECTION k' = SELECTION k \<and> pgd k' p = pgd k p"

lemma quiet_trans: "quiet p n xs k k' \<Longrightarrow> quiet p n xs k' k'' \<Longrightarrow> quiet p n xs k k''"
  by (simp add: quiet_def)

lemma quietD:
  assumes "quiet p n xs k k'"
  shows "paged p n xs k'" "\<And>v. v < KERNBASE \<Longrightarrow> vbyte k' p v = vbyte k p v" "pages (meta k' p) = pages (meta k p)" "cur k' = cur k"
    "SELECTION k' = SELECTION k" "pgd k' p = pgd k p" "ram_vaddrs (meta k' p) = ram_vaddrs (meta k p)"
    "numOfPagedOut (meta k' p) = numOfPagedOut (meta k p)" "numOfPagedIn (meta k' p) = numOfPagedIn (meta k p)"
  using assms by (auto simp: quiet_def ram_vaddrs_def numOfPagedOut_def numOfPagedIn_def)

lemma meta_wf_pq:
  assumes "meta_wf m" "queue_wf q"
  shows "meta_wf (m\<lparr>pq := q\<rparr>)"
  using assms by (simp add: meta_wf_def slots_ok_def)

lemma quiet_proc:
  assumes "paged p n xs k" "\<And>q. swapFile (f q) = swapFile q \<and> p_pgdir (f q) = p_pgdir q" "paging_meta (f (procs k ! p)) = (meta k p)\<lparr>pq := g\<rparr>" "queue_wf g"
  shows "quiet p n xs k (upd_proc k p f)"
proof -
  note P = pagedD [OF assms(1)]
  have e: "procs (upd_proc k p f) ! p = f (procs k ! p)" "kphys (upd_proc k p f) = kphys k" "cr3 (upd_proc k p f) = cr3 k"
    "cur (upd_proc k p f) = cur k" "SELECTION (upd_proc k p f) = SELECTION k" "length (procs (upd_proc k p f)) = length (procs k)"
    using P(1) by (simp_all add: upd_proc_def)
  have s: "swap_ok p n (upd_proc k p f) = swap_ok p n k" "swap_bytes p (upd_proc k p f) = swap_bytes p k"
    using swap_proc [of f p k] assms(2) P(1) by auto
  have "paged p n xs (upd_proc k p f)"
    unfolding paged_def e s assms(3) using P assms(2) meta_wf_pq [OF P(4) assms(4)] by simp
  moreover have "vbyte (upd_proc k p f) p v = vbyte k p v" for v
    unfolding vbyte_def e s assms(3) using assms(2) by (simp cong: option.case_cong)
  ultimately show ?thesis using assms(2,3) e by (simp add: quiet_def)
qed

lemma quiet_pq: "paged p n xs k \<Longrightarrow> queue_wf q \<Longrightarrow> quiet p n xs k (set_meta k p (\<lambda>m. m\<lparr>pq := q\<rparr>))"
  unfolding set_meta_def by (rule quiet_proc) simp_all

lemma ram_vaddrsD:
  assumes "paged p n xs k" "va \<in> ram_vaddrs (meta k p)"
  shows "present (mem (kphys k)) (pgd k p) va" "va < KERNBASE"
  using assms pagedD(8,10) [OF assms(1)] by (auto simp: ram_vaddrs_def in_ram_def)

lemma ubyte_frame:
  assumes "user_frame m' d v = user_frame m d v" "same_page m' m (user_frame m d v)" "page_aligned (user_frame m d v)"
  shows "ubyte m' d v = ubyte m d v"
proof -
  obtain i where i: "i < 4096" "v - PGROUNDDOWN v = of_nat i" by (rule page_rest_nat [of v])
  show ?thesis using assms(1,2) page_offset [OF i(1) assms(3)] by (simp add: ubyte_def same_page_def i(2))
qed

text \<open>Clearing the accessed bit of a resident page.\<close>

lemma quiet_clear_A:
  assumes "paged p n xs k" "va \<in> ram_vaddrs (meta k p)" "clear_A k p va = Ok k'"
  shows "quiet p n xs k k' \<and> procs k' = procs k"
proof -
  note P = pagedD [OF assms(1)]
  let ?d = "pgd k p" and ?s = "kphys k"
  note r = ram_vaddrsD [OF assms(1,2)]
  have pd: "pde_present (mem ?s) ?d (PDX va)" by (rule present_pde [OF r(1)])
  have f: "PTE_ADDR (e AND NOT PTE_A) = PTE_ADDR e" "(e AND NOT PTE_A) AND PTE_P = e AND PTE_P" for e :: u32
    using PTE_ADDR_flags [of PTE_A e] by (simp_all add: and.assoc)
  obtain s' where s': "clearPTE_FLAG ?s ?d va PTE_A = Ok s'" "uvm_wf s' ?d xs" "\<And>v. present (mem s') ?d v = present (mem ?s) ?d v"
    "\<And>v. user_frame (mem s') ?d v = user_frame (mem ?s) ?d v" "\<And>v. pde_present (mem s') ?d (PDX v) = pde_present (mem ?s) ?d (PDX v)"
    "tables (mem s') ?d = tables (mem ?s) ?d" "\<And>q. q \<notin> tables (mem ?s) ?d \<Longrightarrow> same_page (mem s') (mem ?s) q"
    by (rule uvm_wf_flags [OF P(3) pd, where f = "\<lambda>e. e AND NOT PTE_A" and msg = "''setPTE_PG''", folded clearPTE_FLAG_def])
      (use f r(1) in \<open>simp_all only: not_False_eq_True simp_thms\<close>)
  have k': "k' = k\<lparr>kphys := s'\<rparr>" using assms(3) s'(1) by (cases "pte_of k p va") (auto simp: clear_A_def phys_do_def)
  have "paged p n xs k'" unfolding paged_def k' using P s'(2,3,5) by simp
  moreover have "vbyte k' p v = vbyte k p v" if "v < KERNBASE" for v
  proof (cases "present (mem ?s) ?d v")
    case True
    have "user_frame (mem ?s) ?d v \<notin> tables (mem ?s) ?d" "kpage ?s (user_frame (mem ?s) ?d v)" using uvm_wfD(2,3) [OF P(3) that True] by auto
    then have "ubyte (mem s') ?d v = ubyte (mem ?s) ?d v" by (intro ubyte_frame s'(4) s'(7)) (simp_all add: kpage_def)
    then show ?thesis using True s'(3) by (simp add: vbyte_def k')
  qed (use s'(3) in \<open>simp add: vbyte_def k' cong: option.case_cong\<close>)
  ultimately show ?thesis by (simp add: quiet_def k')
qed

section \<open>Choosing a victim\<close>

text \<open>The victim is a resident page, and the queue is left with the others.\<close>

definition chosen :: "nat \<Rightarrow> nat \<Rightarrow> addr list \<Rightarrow> kernel \<Rightarrow> addr \<Rightarrow> kernel \<Rightarrow> bool" where
  "chosen p n xs k va k' \<longleftrightarrow> quiet p n xs k k' \<and> va \<in> ram_vaddrs (meta k p) \<and> distinct (map vaddr (queue_list (pq (meta k' p)))) \<and>
     vaddr ` set (queue_list (pq (meta k' p))) = ram_vaddrs (meta k p) - {va}"

lemma queue_head:
  assumes "queue_agrees m" "queue_list (pq m) = c # vs"
  shows "vaddr c \<in> ram_vaddrs m" "distinct (map vaddr vs)" "vaddr ` set vs = ram_vaddrs m - {vaddr c}"
proof -
  have "vaddr c \<notin> vaddr ` set vs" "insert (vaddr c) (vaddr ` set vs) = ram_vaddrs m" "distinct (map vaddr vs)"
    using assms by (simp_all add: queue_agrees_def)
  then show "vaddr c \<in> ram_vaddrs m" "distinct (map vaddr vs)" "vaddr ` set vs = ram_vaddrs m - {vaddr c}" by blast+
qed

lemma scfifo_chosen:
  assumes "paged p n xs k" "queue_agrees (meta k p)" "ram_vaddrs (meta k p) \<noteq> {}" "scfifo_loop fuel k p = Ok (va, k')"
  shows "chosen p n xs k va k'"
  using assms
proof (induction fuel arbitrary: k)
  case (Suc fuel)
  let ?q = "pq (meta k p)"
  note P = pagedD [OF Suc.prems(1)]
  have qw: "queue_wf ?q" using P(4) by (simp add: meta_wf_def)
  have ne: "queue_list ?q \<noteq> []" using Suc.prems(2,3) by (auto simp: queue_agrees_def)
  then obtain c vs where q: "queue_list ?q = c # vs" by (cases "queue_list ?q") auto
  note H = queue_head [OF Suc.prems(2) q]
  have dq: "fst (dequeue ?q) = c" "queue_wf (snd (dequeue ?q))" "queue_list (snd (dequeue ?q)) = vs" using pageq.deq [OF qw ne] q by auto
  let ?k1 = "set_meta k p (\<lambda>m. m\<lparr>pq := snd (dequeue ?q)\<rparr>)"
  have Q1: "quiet p n xs k ?k1" by (rule quiet_pq [OF Suc.prems(1) dq(2)])
  have m1: "meta ?k1 p = (meta k p)\<lparr>pq := snd (dequeue ?q)\<rparr>" using P(1) by simp
  obtain e where e: "pte_of ?k1 p (vaddr c) = Ok e" using Suc.prems(4) dq(1) by (cases "pte_of ?k1 p (vaddr c)") (auto simp: case_prod_beta Let_def)
  show ?case
  proof (cases "e AND PTE_A > 0")
    case False
    then have "va = vaddr c" "k' = ?k1" using Suc.prems(4) e dq(1) by (auto simp: case_prod_beta Let_def)
    then show ?thesis using Q1 H dq(3) m1 by (simp add: chosen_def)
  next
    case True
    obtain k2 q' where k2: "clear_A ?k1 p (vaddr c) = Ok k2" "enqueue (pq (meta k2 p)) c = Ok q'" "scfifo_loop fuel (set_meta k2 p (\<lambda>m. m\<lparr>pq := q'\<rparr>)) p = Ok (va, k')"
      using Suc.prems(4) e dq(1) True by (auto simp: case_prod_beta Let_def)
    have "vaddr c \<in> ram_vaddrs (meta ?k1 p)" using H(1) quietD(7) [OF Q1] by simp
    note C = quiet_clear_A [OF quietD(1) [OF Q1] this k2(1)]
    have Q2: "quiet p n xs k k2" using quiet_trans [OF Q1] C by blast
    have q': "queue_wf q'" "queue_list q' = vs @ [c]"
      using pageq.second_chance [OF qw ne] k2(2) C m1 dq(1) q by auto
    let ?k3 = "set_meta k2 p (\<lambda>m. m\<lparr>pq := q'\<rparr>)"
    have Q3: "quiet p n xs k ?k3" by (rule quiet_trans [OF Q2 quiet_pq [OF quietD(1) [OF Q2] q'(1)]])
    note R = quietD [OF Q3]
    have m3: "pq (meta ?k3 p) = q'" using pagedD(1) [OF quietD(1) [OF Q2]] by simp
    have "queue_agrees (meta ?k3 p)" using Suc.prems(2) R(7) q q'(2) m3 by (auto simp: queue_agrees_def)
    from Suc.IH [OF R(1) this _ k2(3)] have "chosen p n xs ?k3 va k'" using Suc.prems(3) R(7) by simp
    then show ?thesis using quiet_trans [OF Q3] R(7) by (simp add: chosen_def)
  qed
qed simp

text \<open>Under SCFIFO and AQ a resident page is always found.\<close>

lemma select_chosen:
  assumes "paged p n xs k" "queue_agrees (meta k p)" "ram_vaddrs (meta k p) \<noteq> {}" "SELECTION k = SCFIFO \<or> SELECTION k = AQ"
  shows "\<exists>va k'. select_page_to_back k p = Ok (va, k') \<and> chosen p n xs k va k'"
proof -
  note P = pagedD [OF assms(1)]
  let ?q = "pq (meta k p)"
  have qw: "queue_wf ?q" using P(4) by (simp add: meta_wf_def)
  have ne: "queue_list ?q \<noteq> []" using assms(2,3) by (auto simp: queue_agrees_def)
  show ?thesis
  proof (cases "SELECTION k = AQ")
    case True
    obtain c vs where q: "queue_list ?q = c # vs" using ne by (cases "queue_list ?q") auto
    have dq: "fst (dequeue ?q) = c" "queue_wf (snd (dequeue ?q))" "queue_list (snd (dequeue ?q)) = vs" using pageq.deq [OF qw ne] q by auto
    have "chosen p n xs k (vaddr c) (set_meta k p (\<lambda>m. m\<lparr>pq := snd (dequeue (pq m))\<rparr>))"
      using queue_head [OF assms(2) q] dq P(1) quiet_pq [OF assms(1) dq(2)] by (simp add: chosen_def set_meta_def upd_proc_def)
    then show ?thesis using True dq(1) by (simp add: select_page_to_back_def)
  next
    case False
    then have s: "SELECTION k = SCFIFO" using assms(4) by simp
    have al: "PGROUNDDOWN va = va" if "va \<in> ram_vaddrs (meta k p)" for va
      using that P(7) page_aligned_iff by (auto simp: ram_vaddrs_def in_ram_def)
    have "pages_walk k p xs (ram_vaddrs (meta k p))"
      unfolding pages_walk_def using P(1) uvm_wfD(1) [OF P(3)] ram_vaddrsD(1) [OF assms(1)] present_pde al by simp
    then have "queue_ok k p xs" using assms(2) qw ne by (simp add: queue_ok_def queue_of_def queue_agrees_def)
    then have "length (takeWhile (\<lambda>q. accessed k p (vaddr q)) (queue_of k p)) < Suc MAX_TOTAL_PAGES"
      using pageq.wf_cap [OF qw] length_takeWhile_le le_trans less_Suc_eq_le unfolding queue_of_def by blast
    from scfifo_loop_ok [OF \<open>queue_ok k p xs\<close> this] obtain va k' where "scfifo_loop (Suc MAX_TOTAL_PAGES) k p = Ok (va, k')" by blast
    then show ?thesis using s scfifo_chosen [OF assms(1-3)] by (auto simp: select_page_to_back_def)
  qed
qed

section \<open>The handler\<close>

lemma full_ram: "meta_wf m \<Longrightarrow> numOfPagedIn m = MAX_PSYC_PAGES \<Longrightarrow> ram_vaddrs m \<noteq> {}"
proof
  assume a: "meta_wf m" "numOfPagedIn m = MAX_PSYC_PAGES" "ram_vaddrs m = {}"
  then have e: "{i. i < 32 \<and> in_ram (pages m ! i)} = {}" by (auto simp: ram_vaddrs_def)
  show False using a(2) numOfPagedIn_card [OF meta_wfD(1) [OF a(1)]] unfolding e by simp
qed

lemma safe_page_in_ok:
  assumes "paged p n xs k" "queue_agrees (meta k p)" "SELECTION k = SCFIFO \<or> SELECTION k = AQ"
    "numOfPagedOut (meta k p) \<le> MAX_PSYC_PAGES" "if numOfPagedIn (meta k p) = MAX_PSYC_PAGES then 0 < n else xs \<noteq> []"
    "i < 32" "backed (pages (meta k p) ! i)" "vaddr (pages (meta k p) ! i) = PGROUNDDOWN va" "PGROUNDDOWN va \<noteq> 0 \<or> i = 0"
  shows "\<exists>k' m ys. safe_page_in k p va = Ok (1, k') \<and> paged p m ys k' \<and> n \<le> Suc m \<and> queue_agrees (meta k' p) \<and>
    present (mem (kphys k')) (pgd k' p) va \<and> (\<forall>v<KERNBASE. vbyte k' p v = vbyte k p v)"
proof (cases "numOfPagedIn (meta k p) = MAX_PSYC_PAGES")
  case False
  then obtain x ys where xs: "xs = x # ys" using assms(5) by (cases xs) auto
  obtain k' where k': "pageIn k p (PGROUNDDOWN va) = Ok (1, k')" "moved_in p (PGROUNDDOWN va) i x k k'" "queue_agrees (meta k' p)"
    "uvm_wf (kphys k') (pgd k p) ys" "P2V (cr3 k') = pgd k p" "p < length (procs k')" "swap_ok p n k'"
    using pageIn_moves [OF assms(1) [unfolded xs] assms(2,6-9)] by blast
  have "vbyte k' p v = vbyte k p v" if "v < KERNBASE" for v
    using moved_in_page [OF assms(1) [unfolded xs] k'(2)] moved_in_other [OF assms(1) [unfolded xs] k'(2) _ that] by blast
  moreover have "present (mem (kphys k')) (pgd k' p) va" using moved_inD(1,8) [OF k'(2)] present_page [of va "PGROUNDDOWN va"] by simp
  ultimately show ?thesis
    using False k' moved_in_paged [OF assms(1) k'(2) k'(4-7)] by (intro exI [of _ k'] exI [of _ n] exI [of _ ys]) (simp add: safe_page_in_def)
next
  case True
  then obtain l where n: "n = Suc l" using assms(5) by (cases n) auto
  note A = assms(1) [unfolded n]
  note P = pagedD [OF A]
  obtain va' k1 where k1: "select_page_to_back k p = Ok (va', k1)" "chosen p (Suc l) xs k va' k1"
    using select_chosen [OF A assms(2) full_ram [OF P(4) True] assms(3)] by blast
  have Q: "quiet p (Suc l) xs k k1" and c: "va' \<in> ram_vaddrs (meta k p)" "distinct (map vaddr (queue_list (pq (meta k1 p))))"
    "vaddr ` set (queue_list (pq (meta k1 p))) = ram_vaddrs (meta k p) - {va'}" using k1(2) by (simp_all add: chosen_def)
  note R = quietD [OF Q]
  obtain k2 i' j where k2: "pageOut k1 p va' = Ok (1, k2)" "moved_out p va' i' j k1 k2" "queue_agrees (meta k2 p)"
    "uvm_wf (kphys k2) (pgd k1 p) (user_frame (mem (kphys k1)) (pgd k1 p) va' # xs)" "P2V (cr3 k2) = pgd k1 p" "p < length (procs k2)" "swap_ok p l k2"
    using pageOut_moves [OF R(1), of va'] c assms(4) R(7,8) by auto
  have P2: "paged p l (user_frame (mem (kphys k1)) (pgd k1 p) va' # xs) k2" by (rule moved_out_paged [OF R(1) k2(2,4-7)])
  note O = moved_outD [OF k2(2)]
  have b2: "vbyte k2 p v = vbyte k1 p v" if "v < KERNBASE" for v
    using moved_out_page [OF R(1) k2(2)] moved_out_other [OF R(1) k2(2)] moved_out_resident [OF R(1) k2(2) _ _ that] by blast
  have "i' \<noteq> i" using O(4) assms(7) R(3) by (auto simp: in_ram_def backed_def)
  then have i2: "backed (pages (meta k2 p) ! i)" "vaddr (pages (meta k2 p) ! i) = PGROUNDDOWN va" using O(6) R(3) assms(7,8) by simp_all
  obtain k' where k': "pageIn k2 p (PGROUNDDOWN va) = Ok (1, k')" "moved_in p (PGROUNDDOWN va) i (user_frame (mem (kphys k1)) (pgd k1 p) va') k2 k'" "queue_agrees (meta k' p)"
    "uvm_wf (kphys k') (pgd k2 p) xs" "P2V (cr3 k') = pgd k2 p" "p < length (procs k')" "swap_ok p l k'"
    using pageIn_moves [OF P2 k2(3) assms(6) i2 assms(9)] by blast
  have "vbyte k' p v = vbyte k2 p v" if "v < KERNBASE" for v
    using moved_in_page [OF P2 k'(2)] moved_in_other [OF P2 k'(2) _ that] by blast
  moreover have "present (mem (kphys k')) (pgd k' p) va" using moved_inD(1,8) [OF k'(2)] present_page [of va "PGROUNDDOWN va"] by simp
  moreover have "safe_page_in k p va = Ok (1, k')" using True k1(1) k2(1) k'(1) by (simp add: safe_page_in_def)
  ultimately show ?thesis
    using k' b2 R(2) moved_in_paged [OF P2 k'(2) k'(4-7)] by (intro exI [of _ k'] exI [of _ l] exI [of _ xs]) (simp add: n)
qed

text \<open>C5: a page fault on a page in the swap file is invisible to the process. Under SCFIFO and AQ the handler brings the
  page in, evicting another one first when the process has its full share of frames; the page is present afterwards, the access
  made again succeeds, the pager's invariant holds, and every byte of the process is what it was.\<close>

theorem page_fault_transparent:
  assumes "paged p n xs k" "queue_agrees (meta k p)" "SELECTION k = SCFIFO \<or> SELECTION k = AQ" "cur k = Some p" "is_user_proc (procs k ! p)"
    "isPagedOut (kphys k) (pgd k p) va = Ok True" "\<not> uaccess k va"
    "numOfPagedOut (meta k p) \<le> MAX_PSYC_PAGES" "if numOfPagedIn (meta k p) = MAX_PSYC_PAGES then 0 < n else xs \<noteq> []"
    "i < 32" "backed (pages (meta k p) ! i)" "vaddr (pages (meta k p) ! i) = PGROUNDDOWN va" "PGROUNDDOWN va \<noteq> 0 \<or> i = 0"
  shows "\<exists>k' m ys. page_fault k va = Ok (True, k') \<and> touch k va = Ok k' \<and> paged p m ys k' \<and> n \<le> Suc m \<and> queue_agrees (meta k' p) \<and>
    uaccess k' va \<and> (\<forall>v<KERNBASE. vbyte k' p v = vbyte k p v)"
proof -
  let ?k = "upd_proc k p (\<lambda>q. q\<lparr>page_faults := page_faults q + 1\<rparr>)"
  have qw: "queue_wf (pq (meta k p))" using pagedD(4) [OF assms(1)] by (simp add: meta_wf_def)
  have Q: "quiet p n xs k ?k" by (rule quiet_proc [OF assms(1) _ _ qw]) simp_all
  note R = quietD [OF Q]
  have l: "p < length (procs k)" by (rule pagedD(1) [OF assms(1)])
  have m: "meta ?k p = meta k p" "kphys ?k = kphys k" "pgd ?k p = pgd k p" "is_user_proc (procs ?k ! p)" using l assms(5) by (simp_all add: upd_proc_def is_user_proc_def)
  obtain k' r ys where k': "safe_page_in ?k p va = Ok (1, k')" "paged p r ys k'" "n \<le> Suc r" "queue_agrees (meta k' p)" "present (mem (kphys k')) (pgd k' p) va"
    "\<forall>v<KERNBASE. vbyte k' p v = vbyte ?k p v"
    using safe_page_in_ok [OF R(1), of i va, unfolded m(1) R(5)] assms(2,3,8-13) by blast
  have s: "SELECTION k \<noteq> NONE" using assms(3) by auto
  have u: "uaccess k' va" using pagedD(2) [OF k'(2)] k'(5) by (simp add: uaccess_def)
  have f: "page_fault k va = Ok (True, k')" using s assms(4,6) m k'(1) by (simp add: page_fault_def Let_def)
  moreover have "touch k va = Ok k'" using f assms(7) u by (simp add: touch_def)
  ultimately show ?thesis using k'(2-4,6) u R(2) by (intro exI [of _ k'] exI [of _ r] exI [of _ ys]) simp
qed

lemma paged_sched:
  assumes "paged p n xs k"
  shows "paged p n xs (k\<lparr>cur := c, SELECTION := sel\<rparr>)"
proof -
  have "swap_ok p n (k\<lparr>cur := c, SELECTION := sel\<rparr>) = swap_ok p n k" "swap_bytes p (k\<lparr>cur := c, SELECTION := sel\<rparr>) = swap_bytes p k"
    by (intro swap_same; simp add: fs_view_def)+
  then show ?thesis using pagedD [OF assms] by (simp add: paged_def)
qed

theorem page_fault_transparent_witness:
  "\<exists>k k'. \<not> uaccess k 0 \<and> touch k 0 = Ok k' \<and> uaccess k' 0 \<and> (\<forall>v<KERNBASE. vbyte k' 0 v = vbyte k 0 v)"
proof -
  let ?x = "user_frame (mem (kphys evict_kernel)) (pgd evict_kernel 0) 0"
  have P: "paged 0 (Suc 0) [0x80500000] evict_kernel" using evict_kernel_facts(1) by simp
  obtain k1 i j where k1: "pageOut evict_kernel 0 0 = Ok (1, k1)" "moved_out 0 0 i j evict_kernel k1" "queue_agrees (meta k1 0)"
    "ram_vaddrs (meta k1 0) = {}" "uvm_wf (kphys k1) (pgd evict_kernel 0) (?x # [0x80500000])" "P2V (cr3 k1) = pgd evict_kernel 0" "0 < length (procs k1)" "swap_ok 0 0 k1"
    "pte_val (mem (kphys k1)) (pgd evict_kernel 0) 0 AND PTE_PG \<noteq> 0"
    using pageOut_moves [OF P, of 0] evict_kernel_facts(3-5) by auto
  note O = moved_outD [OF k1(2)]
  have "i = 0" using evict_kernel_facts(6) O(3,4) by blast
  then have b: "backed (pages (meta k1 0) ! 0)" "vaddr (pages (meta k1 0) ! 0) = 0"
    using O(3-6) meta_wfD(1) [OF pagedD(4) [OF P]] by (simp_all add: backed_def in_ram_def)
  let ?k = "upd_proc (k1\<lparr>cur := Some 0, SELECTION := AQ\<rparr>) 0 (\<lambda>q. q\<lparr>p_pid := 3\<rparr>)"
  have P1: "paged 0 0 (?x # [0x80500000]) (k1\<lparr>cur := Some 0, SELECTION := AQ\<rparr>)" by (rule paged_sched [OF moved_out_paged [OF P k1(2,5-8)]])
  have qw: "queue_wf (pq (meta k1 0))" using O(2) by (simp add: meta_wf_def)
  have Q: "paged 0 0 (?x # [0x80500000]) ?k" by (rule quietD(1) [OF quiet_proc [OF P1, where g = "pq (meta k1 0)"]]) (simp_all add: qw)
  have e: "meta ?k 0 = meta k1 0" "pgd ?k 0 = pgd evict_kernel 0" "kphys ?k = kphys k1" "cr3 ?k = cr3 k1" "is_user_proc (procs ?k ! 0)" "cur ?k = Some 0" "SELECTION ?k = AQ"
    using k1(7) O(1) by (simp_all add: upd_proc_def is_user_proc_def)
  have np: "\<not> present (mem (kphys k1)) (pgd evict_kernel 0) 0" by (rule O(12))
  have pd: "pde_present (mem (kphys k1)) (pgd evict_kernel 0) (PDX 0)"
    using pagedD(9) [OF Q, of 0] b e by (simp add: backed_def)
  have rd: "read_pte (kphys k1) (pgd evict_kernel 0) 0 = Ok (pte_val (mem (kphys k1)) (pgd evict_kernel 0) 0)"
    using read_pte_eq [OF uvm_wfD(1) [OF k1(5)], of 0] pd by simp
  have po: "isPagedOut (kphys ?k) (pgd ?k 0) 0 = Ok True"
    unfolding e isPagedOut_def isFlagged_def using rd np k1(9) by (simp add: present_def PGROUNDDOWN_def word_neq_0_conv and.commute)
  have na: "\<not> uaccess ?k 0" using np k1(6) e by (simp add: uaccess_def)
  have z: "numOfPagedIn (meta ?k 0) = 0" "numOfPagedOut (meta ?k 0) \<le> MAX_PSYC_PAGES"
  proof -
    have l: "length (pages (meta k1 0)) = 32" "length (pages (meta evict_kernel 0)) = 32" using meta_wfD(1) [OF O(2)] meta_wfD(1) [OF pagedD(4) [OF P]] by auto
    have "{i. i < 32 \<and> in_ram (pages (meta k1 0) ! i)} = {}" using k1(4) by (auto simp: ram_vaddrs_def)
    then show "numOfPagedIn (meta ?k 0) = 0" unfolding e using numOfPagedIn_card [OF l(1)] by (simp only: card.empty)
    have "\<not> backed (pages (meta evict_kernel 0) ! i)" if "i < 32" for i
      using evict_kernel_facts(4) that l(2) nth_mem [of i "pages (meta evict_kernel 0)"] by (auto simp: numOfPagedOut_def filter_empty_conv backed_def)
    moreover have "pages (meta k1 0) ! l = pages (meta evict_kernel 0) ! l" if "l \<noteq> 0" for l using O(6) \<open>i = 0\<close> that by simp
    ultimately have "{i. i < 32 \<and> backed (pages (meta k1 0) ! i)} \<subseteq> {0}" by (metis (mono_tags, lifting) insertI1 mem_Collect_eq subsetI)
    from card_mono [OF _ this] show "numOfPagedOut (meta ?k 0) \<le> MAX_PSYC_PAGES" unfolding e using numOfPagedOut_card [OF l(1)] by simp
  qed
  have "\<exists>k' m ys. page_fault ?k 0 = Ok (True, k') \<and> touch ?k 0 = Ok k' \<and> paged 0 m ys k' \<and> 0 \<le> Suc m \<and> queue_agrees (meta k' 0) \<and>
      uaccess k' 0 \<and> (\<forall>v<KERNBASE. vbyte k' 0 v = vbyte ?k 0 v)"
    by (rule page_fault_transparent [OF Q _ _ _ e(5) po na z(2), of 0]) (use e k1(3) z b in \<open>simp_all add: PGROUNDDOWN_def\<close>)
  then show ?thesis using na by blast
qed

end
