(* ===== verification/Spinlock.thy ===== *)
theory Spinlock
  imports Proc
begin

text \<open>
  Spin locks and the interrupt nesting below them (spinlock.c), the per-processor data they use (\<^verbatim>\<open>struct cpu\<close>,
  \<^verbatim>\<open>mycpu\<close>, \<^verbatim>\<open>myproc\<close>, the checks of \<^verbatim>\<open>sched\<close>) and sleep locks (sleeplock.c). Processors run interleaved here. The
  processor that executes an operation is known by the APIC id \<open>a\<close> that \<^verbatim>\<open>lapicid\<close> returns on it; \<open>eflags\<close> holds
  the flags register of each. A lock is a number. \<open>acquire\<close> and \<open>release\<close> are cut at their accesses to the
  shared word \<^verbatim>\<open>locked\<close>, which are the points where processors interleave.
\<close>

section \<open>Processors\<close>

definition FL_IF :: u32 where
  "FL_IF = 0x200"

record xcpu =
  x_apicid :: byte
  ncli :: int
  intena :: u32
  x_proc :: "nat option"

record spinlock =
  locked :: u32
  lk_name :: string
  lk_cpu :: "nat option"
  lk_pcs :: "u32 list"

record machine =
  cpus :: "xcpu list"
  ncpu :: nat
  eflags :: "byte \<Rightarrow> u32"
  locks :: "nat \<Rightarrow> spinlock"
  smem :: memory

definition upd_cpu :: "machine \<Rightarrow> nat \<Rightarrow> (xcpu \<Rightarrow> xcpu) \<Rightarrow> machine" where
  "upd_cpu m i f = m\<lparr>cpus := (cpus m)[i := f (cpus m ! i)]\<rparr>"

definition upd_lock :: "machine \<Rightarrow> nat \<Rightarrow> (spinlock \<Rightarrow> spinlock) \<Rightarrow> machine" where
  "upd_lock m l f = m\<lparr>locks := (locks m)(l := f (locks m l))\<rparr>"

definition cli :: "machine \<Rightarrow> byte \<Rightarrow> machine" where
  "cli m a = m\<lparr>eflags := (eflags m)(a := eflags m a AND NOT FL_IF)\<rparr>"

definition sti :: "machine \<Rightarrow> byte \<Rightarrow> machine" where
  "sti m a = m\<lparr>eflags := (eflags m)(a := eflags m a OR FL_IF)\<rparr>"

definition mycpu :: "machine \<Rightarrow> byte \<Rightarrow> nat outcome" where
  "mycpu m a =
     (if eflags m a AND FL_IF \<noteq> 0 then Panic ''mycpu called with interrupts enabled\<newline>''
      else case first_idx (\<lambda>c. x_apicid c = a) (take (ncpu m) (cpus m)) of
             None \<Rightarrow> Panic ''unknown apicid\<newline>''
           | Some i \<Rightarrow> Ok i)"

definition cpuid :: "machine \<Rightarrow> byte \<Rightarrow> nat outcome" where
  "cpuid m a = mycpu m a"

definition pushcli :: "machine \<Rightarrow> byte \<Rightarrow> machine outcome" where
  "pushcli m a =
     (let fl = eflags m a; m = cli m a
      in andThen (mycpu m a)
           (\<lambda>i. let m = (if ncli (cpus m ! i) = 0 then upd_cpu m i (\<lambda>c. c\<lparr>intena := fl AND FL_IF\<rparr>) else m)
                in Ok (upd_cpu m i (\<lambda>c. c\<lparr>ncli := ncli c + 1\<rparr>))))"

definition popcli :: "machine \<Rightarrow> byte \<Rightarrow> machine outcome" where
  "popcli m a =
     (if eflags m a AND FL_IF \<noteq> 0 then Panic ''popcli - interruptible''
      else andThen (mycpu m a)
             (\<lambda>i. let m = upd_cpu m i (\<lambda>c. c\<lparr>ncli := ncli c - 1\<rparr>)
                  in if ncli (cpus m ! i) < 0 then Panic ''popcli''
                     else if ncli (cpus m ! i) = 0 \<and> intena (cpus m ! i) \<noteq> 0 then Ok (sti m a)
                     else Ok m))"

definition myproc :: "machine \<Rightarrow> byte \<Rightarrow> (nat option \<times> machine) outcome" where
  "myproc m a =
     andThen (pushcli m a) (\<lambda>m. andThen (mycpu m a) (\<lambda>i.
       let p = x_proc (cpus m ! i) in andThen (popcli m a) (\<lambda>m. Ok (p, m))))"

section \<open>Spin locks\<close>

definition initlock :: "machine \<Rightarrow> nat \<Rightarrow> string \<Rightarrow> machine" where
  "initlock m l name = upd_lock m l (\<lambda>lk. lk\<lparr>lk_name := name, locked := 0, lk_cpu := None\<rparr>)"

definition pinit :: "machine \<Rightarrow> nat \<Rightarrow> machine" where
  "pinit m ptable = initlock m ptable ''ptable''"

definition holding :: "machine \<Rightarrow> byte \<Rightarrow> nat \<Rightarrow> bool outcome" where
  "holding m a l =
     (if locked (locks m l) = 0 then Ok False
      else andThen (mycpu m a) (\<lambda>i. Ok (lk_cpu (locks m l) = Some i)))"

definition acquire_begin :: "machine \<Rightarrow> byte \<Rightarrow> nat \<Rightarrow> machine outcome" where
  "acquire_begin m a l =
     andThen (pushcli m a) (\<lambda>m. andThen (holding m a l) (\<lambda>h. if h then Panic ''acquire'' else Ok m))"

text \<open>One turn of the spin loop: the old value of \<^verbatim>\<open>locked\<close>, exchanged with 1.\<close>

definition acquire_xchg :: "machine \<Rightarrow> nat \<Rightarrow> u32 \<times> machine" where
  "acquire_xchg m l = (locked (locks m l), upd_lock m l (\<lambda>lk. lk\<lparr>locked := 1\<rparr>))"

text \<open>\<open>v\<close> is the address of the argument of \<^verbatim>\<open>acquire\<close> on the stack.\<close>

definition acquire_end :: "machine \<Rightarrow> byte \<Rightarrow> nat \<Rightarrow> addr \<Rightarrow> machine outcome" where
  "acquire_end m a l v =
     andThen (mycpu m a) (\<lambda>i. Ok (upd_lock m l (\<lambda>lk. lk\<lparr>lk_cpu := Some i, lk_pcs := getcallerpcs (smem m) v\<rparr>)))"

text \<open>\<^verbatim>\<open>acquire\<close> with nobody else at the lock: it returns or, when the lock is taken, spins (\<open>Sleep\<close>).\<close>

definition acquire :: "machine \<Rightarrow> byte \<Rightarrow> nat \<Rightarrow> addr \<Rightarrow> ((unit, unit) run \<times> machine) outcome" where
  "acquire m a l v =
     andThen (acquire_begin m a l)
       (\<lambda>m. case acquire_xchg m l of (old, m) \<Rightarrow>
          if old \<noteq> 0 then Ok (Sleep (), m) else andThen (acquire_end m a l v) (\<lambda>m. Ok (Return (), m)))"

definition release_begin :: "machine \<Rightarrow> byte \<Rightarrow> nat \<Rightarrow> machine outcome" where
  "release_begin m a l =
     andThen (holding m a l)
       (\<lambda>h. if \<not> h then Panic ''release'' else Ok (upd_lock m l (\<lambda>lk. lk\<lparr>lk_pcs := (lk_pcs lk)[0 := 0], lk_cpu := None\<rparr>)))"

definition release_end :: "machine \<Rightarrow> byte \<Rightarrow> nat \<Rightarrow> machine outcome" where
  "release_end m a l = popcli (upd_lock m l (\<lambda>lk. lk\<lparr>locked := 0\<rparr>)) a"

definition release :: "machine \<Rightarrow> byte \<Rightarrow> nat \<Rightarrow> machine outcome" where
  "release m a l = andThen (release_begin m a l) (\<lambda>m. release_end m a l)"

text \<open>The checks at the head of \<^verbatim>\<open>sched\<close>; the state of the calling process is \<open>st\<close>.\<close>

definition sched_checks :: "machine \<Rightarrow> byte \<Rightarrow> nat \<Rightarrow> procstate \<Rightarrow> u32 outcome" where
  "sched_checks m a ptable st =
     andThen (holding m a ptable)
       (\<lambda>h. if \<not> h then Panic ''sched ptable.lock''
            else andThen (mycpu m a)
              (\<lambda>i. if ncli (cpus m ! i) \<noteq> 1 then Panic ''sched locks''
                   else if st = RUNNING then Panic ''sched running''
                   else if eflags m a AND FL_IF \<noteq> 0 then Panic ''sched interruptible''
                   else Ok (intena (cpus m ! i))))"

section \<open>Sleep locks\<close>

text \<open>The spin lock inside a sleep lock makes each critical section atomic; \<open>Sleep\<close> is the wait for the holder.\<close>

record sleeplock =
  sl_locked :: u32
  sl_name :: string
  sl_pid :: int

definition initsleeplock :: "string \<Rightarrow> sleeplock" where
  "initsleeplock name = \<lparr>sl_locked = 0, sl_name = name, sl_pid = 0\<rparr>"

definition acquiresleep :: "int \<Rightarrow> sleeplock \<Rightarrow> (unit, unit) run \<times> sleeplock" where
  "acquiresleep pid lk = (if sl_locked lk \<noteq> 0 then (Sleep (), lk) else (Return (), lk\<lparr>sl_locked := 1, sl_pid := pid\<rparr>))"

definition releasesleep :: "sleeplock \<Rightarrow> kernel \<Rightarrow> chan \<Rightarrow> sleeplock \<times> kernel" where
  "releasesleep lk k c = (lk\<lparr>sl_locked := 0, sl_pid := 0\<rparr>, wakeup k c)"

definition holdingsleep :: "sleeplock \<Rightarrow> u32" where
  "holdingsleep lk = sl_locked lk"

end
