(* ===== verification/LockInv.thy ===== *)
theory LockInv
  imports Spinlock
begin

text \<open>
  Any number of processors that acquire and release spin locks in any interleaving. Each processor is at one phase of
  \<^verbatim>\<open>acquire\<close> or \<^verbatim>\<open>release\<close> or outside both; \<open>hold\<close> lists the locks it has, \<open>ie\<close> is the interrupt flag its own
  code asked for outside of critical sections.
\<close>

section \<open>Clients of the locks\<close>

datatype phase = Free | Trying nat | Got nat | Leaving nat

record lstate =
  mach :: machine
  hold :: "byte \<Rightarrow> nat list"
  ph :: "byte \<Rightarrow> phase"
  ie :: "byte \<Rightarrow> bool"

definition at_phase :: "lstate \<Rightarrow> byte \<Rightarrow> phase \<Rightarrow> machine \<Rightarrow> lstate" where
  "at_phase s a p m = s\<lparr>mach := m, ph := (ph s)(a := p)\<rparr>"

definition holds :: "lstate \<Rightarrow> byte \<Rightarrow> nat list \<Rightarrow> lstate" where
  "holds s a ls = s\<lparr>hold := (hold s)(a := ls)\<rparr>"

text \<open>A client never acquires a lock it has and only releases locks it has.\<close>

inductive lstep :: "lstate \<Rightarrow> lstate \<Rightarrow> bool" where
  enter: "ph s a = Free \<Longrightarrow> l \<notin> set (hold s a) \<Longrightarrow> acquire_begin (mach s) a l = Ok m \<Longrightarrow> lstep s (at_phase s a (Trying l) m)"
| spin: "ph s a = Trying l \<Longrightarrow> acquire_xchg (mach s) l = (old, m) \<Longrightarrow> old \<noteq> 0 \<Longrightarrow> lstep s (at_phase s a (Trying l) m)"
| win: "ph s a = Trying l \<Longrightarrow> acquire_xchg (mach s) l = (0, m) \<Longrightarrow> lstep s (at_phase s a (Got l) m)"
| record_owner: "ph s a = Got l \<Longrightarrow> acquire_end (mach s) a l v = Ok m \<Longrightarrow> lstep s (holds (at_phase s a Free m) a (l # hold s a))"
| leave: "ph s a = Free \<Longrightarrow> l \<in> set (hold s a) \<Longrightarrow> release_begin (mach s) a l = Ok m \<Longrightarrow> lstep s (at_phase s a (Leaving l) m)"
| unlock: "ph s a = Leaving l \<Longrightarrow> release_end (mach s) a l = Ok m \<Longrightarrow> lstep s (holds (at_phase s a Free m) a (remove1 l (hold s a)))"
| enable: "ph s a = Free \<Longrightarrow> hold s a = [] \<Longrightarrow> lstep s (s\<lparr>mach := sti (mach s) a, ie := (ie s)(a := True)\<rparr>)"
| disable: "ph s a = Free \<Longrightarrow> hold s a = [] \<Longrightarrow> lstep s (s\<lparr>mach := cli (mach s) a, ie := (ie s)(a := False)\<rparr>)"

inductive lreach :: "lstate \<Rightarrow> lstate \<Rightarrow> bool" where
  refl: "lreach s s"
| step: "lreach s s' \<Longrightarrow> lstep s' s'' \<Longrightarrow> lreach s s''"

section \<open>The invariant\<close>

abbreviation apic :: "machine \<Rightarrow> nat \<Rightarrow> byte" where
  "apic m i \<equiv> x_apicid (cpus m ! i)"

definition cpus_ok :: "machine \<Rightarrow> bool" where
  "cpus_ok m \<longleftrightarrow> ncpu m \<le> length (cpus m) \<and> (\<forall>i<ncpu m. \<forall>j<ncpu m. apic m i = apic m j \<longrightarrow> i = j)"

text \<open>The processor owns_lock the lock from the exchange that won to the store that frees it.\<close>

definition owns_lock :: "lstate \<Rightarrow> byte \<Rightarrow> nat \<Rightarrow> bool" where
  "owns_lock s a l \<longleftrightarrow> l \<in> set (hold s a) \<or> ph s a = Got l"

definition pending :: "phase \<Rightarrow> nat" where
  "pending p = (case p of Trying l \<Rightarrow> 1 | Got l \<Rightarrow> 1 | _ \<Rightarrow> 0)"

definition cpu_inv :: "lstate \<Rightarrow> nat \<Rightarrow> bool" where
  "cpu_inv s i \<longleftrightarrow>
     (let c = cpus (mach s) ! i; a = x_apicid c; off = eflags (mach s) a AND FL_IF = 0
      in ncli c = int (length (hold s a) + pending (ph s a)) \<and> distinct (hold s a) \<and>
         (ncli c \<noteq> 0 \<longrightarrow> off \<and> (intena c \<noteq> 0 \<longleftrightarrow> ie s a)) \<and> (ncli c = 0 \<longrightarrow> (off \<longleftrightarrow> \<not> ie s a)) \<and>
         (case ph s a of Free \<Rightarrow> True | Trying l \<Rightarrow> l \<notin> set (hold s a) | Got l \<Rightarrow> l \<notin> set (hold s a) | Leaving l \<Rightarrow> l \<in> set (hold s a)))"

definition lock_inv :: "lstate \<Rightarrow> nat \<Rightarrow> bool" where
  "lock_inv s l \<longleftrightarrow>
     (locked (locks (mach s) l) \<noteq> 0 \<longleftrightarrow> (\<exists>a. owns_lock s a l)) \<and> (\<forall>a b. owns_lock s a l \<and> owns_lock s b l \<longrightarrow> a = b) \<and>
     (\<forall>i<ncpu (mach s). lk_cpu (locks (mach s) l) = Some i \<longleftrightarrow> l \<in> set (hold s (apic (mach s) i)) \<and> ph s (apic (mach s) i) \<noteq> Leaving l)"

definition linv :: "lstate \<Rightarrow> bool" where
  "linv s \<longleftrightarrow> cpus_ok (mach s) \<and> (\<forall>i<ncpu (mach s). cpu_inv s i) \<and> (\<forall>l. lock_inv s l) \<and>
     (\<forall>a. hold s a \<noteq> [] \<or> ph s a \<noteq> Free \<longrightarrow> (\<exists>i<ncpu (mach s). apic (mach s) i = a))"

section \<open>The operations\<close>

lemma mycpu_ok:
  assumes "cpus_ok m" "i < ncpu m" "eflags m (apic m i) AND FL_IF = 0"
  shows "mycpu m (apic m i) = Ok i"
proof -
  have "first_idx (\<lambda>c. x_apicid c = apic m i) (take (ncpu m) (cpus m)) = Some i"
    using assms(1,2) unfolding first_idx_Some_iff cpus_ok_def by (auto dest: less_trans)
  then show ?thesis using assms(3) by (simp add: mycpu_def)
qed

lemma mycpuE:
  assumes "mycpu m a = Ok i" "cpus_ok m"
  obtains "i < ncpu m" "apic m i = a" "eflags m a AND FL_IF = 0"
proof -
  have "first_idx (\<lambda>c. x_apicid c = a) (take (ncpu m) (cpus m)) = Some i" "eflags m a AND FL_IF = 0"
    using assms(1) by (auto simp: mycpu_def split: if_splits option.splits)
  then show ?thesis using that by (auto simp: first_idx_Some_iff)
qed

lemma flag_simps [simp]:
  "(x AND NOT FL_IF) AND FL_IF = 0" "(x OR FL_IF) AND FL_IF \<noteq> 0" for x :: u32
proof -
  show "(x AND NOT FL_IF) AND FL_IF = 0" by (simp add: and.assoc)
  have "(x OR FL_IF) AND FL_IF = FL_IF" by (simp add: and.commute bit.conj_disj_distrib or.commute)
  then show "(x OR FL_IF) AND FL_IF \<noteq> 0" by (simp add: FL_IF_def)
qed

lemma FL_IF_set [simp]: "FL_IF \<noteq> 0"
  by (simp add: FL_IF_def)

lemma machine_simps [simp]:
  "cpus (cli m a) = cpus m" "ncpu (cli m a) = ncpu m" "locks (cli m a) = locks m" "eflags (cli m a) = (eflags m)(a := eflags m a AND NOT FL_IF)"
  "cpus (sti m a) = cpus m" "ncpu (sti m a) = ncpu m" "locks (sti m a) = locks m" "eflags (sti m a) = (eflags m)(a := eflags m a OR FL_IF)"
  "ncpu (upd_cpu m i f) = ncpu m" "locks (upd_cpu m i f) = locks m" "eflags (upd_cpu m i f) = eflags m" "cpus (upd_cpu m i f) = (cpus m)[i := f (cpus m ! i)]"
  "ncpu (upd_lock m l g) = ncpu m" "locks (upd_lock m l g) = (locks m)(l := g (locks m l))" "eflags (upd_lock m l g) = eflags m" "cpus (upd_lock m l g) = cpus m"
  by (simp_all add: cli_def sti_def upd_cpu_def upd_lock_def)

definition pushed :: "u32 \<Rightarrow> xcpu \<Rightarrow> xcpu" where
  "pushed fl c = c\<lparr>intena := (if ncli c = 0 then fl AND FL_IF else intena c), ncli := ncli c + 1\<rparr>"

lemma pushed_simps [simp]:
  "x_apicid (pushed fl c) = x_apicid c" "ncli (pushed fl c) = ncli c + 1" "intena (pushed fl c) = (if ncli c = 0 then fl AND FL_IF else intena c)"
  by (simp_all add: pushed_def)

lemma cpus_ok_len: "cpus_ok m \<Longrightarrow> i < ncpu m \<Longrightarrow> i < length (cpus m)"
  by (auto simp: cpus_ok_def)

lemma cpus_ok_cong:
  assumes "cpus_ok m" "ncpu m' = ncpu m" "length (cpus m') = length (cpus m)" "\<And>j. j < ncpu m \<Longrightarrow> apic m' j = apic m j"
  shows "cpus_ok m'"
  using assms by (simp add: cpus_ok_def)

lemma pushcli_ok:
  assumes "cpus_ok m" "i < ncpu m"
  shows "pushcli m (apic m i) = Ok (upd_cpu (cli m (apic m i)) i (pushed (eflags m (apic m i))))"
proof -
  have "mycpu (cli m (apic m i)) (apic m i) = Ok i"
    using mycpu_ok [of "cli m (apic m i)" i] assms cpus_ok_cong [OF assms(1), of "cli m (apic m i)"] by simp
  then show ?thesis using cpus_ok_len [OF assms] by (simp add: pushcli_def Let_def upd_cpu_def pushed_def cli_def)
qed

lemma popcli_ok:
  assumes "cpus_ok m" "i < ncpu m" "eflags m (apic m i) AND FL_IF = 0" "0 < ncli (cpus m ! i)"
  shows "popcli m (apic m i) = Ok (let m' = upd_cpu m i (\<lambda>c. c\<lparr>ncli := ncli c - 1\<rparr>)
    in if ncli (cpus m ! i) = 1 \<and> intena (cpus m ! i) \<noteq> 0 then sti m' (apic m i) else m')"
  using mycpu_ok [OF assms(1-3)] assms(3,4) cpus_ok_len [OF assms(1,2)] by (simp add: popcli_def Let_def)

lemma holding_ok:
  assumes "cpus_ok m" "i < ncpu m" "eflags m (apic m i) AND FL_IF = 0"
  shows "holding m (apic m i) l = Ok (locked (locks m l) \<noteq> 0 \<and> lk_cpu (locks m l) = Some i)"
  using mycpu_ok [OF assms] by (simp add: holding_def)

section \<open>Every step keeps the invariant\<close>

lemma linvD:
  assumes "linv s"
  shows "cpus_ok (mach s)" "\<And>i. i < ncpu (mach s) \<Longrightarrow> cpu_inv s i" "\<And>l. lock_inv s l"
    "\<And>a. hold s a \<noteq> [] \<Longrightarrow> \<exists>i<ncpu (mach s). apic (mach s) i = a" "\<And>a. ph s a \<noteq> Free \<Longrightarrow> \<exists>i<ncpu (mach s). apic (mach s) i = a"
  using assms by (auto simp: linv_def)

lemma linv_local:
  assumes "linv s" "i < ncpu (mach s)" "apic (mach s) i = a"
    and M: "ncpu (mach s') = ncpu (mach s)" "cpus (mach s') = (cpus (mach s))[i := c]" "x_apicid c = a"
    and F: "\<And>b. b \<noteq> a \<Longrightarrow> eflags (mach s') b = eflags (mach s) b \<and> hold s' b = hold s b \<and> ph s' b = ph s b \<and> ie s' b = ie s b"
    and I: "cpu_inv s' i" "\<And>l. lock_inv s' l"
  shows "linv s'"
proof -
  note D = linvD [OF assms(1)]
  have l: "i < length (cpus (mach s))" by (rule cpus_ok_len [OF D(1) assms(2)])
  have ap: "apic (mach s') j = apic (mach s) j" if "j < ncpu (mach s)" for j using M assms(3) l by (cases "j = i") auto
  have "cpu_inv s' j" if "j < ncpu (mach s)" "j \<noteq> i" for j
  proof -
    have "apic (mach s) j \<noteq> a" using D(1) that assms(2,3) by (auto simp: cpus_ok_def)
    then show ?thesis using D(2) [OF that(1)] F [of "apic (mach s) j"] that(2) M(2) by (auto simp: cpu_inv_def Let_def split: phase.splits)
  qed
  then have "cpu_inv s' j" if "j < ncpu (mach s)" for j using I(1) that by (cases "j = i") auto
  moreover have "\<exists>j<ncpu (mach s). apic (mach s) j = b" if "hold s' b \<noteq> [] \<or> ph s' b \<noteq> Free" for b
  proof (cases "b = a")
    case False
    then have "hold s b \<noteq> [] \<or> ph s b \<noteq> Free" using F [of b] that by simp
    then show ?thesis using D(4,5) [of b] by blast
  qed (use assms(2,3) in blast)
  then have "\<exists>j<ncpu (mach s). apic (mach s') j = b" if "hold s' b \<noteq> [] \<or> ph s' b \<noteq> Free" for b
    using that ap by metis
  ultimately show ?thesis using cpus_ok_cong [OF D(1) M(1)] M(1,2) ap I(2) by (simp add: linv_def)
qed

lemma lock_inv_cong:
  assumes "lock_inv s l" "locks (mach s') l = locks (mach s) l" "ncpu (mach s') = ncpu (mach s)" "\<And>j. j < ncpu (mach s) \<Longrightarrow> apic (mach s') j = apic (mach s) j"
    "\<And>b. (l \<in> set (hold s' b) \<longleftrightarrow> l \<in> set (hold s b)) \<and> (ph s' b = Got l \<longleftrightarrow> ph s b = Got l) \<and> (ph s' b = Leaving l \<longleftrightarrow> ph s b = Leaving l)"
  shows "lock_inv s' l"
  using assms by (simp add: lock_inv_def owns_lock_def)

lemma cpu_invD:
  assumes "cpu_inv s i" "apic (mach s) i = a"
  shows "ncli (cpus (mach s) ! i) = int (length (hold s a) + pending (ph s a))" "distinct (hold s a)"
    "ncli (cpus (mach s) ! i) \<noteq> 0 \<Longrightarrow> eflags (mach s) a AND FL_IF = 0 \<and> (intena (cpus (mach s) ! i) \<noteq> 0 \<longleftrightarrow> ie s a)"
    "ncli (cpus (mach s) ! i) = 0 \<Longrightarrow> (eflags (mach s) a AND FL_IF = 0) \<longleftrightarrow> \<not> ie s a"
    "ph s a = Trying l \<Longrightarrow> l \<notin> set (hold s a)" "ph s a = Got l \<Longrightarrow> l \<notin> set (hold s a)" "ph s a = Leaving l \<Longrightarrow> l \<in> set (hold s a)"
  using assms by (auto simp: cpu_inv_def Let_def)

lemma cpu_invI:
  assumes "apic (mach s) i = a" "ncli (cpus (mach s) ! i) = int (length (hold s a) + pending (ph s a))" "distinct (hold s a)"
    "ncli (cpus (mach s) ! i) \<noteq> 0 \<Longrightarrow> eflags (mach s) a AND FL_IF = 0 \<and> (intena (cpus (mach s) ! i) \<noteq> 0 \<longleftrightarrow> ie s a)"
    "ncli (cpus (mach s) ! i) = 0 \<Longrightarrow> (eflags (mach s) a AND FL_IF = 0) \<longleftrightarrow> \<not> ie s a"
    "case ph s a of Free \<Rightarrow> True | Trying l \<Rightarrow> l \<notin> set (hold s a) | Got l \<Rightarrow> l \<notin> set (hold s a) | Leaving l \<Rightarrow> l \<in> set (hold s a)"
  shows "cpu_inv s i"
  using assms by (simp only: cpu_inv_def Let_def) simp

lemma sel_simps [simp]:
  "mach (at_phase s a p m) = m" "hold (at_phase s a p m) = hold s" "ph (at_phase s a p m) = (ph s)(a := p)" "ie (at_phase s a p m) = ie s"
  "mach (holds s a ls) = mach s" "hold (holds s a ls) = (hold s)(a := ls)" "ph (holds s a ls) = ph s" "ie (holds s a ls) = ie s"
  by (simp_all add: at_phase_def holds_def)

text \<open>The calling processor and the lock it works on, from the invariant.\<close>

lemma linv_busy:
  assumes "linv s" "ph s a \<noteq> Free"
  obtains i where "i < ncpu (mach s)" "apic (mach s) i = a" "cpu_inv s i"
  using linvD(2,5) [OF assms(1)] assms(2) by blast

lemma inv_enter:
  assumes "linv s" "ph s a = Free" "l \<notin> set (hold s a)" "i < ncpu (mach s)" "apic (mach s) i = a"
  shows "\<exists>m. acquire_begin (mach s) a l = Ok m \<and> linv (at_phase s a (Trying l) m)"
proof -
  note D = linvD [OF assms(1)] and C = cpu_invD [OF linvD(2) [OF assms(1,4)] assms(5)]
  let ?m = "upd_cpu (cli (mach s) a) i (pushed (eflags (mach s) a))"
  have l: "i < length (cpus (mach s))" by (rule cpus_ok_len [OF D(1) assms(4)])
  have ap: "apic ?m j = apic (mach s) j" for j using l by (cases "j = i") auto
  have "lk_cpu (locks (mach s) l) \<noteq> Some i" using D(3) [of l] assms(3-5) by (auto simp: lock_inv_def)
  moreover have "holding ?m a l = Ok (locked (locks ?m l) \<noteq> 0 \<and> lk_cpu (locks ?m l) = Some i)"
    using holding_ok [of ?m i l] cpus_ok_cong [OF D(1), of ?m] assms(4,5) ap by simp
  ultimately have "acquire_begin (mach s) a l = Ok ?m" using pushcli_ok [OF D(1) assms(4)] assms(5) by (simp add: acquire_begin_def)
  moreover have "linv (at_phase s a (Trying l) ?m)"
  proof (rule linv_local [OF assms(1,4,5), of _ "pushed (eflags (mach s) a) (cpus (mach s) ! i)"])
    show "cpu_inv (at_phase s a (Trying l) ?m) i"
    proof (rule cpu_invI [of _ _ a])
      show "ncli (cpus (mach (at_phase s a (Trying l) ?m)) ! i) = int (length (hold (at_phase s a (Trying l) ?m) a) + pending (ph (at_phase s a (Trying l) ?m) a))"
        using C(1) assms(2) l by (simp add: pending_def)
      show "eflags (mach (at_phase s a (Trying l) ?m)) a AND FL_IF = 0 \<and> (intena (cpus (mach (at_phase s a (Trying l) ?m)) ! i) \<noteq> 0 \<longleftrightarrow> ie (at_phase s a (Trying l) ?m) a)"
        using C(3,4) l by (cases "ncli (cpus (mach s) ! i) = 0") simp_all
    qed (use C(1,2) assms(2,3,5) l in \<open>simp_all add: pending_def\<close>)
    show "lock_inv (at_phase s a (Trying l) ?m) r" for r
      by (rule lock_inv_cong [OF D(3)]) (use ap assms(2) in auto)
  qed (use assms(5) in simp_all)
  ultimately show ?thesis by blast
qed

lemma inv_xchg:
  assumes "linv s" "ph s a = Trying l" "acquire_xchg (mach s) l = (old, m)"
  shows "linv (at_phase s a (if old = 0 then Got l else Trying l) m)"
proof -
  obtain i where i: "i < ncpu (mach s)" "apic (mach s) i = a" "cpu_inv s i" by (rule linv_busy [OF assms(1), of a]) (use assms(2) in auto)
  note D = linvD [OF assms(1)] and C = cpu_invD [OF i(3,2)]
  have m: "m = upd_lock (mach s) l (\<lambda>lk. lk\<lparr>locked := 1\<rparr>)" "old = locked (locks (mach s) l)" using assms(3) by (auto simp: acquire_xchg_def)
  show ?thesis
  proof (rule linv_local [OF assms(1) i(1,2), of _ "cpus (mach s) ! i"])
    show "cpu_inv (at_phase s a (if old = 0 then Got l else Trying l) m) i"
      by (rule cpu_invI [of _ _ a]) (use C(1-5) assms(2) i(2) in \<open>simp_all add: pending_def m\<close>)
    show "lock_inv (at_phase s a (if old = 0 then Got l else Trying l) m) r" for r
    proof (cases "r = l")
      case True
      have n: "\<not> owns_lock s b l" if "old = 0" for b using D(3) [of l] that m(2) by (auto simp: lock_inv_def)
      have o: "owns_lock (at_phase s a (if old = 0 then Got l else Trying l) m) b l \<longleftrightarrow> owns_lock s b l \<or> old = 0 \<and> b = a" for b
        using assms(2) by (auto simp: owns_lock_def)
      show ?thesis unfolding True lock_inv_def o using D(3) [of l] assms(2) m n by (auto simp: lock_inv_def)
    next
      case False
      then show ?thesis by (intro lock_inv_cong [OF D(3)]) (use m assms(2) in \<open>auto split: if_splits\<close>)
    qed
  qed (use m i in auto)
qed

lemma lock_invD:
  assumes "lock_inv s l"
  shows "locked (locks (mach s) l) \<noteq> 0 \<longleftrightarrow> (\<exists>a. owns_lock s a l)" "\<And>a b. owns_lock s a l \<Longrightarrow> owns_lock s b l \<Longrightarrow> a = b"
    "\<And>i. i < ncpu (mach s) \<Longrightarrow> lk_cpu (locks (mach s) l) = Some i \<longleftrightarrow> l \<in> set (hold s (apic (mach s) i)) \<and> ph s (apic (mach s) i) \<noteq> Leaving l"
  using assms by (auto simp: lock_inv_def)

text \<open>A processor at work on a lock runs with interrupts off.\<close>

lemma busy_off:
  assumes "cpu_inv s i" "apic (mach s) i = a" "hold s a \<noteq> [] \<or> pending (ph s a) \<noteq> 0"
  shows "0 < ncli (cpus (mach s) ! i)" "eflags (mach s) a AND FL_IF = 0"
proof -
  show "0 < ncli (cpus (mach s) ! i)" using cpu_invD(1) [OF assms(1,2)] assms(3) by (cases "hold s a") auto
  then show "eflags (mach s) a AND FL_IF = 0" using cpu_invD(3) [OF assms(1,2)] by auto
qed

lemma inv_record:
  assumes "linv s" "ph s a = Got l"
  shows "\<exists>m. acquire_end (mach s) a l v = Ok m \<and> linv (holds (at_phase s a Free m) a (l # hold s a))"
proof -
  obtain i where i: "i < ncpu (mach s)" "apic (mach s) i = a" "cpu_inv s i" by (rule linv_busy [OF assms(1), of a]) (use assms(2) in auto)
  note D = linvD [OF assms(1)] and C = cpu_invD [OF i(3,2)] and L = lock_invD [OF linvD(3) [OF assms(1), of l]]
  let ?m = "upd_lock (mach s) l (\<lambda>lk. lk\<lparr>lk_cpu := Some i, lk_pcs := getcallerpcs (smem (mach s)) v\<rparr>)"
  let ?s = "holds (at_phase s a Free ?m) a (l # hold s a)"
  have "eflags (mach s) a AND FL_IF = 0" using busy_off [OF i(3,2)] assms(2) by (simp add: pending_def)
  then have "acquire_end (mach s) a l v = Ok ?m" using mycpu_ok [OF D(1) i(1)] i(2) by (simp add: acquire_end_def)
  moreover have "linv ?s"
  proof (rule linv_local [OF assms(1) i(1,2), of _ "cpus (mach s) ! i"])
    show "cpu_inv ?s i" by (rule cpu_invI [of _ _ a]) (use C(1-3) C(6) [of l] assms(2) i(2) in \<open>simp_all add: pending_def\<close>)
    have own: "owns_lock s a l" using assms(2) by (simp add: owns_lock_def)
    have o: "owns_lock ?s b l \<longleftrightarrow> owns_lock s b l" for b using assms(2) by (auto simp: owns_lock_def)
    have c: "Some i = Some j \<longleftrightarrow> l \<in> set (hold ?s (apic (mach s) j)) \<and> ph ?s (apic (mach s) j) \<noteq> Leaving l" if "j < ncpu (mach s)" for j
    proof (cases "j = i")
      case False
      then have "apic (mach s) j \<noteq> a" using D(1) that i(1,2) by (auto simp: cpus_ok_def)
      then show ?thesis using L(2) [OF own, of "apic (mach s) j"] False by (auto simp: owns_lock_def)
    qed (use i(2) in simp)
    show "lock_inv ?s r" for r
    proof (cases "r = l")
      case True
      show ?thesis unfolding True lock_inv_def o using L(1,2) c by simp
    next
      case False
      then show ?thesis by (intro lock_inv_cong [OF D(3)]) (use assms(2) in \<open>auto split: if_splits\<close>)
    qed
  qed (use i in auto)
  ultimately show ?thesis by blast
qed

lemma inv_releasing:
  assumes "linv s" "ph s a = Free" "l \<in> set (hold s a)"
  shows "\<exists>m. release_begin (mach s) a l = Ok m \<and> linv (at_phase s a (Leaving l) m)"
proof -
  note D = linvD [OF assms(1)] and L = lock_invD [OF linvD(3) [OF assms(1), of l]]
  have ne: "hold s a \<noteq> []" using assms(3) by auto
  then obtain i where i: "i < ncpu (mach s)" "apic (mach s) i = a" using D(4) [of a] by blast
  note C = cpu_invD [OF D(2) [OF i(1)] i(2)]
  let ?m = "upd_lock (mach s) l (\<lambda>lk. lk\<lparr>lk_pcs := (lk_pcs lk)[0 := 0], lk_cpu := None\<rparr>)"
  let ?s = "at_phase s a (Leaving l) ?m"
  have own: "owns_lock s a l" using assms(3) by (simp add: owns_lock_def)
  have "eflags (mach s) a AND FL_IF = 0" using busy_off(2) [OF D(2) [OF i(1)] i(2)] ne by simp
  then have "release_begin (mach s) a l = Ok ?m"
    using holding_ok [OF D(1) i(1)] i(2) L(1) L(3) [OF i(1)] own assms(2,3) by (auto simp: release_begin_def)
  moreover have "linv ?s"
  proof (rule linv_local [OF assms(1) i, of _ "cpus (mach s) ! i"])
    show "cpu_inv ?s i" by (rule cpu_invI [of _ _ a]) (use C(1-4) assms(2,3) i(2) in \<open>simp_all add: pending_def\<close>)
    have o: "owns_lock ?s b l \<longleftrightarrow> owns_lock s b l" for b using assms(2) by (auto simp: owns_lock_def)
    have c: "\<not> (l \<in> set (hold ?s b) \<and> ph ?s b \<noteq> Leaving l)" for b
      using L(2) [OF own, of b] by (auto simp: owns_lock_def)
    show "lock_inv ?s r" for r
    proof (cases "r = l")
      case True
      show ?thesis unfolding True lock_inv_def o using L(1,2) c by simp
    next
      case False
      then show ?thesis by (intro lock_inv_cong [OF D(3)]) (use assms(2) in \<open>auto split: if_splits\<close>)
    qed
  qed (use i in auto)
  ultimately show ?thesis by blast
qed

lemma inv_unlock:
  assumes "linv s" "ph s a = Leaving l"
  shows "\<exists>m. release_end (mach s) a l = Ok m \<and> linv (holds (at_phase s a Free m) a (remove1 l (hold s a)))"
proof -
  obtain i where i: "i < ncpu (mach s)" "apic (mach s) i = a" "cpu_inv s i" by (rule linv_busy [OF assms(1), of a]) (use assms(2) in auto)
  note D = linvD [OF assms(1)] and C = cpu_invD [OF i(3,2)] and L = lock_invD [OF linvD(3) [OF assms(1), of l]]
  have h: "l \<in> set (hold s a)" using C(7) assms(2) by blast
  then have ne: "hold s a \<noteq> []" by auto
  note B = busy_off [OF i(3,2) disjI1 [OF ne]]
  have own: "owns_lock s a l" using h by (simp add: owns_lock_def)
  have rm: "int (length (remove1 l (hold s a))) = int (length (hold s a)) - 1" using h by (cases "length (hold s a)") (auto simp: length_remove1)
  have n: "ncli (cpus (mach s) ! i) = int (length (hold s a))" using C(1) assms(2) by (simp add: pending_def)
  let ?c = "(cpus (mach s) ! i)\<lparr>ncli := ncli (cpus (mach s) ! i) - 1\<rparr>"
  define m where "m = (let m' = upd_cpu (upd_lock (mach s) l (\<lambda>lk. lk\<lparr>locked := 0\<rparr>)) i (\<lambda>c. c\<lparr>ncli := ncli c - 1\<rparr>)
    in if ncli (cpus (mach s) ! i) = 1 \<and> intena (cpus (mach s) ! i) \<noteq> 0 then sti m' a else m')"
  have m: "cpus m = (cpus (mach s))[i := ?c]" "ncpu m = ncpu (mach s)" "locks m = (locks (mach s))(l := (locks (mach s) l)\<lparr>locked := 0\<rparr>)"
    "eflags m = (if ncli (cpus (mach s) ! i) = 1 \<and> intena (cpus (mach s) ! i) \<noteq> 0 then (eflags (mach s))(a := eflags (mach s) a OR FL_IF) else eflags (mach s))"
    by (simp_all add: m_def Let_def)
  have len: "i < length (cpus (mach s))" by (rule cpus_ok_len [OF D(1) i(1)])
  let ?s = "holds (at_phase s a Free m) a (remove1 l (hold s a))"
  have "cpus_ok (upd_lock (mach s) l (\<lambda>lk. lk\<lparr>locked := 0\<rparr>))" by (rule cpus_ok_cong [OF D(1)]) simp_all
  from popcli_ok [OF this, of i] have "release_end (mach s) a l = Ok m" using i(1,2) B by (simp add: release_end_def m_def Let_def)
  moreover have "linv ?s"
  proof (rule linv_local [OF assms(1) i(1,2), of _ ?c])
    show "cpu_inv ?s i"
    proof (rule cpu_invI [of _ _ a])
      have c: "cpus (mach ?s) ! i = ?c" using m(1) len by simp
      have ie: "intena (cpus (mach s) ! i) \<noteq> 0 \<longleftrightarrow> ie s a" using C(3) B(1) by simp
      show "apic (mach ?s) i = a" using c i(2) by simp
      show "ncli (cpus (mach ?s) ! i) = int (length (hold ?s a) + pending (ph ?s a))" using c n rm by (simp add: pending_def)
      show "ncli (cpus (mach ?s) ! i) \<noteq> 0 \<Longrightarrow> eflags (mach ?s) a AND FL_IF = 0 \<and> (intena (cpus (mach ?s) ! i) \<noteq> 0 \<longleftrightarrow> ie ?s a)"
        using c ie m(4) B(2) by simp
      show "ncli (cpus (mach ?s) ! i) = 0 \<Longrightarrow> (eflags (mach ?s) a AND FL_IF = 0) \<longleftrightarrow> \<not> ie ?s a" using c ie m(4) B(2) by auto
    qed (use C(2) in simp_all)
    have o: "\<not> owns_lock ?s b l" for b
    proof (cases "b = a")
      case False
      then have "\<not> owns_lock s b l" using L(2) [OF own, of b] by blast
      then show ?thesis using False by (simp add: owns_lock_def)
    qed (use C(2) in \<open>simp add: owns_lock_def\<close>)
    have c: "lk_cpu (locks (mach s) l) \<noteq> Some j" if "j < ncpu (mach s)" for j
      using L(3) [OF that] L(2) [OF own, of "apic (mach s) j"] assms(2) by (auto simp: owns_lock_def)
    show "lock_inv ?s r" for r
    proof (cases "r = l")
      case True
      show ?thesis unfolding True lock_inv_def using o c m by (simp add: owns_lock_def)
    next
      case False
      then show ?thesis by (intro lock_inv_cong [OF D(3)]) (use assms(2) m len in \<open>auto simp: nth_list_update split: if_splits\<close>)
    qed
  qed (use i m in auto)
  ultimately show ?thesis by blast
qed

lemma inv_flag:
  assumes "linv s" "ph s a = Free" "hold s a = []" "m = (if b then sti (mach s) a else cli (mach s) a)"
  shows "linv (s\<lparr>mach := m, ie := (ie s)(a := b)\<rparr>)"
proof -
  note D = linvD [OF assms(1)]
  have m: "cpus m = cpus (mach s)" "ncpu m = ncpu (mach s)" "locks m = locks (mach s)" "\<And>c. c \<noteq> a \<Longrightarrow> eflags m c = eflags (mach s) c"
    "eflags m a AND FL_IF = 0 \<longleftrightarrow> \<not> b" using assms(4) by auto
  have c: "cpu_inv (s\<lparr>mach := m, ie := (ie s)(a := b)\<rparr>) i" if "i < ncpu (mach s)" for i
  proof (cases "apic (mach s) i = a")
    case True
    note C = cpu_invD [OF D(2) [OF that] True]
    show ?thesis by (rule cpu_invI [of _ _ a]) (use C assms(2,3) m True in \<open>simp_all add: pending_def\<close>)
  next
    case False
    note C = D(2) [OF that]
    show ?thesis using C False m by (auto simp: cpu_inv_def Let_def split: phase.splits)
  qed
  have "lock_inv (s\<lparr>mach := m, ie := (ie s)(a := b)\<rparr>) l" for l by (rule lock_inv_cong [OF D(3)]) (simp_all add: m)
  then show ?thesis using D(1,4,5) c m cpus_ok_cong [OF D(1), of m] by (auto simp: linv_def)
qed

lemma lstep_inv: "lstep s s' \<Longrightarrow> linv s \<Longrightarrow> linv s'"
proof (induction rule: lstep.induct)
  case (enter s a l m)
  have "\<exists>i<ncpu (mach s). apic (mach s) i = a"
  proof -
    obtain m1 where m1: "pushcli (mach s) a = Ok m1" using enter.hyps(3) by (auto simp: acquire_begin_def)
    then obtain i where "mycpu (cli (mach s) a) a = Ok i" by (auto simp: pushcli_def Let_def)
    moreover have "cpus_ok (cli (mach s) a)" by (rule cpus_ok_cong [OF linvD(1) [OF enter.prems]]) simp_all
    ultimately show ?thesis by (auto elim!: mycpuE)
  qed
  then show ?case using inv_enter [OF enter.prems enter.hyps(1,2)] enter.hyps(3) by auto
next
  case (spin s a l old m)
  then show ?case using inv_xchg [of s a l old m] by simp
next
  case (win s a l m)
  then show ?case using inv_xchg [of s a l 0 m] by simp
next
  case (record_owner s a l v m)
  then show ?case using inv_record [of s a l v] by auto
next
  case (leave s a l m)
  then show ?case using inv_releasing [of s a l] by auto
next
  case (unlock s a l m)
  then show ?case using inv_unlock [of s a l] by auto
next
  case (enable s a)
  then show ?case using inv_flag [of s a _ True] by simp
next
  case (disable s a)
  then show ?case using inv_flag [of s a _ False] by simp
qed

lemma lreach_inv: "lreach s s' \<Longrightarrow> linv s \<Longrightarrow> linv s'"
  by (induction rule: lreach.induct) (auto intro: lstep_inv)

text \<open>The state at boot: no lock is taken and no processor has interrupts nested.\<close>

definition lboot :: "lstate \<Rightarrow> bool" where
  "lboot s \<longleftrightarrow> cpus_ok (mach s) \<and> (\<forall>l. locked (locks (mach s) l) = 0 \<and> lk_cpu (locks (mach s) l) = None) \<and>
     (\<forall>a. hold s a = [] \<and> ph s a = Free) \<and>
     (\<forall>i<ncpu (mach s). ncli (cpus (mach s) ! i) = 0 \<and> (ie s (apic (mach s) i) \<longleftrightarrow> eflags (mach s) (apic (mach s) i) AND FL_IF \<noteq> 0))"

lemma lboot_inv: "lboot s \<Longrightarrow> linv s"
  by (auto simp: lboot_def linv_def cpu_inv_def lock_inv_def owns_lock_def pending_def Let_def)

text \<open>C6: spin locks exclude. Whatever the interleaving of the processors, from boot no two own the same lock, an
  owner runs with interrupts off, a processor outside every lock has the interrupt flag its own code set, and no
  operation of a client that follows the discipline panics: not \<^verbatim>\<open>acquire\<close> of a lock it does not have, at the entry or once
  the exchange has won, and not \<^verbatim>\<open>release\<close> of one it has.\<close>

theorem spinlock_mutual_exclusion:
  assumes "lboot s0" "lreach s0 s"
  shows "(\<forall>a b l. owns_lock s a l \<and> owns_lock s b l \<longrightarrow> a = b) \<and>
    (\<forall>a l. owns_lock s a l \<longrightarrow> eflags (mach s) a AND FL_IF = 0) \<and>
    (\<forall>i<ncpu (mach s). let a = apic (mach s) i in
       (ph s a = Free \<and> hold s a = [] \<longrightarrow> (eflags (mach s) a AND FL_IF \<noteq> 0 \<longleftrightarrow> ie s a)) \<and>
       (\<forall>l. ph s a = Free \<and> l \<notin> set (hold s a) \<longrightarrow> (\<exists>m. acquire_begin (mach s) a l = Ok m)) \<and>
       (\<forall>l v. ph s a = Got l \<longrightarrow> (\<exists>m. acquire_end (mach s) a l v = Ok m)) \<and>
       (\<forall>l. ph s a = Free \<and> l \<in> set (hold s a) \<longrightarrow> (\<exists>m. release_begin (mach s) a l = Ok m)) \<and>
       (\<forall>l. ph s a = Leaving l \<longrightarrow> (\<exists>m. release_end (mach s) a l = Ok m)))"
proof -
  have I: "linv s" by (rule lreach_inv [OF assms(2) lboot_inv [OF assms(1)]])
  note D = linvD [OF I]
  have off: "eflags (mach s) a AND FL_IF = 0" if "owns_lock s a l" for a l
  proof -
    have b: "hold s a \<noteq> [] \<or> pending (ph s a) \<noteq> 0" "hold s a \<noteq> [] \<or> ph s a \<noteq> Free" using that by (auto simp: owns_lock_def pending_def)
    then obtain i where "i < ncpu (mach s)" "apic (mach s) i = a" using D(4,5) by blast
    then show ?thesis using busy_off(2) [OF D(2) _ b(1)] by blast
  qed
  have "ph s (apic (mach s) i) = Free \<and> hold s (apic (mach s) i) = [] \<longrightarrow> (eflags (mach s) (apic (mach s) i) AND FL_IF \<noteq> 0 \<longleftrightarrow> ie s (apic (mach s) i))"
    if "i < ncpu (mach s)" for i
    using cpu_invD(1,4) [OF D(2) [OF that] HOL.refl] by (auto simp: pending_def)
  then show ?thesis unfolding Let_def
    using lock_invD(2) [OF D(3)] off inv_enter [OF I] inv_record [OF I] inv_releasing [OF I] inv_unlock [OF I] by (intro conjI allI impI) blast+
qed

definition two_cpus :: lstate where
  "two_cpus = \<lparr>mach = \<lparr>cpus = [\<lparr>x_apicid = 0, ncli = 0, intena = 0, x_proc = None\<rparr>, \<lparr>x_apicid = 1, ncli = 0, intena = 0, x_proc = None\<rparr>], ncpu = 2,
     eflags = (\<lambda>_. FL_IF), locks = (\<lambda>_. \<lparr>locked = 0, lk_name = ''lock'', lk_cpu = None, lk_pcs = replicate 10 0\<rparr>), smem = (\<lambda>_. 0)\<rparr>,
     hold = (\<lambda>_. []), ph = (\<lambda>_. Free), ie = (\<lambda>_. True)\<rparr>"

theorem spinlock_mutual_exclusion_witness:
  "\<exists>s. lreach two_cpus s \<and> ph s 0 = Trying 7 \<and> ph s 1 = Free \<and> (\<exists>m. acquire_begin (mach s) 1 7 = Ok m)"
proof -
  have b: "lboot two_cpus" by (auto simp: lboot_def two_cpus_def cpus_ok_def less_Suc_eq numeral_2_eq_2)
  have n: "ncpu (mach two_cpus) = 2" "apic (mach two_cpus) 0 = 0" "apic (mach two_cpus) 1 = 1" "\<And>a. hold two_cpus a = [] \<and> ph two_cpus a = Free"
    by (simp_all add: two_cpus_def)
  from spinlock_mutual_exclusion [OF b lreach.refl] n have "\<exists>m. acquire_begin (mach two_cpus) 0 7 = Ok m"
    by (auto simp: Let_def dest!: spec [of "\<lambda>i. i < 2 \<longrightarrow> _ i" 0])
  then obtain m where m: "acquire_begin (mach two_cpus) 0 7 = Ok m" by blast
  let ?s = "at_phase two_cpus 0 (Trying 7) m"
  have r: "lreach two_cpus ?s" by (rule lreach.step [OF lreach.refl], rule lstep.enter [OF _ _ m]) (simp_all add: n)
  have c: "ncpu m = 2" "apic m 1 = 1"
    using m by (auto simp: acquire_begin_def pushcli_def mycpu_def holding_def Let_def two_cpus_def numeral_2_eq_2 split: if_splits option.splits)
  from spinlock_mutual_exclusion [OF b r] have "\<exists>m'. acquire_begin (mach ?s) 1 7 = Ok m'"
    using c n by (auto simp: Let_def dest!: spec [of "\<lambda>i. i < 2 \<longrightarrow> _ i" 1])
  then show ?thesis using r n by (intro exI [of _ ?s]) simp
qed

end
