(* ===== verification/Grep.thy ===== *)
theory Grep
  imports Strings
begin

text \<open>
  The grep program (grep.c): the matcher of simple regular expressions and the loop that cuts the input into lines.
  Patterns and lines are strings without their terminating zero. The matcher is compared with the language that a pattern
  denotes; the loop with the lines of the whole input.
\<close>

section \<open>The matcher\<close>

abbreviation CARET :: byte where "CARET \<equiv> 94"
abbreviation DOLLAR :: byte where "DOLLAR \<equiv> 36"
abbreviation STAR :: byte where "STAR \<equiv> 42"
abbreviation DOT :: byte where "DOT \<equiv> 46"
abbreviation NL :: byte where "NL \<equiv> 10"

function matchhere :: "byte list \<Rightarrow> byte list \<Rightarrow> bool" and matchstar :: "byte \<Rightarrow> byte list \<Rightarrow> byte list \<Rightarrow> bool" where
  "matchhere re s =
     (case re of
        [] \<Rightarrow> True
      | c # re' \<Rightarrow>
          if re' \<noteq> [] \<and> hd re' = STAR then matchstar c (tl re') s
          else if c = DOLLAR \<and> re' = [] then s = []
          else if s \<noteq> [] \<and> (c = DOT \<or> c = hd s) then matchhere re' (tl s)
          else False)"
| "matchstar c re s =
     (if matchhere re s then True
      else if s \<noteq> [] \<and> (hd s = c \<or> c = DOT) then matchstar c re (tl s)
      else False)"
  by pat_completeness auto
termination
  by (relation "measures [\<lambda>x. case x of Inl (re, s) \<Rightarrow> 2 * length re | Inr (c, re, s) \<Rightarrow> 2 * length re + 1,
      \<lambda>x. case x of Inl (re, s) \<Rightarrow> length s | Inr (c, re, s) \<Rightarrow> length s]") (auto simp: neq_Nil_conv)

declare matchhere.simps [simp del] matchstar.simps [simp del]

text \<open>The loop of \<^verbatim>\<open>match\<close> looks at every suffix, the empty one included.\<close>

fun match_from :: "byte list \<Rightarrow> byte list \<Rightarrow> bool" where
  "match_from re [] = matchhere re []"
| "match_from re (c # s) = (matchhere re (c # s) \<or> match_from re s)"

definition match :: "byte list \<Rightarrow> byte list \<Rightarrow> bool" where
  "match re s = (if re \<noteq> [] \<and> hd re = CARET then matchhere (tl re) s else match_from re s)"

section \<open>What a pattern denotes\<close>

definition atom :: "byte \<Rightarrow> byte \<Rightarrow> bool" where
  "atom c x \<longleftrightarrow> c = DOT \<or> x = c"

text \<open>The strings of a pattern without its anchor at the end, and whether it has one. A star is an operator after any
  character; elsewhere it stands for itself, as does a dollar that is not last.\<close>

fun lang :: "byte list \<Rightarrow> byte list set" where
  "lang [] = {[]}"
| "lang [c] = (if c = DOLLAR then {[]} else {[x] | x. atom c x})"
| "lang (c # d # re) =
     (if d = STAR then {u @ v | u v. (\<forall>x\<in>set u. atom c x) \<and> v \<in> lang re}
      else {x # v | x v. atom c x \<and> v \<in> lang (d # re)})"

fun at_end :: "byte list \<Rightarrow> bool" where
  "at_end [] = False"
| "at_end [c] = (c = DOLLAR)"
| "at_end (c # d # re) = (if d = STAR then at_end re else at_end (d # re))"

definition prefix_match :: "byte list \<Rightarrow> byte list \<Rightarrow> bool" where
  "prefix_match re s \<longleftrightarrow> (\<exists>u v. s = u @ v \<and> u \<in> lang re \<and> (at_end re \<longrightarrow> v = []))"

lemma star_step:
  "(\<exists>u v. x # s = u @ v \<and> (\<forall>x\<in>set u. a x) \<and> P v) \<longleftrightarrow>
     P (x # s) \<or> a x \<and> (\<exists>u v. s = u @ v \<and> (\<forall>x\<in>set u. a x) \<and> P v)" (is "?l \<longleftrightarrow> ?r")
proof
  assume ?l
  then obtain u v where u: "x # s = u @ v" "\<forall>x\<in>set u. a x" "P v" by blast
  then show ?r by (cases u) auto
next
  assume ?r
  then show ?l
  proof (elim disjE conjE exE)
    assume "P (x # s)"
    then show ?l by (intro exI [of _ "[]"] exI [of _ "x # s"]) simp
  next
    fix u v
    assume "a x" "s = u @ v" "\<forall>x\<in>set u. a x" "P v"
    then show ?l by (intro exI [of _ "x # u"] exI [of _ v]) simp
  qed
qed

lemma matchstar_iff:
  "matchstar c re s \<longleftrightarrow> (\<exists>u v. s = u @ v \<and> (\<forall>x\<in>set u. atom c x) \<and> matchhere re v)"
proof (induction s)
  case Nil
  show ?case by (subst matchstar.simps) simp
next
  case (Cons x s)
  have "matchstar c re (x # s) \<longleftrightarrow> matchhere re (x # s) \<or> atom c x \<and> matchstar c re s"
    by (subst matchstar.simps) (auto simp: atom_def)
  also have "\<dots> \<longleftrightarrow> (\<exists>u v. x # s = u @ v \<and> (\<forall>x\<in>set u. atom c x) \<and> matchhere re v)"
    unfolding Cons.IH by (rule star_step [symmetric])
  finally show ?case .
qed

lemma prefix_match_star:
  "prefix_match (c # STAR # re) s \<longleftrightarrow> (\<exists>u v. s = u @ v \<and> (\<forall>x\<in>set u. atom c x) \<and> prefix_match re v)" (is "?l \<longleftrightarrow> ?r")
proof
  assume ?l
  then obtain y v where y: "s = y @ v" "y \<in> lang (c # STAR # re)" "at_end (c # STAR # re) \<longrightarrow> v = []"
    unfolding prefix_match_def by blast
  then obtain u w where "y = u @ w" "\<forall>x\<in>set u. atom c x" "w \<in> lang re" by auto
  then have s: "s = (u @ w) @ v" "\<forall>x\<in>set u. atom c x" "w \<in> lang re" "at_end re \<longrightarrow> v = []" using y by auto
  then have "prefix_match re (w @ v)" unfolding prefix_match_def by blast
  then show ?r using s by (intro exI [of _ u] exI [of _ "w @ v"]) simp
next
  assume ?r
  then obtain u w v where s: "s = u @ w @ v" "\<forall>x\<in>set u. atom c x" "w \<in> lang re" "at_end re \<longrightarrow> v = []"
    unfolding prefix_match_def by blast
  then have "u @ w \<in> lang (c # STAR # re)" by auto
  then show ?l using s unfolding prefix_match_def by (intro exI [of _ "u @ w"] exI [of _ v]) simp
qed

lemma prefix_match_atom:
  assumes "d \<noteq> STAR"
  shows "prefix_match (c # d # re) s \<longleftrightarrow> s \<noteq> [] \<and> atom c (hd s) \<and> prefix_match (d # re) (tl s)" (is "?l \<longleftrightarrow> ?r")
proof
  assume ?l
  then obtain y v where y: "s = y @ v" "y \<in> lang (c # d # re)" "at_end (c # d # re) \<longrightarrow> v = []"
    unfolding prefix_match_def by blast
  then obtain x w where "y = x # w" "atom c x" "w \<in> lang (d # re)" using assms by auto
  then have s: "s = x # w @ v" "atom c x" "w \<in> lang (d # re)" "at_end (d # re) \<longrightarrow> v = []" using y assms by auto
  then have "prefix_match (d # re) (w @ v)" unfolding prefix_match_def by blast
  then show ?r using s by simp
next
  assume ?r
  then obtain x w v where s: "s = x # w @ v" "atom c x" "w \<in> lang (d # re)" "at_end (d # re) \<longrightarrow> v = []"
    unfolding prefix_match_def by (metis list.collapse)
  then have "x # w \<in> lang (c # d # re)" using assms by simp
  then show ?l using s assms unfolding prefix_match_def by (intro exI [of _ "x # w"] exI [of _ v]) simp
qed

lemma matchhere_prefix: "matchhere re s \<longleftrightarrow> prefix_match re s"
proof (induction re arbitrary: s rule: lang.induct)
  case (2 c)
  show ?case
  proof (cases s)
    case (Cons x xs)
    have "(\<exists>u v. x # xs = u @ v \<and> (\<exists>y. u = [y] \<and> atom c y)) \<longleftrightarrow> atom c x"
      by (metis append_Cons append_Nil list.inject)
    then show ?thesis using Cons
      by (subst matchhere.simps) (auto simp: prefix_match_def atom_def matchhere.simps)
  qed (subst matchhere.simps, auto simp: prefix_match_def)
next
  case (3 c d re)
  show ?case
  proof (cases "d = STAR")
    case True
    then have "matchhere (c # d # re) s \<longleftrightarrow> (\<exists>u v. s = u @ v \<and> (\<forall>x\<in>set u. atom c x) \<and> prefix_match re v)"
      using "3.IH"(1) by (subst matchhere.simps) (simp add: matchstar_iff)
    also have "\<dots> \<longleftrightarrow> prefix_match (c # d # re) s"
      using True prefix_match_star by simp
    finally show ?thesis .
  next
    case False
    then have "matchhere (c # d # re) s \<longleftrightarrow> s \<noteq> [] \<and> atom c (hd s) \<and> prefix_match (d # re) (tl s)"
      using "3.IH"(2) by (subst matchhere.simps) (auto simp: atom_def)
    also have "\<dots> \<longleftrightarrow> prefix_match (c # d # re) s"
      using False prefix_match_atom by simp
    finally show ?thesis .
  qed
qed (subst matchhere.simps, auto simp: prefix_match_def)

lemma match_from_iff: "match_from re s \<longleftrightarrow> (\<exists>w v. s = w @ v \<and> prefix_match re v)"
proof (induction s)
  case (Cons x s)
  have "(\<exists>w v. x # s = w @ v \<and> prefix_match re v) \<longleftrightarrow> prefix_match re (x # s) \<or> (\<exists>w v. s = w @ v \<and> prefix_match re v)"
    using star_step [of x s "\<lambda>_. True" "prefix_match re"] by simp
  then show ?case using Cons.IH by (simp add: matchhere_prefix)
qed (simp add: matchhere_prefix)

text \<open>C23: the matcher decides the language of the pattern. A line matches exactly when it has a part in the language of the
  pattern, the part that starts the line after a leading caret and the part that ends it before a closing dollar.\<close>

theorem match_decides_language:
  "match re s \<longleftrightarrow>
     (let anchored = (re \<noteq> [] \<and> hd re = CARET); body = (if anchored then tl re else re)
      in \<exists>w u v. s = w @ u @ v \<and> u \<in> lang body \<and> (anchored \<longrightarrow> w = []) \<and> (at_end body \<longrightarrow> v = []))"
proof (cases "re \<noteq> [] \<and> hd re = CARET")
  case True
  then show ?thesis by (simp add: match_def matchhere_prefix prefix_match_def Let_def)
next
  case False
  then have "match re s \<longleftrightarrow> (\<exists>w v. s = w @ v \<and> prefix_match re v)" unfolding match_def match_from_iff by (simp only: if_False)
  also have "\<dots> \<longleftrightarrow> (\<exists>w u v. s = w @ u @ v \<and> u \<in> lang re \<and> (at_end re \<longrightarrow> v = []))" unfolding prefix_match_def by blast
  finally show ?thesis using False by (simp only: Let_def if_False simp_thms)
qed

text \<open>The pattern \<^verbatim>\<open>^a.*b$\<close> and the line \<^verbatim>\<open>axxb\<close>.\<close>

theorem match_decides_language_witness:
  "match [94, 97, 46, 42, 98, 36] [97, 120, 120, 98] \<and> [97, 120, 120, 98] \<in> lang [97, 46, 42, 98, 36] \<and>
   \<not> match [94, 97, 36] [98]"
proof -
  have m: "match [94, 97, 46, 42, 98, 36] [97, 120, 120, 98]" "\<not> match [94, 97, 36] [98]"
    by (simp_all add: match_def matchhere.simps matchstar.simps)
  then have "\<exists>u v. [97, 120, 120, 98] = u @ v \<and> u \<in> lang [97, 46, 42, 98, 36] \<and> v = []"
    using match_decides_language [of "[94, 97, 46, 42, 98, 36]" "[97, 120, 120, 98]"] by (simp add: Let_def del: lang.simps)
  then show ?thesis using m by (simp del: lang.simps)
qed

section \<open>The loop over the input\<close>

text \<open>The inner loop of \<^verbatim>\<open>grep\<close>: the lines up to the last newline before a zero byte, and what is left of the buffer
  from \<^verbatim>\<open>p\<close> on. A line that matches is written with its newline.\<close>

function grep_lines :: "byte list \<Rightarrow> byte list \<Rightarrow> byte list \<times> byte list" where
  "grep_lines re p =
     (let l = takeWhile (\<lambda>c. c \<noteq> NL \<and> c \<noteq> 0) p; q = dropWhile (\<lambda>c. c \<noteq> NL \<and> c \<noteq> 0) p
      in if q \<noteq> [] \<and> hd q = NL
         then (let (written, rest) = grep_lines re (tl q)
               in ((if match re l then l @ [NL] else []) @ written, rest))
         else ([], p))"
  by pat_completeness auto
termination
proof (relation "measure (\<lambda>(re, p). length p)", goal_cases)
  case (2 re p l q)
  then have "length q \<le> length p" "q \<noteq> []" by (simp_all add: length_dropWhile_le)
  then show ?case by (cases q) auto
qed simp

declare grep_lines.simps [simp del]

text \<open>The outer loop: \<^verbatim>\<open>m\<close> is what the buffer keeps, each chunk what one \<^verbatim>\<open>read\<close> returned; an empty one ends the loop. By
  the contract of \<^verbatim>\<open>read\<close> a chunk is no longer than the room that is left, \<^verbatim>\<open>sizeof(buf)-m-1\<close> bytes. The
  result is what is written to the standard output.\<close>

fun grep_loop :: "byte list \<Rightarrow> byte list \<Rightarrow> byte list list \<Rightarrow> byte list" where
  "grep_loop re m [] = []"
| "grep_loop re m (chunk # chunks) =
     (if chunk = [] then []
      else let b = m @ chunk; (written, p) = grep_lines re b
           in written @ grep_loop re (if length p = length b then [] else p) chunks)"

definition grep :: "byte list \<Rightarrow> byte list list \<Rightarrow> byte list" where
  "grep re chunks = grep_loop re [] chunks"

text \<open>The part of the input after its last newline.\<close>

fun last_part :: "byte list \<Rightarrow> byte list" where
  "last_part [] = []"
| "last_part (c # xs) = (if NL \<in> set xs then last_part xs else if c = NL then xs else c # xs)"

text \<open>What the program is for: the lines of the input, each ended by a newline, that match.\<close>

function input_lines :: "byte list \<Rightarrow> byte list list" where
  "input_lines xs =
     (if NL \<in> set xs then takeWhile (\<lambda>c. c \<noteq> NL) xs # input_lines (tl (dropWhile (\<lambda>c. c \<noteq> NL) xs)) else [])"
  by pat_completeness auto
termination
proof (relation "measure length", goal_cases)
  case (2 xs)
  then have "dropWhile (\<lambda>c. c \<noteq> NL) xs \<noteq> []" by (auto simp: dropWhile_eq_Nil_conv)
  then show ?case using length_dropWhile_le [of "\<lambda>c. c \<noteq> NL" xs]
    by (cases "dropWhile (\<lambda>c. c \<noteq> NL) xs") auto
qed simp

declare input_lines.simps [simp del]

definition selected :: "byte list \<Rightarrow> byte list \<Rightarrow> byte list" where
  "selected re xs = concat (map (\<lambda>l. l @ [NL]) (filter (match re) (input_lines xs)))"

lemma input_lines_none: "NL \<notin> set xs \<Longrightarrow> input_lines xs = []"
  by (simp add: input_lines.simps)

lemma line_end:
  assumes "\<And>c. c \<in> set l \<Longrightarrow> P c" "\<not> P d"
  shows "takeWhile P (l @ d # xs) = l" "dropWhile P (l @ d # xs) = d # xs"
  using assms by (induction l) auto

lemma line_end_newline:
  "NL \<notin> set l \<Longrightarrow> takeWhile (\<lambda>c. c \<noteq> NL) (l @ NL # xs) = l"
  "NL \<notin> set l \<Longrightarrow> dropWhile (\<lambda>c. c \<noteq> NL) (l @ NL # xs) = NL # xs"
  by (rule line_end; auto)+

lemma input_lines_line: "NL \<notin> set l \<Longrightarrow> input_lines (l @ NL # xs) = l # input_lines xs"
  by (subst input_lines.simps) (simp add: line_end_newline)

lemma last_part_none: "NL \<notin> set xs \<Longrightarrow> last_part xs = xs"
  by (induction xs) auto

lemma last_part_line: "last_part (l @ NL # xs) = last_part xs"
  by (induction l) (auto simp: last_part_none)

lemma last_part_no_newline: "NL \<notin> set (last_part xs)"
  by (induction xs) auto

lemma split_newline:
  assumes "NL \<in> set xs"
  obtains l ys where "xs = l @ NL # ys" "NL \<notin> set l"
  using assms by (metis split_list_first)

lemma grep_lines_none:
  assumes "NL \<notin> set p"
  shows "grep_lines re p = ([], p)"
proof -
  let ?P = "\<lambda>c. c \<noteq> NL \<and> c \<noteq> 0"
  have "\<not> (dropWhile ?P p \<noteq> [] \<and> hd (dropWhile ?P p) = NL)"
  proof
    assume "dropWhile ?P p \<noteq> [] \<and> hd (dropWhile ?P p) = NL"
    then have "NL \<in> set (dropWhile ?P p)" using hd_in_set [of "dropWhile ?P p"] by simp
    then show False using assms set_dropWhileD by fast
  qed
  then show ?thesis by (subst grep_lines.simps) (simp only: Let_def if_False)
qed

lemma grep_lines_line:
  assumes "NL \<notin> set l" "0 \<notin> set l"
  shows "grep_lines re (l @ NL # p) =
    ((if match re l then l @ [NL] else []) @ fst (grep_lines re p), snd (grep_lines re p))"
proof -
  have "takeWhile (\<lambda>c. c \<noteq> NL \<and> c \<noteq> 0) (l @ NL # p) = l" "dropWhile (\<lambda>c. c \<noteq> NL \<and> c \<noteq> 0) (l @ NL # p) = NL # p"
    using assms by (auto intro!: line_end)
  then show ?thesis by (subst grep_lines.simps) (simp add: Let_def split: prod.split)
qed

text \<open>On a buffer without zero bytes the inner loop writes the lines that match and leaves the part after the last newline.\<close>

lemma grep_lines_selected:
  assumes "0 \<notin> set p"
  shows "grep_lines re p = (selected re p, last_part p)"
  using assms
proof (induction p rule: length_induct)
  case (1 p)
  show ?case
  proof (cases "NL \<in> set p")
    case True
    then obtain l ys where p: "p = l @ NL # ys" "NL \<notin> set l" by (rule split_newline)
    then have "grep_lines re ys = (selected re ys, last_part ys)" using 1 by auto
    then show ?thesis using p 1(2) by (simp add: grep_lines_line selected_def input_lines_line last_part_line)
  qed (simp add: grep_lines_none last_part_none selected_def input_lines_none)
qed

lemma selected_append: "selected re (xs @ ys) = selected re xs @ selected re (last_part xs @ ys)"
proof (induction xs rule: length_induct)
  case (1 xs)
  show ?case
  proof (cases "NL \<in> set xs")
    case True
    then obtain l zs where xs: "xs = l @ NL # zs" "NL \<notin> set l" by (rule split_newline)
    then have "selected re (zs @ ys) = selected re zs @ selected re (last_part zs @ ys)" using 1 by auto
    then show ?thesis using xs by (simp add: selected_def input_lines_line last_part_line)
  qed (simp add: last_part_none selected_def input_lines_none)
qed

lemma last_part_shorter:
  assumes "NL \<in> set xs"
  shows "length (last_part xs) < length xs"
proof -
  obtain l ys where "xs = l @ NL # ys" using assms by (rule split_newline)
  moreover have "length (last_part ys) \<le> length ys" by (induction ys) auto
  ultimately show ?thesis by (simp add: last_part_line)
qed

lemma last_part_subset: "set (last_part xs) \<subseteq> set xs"
  by (induction xs) auto

lemma grep_loop_selected:
  assumes "\<And>c. c \<in> set chunks \<Longrightarrow> NL \<in> set c \<and> 0 \<notin> set c" "0 \<notin> set m" "NL \<notin> set m"
  shows "grep_loop re m chunks = selected re (m @ concat chunks)"
  using assms
proof (induction chunks arbitrary: m)
  case (Cons c cs)
  let ?p = "last_part (m @ c)"
  have c: "NL \<in> set (m @ c)" "0 \<notin> set (m @ c)" "c \<noteq> []" using Cons.prems by force+
  have "grep_loop re ?p cs = selected re (?p @ concat cs)"
    using Cons.prems(1) c(2) last_part_subset [of "m @ c"] last_part_no_newline [of "m @ c"]
    by (intro Cons.IH) auto
  then show ?case
    using c last_part_shorter [OF c(1)] selected_append [of re "m @ c" "concat cs"]
    by (simp add: grep_lines_selected Let_def)
qed (simp add: selected_def input_lines_none)

text \<open>C24: grep writes exactly the lines of its input that match, in order and whole, however the reads cut the input, as
  long as every read brings a newline. A first read that brings none is lost: what is written is the same as without it,
  although it is the beginning of the first line.\<close>

theorem grep_selects_lines:
  assumes "\<And>c. c \<in> set chunks \<Longrightarrow> NL \<in> set c \<and> 0 \<notin> set c"
  shows "grep re chunks = selected re (concat chunks) \<and>
    (\<forall>part. part \<noteq> [] \<and> NL \<notin> set part \<longrightarrow> grep re (part # chunks) = selected re (concat chunks))"
  using grep_loop_selected [OF assms, of chunks "[]" re] by (simp add: grep_def grep_lines_none)

text \<open>The pattern \<^verbatim>\<open>b\<close> on the input \<^verbatim>\<open>ab, c, b\<close>, cut in the middle of the last line.\<close>

theorem grep_selects_lines_witness:
  "grep [98] [[97, 98, 10, 99, 10, 98], [10]] = [97, 98, 10, 98, 10] \<and> grep [98] [[98], [10]] = []"
proof -
  have chunks: "c \<in> set [[97, 98, 10, 99, 10, 98], [10]] \<Longrightarrow> NL \<in> set c \<and> 0 \<notin> set c" for c :: "byte list"
    by (simp; elim disjE; simp)
  have "input_lines [97, 98, 10, 99, 10, 98, 10] = [[97, 98], [99], [98]]" "input_lines [10] = [[]]"
    by (simp_all add: input_lines.simps)
  moreover have "match [98] [97, 98]" "\<not> match [98] [99]" "match [98] [98]" "\<not> match [98] []"
    by (simp_all add: match_def matchhere.simps)
  ultimately show ?thesis
    using grep_selects_lines [of "[[97, 98, 10, 99, 10, 98], [10]]" "[98]", OF chunks] grep_selects_lines [of "[[10]]" "[98]"]
    by (simp add: selected_def)
qed

end
