(* ===== verification/Shell.thy ===== *)
theory Shell
  imports Strings
begin

text \<open>
  The parser of the shell (sh.c). The command line is a buffer of bytes without its terminating zero; a pointer into
  it is a position, \<^verbatim>\<open>es\<close> is its length. A parsed command is a tree whose words are pairs of positions, \<^verbatim>\<open>q\<close> and \<^verbatim>\<open>eq\<close>
  of \<^verbatim>\<open>gettoken\<close>, until \<^verbatim>\<open>nulterminate\<close> writes a zero at the end of each of them. The recursive functions take fuel;
  \<open>parsecmd\<close> gives them enough.
\<close>

section \<open>Commands\<close>

type_synonym pos = nat
type_synonym word_pos = "pos \<times> pos"

text \<open>The flags of \<^verbatim>\<open>open\<close> in a redirection are written out as the numbers of fcntl.h.\<close>

datatype cmd =
    EXEC "word_pos list"
  | REDIR cmd word_pos u32 nat
  | PIPE cmd cmd
  | LIST cmd cmd
  | BACK cmd

definition MAXARGS :: nat where
  "MAXARGS = 10"

section \<open>Tokens\<close>

definition whitespace :: "byte list" where
  "whitespace = [32, 9, 13, 10, 11]"

definition symbols :: "byte list" where
  "symbols = str ''<|>&;()''"

text \<open>Reading \<^verbatim>\<open>*s\<close>: the byte at a position, the terminating zero at the end.\<close>

definition at :: "byte list \<Rightarrow> pos \<Rightarrow> byte" where
  "at b s = (if s < length b then b ! s else 0)"

function skip_white :: "byte list \<Rightarrow> pos \<Rightarrow> pos" where
  "skip_white b s = (if s < length b \<and> b ! s \<in> set whitespace then skip_white b (s + 1) else s)"
  by pat_completeness auto
termination
  by (relation "measure (\<lambda>(b, s). length b - s)") auto

function skip_word :: "byte list \<Rightarrow> pos \<Rightarrow> pos" where
  "skip_word b s = (if s < length b \<and> b ! s \<notin> set whitespace \<and> b ! s \<notin> set symbols then skip_word b (s + 1) else s)"
  by pat_completeness auto
termination
  by (relation "measure (\<lambda>(b, s). length b - s)") auto

declare skip_white.simps [simp del] skip_word.simps [simp del]

text \<open>The token, the positions \<^verbatim>\<open>q\<close> and \<^verbatim>\<open>eq\<close>, and the new position.\<close>

definition gettoken :: "byte list \<Rightarrow> pos \<Rightarrow> byte \<times> word_pos \<times> pos" where
  "gettoken b ps =
     (let q = skip_white b ps; c = at b q;
          (ret, eq) =
            (if c = 0 then (c, q)
             else if c \<in> set (str ''|();&<'') then (c, q + 1)
             else if c = ch CHR ''>'' then (if at b (q + 1) = ch CHR ''>'' then (ch CHR ''+'', q + 2) else (c, q + 1))
             else (ch CHR ''a'', skip_word b q))
      in (ret, (q, eq), skip_white b eq))"

definition peek :: "byte list \<Rightarrow> pos \<Rightarrow> byte list \<Rightarrow> bool \<times> pos" where
  "peek b ps toks = (let s = skip_white b ps in (at b s \<noteq> 0 \<and> at b s \<in> set toks, s))"

section \<open>The parser\<close>

fun parseredirs :: "nat \<Rightarrow> byte list \<Rightarrow> cmd \<Rightarrow> pos \<Rightarrow> (cmd \<times> pos) outcome" where
  "parseredirs 0 b cmd ps = Fault ''fuel''"
| "parseredirs (Suc n) b cmd ps =
     (case peek b ps (str ''<>'') of (more, ps) \<Rightarrow>
        if \<not> more then Ok (cmd, ps)
        else
          case gettoken b ps of (tok, _, ps) \<Rightarrow>
          case gettoken b ps of (tok2, file, ps) \<Rightarrow>
            if tok2 \<noteq> ch CHR ''a'' then Panic ''missing file for redirection''
            else
              parseredirs n b
                (if tok = ch CHR ''<'' then REDIR cmd file 0x000 0
                 else if tok = ch CHR ''>'' then REDIR cmd file 0x201 1
                 else if tok = ch CHR ''+'' then REDIR cmd file 0x201 1
                 else cmd)
                ps)"

text \<open>The words are collected in the \<^verbatim>\<open>execcmd\<close> at the bottom of the redirections; it is completed at the end.\<close>

fun complete :: "word_pos list \<Rightarrow> cmd \<Rightarrow> cmd" where
  "complete argv (EXEC _) = EXEC argv"
| "complete argv (REDIR c f m d) = REDIR (complete argv c) f m d"
| "complete argv c = c"

fun parseargs :: "nat \<Rightarrow> byte list \<Rightarrow> word_pos list \<Rightarrow> cmd \<Rightarrow> pos \<Rightarrow> (cmd \<times> pos) outcome" where
  "parseargs 0 b argv ret ps = Fault ''fuel''"
| "parseargs (Suc n) b argv ret ps =
     (case peek b ps (str ''|)&;'') of (stop, ps) \<Rightarrow>
        if stop then Ok (complete argv ret, ps)
        else
          case gettoken b ps of (tok, w, ps) \<Rightarrow>
            if tok = 0 then Ok (complete argv ret, ps)
            else if tok \<noteq> ch CHR ''a'' then Panic ''syntax''
            else if length argv + 1 \<ge> MAXARGS then Panic ''too many args''
            else andThen (parseredirs n b ret ps) (\<lambda>(ret, ps). parseargs n b (argv @ [w]) ret ps))"

fun parseback :: "nat \<Rightarrow> byte list \<Rightarrow> cmd \<Rightarrow> pos \<Rightarrow> (cmd \<times> pos) outcome" where
  "parseback 0 b cmd ps = Fault ''fuel''"
| "parseback (Suc n) b cmd ps =
     (case peek b ps (str ''&'') of (more, ps) \<Rightarrow>
        if more then (case gettoken b ps of (_, _, ps) \<Rightarrow> parseback n b (BACK cmd) ps) else Ok (cmd, ps))"

fun parseline :: "nat \<Rightarrow> byte list \<Rightarrow> pos \<Rightarrow> (cmd \<times> pos) outcome"
  and parsepipe :: "nat \<Rightarrow> byte list \<Rightarrow> pos \<Rightarrow> (cmd \<times> pos) outcome"
  and parseblock :: "nat \<Rightarrow> byte list \<Rightarrow> pos \<Rightarrow> (cmd \<times> pos) outcome"
  and parseexec :: "nat \<Rightarrow> byte list \<Rightarrow> pos \<Rightarrow> (cmd \<times> pos) outcome" where
  "parseline 0 b ps = Fault ''fuel''"
| "parseline (Suc n) b ps =
     andThen (parsepipe n b ps)
       (\<lambda>(cmd, ps). andThen (parseback n b cmd ps)
          (\<lambda>(cmd, ps). case peek b ps (str '';'') of (more, ps) \<Rightarrow>
             if more then (case gettoken b ps of (_, _, ps) \<Rightarrow>
                andThen (parseline n b ps) (\<lambda>(right, ps). Ok (LIST cmd right, ps)))
             else Ok (cmd, ps)))"
| "parsepipe 0 b ps = Fault ''fuel''"
| "parsepipe (Suc n) b ps =
     andThen (parseexec n b ps)
       (\<lambda>(cmd, ps). case peek b ps (str ''|'') of (more, ps) \<Rightarrow>
          if more then (case gettoken b ps of (_, _, ps) \<Rightarrow>
             andThen (parsepipe n b ps) (\<lambda>(right, ps). Ok (PIPE cmd right, ps)))
          else Ok (cmd, ps))"
| "parseblock 0 b ps = Fault ''fuel''"
| "parseblock (Suc n) b ps =
     (case peek b ps (str ''('') of (opens, ps) \<Rightarrow>
        if \<not> opens then Panic ''parseblock''
        else case gettoken b ps of (_, _, ps) \<Rightarrow>
          andThen (parseline n b ps)
            (\<lambda>(cmd, ps). case peek b ps (str '')'') of (closes, ps) \<Rightarrow>
               if \<not> closes then Panic ''syntax - missing )''
               else case gettoken b ps of (_, _, ps) \<Rightarrow> parseredirs n b cmd ps))"
| "parseexec 0 b ps = Fault ''fuel''"
| "parseexec (Suc n) b ps =
     (case peek b ps (str ''('') of (opens, ps) \<Rightarrow>
        if opens then parseblock n b ps
        else andThen (parseredirs n b (EXEC []) ps) (\<lambda>(ret, ps). parseargs n b [] ret ps))"

text \<open>The zeros that \<^verbatim>\<open>nulterminate\<close> writes; the buffer ends with the terminating zero that it had.\<close>

fun nulterminate :: "cmd \<Rightarrow> byte list \<Rightarrow> byte list" where
  "nulterminate (EXEC argv) b = fold (\<lambda>(q, eq) b. b[eq := 0]) argv b"
| "nulterminate (REDIR c (q, eq) m d) b = (nulterminate c b)[eq := 0]"
| "nulterminate (PIPE l r) b = nulterminate r (nulterminate l b)"
| "nulterminate (LIST l r) b = nulterminate r (nulterminate l b)"
| "nulterminate (BACK c) b = nulterminate c b"

definition enough :: "byte list \<Rightarrow> nat" where
  "enough b = 4 * length b + 8"

definition parsecmd :: "byte list \<Rightarrow> (cmd \<times> byte list) outcome" where
  "parsecmd s =
     (let b = cstr s
      in andThen (parseline (enough b) b 0)
           (\<lambda>(cmd, ps). case peek b ps [] of (_, ps) \<Rightarrow>
              if ps \<noteq> length b then Panic ''syntax'' else Ok (cmd, nulterminate cmd (b @ [0]))))"

section \<open>The words of a command line\<close>

definition plain :: "byte \<Rightarrow> bool" where
  "plain c \<longleftrightarrow> c \<notin> set whitespace \<and> c \<notin> set symbols"

text \<open>A maximal run of plain characters.\<close>

definition word_at :: "byte list \<Rightarrow> word_pos \<Rightarrow> bool" where
  "word_at b w \<longleftrightarrow> (case w of (q, eq) \<Rightarrow>
     q < eq \<and> eq \<le> length b \<and> (\<forall>i. q \<le> i \<and> i < eq \<longrightarrow> plain (b ! i)) \<and>
     (q = 0 \<or> \<not> plain (b ! (q - 1))) \<and> (eq = length b \<or> \<not> plain (b ! eq)))"

text \<open>The words that start in a part of the line, and positions that are not inside a word.\<close>

definition words_in :: "byte list \<Rightarrow> pos \<Rightarrow> pos \<Rightarrow> word_pos set" where
  "words_in b s t = {w. word_at b w \<and> s \<le> fst w \<and> fst w < t}"

definition boundary :: "byte list \<Rightarrow> pos \<Rightarrow> bool" where
  "boundary b s \<longleftrightarrow> s \<le> length b \<and> (s = 0 \<or> s = length b \<or> \<not> plain (b ! (s - 1)) \<or> \<not> plain (b ! s))"

lemma words_in_none: "(\<And>i. s \<le> i \<Longrightarrow> i < t \<Longrightarrow> \<not> plain (b ! i)) \<Longrightarrow> words_in b s t = {}"
  by (fastforce simp: words_in_def word_at_def)

lemma words_in_split: "s \<le> t \<Longrightarrow> t \<le> u \<Longrightarrow> words_in b s u = words_in b s t \<union> words_in b t u"
  by (auto simp: words_in_def)

lemma boundaryI: "t \<le> length b \<Longrightarrow> 0 < t \<Longrightarrow> \<not> plain (b ! (t - 1)) \<Longrightarrow> boundary b t"
  by (simp add: boundary_def)

lemma skip_white_props:
  assumes "s \<le> length b"
  shows "s \<le> skip_white b s \<and> skip_white b s \<le> length b \<and>
    (\<forall>i. s \<le> i \<and> i < skip_white b s \<longrightarrow> b ! i \<in> set whitespace) \<and>
    (skip_white b s < length b \<longrightarrow> b ! skip_white b s \<notin> set whitespace)"
  using assms
proof (induction b s rule: skip_white.induct)
  case (1 b s)
  show ?case
  proof (cases "s < length b \<and> b ! s \<in> set whitespace")
    case True
    then have "skip_white b s = skip_white b (s + 1)" by (subst skip_white.simps) simp
    moreover have "b ! i \<in> set whitespace" if "s \<le> i" "s + 1 \<le> i \<longrightarrow> b ! i \<in> set whitespace" for i
      using that True by (cases "i = s") auto
    ultimately show ?thesis using 1(1) [OF True] True by auto
  next
    case False
    then have "skip_white b s = s" by (subst skip_white.simps) auto
    then show ?thesis using False 1(2) by auto
  qed
qed

lemma skip_word_props:
  assumes "s \<le> length b"
  shows "s \<le> skip_word b s \<and> skip_word b s \<le> length b \<and> (\<forall>i. s \<le> i \<and> i < skip_word b s \<longrightarrow> plain (b ! i)) \<and>
    (skip_word b s < length b \<longrightarrow> \<not> plain (b ! skip_word b s))"
  using assms
proof (induction b s rule: skip_word.induct)
  case (1 b s)
  show ?case
  proof (cases "s < length b \<and> b ! s \<notin> set whitespace \<and> b ! s \<notin> set symbols")
    case True
    then have "skip_word b s = skip_word b (s + 1)" by (subst skip_word.simps) simp
    moreover have "plain (b ! i)" if "s \<le> i" "s + 1 \<le> i \<longrightarrow> plain (b ! i)" for i
      using that True by (cases "i = s") (auto simp: plain_def)
    ultimately show ?thesis using 1(1) [OF True] True by auto
  next
    case False
    then have "skip_word b s = s" by (subst skip_word.simps) auto
    then show ?thesis using False 1(2) by (auto simp: plain_def)
  qed
qed

text \<open>White space neither holds a word nor cuts one.\<close>

lemma skip_white_words:
  assumes "s \<le> length b"
  shows "words_in b s (skip_white b s) = {}"
  using skip_white_props [OF assms] by (intro words_in_none) (auto simp: plain_def)

lemma skip_white_boundary:
  assumes "boundary b s"
  shows "boundary b (skip_white b s)"
proof (cases "skip_white b s = s")
  case False
  have s: "s \<le> length b" using assms by (simp add: boundary_def)
  then have "s < skip_white b s" "skip_white b s \<le> length b" using skip_white_props [OF s] False by auto
  moreover from this have "b ! (skip_white b s - 1) \<in> set whitespace" using skip_white_props [OF s] by auto
  ultimately show ?thesis by (intro boundaryI) (auto simp: plain_def)
qed (simp add: assms)

lemma skip_white_again: "s \<le> length b \<Longrightarrow> skip_white b (skip_white b s) = skip_white b s"
  using skip_white_props [of s b] by (subst skip_white.simps) auto

lemma symbol_codes:
  "set symbols = {60, 124, 62, 38, 59, 40, 41}" "set (str ''|();&<'') = {124, 40, 41, 59, 38, 60}" "ch CHR ''>'' = 62"
  "ch CHR ''<'' = 60" "ch CHR ''+'' = 43" "ch CHR ''a'' = 97" "set (str ''<>'') = {60, 62}" "set (str ''|)&;'') = {124, 41, 38, 59}"
  "set (str ''&'') = {38}" "set (str '';'') = {59}" "set (str ''|'') = {124}" "set (str ''('') = {40}" "set (str '')'') = {41}"
  "set whitespace = {32, 9, 13, 10, 11}"
  by (simp_all add: symbols_def str_def ch_def of_char_def whitespace_def)

text \<open>After the token at a position: the position moved on, is no further than the end and not inside a word.\<close>

definition moved :: "byte list \<Rightarrow> pos \<Rightarrow> pos \<Rightarrow> word_pos set \<Rightarrow> bool" where
  "moved b s t ws \<longleftrightarrow> s \<le> t \<and> boundary b t \<and> words_in b s t = ws"

lemma moved_trans: "moved b s t ws \<Longrightarrow> moved b t u vs \<Longrightarrow> moved b s u (ws \<union> vs)"
  unfolding moved_def using words_in_split [of s t u b] by auto

lemma moved_white:
  assumes "boundary b s"
  shows "moved b s (skip_white b s) {}"
proof -
  have "s \<le> length b" using assms by (simp add: boundary_def)
  then show ?thesis
    using skip_white_props [of s b] skip_white_words [of s b] skip_white_boundary [OF assms] by (simp add: moved_def)
qed

lemma moved_symbols:
  assumes "s < t" "t \<le> length b" "\<And>i. s \<le> i \<Longrightarrow> i < t \<Longrightarrow> b ! i \<in> set symbols"
  shows "moved b s t {}"
proof -
  have p: "\<not> plain (b ! i)" if "s \<le> i" "i < t" for i using assms(3) [OF that] by (simp add: plain_def)
  then have "boundary b t" using assms(1,2) by (intro boundaryI) auto
  then show ?thesis using assms(1) p by (simp add: moved_def words_in_none)
qed

lemma word_start:
  assumes "boundary b s" "s < length b" "plain (b ! s)"
  shows "s < skip_word b s" "moved b s (skip_word b s) {(s, skip_word b s)}" "word_at b (s, skip_word b s)"
proof -
  let ?e = "skip_word b s"
  have e: "s \<le> ?e" "?e \<le> length b" "\<And>i. s \<le> i \<Longrightarrow> i < ?e \<Longrightarrow> plain (b ! i)" "?e < length b \<Longrightarrow> \<not> plain (b ! ?e)"
    using skip_word_props [of s b] assms(2) by auto
  show less: "s < ?e" using e assms by (cases "s = ?e") auto
  show w: "word_at b (s, ?e)"
    using assms less e unfolding word_at_def boundary_def by auto
  have "w = (s, ?e)" if m: "w \<in> words_in b s ?e" for w
  proof -
    obtain q r where w: "w = (q, r)" "word_at b (q, r)" "s \<le> q" "q < ?e" using m by (cases w) (auto simp: words_in_def)
    have "q = s"
    proof (rule ccontr)
      assume "q \<noteq> s"
      then have "plain (b ! (q - 1))" using w e(3) [of "q - 1"] by auto
      then show False using w \<open>q \<noteq> s\<close> by (auto simp: word_at_def)
    qed
    moreover have "\<not> r < ?e" using w e(3) [of r] e(2) by (auto simp: word_at_def)
    moreover have "\<not> ?e < r" using w e(4) by (auto simp: word_at_def)
    ultimately show ?thesis using w by auto
  qed
  moreover have "(s, ?e) \<in> words_in b s ?e" using w less by (simp add: words_in_def)
  moreover have "boundary b ?e" using e by (auto simp: boundary_def)
  ultimately show "moved b s ?e {(s, ?e)}" unfolding moved_def using less by (metis less_imp_le subsetI singletonI singletonD subset_singletonD empty_iff)
qed

text \<open>What \<^verbatim>\<open>gettoken\<close> returns: the end, a symbol, or the next word.\<close>

lemma gettoken_cases:
  assumes "boundary b s" "0 \<notin> set b" "gettoken b s = (tok, w, t)"
  obtains (eof) "tok = 0" "moved b s t {}"
  | (symbol) "tok \<noteq> 0" "tok \<noteq> 97" "s < t" "moved b s t {}" "at b (skip_white b s) \<in> set symbols"
      "at b (skip_white b s) = 60 \<and> tok = 60 \<or> at b (skip_white b s) = 62 \<and> (tok = 62 \<or> tok = 43) \<or>
       at b (skip_white b s) \<noteq> 60 \<and> at b (skip_white b s) \<noteq> 62"
  | (word) "tok = 97" "s < t" "moved b s t {w}" "word_at b w" "at b (skip_white b s) \<notin> set symbols"
proof -
  define q where "q = skip_white b s"
  have q: "moved b s q {}" "boundary b q" "q \<le> length b"
    using moved_white [OF assms(1)] unfolding q_def [symmetric] by (auto simp: moved_def boundary_def)
  have sq: "s \<le> q" using q(1) by (simp add: moved_def)
  have nz: "q < length b \<Longrightarrow> b ! q \<noteq> 0" using assms(2) by (metis nth_mem)
  have white: "q < length b \<Longrightarrow> b ! q \<notin> set whitespace"
    using skip_white_props [of s b] assms(1) by (auto simp: q_def boundary_def)
  have g: "gettoken b s = (let c = at b q; (ret, eq) =
            (if c = 0 then (c, q)
             else if c \<in> {124, 40, 41, 59, 38, 60} then (c, q + 1)
             else if c = 62 then (if at b (q + 1) = 62 then (43, q + 2) else (c, q + 1))
             else (97, skip_word b q)) in (ret, (q, eq), skip_white b eq))"
    unfolding gettoken_def Let_def q_def symbol_codes by simp
  have on: "moved b s (skip_white b eq) ws" if "moved b q eq ws" for eq ws
    using moved_trans [OF moved_trans [OF q(1) that] moved_white] that by (auto simp: moved_def)
  have le: "eq \<le> skip_white b eq" if "moved b q eq ws" for eq ws
    using skip_white_props [of eq b] that by (auto simp: moved_def boundary_def)
  show thesis
  proof (cases "q < length b")
    case False
    then have "at b q = 0" by (simp add: at_def)
    then have "tok = 0" "t = skip_white b q" using assms(3) g by auto
    moreover have "moved b q q {}" using q by (auto simp: moved_def words_in_def)
    ultimately show ?thesis using eof on by simp
  next
    case True
    then have c: "at b q = b ! q" "b ! q \<noteq> 0" using nz by (simp_all add: at_def)
    show ?thesis
    proof (cases "b ! q \<in> set symbols")
      case sym: True
      define e where "e = (if b ! q = 62 \<and> at b (q + 1) = 62 then q + 2 else q + 1)"
      have "b ! i \<in> set symbols" if "q \<le> i" "i < e" for i
        using that sym True unfolding e_def by (cases "i = q") (auto simp: at_def symbol_codes less_Suc_eq split: if_splits)
      moreover have "q < e" "e \<le> length b" using True by (auto simp: e_def at_def split: if_splits)
      ultimately have "moved b q e {}" by (intro moved_symbols) auto
      moreover have "t = skip_white b e" "tok = (if b ! q = 62 \<and> at b (q + 1) = 62 then 43 else b ! q)"
        using assms(3) g c sym unfolding e_def by (auto simp: symbol_codes split: if_splits)
      moreover have "q < e" by (simp add: e_def)
      ultimately show ?thesis
        using symbol on [of e "{}"] le [of e "{}"] sq sym c unfolding q_def [symmetric] by (auto simp: symbol_codes)
    next
      case False
      then have "plain (b ! q)" using white True by (simp add: plain_def)
      note w = word_start [OF q(2) True this]
      moreover have "tok = 97" "w = (q, skip_word b q)" "t = skip_white b (skip_word b q)"
        using assms(3) g c False by (auto simp: symbol_codes)
      ultimately show ?thesis
        using word on [OF w(2)] le [OF w(2)] sq c False unfolding q_def [symmetric] by auto
    qed
  qed
qed

section \<open>The parser keeps the words and never runs out of fuel\<close>

fun words :: "cmd \<Rightarrow> word_pos set" where
  "words (EXEC argv) = set argv"
| "words (REDIR c f m d) = insert f (words c)"
| "words (PIPE l r) = words l \<union> words r"
| "words (LIST l r) = words l \<union> words r"
| "words (BACK c) = words c"

text \<open>Every list of arguments leaves room for the null pointer that ends it in the array.\<close>

fun args_fit :: "cmd \<Rightarrow> bool" where
  "args_fit (EXEC argv) = (length argv < MAXARGS)"
| "args_fit (REDIR c f m d) = args_fit c"
| "args_fit (PIPE l r) = (args_fit l \<and> args_fit r)"
| "args_fit (LIST l r) = (args_fit l \<and> args_fit r)"
| "args_fit (BACK c) = args_fit c"

fun open_exec :: "cmd \<Rightarrow> bool" where
  "open_exec (EXEC argv) = (argv = [])"
| "open_exec (REDIR c f m d) = open_exec c"
| "open_exec c = False"

lemma complete_words: "open_exec c \<Longrightarrow> words (complete argv c) = set argv \<union> words c"
  by (induction argv c rule: complete.induct) auto

lemma complete_fit: "open_exec c \<Longrightarrow> length argv < MAXARGS \<Longrightarrow> args_fit (complete argv c)"
  by (induction argv c rule: complete.induct) auto

fun holds :: "('a \<Rightarrow> bool) \<Rightarrow> 'a outcome \<Rightarrow> bool" where
  "holds Q (Ok x) = Q x"
| "holds Q (Panic m) = True"
| "holds Q (Fault m) = False"

lemma holds_andThen: "holds Q m \<Longrightarrow> (\<And>x. Q x \<Longrightarrow> holds R (f x)) \<Longrightarrow> holds R (andThen m f)"
  by (cases m) auto

lemma holds_mono: "holds Q m \<Longrightarrow> (\<And>x. Q x \<Longrightarrow> R x) \<Longrightarrow> holds R m"
  by (cases m) auto

text \<open>A function that parses from \<open>s\<close> on adds to the words it was given exactly those of the part that it has read.\<close>

definition parsed :: "byte list \<Rightarrow> pos \<Rightarrow> word_pos set \<Rightarrow> cmd \<times> pos \<Rightarrow> bool" where
  "parsed b s ws r \<longleftrightarrow> (case r of (c, t) \<Rightarrow> args_fit c \<and> (\<exists>vs. moved b s t vs \<and> words c = ws \<union> vs))"

lemma parsed_step: "moved b s t vs \<Longrightarrow> parsed b t us r \<Longrightarrow> us = ws \<union> vs \<Longrightarrow> parsed b s ws r"
  unfolding parsed_def by (cases r) (auto dest: moved_trans)

lemma peek_cases:
  assumes "boundary b s" "peek b s toks = (more, t)"
  shows "moved b s t {}" "s \<le> t" "boundary b t" "skip_white b t = t" "more \<longleftrightarrow> at b t \<noteq> 0 \<and> at b t \<in> set toks"
  using assms moved_white [OF assms(1)] skip_white_again [of s b] by (auto simp: peek_def Let_def moved_def boundary_def)

text \<open>A symbol that \<^verbatim>\<open>peek\<close> has seen is what \<^verbatim>\<open>gettoken\<close> returns.\<close>

lemma gettoken_symbol:
  assumes "boundary b s" "0 \<notin> set b" "skip_white b s = s" "at b s \<noteq> 0" "at b s \<in> set symbols" "gettoken b s = (tok, w, t)"
  shows "moved b s t {}" "s < t" "boundary b t" "t \<le> length b"
    "at b s = 60 \<and> tok = 60 \<or> at b s = 62 \<and> (tok = 62 \<or> tok = 43) \<or> at b s \<noteq> 60 \<and> at b s \<noteq> 62"
proof -
  have ne: "\<not> tok = 0" using assms(3-6) unfolding gettoken_def Let_def symbol_codes by (auto split: if_splits)
  from assms(1,2,6) have "moved b s t {} \<and> s < t \<and>
    (at b s = 60 \<and> tok = 60 \<or> at b s = 62 \<and> (tok = 62 \<or> tok = 43) \<or> at b s \<noteq> 60 \<and> at b s \<noteq> 62)"
    by (cases rule: gettoken_cases) (use ne assms(3,5) in auto)
  then show "moved b s t {}" "s < t" "boundary b t" "t \<le> length b"
    "at b s = 60 \<and> tok = 60 \<or> at b s = 62 \<and> (tok = 62 \<or> tok = 43) \<or> at b s \<noteq> 60 \<and> at b s \<noteq> 62"
    by (auto simp: moved_def boundary_def)
qed

lemma parseredirs_ok:
  assumes "boundary b s" "0 \<notin> set b" "length b - s < n" "args_fit c"
  shows "holds (\<lambda>r. parsed b s (words c) r \<and> (open_exec c \<longrightarrow> open_exec (fst r))) (parseredirs n b c s)"
  using assms
proof (induction n arbitrary: c s)
  case (Suc n)
  obtain more t where p: "peek b s (str ''<>'') = (more, t)" by fastforce
  note t = peek_cases [OF Suc.prems(1) p]
  show ?case
  proof (cases more)
    case False
    then show ?thesis using p t Suc.prems by (auto simp: parsed_def)
  next
    case True
    then have sym: "at b t \<noteq> 0" "at b t = 60 \<or> at b t = 62" "at b t \<in> set symbols" using t(5) by (auto simp: symbol_codes)
    obtain tok w u where g: "gettoken b t = (tok, w, u)" using prod_cases3 by blast
    note u = gettoken_symbol [OF t(3) Suc.prems(2) t(4) sym(1,3) g]
    obtain tok2 f v where g2: "gettoken b u = (tok2, f, v)" using prod_cases3 by blast
    show ?thesis
    proof (cases "tok2 = 97")
      case False
      then show ?thesis using p True g g2 by (simp add: symbol_codes)
    next
      case word: True
      from u(3) Suc.prems(2) g2 have v: "u < v" "moved b u v {f}"
        by (cases rule: gettoken_cases; use word in auto)+
      let ?c = "REDIR c f (if tok = 60 then 0x000 else 0x201) (if tok = 60 then 0 else 1)"
      have m: "moved b s v {f}" using moved_trans [OF moved_trans [OF t(1) u(1)] v(2)] by simp
      have "parseredirs (Suc n) b c s = parseredirs n b ?c v"
        using p True g g2 word u(5) sym by (auto simp: symbol_codes)
      moreover have "holds (\<lambda>r. parsed b v (words ?c) r \<and> (open_exec ?c \<longrightarrow> open_exec (fst r))) (parseredirs n b ?c v)"
        using Suc.prems m t(2) u(2,4) v by (intro Suc.IH) (auto simp: moved_def)
      ultimately show ?thesis by (simp only:) (auto elim!: holds_mono intro: parsed_step [OF m])
    qed
  qed
qed simp

lemma parseargs_ok:
  assumes "boundary b s" "0 \<notin> set b" "length b - s + 1 < n" "open_exec c" "args_fit c" "length argv < MAXARGS"
  shows "holds (parsed b s (set argv \<union> words c)) (parseargs n b argv c s)"
  using assms
proof (induction n arbitrary: argv c s)
  case (Suc n)
  obtain stop t where p: "peek b s (str ''|)&;'') = (stop, t)" by fastforce
  note t = peek_cases [OF Suc.prems(1) p]
  have fin: "parsed b s (set argv \<union> words c) (complete argv c, u)" if "moved b s u {}" for u
    using that Suc.prems by (auto simp: parsed_def complete_words complete_fit)
  obtain tok w u where g: "gettoken b t = (tok, w, u)" using prod_cases3 by blast
  show ?case
  proof (cases "stop \<or> tok = 0")
    case True
    from t(3) Suc.prems(2) g have "tok = 0 \<Longrightarrow> moved b t u {}" by (cases rule: gettoken_cases) auto
    then show ?thesis using True fin [of t] fin [of u] t(1) moved_trans [OF t(1), of u "{}"] p g by auto
  next
    case go: False
    show ?thesis
    proof (cases "tok \<noteq> 97 \<or> length argv + 1 \<ge> MAXARGS")
      case True
      then show ?thesis using go p g by (auto simp: symbol_codes)
    next
      case False
      from t(3) Suc.prems(2) g have u: "t < u" "moved b t u {w}"
        by (cases rule: gettoken_cases; use False in auto)+
      have m: "moved b s u {w}" using moved_trans [OF t(1) u(2)] by simp
      then have ub: "boundary b u" "u \<le> length b" by (auto simp: moved_def boundary_def)
      have "parseargs (Suc n) b argv c s = andThen (parseredirs n b c u) (\<lambda>(c, s). parseargs n b (argv @ [w]) c s)"
        using p g go False by (simp add: symbol_codes)
      moreover have "holds (parsed b s (set argv \<union> words c)) \<dots>"
      proof (rule holds_andThen)
        show "holds (\<lambda>r. parsed b u (words c) r \<and> (open_exec c \<longrightarrow> open_exec (fst r))) (parseredirs n b c u)"
          using Suc.prems ub t(2) u(1) by (intro parseredirs_ok) auto
        fix r
        assume r: "parsed b u (words c) r \<and> (open_exec c \<longrightarrow> open_exec (fst r))"
        obtain c' v where [simp]: "r = (c', v)" by fastforce
        from r obtain vs where v: "moved b u v vs" "words c' = words c \<union> vs" "args_fit c'" "open_exec c'"
          using Suc.prems by (auto simp: parsed_def)
        have "holds (parsed b v (set (argv @ [w]) \<union> words c')) (parseargs n b (argv @ [w]) c' v)"
          using Suc.prems v t(2) u(1) ub False by (intro Suc.IH) (auto simp: moved_def)
        moreover have "set (argv @ [w]) \<union> words c' = set argv \<union> words c \<union> ({w} \<union> vs)" using v(2) by auto
        ultimately show "holds (parsed b s (set argv \<union> words c)) (case r of (c, s) \<Rightarrow> parseargs n b (argv @ [w]) c s)"
          by (auto elim!: holds_mono intro: parsed_step [OF moved_trans [OF m v(1)]])
      qed
      ultimately show ?thesis by simp
    qed
  qed
qed simp

lemma parseback_ok:
  assumes "boundary b s" "0 \<notin> set b" "length b - s < n" "args_fit c"
  shows "holds (parsed b s (words c)) (parseback n b c s)"
  using assms
proof (induction n arbitrary: c s)
  case (Suc n)
  obtain more t where p: "peek b s (str ''&'') = (more, t)" by fastforce
  note t = peek_cases [OF Suc.prems(1) p]
  show ?case
  proof (cases more)
    case False
    then show ?thesis using p t Suc.prems by (auto simp: parsed_def)
  next
    case True
    then have sym: "at b t \<noteq> 0" "at b t \<in> set symbols" using t(5) by (auto simp: symbol_codes)
    obtain tok w u where g: "gettoken b t = (tok, w, u)" using prod_cases3 by blast
    note u = gettoken_symbol [OF t(3) Suc.prems(2) t(4) sym g]
    have "holds (parsed b u (words (BACK c))) (parseback n b (BACK c) u)"
      using Suc.prems t(2) u by (intro Suc.IH) auto
    then show ?thesis
      using p True g by (auto elim!: holds_mono intro: parsed_step [OF moved_trans [OF t(1) u(1)]])
  qed
qed simp

text \<open>The fuel that each function needs for the part of the line that is left.\<close>

definition parses :: "byte list \<Rightarrow> nat \<Rightarrow> nat \<Rightarrow> (nat \<Rightarrow> byte list \<Rightarrow> pos \<Rightarrow> (cmd \<times> pos) outcome) \<Rightarrow> bool" where
  "parses b n k f \<longleftrightarrow> (\<forall>s. boundary b s \<longrightarrow> 4 * (length b - s) + k \<le> n \<longrightarrow> holds (parsed b s {}) (f n b s))"

lemma parsed_boundary: "parsed b s ws (c, t) \<Longrightarrow> s \<le> t \<and> boundary b t \<and> args_fit c"
  by (auto simp: parsed_def moved_def)

lemma parsed_after: "parsed b s ws (c, t) \<Longrightarrow> parsed b t (words c) r \<Longrightarrow> parsed b s ws r"
  unfolding parsed_def by (cases r) (auto dest: moved_trans)

text \<open>A binary operator: the left command, the symbol, the right command.\<close>

lemma operator_ok:
  assumes left: "parsed b s {} (c, t)" and b: "0 \<notin> set b" and sym: "set toks \<subseteq> set symbols"
    and right: "\<And>u. boundary b u \<Longrightarrow> t < u \<Longrightarrow> u \<le> length b \<Longrightarrow> holds (parsed b u {}) (f u)"
    and op: "\<And>r. words (oper c r) = words c \<union> words r" "\<And>r. args_fit (oper c r) \<longleftrightarrow> args_fit c \<and> args_fit r"
  shows "holds (parsed b s {}) (case peek b t toks of (more, ps) \<Rightarrow>
     if more then (case gettoken b ps of (_, _, ps) \<Rightarrow> andThen (f ps) (\<lambda>(right, ps). Ok (oper c right, ps))) else Ok (c, ps))"
proof -
  obtain more u where p: "peek b t toks = (more, u)" by fastforce
  obtain tok w v where g: "gettoken b u = (tok, w, v)" using prod_cases3 by blast
  note u = peek_cases [OF _ p]
  have t: "boundary b t" "args_fit c" using parsed_boundary [OF left] by auto
  show ?thesis
  proof (cases more)
    case False
    have "parsed b t (words c) (c, u)" using u(1) t by (auto simp: parsed_def)
    then show ?thesis using p False parsed_after [OF left] by simp
  next
    case True
    then have "at b u \<noteq> 0" "at b u \<in> set symbols" using u(5) t sym by auto
    note v = gettoken_symbol [OF u(3) [OF t(1)] b u(4) [OF t(1)] this g]
    have "holds (parsed b s {}) (andThen (f v) (\<lambda>(right, ps). Ok (oper c right, ps)))"
    proof (rule holds_andThen)
      show "holds (parsed b v {}) (f v)" using v u(2) t by (intro right) auto
      fix r
      assume r: "parsed b v {} r"
      obtain d x where [simp]: "r = (d, x)" by fastforce
      from r obtain vs where "moved b v x vs" "words d = vs" "args_fit d" by (auto simp: parsed_def)
      then have "parsed b v (words c) (oper c d, x)" using op t by (auto simp: parsed_def)
      then have "parsed b t (words c) (oper c d, x)"
        by (rule parsed_step [OF moved_trans [OF u(1) [OF t(1)] v(1)]]) simp
      then show "holds (parsed b s {}) (case r of (right, ps) \<Rightarrow> Ok (oper c right, ps))"
        using parsed_after [OF left] by simp
    qed
    then show ?thesis using p g True by simp
  qed
qed

lemma parseline_step:
  assumes b: "0 \<notin> set b" and ih: "parses b n 5 parsepipe" "parses b n 6 parseline"
  shows "parses b (Suc n) 6 parseline"
  unfolding parses_def
proof (intro allI impI)
  fix s
  assume s: "boundary b s" "4 * (length b - s) + 6 \<le> Suc n"
  show "holds (parsed b s {}) (parseline (Suc n) b s)"
    unfolding parseline.simps
  proof (rule holds_andThen)
    show "holds (parsed b s {}) (parsepipe n b s)" using ih(1) s by (simp add: parses_def)
    fix r
    assume "parsed b s {} r"
    then obtain c t where [simp]: "r = (c, t)" and r: "parsed b s {} (c, t)" by (cases r) auto
    note t = parsed_boundary [OF r]
    show "holds (parsed b s {}) (case r of (cmd, ps) \<Rightarrow> andThen (parseback n b cmd ps)
          (\<lambda>(cmd, ps). case peek b ps (str '';'') of (more, ps) \<Rightarrow>
             if more then (case gettoken b ps of (_, _, ps) \<Rightarrow>
                andThen (parseline n b ps) (\<lambda>(right, ps). Ok (LIST cmd right, ps)))
             else Ok (cmd, ps)))"
      unfolding \<open>r = (c, t)\<close> prod.case
    proof (rule holds_andThen)
      show "holds (parsed b t (words c)) (parseback n b c t)" using t s b by (intro parseback_ok) auto
      fix r'
      assume "parsed b t (words c) r'"
      then obtain d u where [simp]: "r' = (d, u)" and d: "parsed b s {} (d, u)"
        using parsed_after [OF r] by (cases r') auto
      note u = parsed_boundary [OF d]
      show "holds (parsed b s {}) (case r' of (cmd, ps) \<Rightarrow> case peek b ps (str '';'') of (more, ps) \<Rightarrow>
             if more then (case gettoken b ps of (_, _, ps) \<Rightarrow>
                andThen (parseline n b ps) (\<lambda>(right, ps). Ok (LIST cmd right, ps)))
             else Ok (cmd, ps))"
        unfolding \<open>r' = (d, u)\<close> prod.case
        by (rule operator_ok [OF d b]) (use ih(2) s u in \<open>auto simp: symbol_codes parses_def\<close>)
    qed
  qed
qed

lemma parsepipe_step:
  assumes b: "0 \<notin> set b" and ih: "parses b n 4 parseexec" "parses b n 5 parsepipe"
  shows "parses b (Suc n) 5 parsepipe"
  unfolding parses_def
proof (intro allI impI)
  fix s
  assume s: "boundary b s" "4 * (length b - s) + 5 \<le> Suc n"
  show "holds (parsed b s {}) (parsepipe (Suc n) b s)"
    unfolding parsepipe.simps
  proof (rule holds_andThen)
    show "holds (parsed b s {}) (parseexec n b s)" using ih(1) s by (simp add: parses_def)
    fix r
    assume "parsed b s {} r"
    then obtain c t where [simp]: "r = (c, t)" and r: "parsed b s {} (c, t)" by (cases r) auto
    note t = parsed_boundary [OF r]
    show "holds (parsed b s {}) (case r of (cmd, ps) \<Rightarrow> case peek b ps (str ''|'') of (more, ps) \<Rightarrow>
          if more then (case gettoken b ps of (_, _, ps) \<Rightarrow>
             andThen (parsepipe n b ps) (\<lambda>(right, ps). Ok (PIPE cmd right, ps)))
          else Ok (cmd, ps))"
      unfolding \<open>r = (c, t)\<close> prod.case
      by (rule operator_ok [OF r b]) (use ih(2) s t in \<open>auto simp: symbol_codes parses_def\<close>)
  qed
qed

lemma parseblock_step:
  assumes b: "0 \<notin> set b" and ih: "parses b n 6 parseline"
  shows "parses b (Suc n) 3 parseblock"
  unfolding parses_def
proof (intro allI impI)
  fix s
  assume s: "boundary b s" "4 * (length b - s) + 3 \<le> Suc n"
  obtain opens t where p: "peek b s (str ''('') = (opens, t)" by fastforce
  note t = peek_cases [OF s(1) p]
  obtain tok w u where g: "gettoken b t = (tok, w, u)" using prod_cases3 by blast
  show "holds (parsed b s {}) (parseblock (Suc n) b s)"
  proof (cases opens)
    case False
    then show ?thesis using p by simp
  next
    case True
    then have "at b t \<noteq> 0" "at b t \<in> set symbols" using t(5) by (auto simp: symbol_codes)
    note u = gettoken_symbol [OF t(3) b t(4) this g]
    have su: "moved b s u {}" using moved_trans [OF t(1) u(1)] by simp
    let ?f = "\<lambda>(cmd, ps). case peek b ps (str '')'') of (closes, ps) \<Rightarrow>
               if \<not> closes then Panic ''syntax - missing )''
               else case gettoken b ps of (_, _, ps) \<Rightarrow> parseredirs n b cmd ps"
    have "holds (parsed b u {}) (andThen (parseline n b u) ?f)"
    proof (rule holds_andThen)
      show "holds (parsed b u {}) (parseline n b u)" using ih s u t(2) by (auto simp: parses_def)
      fix r
      assume "parsed b u {} r"
      then obtain c v where [simp]: "r = (c, v)" and r: "parsed b u {} (c, v)" by (cases r) auto
      note v = parsed_boundary [OF r]
      obtain closes x where p2: "peek b v (str '')'') = (closes, x)" by fastforce
      note x = peek_cases [OF _ p2]
      obtain tok2 w2 y where g2: "gettoken b x = (tok2, w2, y)" using prod_cases3 by blast
      show "holds (parsed b u {}) (?f r)"
      proof (cases closes)
        case closed: True
        then have "at b x \<noteq> 0" "at b x \<in> set symbols" using x(5) v by (auto simp: symbol_codes)
        note y = gettoken_symbol [OF x(3) b x(4) this g2]
        have "holds (\<lambda>r. parsed b y (words c) r \<and> (open_exec c \<longrightarrow> open_exec (fst r))) (parseredirs n b c y)"
          using y x(2) v b s u t(2) by (intro parseredirs_ok) auto
        moreover have "parsed b u {} r" if "parsed b y (words c) r" for r
          using parsed_after [OF r] parsed_step [OF moved_trans [OF x(1) y(1)] that] v by auto
        ultimately show ?thesis using p2 g2 closed by (auto elim!: holds_mono)
      qed (simp add: p2)
    qed
    then show ?thesis using p g True by (auto elim!: holds_mono intro: parsed_step [OF su])
  qed
qed

lemma parseexec_step:
  assumes b: "0 \<notin> set b" and ih: "parses b n 3 parseblock"
  shows "parses b (Suc n) 4 parseexec"
  unfolding parses_def
proof (intro allI impI)
  fix s
  assume s: "boundary b s" "4 * (length b - s) + 4 \<le> Suc n"
  obtain opens t where p: "peek b s (str ''('') = (opens, t)" by fastforce
  note t = peek_cases [OF s(1) p]
  have "holds (parsed b t {}) (if opens then parseblock n b t
      else andThen (parseredirs n b (EXEC []) t) (\<lambda>(ret, ps). parseargs n b [] ret ps))"
  proof (cases opens)
    case True
    then show ?thesis using ih t(2,3) s by (auto simp: parses_def)
  next
    case False
    have "holds (parsed b t {}) (andThen (parseredirs n b (EXEC []) t) (\<lambda>(ret, ps). parseargs n b [] ret ps))"
    proof (rule holds_andThen)
      show "holds (\<lambda>r. parsed b t (words (EXEC [])) r \<and> (open_exec (EXEC []) \<longrightarrow> open_exec (fst r))) (parseredirs n b (EXEC []) t)"
        using t s b by (intro parseredirs_ok) (auto simp: MAXARGS_def)
      fix r
      assume r: "parsed b t (words (EXEC [])) r \<and> (open_exec (EXEC []) \<longrightarrow> open_exec (fst r))"
      obtain c u where [simp]: "r = (c, u)" by fastforce
      have c: "parsed b t {} (c, u)" "open_exec c" using r by auto
      note u = parsed_boundary [OF c(1)]
      have "holds (parsed b u (set [] \<union> words c)) (parseargs n b [] c u)"
        using u c(2) t(2) s b by (intro parseargs_ok) (auto simp: MAXARGS_def)
      then show "holds (parsed b t {}) (case r of (ret, ps) \<Rightarrow> parseargs n b [] ret ps)"
        by (auto elim!: holds_mono intro: parsed_after [OF c(1)])
    qed
    then show ?thesis using False by simp
  qed
  then show "holds (parsed b s {}) (parseexec (Suc n) b s)"
    using p by (auto elim!: holds_mono intro: parsed_step [OF t(1)] split: if_splits)
qed

lemma parser_ok:
  assumes "0 \<notin> set b"
  shows "parses b n 6 parseline \<and> parses b n 5 parsepipe \<and> parses b n 3 parseblock \<and> parses b n 4 parseexec"
proof (induction n)
  case (Suc n)
  then show ?case
    using parseline_step [OF assms] parsepipe_step [OF assms] parseblock_step [OF assms] parseexec_step [OF assms] by blast
qed (simp add: parses_def)

section \<open>The strings of a parsed command\<close>

lemma fold_zeros:
  "length (fold (\<lambda>(q, eq) b. b[eq := 0]) ws b) = length b"
  "i < length b \<Longrightarrow> fold (\<lambda>(q, eq) b. b[eq := 0]) ws b ! i = (if i \<in> snd ` set ws then 0 else b ! i)"
proof (induction ws arbitrary: b)
  case (Cons w ws)
  {
    case 1
    then show ?case using Cons.IH by (cases w) simp
  next
    case 2
    then show ?case using Cons.IH by (cases w; cases "i \<in> snd ` set ws") (auto simp: nth_list_update)
  }
qed simp_all

lemma nulterminate_length [simp]: "length (nulterminate c b) = length b"
  by (induction c b rule: nulterminate.induct) (simp_all add: fold_zeros)

lemma nulterminate_nth:
  "i < length b \<Longrightarrow> nulterminate c b ! i = (if i \<in> snd ` words c then 0 else b ! i)"
proof (induction c b rule: nulterminate.induct)
  case (2 c q eq m d b)
  then show ?case by (cases "i = eq") (auto simp: nth_list_update)
qed (auto simp: fold_zeros image_Un split: if_splits)

definition slice :: "byte list \<Rightarrow> word_pos \<Rightarrow> byte list" where
  "slice b w = take (snd w - fst w) (drop (fst w) b)"

text \<open>No zero is written inside a word, and one is written at its end.\<close>

lemma word_string:
  assumes ws: "\<And>w. w \<in> words c \<Longrightarrow> word_at b w" and w: "w \<in> words c" and b: "0 \<notin> set b"
  shows "cstr (drop (fst w) (nulterminate c (b @ [0]))) = slice b w"
proof -
  obtain q e where [simp]: "w = (q, e)" by fastforce
  let ?n = "nulterminate c (b @ [0])"
  have qe: "q < e" "e \<le> length b" "\<And>i. q \<le> i \<Longrightarrow> i < e \<Longrightarrow> plain (b ! i)" using ws [OF w] by (auto simp: word_at_def)
  have inside: "?n ! i = b ! i" if "q \<le> i" "i < e" for i
  proof -
    have "i \<notin> snd ` words c" using ws qe that by (fastforce simp: word_at_def)
    then show ?thesis using that qe by (simp add: nulterminate_nth nth_append)
  qed
  have e: "?n ! e = 0" using w qe by (force simp: nulterminate_nth)
  have "take (e - q) (drop q ?n) = take (e - q) (drop q b)"
    using qe inside by (intro nth_equalityI) auto
  then have split: "drop q ?n = slice b w @ 0 # drop (Suc e) ?n"
    using qe e by (simp add: slice_def) (metis Cons_nth_drop_Suc append_take_drop_id drop_drop length_append_singleton
        le_add_diff_inverse2 le_imp_less_Suc less_imp_le nulterminate_length)
  moreover have "0 \<notin> set (slice b w)" using b by (auto simp: slice_def dest: in_set_takeD in_set_dropD)
  ultimately show ?thesis by (auto simp: cstr_def takeWhile_append)
qed

lemma cstr_no_zero: "0 \<notin> set (cstr s)"
  by (auto simp: cstr_def dest: set_takeWhileD)

lemma parseline_whole:
  "holds (parsed (cstr s) 0 {}) (parseline (enough (cstr s)) (cstr s) 0)"
  using parser_ok [OF cstr_no_zero, of s "enough (cstr s)"] by (auto simp: parses_def enough_def boundary_def)

lemma words_in_whole: "words_in b 0 (length b) = {w. word_at b w}"
proof -
  have "fst w < length b" if "word_at b w" for w using that by (cases w) (auto simp: word_at_def)
  then show ?thesis by (auto simp: words_in_def)
qed

lemma parsecmd_holds:
  "holds (\<lambda>(c, n). args_fit c \<and> words c = {w. word_at (cstr s) w} \<and> n = nulterminate c (cstr s @ [0])) (parsecmd s)"
proof -
  let ?b = "cstr s"
  have "holds (\<lambda>(c, n). args_fit c \<and> words c = {w. word_at ?b w} \<and> n = nulterminate c (?b @ [0]))
      (case peek ?b t [] of (_, ps) \<Rightarrow> if ps \<noteq> length ?b then Panic ''syntax'' else Ok (c, nulterminate c (?b @ [0])))"
    if r: "parsed ?b 0 {} (c, t)" for c t
  proof -
    obtain more u where p: "peek ?b t [] = (more, u)" by fastforce
    note u = peek_cases [OF _ p]
    have t: "boundary ?b t" "args_fit c" using parsed_boundary [OF r] by auto
    have m: "moved ?b 0 u (words c)" using r moved_trans [OF _ u(1) [OF t(1)]] by (auto simp: parsed_def)
    have "words c = {w. word_at ?b w}" if "u = length ?b"
      using m that by (simp add: moved_def words_in_whole)
    then show ?thesis using p t by simp
  qed
  then show ?thesis unfolding parsecmd_def Let_def by (intro holds_andThen [OF parseline_whole]) auto
qed

text \<open>C26: the parser of the shell always returns: for every command line it gives a command or stops with one of its
  error messages, and the fuel of the model is never used up.\<close>

theorem parsecmd_returns:
  "(\<exists>c n. parsecmd s = Ok (c, n)) \<or> (\<exists>m. parsecmd s = Panic m)"
  using parsecmd_holds [of s] by (cases "parsecmd s") auto

text \<open>C25: a command that the parser returns has exactly the words of the line, the maximal runs of characters that are neither
  white space nor symbols, as arguments and file names: none is lost, none is made up, and no command has more arguments
  than its array holds. After \<^verbatim>\<open>nulterminate\<close> the string at the start of each word is that word, although all of them
  lie in one buffer.\<close>

theorem parsecmd_words_exact:
  assumes "parsecmd s = Ok (c, n)"
  shows "words c = {w. word_at (cstr s) w} \<and> args_fit c \<and>
    (\<lambda>w. (w, cstr (drop (fst w) n))) ` words c = (\<lambda>w. (w, slice (cstr s) w)) ` {w. word_at (cstr s) w}"
proof -
  have c: "args_fit c" "words c = {w. word_at (cstr s) w}" "n = nulterminate c (cstr s @ [0])"
    using parsecmd_holds [of s] assms by auto
  then have "cstr (drop (fst w) n) = slice (cstr s) w" if "w \<in> words c" for w
    using word_string [of c "cstr s" w] that cstr_no_zero by auto
  then show ?thesis using c by (auto simp: image_def)
qed

text \<open>The line \<^verbatim>\<open>a b>c\<close>.\<close>

lemmas parse_numeral =
  parseredirs.simps(2) [where n = "pred_numeral k" for k, folded numeral_eq_Suc]
  parseargs.simps(2) [where n = "pred_numeral k" for k, folded numeral_eq_Suc]
  parseback.simps(2) [where n = "pred_numeral k" for k, folded numeral_eq_Suc]
  parseline.simps(2) [where n = "pred_numeral k" for k, folded numeral_eq_Suc]
  parsepipe.simps(2) [where n = "pred_numeral k" for k, folded numeral_eq_Suc]
  parseexec.simps(2) [where n = "pred_numeral k" for k, folded numeral_eq_Suc]

lemma example_line:
  "parsecmd [97, 32, 98, 62, 99] = Ok (REDIR (EXEC [(0, 1), (2, 3)]) (4, 5) 0x201 1, [97, 0, 98, 0, 99, 0])"
proof -
  let ?b = "[97, 32, 98, 62, 99] :: byte list"
  have w: "skip_white ?b 0 = 0" "skip_white ?b (Suc 0) = 2" "skip_white ?b 2 = 2" "skip_white ?b 3 = 3" "skip_white ?b 4 = 4" "skip_white ?b 5 = 5"
    "skip_word ?b 0 = Suc 0" "skip_word ?b 2 = 3" "skip_word ?b 4 = 5"
    by (simp_all add: skip_white.simps skip_word.simps symbol_codes)
  have g: "gettoken ?b 0 = (97, (0, 1), 2)" "gettoken ?b 2 = (97, (2, 3), 3)" "gettoken ?b 3 = (62, (3, 4), 4)"
    "gettoken ?b 4 = (97, (4, 5), 5)" "gettoken ?b 5 = (0, (5, 5), 5)"
    by (simp_all add: gettoken_def Let_def at_def symbol_codes w)
  have p: "peek ?b 0 toks = (97 \<in> set toks, 0)" "peek ?b 2 toks = (98 \<in> set toks, 2)" "peek ?b 3 toks = (62 \<in> set toks, 3)"
    "peek ?b 5 toks = (False, 5)" for toks
    by (simp_all add: peek_def Let_def at_def w)
  have "parseline 28 ?b 0 = Ok (REDIR (EXEC [(0, 1), (2, 3)]) (4, 5) 0x201 1, 5)"
    by (simp add: parse_numeral g p symbol_codes MAXARGS_def)
  then show ?thesis by (simp add: parsecmd_def cstr_def enough_def p)
qed

theorem parsecmd_words_exact_witness:
  "parsecmd [97, 32, 98, 62, 99] = Ok (REDIR (EXEC [(0, 1), (2, 3)]) (4, 5) 0x201 1, [97, 0, 98, 0, 99, 0]) \<and>
   {w. word_at (cstr [97, 32, 98, 62, 99]) w} = {(0, 1), (2, 3), (4, 5)}"
proof -
  have "words (REDIR (EXEC [(0, 1), (2, 3)]) (4, 5) 0x201 1) = {w. word_at (cstr [97, 32, 98, 62, 99]) w}"
    by (rule parsecmd_words_exact [OF example_line, THEN conjunct1])
  moreover have "words (REDIR (EXEC [(0, 1), (2, 3)]) (4, 5) 0x201 1) = {(0, 1), (2, 3), (4, 5)}" by (simp add: insert_commute)
  ultimately show ?thesis using example_line by (simp only: simp_thms)
qed

end
