(* ===== verification/Spec2Isabelle.thy ===== *)
theory Spec2Isabelle
  imports PageFault LockInv Grep Shell
begin

text \<open>
  Verification of xv6 with swapping of user pages: the kernel of the repository, from the block operations of string.c up to
  the trap handler of trap.c, and two of its user programs. The kernel is a small Unix for x86. The addition to it is a pager in
  vm.c: a user process may have 16 of at most 32 pages in memory, and the others lie in a swap file of its own, chosen by one
  of four replacement policies (NFUA, LAPA, SCFIFO, AQ).

  \<^bold>\<open>Conventions.\<close> A C function is a function on the part of the state that it uses. The theory \<^verbatim>\<open>Prelude\<close> has the
  result type: \<open>Ok\<close> a value, \<open>Panic\<close> the message of a call of \<^verbatim>\<open>panic\<close>, \<open>Fault\<close> where the code runs into
  undefined behaviour (a null pointer, an index out of range) or would have to wait for another process inside an atomic
  call. Machine integers are words of their width, so that sums wrap around as in C; counters that the code keeps in range
  are \<^verbatim>\<open>int\<close> or \<^verbatim>\<open>nat\<close>. A pointer into a table is the index of the entry. The state grows by record extension: the
  buffer cache \<open>bio\<close>, the log \<open>logst\<close>, the file system \<open>fsst\<close>, the \<open>kernel\<close> with memory, open files, pipes and
  processes. A call in which a process gives up the processor returns \<open>Sleep\<close> and is continued by its next call. One
  processor runs at a time except in \<^verbatim>\<open>Spinlock\<close> and \<^verbatim>\<open>LockInv\<close>, where processors interleave. The policy, fixed by the
  macro \<^verbatim>\<open>SELECTION\<close> when the kernel is compiled, is the field \<open>SELECTION\<close>.

  \<^bold>\<open>Memory.\<close> \<^verbatim>\<open>Memory\<close>: memset, memmove, memcmp (string.c) with stosb and stosl (x86.h); memmove copies for any
  overlap, the word path of memset is the byte path. \<^verbatim>\<open>Mmu\<close>: the address arithmetic of mmu.h and memlayout.h.
  \<^verbatim>\<open>Kalloc\<close>: kalloc.c, whose free list lies in the free pages. Its contract is the locale \<open>page_allocator\<close>: no page is
  given out twice and held and free pages are a partition. A double kfree makes the list a cycle. \<^verbatim>\<open>PageTable\<close>:
  walkpgdir, mappages, the flag operations, uva2ka and copyout of vm.c; mappages maps exactly its range and copyout writes
  exactly its block. \<^verbatim>\<open>Uvm\<close>: setupkvm, inituvm, loaduvm, allocuvm, deallocuvm, freevm, copyuvm; deallocuvm frees
  exactly the present pages of its range.

  \<^bold>\<open>The pager.\<close> \<^verbatim>\<open>PageMeta\<close>: \<^verbatim>\<open>struct p_meta\<close> of proc.h and the functions of vm.c on it; the array of the
  queue is a bounded FIFO list (locale \<open>bounded_fifo\<close>), free slots are found inside the file, NFUA takes a page of least
  age, and LAPA does not count bits. \<^verbatim>\<open>Swap\<close>: age_process_pages, select_page_to_back, pageOut, pageIn, safe_page_in,
  copy_parent_swapfile. \<^verbatim>\<open>Replace\<close>: SCFIFO is second chance and returns; ageing never reorders the queue of AQ.
  \<^verbatim>\<open>Paging\<close>: \<open>paged\<close> is the invariant that ties page table, metadata and swap file together, \<open>vbyte\<close> the byte of the
  process at an address wherever it lies; pageOut and pageIn keep the first and do not change the second. \<^verbatim>\<open>PageFault\<close>:
  the same for the whole fault handler, eviction included, under SCFIFO and AQ, whose queue lists the resident pages; NFUA and
  LAPA break that agreement. \<^verbatim>\<open>SwapFile\<close>: createSwapFile, removeSwapFile, writeToSwapFile, readFromSwapFile (fs.c), with
  the creation of files from sysfile.c that they use; the locale \<open>slot_store\<close> says that slots are independent.

  \<^bold>\<open>Disk and files.\<close> \<^verbatim>\<open>Bytes\<close>: fields of disk blocks. \<^verbatim>\<open>Bio\<close>: iderw (ide.c) and bio.c; the cache is transparent
  (locale \<open>block_cache\<close>). \<^verbatim>\<open>Log\<close>, \<^verbatim>\<open>Txn\<close>: log.c; the disk is kept as the sequence of its writes, and recovery after
  a crash at any write of a commit gives the disk before or after the transaction. \<^verbatim>\<open>Fs\<close>: fs.c from blocks to path
  names. \<^verbatim>\<open>FsAlloc\<close>: balloc and bfree on the bitmap. \<^verbatim>\<open>FsFile\<close>: readi and writei against the contents of a file.
  \<^verbatim>\<open>File\<close>, \<^verbatim>\<open>FileData\<close>: file.c, and its reads and writes against the contents of the inode. \<^verbatim>\<open>Ring\<close>,
  \<^verbatim>\<open>Pipe\<close>, \<^verbatim>\<open>Console\<close>: ring buffers with counters that wrap around (locale \<open>ring_size\<close>), pipe.c with any
  number of writers and readers that interleave, console.c and uart.c with the line editor and printint.
  \<^verbatim>\<open>Numerals\<close>, \<^verbatim>\<open>Strings\<close>: itoa, atoi and the string functions.

  \<^bold>\<open>Processes.\<close> \<^verbatim>\<open>Kernel\<close>: the records of proc.h, file.h and x86.h. \<^verbatim>\<open>Proc\<close>: proc.c. \<^verbatim>\<open>ProcInv\<close>: the process
  table as a transition relation with one step per operation, and its invariant. \<^verbatim>\<open>Sched\<close>: no starvation, what exit and
  wait do to the table, kill of id 0. \<^verbatim>\<open>Spinlock\<close>: spinlock.c and sleeplock.c, acquire and release cut where other
  processors can come in. \<^verbatim>\<open>LockInv\<close>: mutual exclusion and interrupt nesting in every interleaving.

  \<^bold>\<open>System calls.\<close> \<^verbatim>\<open>UserMem\<close>: accesses of the kernel to user memory, with their page faults, and the argument
  functions of syscall.c; exactly the arguments that lie in the process are accepted. \<^verbatim>\<open>Sysfile\<close>: sysfile.c and exec.c. \<^verbatim>\<open>Trap\<close>:
  sysproc.c, the table of system calls and trap.c.

  \<^bold>\<open>User programs.\<close> \<^verbatim>\<open>Grep\<close>: grep.c; the matcher decides the language of its pattern, and the loop selects lines as
  long as every read brings a newline. \<^verbatim>\<open>Shell\<close>: the parser of sh.c; it returns for every line, and its commands have
  exactly the words of the line.

  \<^bold>\<open>Bounds and fuel.\<close> Most loops are recursions with a proof of termination. The loop of SCFIFO has one turn more than the queue
  has entries, after which every accessed bit is clear; that it returns is part of its property. The copy of a swap file in
  fork has one turn more than the largest file has bytes, and every turn but the last reads at least one byte. num_free is
  a partial function, since on a cyclic list it runs for ever. The functions of the shell's parser have \<open>4 * n + 8\<close> turns
  for a line of \<open>n\<close> bytes: at most four calls are nested before a byte is read. Loops over user addresses stop with a fault
  when the address wraps around.

  \<^bold>\<open>Not modelled.\<close> The boot code, assembly, the context switch itself and the start of the other processors; the
  registers of the interrupt controllers, timer, keyboard and disk, whose effects appear as inputs (the timer tick, a typed
  character, a finished transfer); segment and interrupt tables; the request queue of ide.c, since a transfer is one step;
  contention for the sleep locks of buffers and inodes inside a file system call;
  mkfs, the remaining user programs and the tests.
\<close>

end
